(* ===== verification/Prelude.thy ===== *)
theory Prelude
  imports Main "HOL-Library.Word"
begin

text \<open>
  Shared vocabulary of the development: the C types of the i386 build, the outcome of a kernel
  routine (a value, or the way control never comes back: \<open>panic\<close>, a fault, an endless loop),
  the byte-addressed physical memory with its 8, 16 and 32 bit accesses and the string
  instructions the inline assembly uses, and 32 bit words as signed numbers.
\<close>

unbundle bit_operations_syntax

section \<open>Machine integers\<close>

type_synonym u8 = "8 word"
type_synonym u16 = "16 word"
type_synonym u32 = "32 word"

named_theorems mem_simps \<open>reads over writes of the physical memory\<close>
named_theorems kres_simps \<open>the outcome monad\<close>

section \<open>Outcomes\<close>

text \<open>
  \<open>Panic\<close> is a call of \<open>panic()\<close> (kernel/panic.c prints and loops for ever), \<open>Fault\<close> an
  access the C language does not define (a null pointer, an index outside its array) and
  \<open>Hang\<close> an endless loop written in the source or a loop that has not ended within its fuel.
\<close>

datatype stop = Panic string | Fault | Hang

type_synonym 'a kres = "stop + 'a"

definition kbind :: "'a kres \<Rightarrow> ('a \<Rightarrow> 'b kres) \<Rightarrow> 'b kres" where
  "kbind m f = (case m of Inl e \<Rightarrow> Inl e | Inr x \<Rightarrow> f x)"

lemma kbind_Inr [simp, kres_simps]: "kbind (Inr x) f = f x"
  by (simp add: kbind_def)

lemma kbind_Inl [simp, kres_simps]: "kbind (Inl e) f = Inl e"
  by (simp add: kbind_def)

lemma kbind_eq_Inr [kres_simps]: "kbind m f = Inr y \<longleftrightarrow> (\<exists>x. m = Inr x \<and> f x = Inr y)"
  by (cases m) simp_all

lemma kbind_eq_InrE:
  assumes "kbind m f = Inr y"
  obtains x where "m = Inr x" and "f x = Inr y"
  using assms by (auto simp: kbind_eq_Inr)

lemma if_InrE:
  assumes "(if P then a else b) = Inr w'"
  obtains P and "a = Inr w'" | "\<not> P" and "b = Inr w'"
  using assms by (cases P) auto

section \<open>Physical memory\<close>

type_synonym mem = "u32 \<Rightarrow> u8"

definition ld16 :: "mem \<Rightarrow> u32 \<Rightarrow> u16" where
  "ld16 m a = ucast (m a) OR push_bit 8 (ucast (m (a + 1)))"

definition st16 :: "mem \<Rightarrow> u32 \<Rightarrow> u16 \<Rightarrow> mem" where
  "st16 m a v = m(a := ucast v, a + 1 := ucast (drop_bit 8 v))"

definition ld32 :: "mem \<Rightarrow> u32 \<Rightarrow> u32" where
  "ld32 m a = ucast (m a) OR push_bit 8 (ucast (m (a + 1)))
     OR push_bit 16 (ucast (m (a + 2))) OR push_bit 24 (ucast (m (a + 3)))"

definition st32 :: "mem \<Rightarrow> u32 \<Rightarrow> u32 \<Rightarrow> mem" where
  "st32 m a v = m(a := ucast v, a + 1 := ucast (drop_bit 8 v),
     a + 2 := ucast (drop_bit 16 v), a + 3 := ucast (drop_bit 24 v))"

text \<open>\<open>rep stosb\<close>, \<open>rep stosw\<close> and \<open>rep movsl\<close> with the direction flag clear.\<close>

primrec stosb :: "nat \<Rightarrow> mem \<Rightarrow> u32 \<Rightarrow> u8 \<Rightarrow> mem" where
  "stosb 0 m a c = m"
| "stosb (Suc n) m a c = stosb n (m(a := c)) (a + 1) c"

primrec stosw :: "nat \<Rightarrow> mem \<Rightarrow> u32 \<Rightarrow> u16 \<Rightarrow> mem" where
  "stosw 0 m a c = m"
| "stosw (Suc n) m a c = stosw n (st16 m a c) (a + 2) c"

primrec movsl :: "nat \<Rightarrow> mem \<Rightarrow> u32 \<Rightarrow> u32 \<Rightarrow> mem" where
  "movsl 0 m dst src = m"
| "movsl (Suc n) m dst src = movsl n (st32 m dst (ld32 m src)) (dst + 4) (src + 4)"

text \<open>The same with the direction flag set (\<open>std\<close>).\<close>

primrec stosw_down :: "nat \<Rightarrow> mem \<Rightarrow> u32 \<Rightarrow> u16 \<Rightarrow> mem" where
  "stosw_down 0 m a c = m"
| "stosw_down (Suc n) m a c = stosw_down n (st16 m a c) (a - 2) c"

primrec movsl_down :: "nat \<Rightarrow> mem \<Rightarrow> u32 \<Rightarrow> u32 \<Rightarrow> mem" where
  "movsl_down 0 m dst src = m"
| "movsl_down (Suc n) m dst src = movsl_down n (st32 m dst (ld32 m src)) (dst - 4) (src - 4)"

lemma ld16_st16_same [simp, mem_simps]: "ld16 (st16 m a v) a = v"
  by (rule bit_word_eqI) (auto simp: ld16_def st16_def bit_simps)

lemma add_neq_self_word [simp]:
  fixes a :: u32
  shows "a + 1 \<noteq> a" "a + 2 \<noteq> a" "a + 3 \<noteq> a" "a \<noteq> a + 1" "a \<noteq> a + 2" "a \<noteq> a + 3"
    "a + 1 \<noteq> a + 2" "a + 1 \<noteq> a + 3" "a + 2 \<noteq> a + 3" "a + 2 \<noteq> a + 1" "a + 3 \<noteq> a + 1" "a + 3 \<noteq> a + 2"
  by simp_all

lemma ld32_st32_same [simp, mem_simps]: "ld32 (st32 m a v) a = v"
proof (rule bit_word_eqI)
  fix n
  assume "n < LENGTH(32)"
  then consider "n < 8" | "8 \<le> n" "n < 16" | "16 \<le> n" "n < 24" | "24 \<le> n" "n < 32"
    by fastforce
  then show "bit (ld32 (st32 m a v) a) n = bit v n"
    by cases (auto simp: ld32_def st32_def bit_simps)
qed

lemma unat_minus_eq:
  fixes x a :: u32
  shows "unat (x - a) = (if a \<le> x then unat x - unat a else unat x + 2 ^ 32 - unat a)"
proof (cases "a \<le> x")
  case True then show ?thesis by (simp add: unat_sub)
next
  case False
  then show ?thesis by (simp add: unat_sub_if' word_le_nat_alt)
qed

lemma word_diff_add: "(x :: u32) - (a + b) = x - a - b"
  by simp

lemma unat_minus_4:
  fixes d :: u32
  shows "unat (d - 4) = (if unat d < 4 then unat d + 2 ^ 32 - 4 else unat d - 4)"
  by (auto simp: unat_minus_eq word_le_nat_alt)

lemma word_lt4_cases:
  fixes d :: u32
  assumes "unat d < 4"
  obtains "d = 0" | "d = 1" | "d = 2" | "d = 3"
proof -
  have "unat d = 0 \<or> unat d = 1 \<or> unat d = 2 \<or> unat d = 3" using assms by arith
  then have "d = 0 \<or> d = 1 \<or> d = 2 \<or> d = 3"
    by (auto simp: word_unat_eq_iff)
  then show ?thesis using that by blast
qed

lemma st32_apply:
  "st32 m a v x = (if unat (x - a) < 4 then ucast (drop_bit (8 * unat (x - a)) v) else m x)"
proof (cases "unat (x - a) < 4")
  case True
  from word_lt4_cases [OF this] consider "x = a" | "x = a + 1" | "x = a + 2" | "x = a + 3"
    by (metis add.commute diff_add_cancel add_0)
  then show ?thesis by cases (simp_all add: st32_def)
next
  case False
  then have "x \<noteq> a" "x \<noteq> a + 1" "x \<noteq> a + 2" "x \<noteq> a + 3" by auto
  with False show ?thesis by (simp add: st32_def)
qed

lemma byte_of_ld32:
  assumes "k < 4"
  shows "ucast (drop_bit (8 * k) (ld32 m a)) = m (a + of_nat k)"
proof -
  from assms have "k = 0 \<or> k = 1 \<or> k = 2 \<or> k = 3" by arith
  then show ?thesis
    by (elim disjE; hypsubst; intro bit_word_eqI) (auto simp: ld32_def bit_simps dest: bit_imp_le_length)
qed

lemma st32_ld32_apply:
  "st32 m a (ld32 m b) x = (if unat (x - a) < 4 then m (b + (x - a)) else m x)"
  by (simp add: st32_apply byte_of_ld32)

lemma stosb_apply:
  "n \<le> 2 ^ 32 \<Longrightarrow> stosb n m a c x = (if unat (x - a) < n then c else m x)"
proof (induction n arbitrary: m a)
  case 0 then show ?case by simp
next
  case (Suc n)
  have d: "unat (x - (a + 1)) = (if unat (x - a) = 0 then 2 ^ 32 - 1 else unat (x - a) - 1)"
    by (auto simp: word_diff_add unat_minus_eq[of "x - a" 1] word_le_nat_alt simp del: diff_diff_add)
  from Suc have "stosb (Suc n) m a c x = (if unat (x - (a + 1)) < n then c else (m(a := c)) x)"
    by simp
  then show ?case using d Suc.prems by (auto simp: unat_eq_0)
qed

lemma movsl_apply:
  "unat (src - dst) + 4 * n \<le> 2 ^ 32 \<Longrightarrow>
   movsl n m dst src x = (if unat (x - dst) < 4 * n then m (src + (x - dst)) else m x)"
proof (induction n arbitrary: m dst src)
  case 0 then show ?case by simp
next
  case (Suc n)
  let ?m = "st32 m dst (ld32 m src)"
  have d: "unat (x - (dst + 4)) = (if unat (x - dst) < 4 then unat (x - dst) + 2 ^ 32 - 4
      else unat (x - dst) - 4)"
    by (simp only: word_diff_add unat_minus_4)
  have "movsl (Suc n) m dst src x = movsl n ?m (dst + 4) (src + 4) x" by simp
  also have "\<dots> = (if unat (x - (dst + 4)) < 4 * n then ?m (src + 4 + (x - (dst + 4))) else ?m x)"
    using Suc.prems by (intro Suc.IH) simp
  also have "src + 4 + (x - (dst + 4)) = src + (x - dst)" by simp
  finally have e: "movsl (Suc n) m dst src x =
      (if unat (x - (dst + 4)) < 4 * n then ?m (src + (x - dst)) else ?m x)" .
  have "unat (src + (x - dst) - dst) = unat (src - dst) + unat (x - dst)"
    if "unat (x - dst) < 4 * Suc n"
  proof -
    have "src + (x - dst) - dst = (src - dst) + (x - dst)" by simp
    moreover have "unat (src - dst) + unat (x - dst) < 2 ^ LENGTH(32)" using that Suc.prems by simp
    ultimately show ?thesis by (metis unat_add_lem)
  qed
  then show ?case using e d Suc.prems by (auto simp: st32_ld32_apply)
qed

lemma ld32_cong:
  assumes "m a = m' a" "m (a + 1) = m' (a + 1)" "m (a + 2) = m' (a + 2)" "m (a + 3) = m' (a + 3)"
  shows "ld32 m a = ld32 m' a"
  using assms by (simp add: ld32_def)

lemma ld32_zero: "m a = 0 \<Longrightarrow> m (a + 1) = 0 \<Longrightarrow> m (a + 2) = 0 \<Longrightarrow> m (a + 3) = 0 \<Longrightarrow> ld32 m a = 0"
  by (simp add: ld32_def)

definition aligned4 :: "u32 \<Rightarrow> bool" where
  "aligned4 a \<longleftrightarrow> unat a mod 4 = 0"

lemma aligned4_minus: "aligned4 a \<Longrightarrow> aligned4 b \<Longrightarrow> aligned4 (b - a)"
  unfolding aligned4_def unat_minus_eq by (auto simp: mod_eq_0_iff_dvd)

lemma aligned4_add: "aligned4 a \<Longrightarrow> aligned4 b \<Longrightarrow> aligned4 (b + a)"
  unfolding aligned4_def by (simp add: unat_word_ariths mod_mod_cancel) presburger

lemma aligned4_off:
  assumes "aligned4 d" and "d \<noteq> 0" and "k < 4"
  shows "4 \<le> unat (d + of_nat k)"
proof -
  have d: "unat d < 2 ^ 32" "unat d mod 4 = 0" "unat d \<noteq> 0"
    using assms unsigned_less [of d] by (auto simp: aligned4_def unat_eq_0)
  then have "4 \<le> unat d" by presburger
  obtain q where q: "unat d = 4 * q" using d(2) by (auto simp: mod_eq_0_iff_dvd)
  have "unat d + k < 2 ^ 32" using d(1) assms(3) unfolding q by simp
  moreover have "unat (of_nat k :: u32) = k" using assms(3) by (simp add: unat_of_nat)
  ultimately show ?thesis using \<open>4 \<le> unat d\<close> by (simp add: unat_word_ariths)
qed

lemma ld32_st32_other [mem_simps]:
  assumes "aligned4 a" "aligned4 b" "a \<noteq> b"
  shows "ld32 (st32 m a v) b = ld32 m b"
proof (rule ld32_cong)
  have d: "aligned4 (b - a)" "b - a \<noteq> 0" using assms by (auto simp: aligned4_minus)
  have e: "b + of_nat k - a = b - a + of_nat k" for k :: nat by simp
  have "k < 4 \<Longrightarrow> st32 m a v (b + of_nat k) = m (b + of_nat k)" for k
    using aligned4_off [OF d, of k] by (simp only: st32_apply e) simp
  from this [of 0] this [of 1] this [of 2] this [of 3]
  show "st32 m a v b = m b" "st32 m a v (b + 1) = m (b + 1)"
    "st32 m a v (b + 2) = m (b + 2)" "st32 m a v (b + 3) = m (b + 3)" by simp_all
qed

lemma ld32_st32:
  assumes "aligned4 a" "aligned4 b"
  shows "ld32 (st32 m a v) b = (if a = b then v else ld32 m b)"
  using assms by (auto simp: ld32_st32_other)

text \<open>Page frames.\<close>

lemma unat_u32_lt: "unat (a :: u32) < 4294967296"
  by (rule order_less_le_trans [OF unsigned_less]) simp

lemma page_mask_eq: "(0xfffff000 :: u32) = NOT (mask 12)"
  by (simp add: mask_eq_exp_minus_1)

lemma and_page_mask: "unat ((a :: u32) AND 0xfffff000) = unat a div 4096 * 4096"
proof -
  have "a AND 0xfffff000 = push_bit 12 (drop_bit 12 a)"
    unfolding page_mask_eq by (rule bit_word_eqI) (auto simp: bit_simps)
  moreover have "unat a div 4096 * 4096 < 4294967296" "unat a div 4096 < 4294967296"
    using unat_u32_lt [of a] by simp_all
  ultimately show ?thesis
    by (simp add: push_bit_eq_mult unat_word_ariths drop_bit_eq_div unat_div)
qed

section \<open>32 bit words as signed numbers\<close>

lemma unat_less32: "unat (a :: u32) < 4294967296"
  using unsigned_less[of a] by simp

lemma sint_cases32: "sint (a :: u32) = (if unat a < 2147483648 then int (unat a) else int (unat a) - 4294967296)"
proof -
  define k where "k = int (unat a)"
  have k: "uint a = k" "0 \<le> k" "k < 4294967296" using uint_bounded[of a] by (simp_all add: k_def)
  have "sint a = take_bit 32 (uint a + 2147483648) - 2147483648"
    by (simp add: sint_uint signed_take_bit_eq_take_bit_shift)
  also have "\<dots> = (k + 2147483648) mod 4294967296 - 2147483648" unfolding k(1) by (simp only: take_bit_eq_mod) simp
  also have "\<dots> = (if k < 2147483648 then k else k - 4294967296)"
  proof (cases "k < 2147483648")
    case True
    with k(2) show ?thesis by simp
  next
    case False
    have "(k + 2147483648) mod 4294967296 = (k + 2147483648 - 4294967296) mod 4294967296"
      by (rule mod_pos_geq) (use False in simp_all)
    with False k(3) show ?thesis by simp
  qed
  also have "\<dots> = (if unat a < 2147483648 then int (unat a) else int (unat a) - 4294967296)"
    unfolding k_def by (simp only: of_nat_less_iff[symmetric, where 'a = int] of_nat_numeral)
  finally show ?thesis .
qed

lemma sint_small32: "unat (a :: u32) < 2147483648 \<Longrightarrow> sint a = int (unat a)"
  unfolding sint_cases32 by (rule if_P)

lemma sint_neg32:
  assumes "(a :: u32) <s 0"
  shows "unat (- a) = nat (- sint a)"
proof -
  have "sint a < 0" using assms by (simp add: word_sless_alt)
  then have a: "\<not> unat a < 2147483648" by (auto simp only: sint_cases32 split: if_splits)
  then have "unat (- a) = 4294967296 - unat a" using unat_minus_eq[of 0 a] by (auto simp: word_le_nat_alt)
  with a unat_less32[of a] show ?thesis by (simp only: sint_cases32 if_False)
qed

lemma sint_minus32:
  fixes a b :: u32
  assumes "- 2147483648 \<le> sint a - sint b" and "sint a - sint b < 2147483648"
  shows "sint (a - b) = sint a - sint b"
  using assms by (simp add: sint_word_ariths(2) signed_take_bit_int_eq_self)

lemma sint_range32: "- 2147483648 \<le> sint (a :: u32)" "sint (a :: u32) < 2147483648"
  using sint_ge[of a] sint_lt[of a] by simp_all

lemma sint_dec32: "0 < sint (a :: u32) \<Longrightarrow> sint (a - 1) = sint a - 1"
  using sint_minus32[of a 1] sint_range32[of a] by simp

end
