(* ===== verification/Memory.thy ===== *)
theory Memory
  imports Prelude
begin

text \<open>
  The page allocator and the page tables: mm/memory.c with the inline helpers of
  include/mm/mm.h. The bitmap \<open>mem_map\<close> (one bit for each 4K frame above 1M), the frame
  descriptors \<open>mm_pages\<close> (their reference counts) and the physical memory that holds the page
  directory, the page tables and the frames are the state. Messages the code only prints are
  not part of it, and \<open>invalidate()\<close> (reloading cr3) changes nothing the model sees.
\<close>

section \<open>Constants of include/mm/mm.h\<close>

abbreviation (input) LOW_MEM :: u32 where "LOW_MEM \<equiv> 0x100000"
abbreviation (input) PAGE_SIZE :: nat where "PAGE_SIZE \<equiv> 4096"
abbreviation (input) MM_BITMAPS :: nat where "MM_BITMAPS \<equiv> 512"
abbreviation (input) MM_PAGES :: nat where "MM_PAGES \<equiv> 16384"

abbreviation (input) PTE_PRESENT :: u32 where "PTE_PRESENT \<equiv> 0x001"
abbreviation (input) PTE_WRITE :: u32 where "PTE_WRITE \<equiv> 0x002"
abbreviation (input) PTE_USER :: u32 where "PTE_USER \<equiv> 0x004"
abbreviation (input) PTE_DIRTY :: u32 where "PTE_DIRTY \<equiv> 0x040"
abbreviation (input) PTE_UWP :: u32 where "PTE_UWP \<equiv> PTE_USER OR PTE_WRITE OR PTE_PRESENT"
abbreviation (input) PDE_PRESENT :: u32 where "PDE_PRESENT \<equiv> 0x001"
abbreviation (input) PDE_UWP :: u32 where "PDE_UWP \<equiv> 0x004 OR 0x002 OR 0x001"

section \<open>State\<close>

text \<open>
  \<open>refcount i\<close> is \<open>mm_pages[i]._refcount\<close>, a signed long kept as its 32 bits. \<open>pg_dir\<close> is the
  address of \<open>_pg_dir\<close>, which the linker script fixes.
\<close>

record mm_state =
  memory_end :: u32
  main_memory_start :: u32
  HIGH_MEMORY :: u32
  mem_map :: "nat \<Rightarrow> u32"
  refcount :: "nat \<Rightarrow> u32"
  pg_dir :: u32
  pmem :: mem

record mm_bitpos =
  bp_pos :: nat
  bp_idx :: nat

section \<open>Inline helpers of include/mm/mm.h\<close>

definition MAP_NR :: "u32 \<Rightarrow> u32" where
  "MAP_NR addr = drop_bit 12 (addr - LOW_MEM)"

text \<open>\<open>nr\<close> is below \<open>2 ^ 20\<close>, so its signed division and remainder are those of \<open>nat\<close>.\<close>

definition get_bitpos :: "u32 \<Rightarrow> mm_bitpos option" where
  "get_bitpos addr =
     (let nr = unat (MAP_NR addr); p = nr div 32; i = nr mod 32
      in if MM_BITMAPS \<le> p then None else Some \<lparr>bp_pos = p, bp_idx = i\<rparr>)"

text \<open>A pointer into \<open>mm_pages\<close> is its index; \<open>None\<close> is the NULL the helper returns.\<close>

definition mms_page :: "u32 \<Rightarrow> nat option" where
  "mms_page addr =
     (if unat (drop_bit 12 (addr - LOW_MEM)) < MM_PAGES
      then Some (unat (drop_bit 12 (addr - LOW_MEM))) else None)"

definition pgdir_idx :: "u32 \<Rightarrow> u32" where
  "pgdir_idx vaddr = drop_bit 22 vaddr AND 0x3ff"

definition page_idx :: "u32 \<Rightarrow> u32" where
  "page_idx vaddr = drop_bit 12 vaddr AND 0x3ff"

definition pde :: "mm_state \<Rightarrow> u32 \<Rightarrow> u32" where
  "pde s vaddr = pg_dir s + 4 * pgdir_idx vaddr"

definition page_table_from :: "mm_state \<Rightarrow> u32 \<Rightarrow> u32" where
  "page_table_from s pg_dir_entry = ld32 (pmem s) pg_dir_entry AND 0xfffff000"

definition pte :: "mm_state \<Rightarrow> u32 \<Rightarrow> u32" where
  "pte s vaddr = page_table_from s (pde s vaddr) + 4 * page_idx vaddr"

definition page_from :: "mm_state \<Rightarrow> u32 \<Rightarrow> u32" where
  "page_from s pg_table_entry = ld32 (pmem s) pg_table_entry AND 0xfffff000"

definition copy_page :: "u32 \<Rightarrow> u32 \<Rightarrow> mm_state \<Rightarrow> mm_state" where
  "copy_page from to s = s\<lparr>pmem := movsl 1024 (pmem s) to from\<rparr>"

section \<open>The bitmap and the reference counts\<close>

definition set_mem_map :: "u32 \<Rightarrow> mm_state \<Rightarrow> mm_state kres" where
  "set_mem_map addr0 s =
     (let addr = addr0 AND 0xfffff000
      in case get_bitpos addr of
           None \<Rightarrow> Inr s
         | Some bp \<Rightarrow>
             (let s1 = s\<lparr>mem_map := (mem_map s)(bp_pos bp := mem_map s (bp_pos bp) OR push_bit (bp_idx bp) 1)\<rparr>
              in case mms_page addr of
                   None \<Rightarrow> Inl Fault
                 | Some p \<Rightarrow> Inr (s1\<lparr>refcount := (refcount s1)(p := refcount s1 p + 1)\<rparr>)))"

definition clear_mem_map :: "u32 \<Rightarrow> mm_state \<Rightarrow> mm_state kres" where
  "clear_mem_map addr s =
     (case get_bitpos addr of
        None \<Rightarrow> Inr s
      | Some bp \<Rightarrow>
          (case mms_page addr of
             None \<Rightarrow> Inl Fault
           | Some p \<Rightarrow>
               (let s1 = s\<lparr>refcount := (refcount s)(p := refcount s p - 1)\<rparr>
                in if refcount s1 p = 0
                   then Inr (s1\<lparr>mem_map := (mem_map s1)
                          (bp_pos bp := mem_map s1 (bp_pos bp) AND NOT (push_bit (bp_idx bp) 1))\<rparr>)
                   else if refcount s1 p <s 0 then Inl (Panic ''Try to free free page.'')
                   else Inr s1)))"

definition free_page :: "u32 \<Rightarrow> mm_state \<Rightarrow> mm_state kres" where
  "free_page addr s =
     (if addr < LOW_MEM then Inr s
      else if HIGH_MEMORY s \<le> addr then Inl (Panic ''trying to free nonexistent page'')
      else clear_mem_map addr s)"

text \<open>
  \<open>std; repe; scasl\<close> compares \<open>mem_map[511]\<close>, \<open>mem_map[510]\<close>, \<dots> with \<open>0xFFFFFFFF\<close> and stops
  after the first difference with its index in ecx; when all are equal the jump over the
  \<open>movl\<close> leaves \<open>0xFFFFFFFF\<close> in eax.
\<close>

primrec scasl :: "(nat \<Rightarrow> u32) \<Rightarrow> nat \<Rightarrow> u32" where
  "scasl mm 0 = 0xFFFFFFFF"
| "scasl mm (Suc n) = (if mm n = 0xFFFFFFFF then scasl mm n else of_nat n)"

text \<open>\<open>while (--idx >= 0 && (w & (1 << idx)));\<close> from \<open>idx = n\<close>; \<open>-1\<close> when every bit is set.\<close>

primrec free_idx :: "nat \<Rightarrow> u32 \<Rightarrow> u32" where
  "free_idx 0 w = -1"
| "free_idx (Suc n) w = (if w AND push_bit n 1 \<noteq> 0 then free_idx n w else of_nat n)"

text \<open>
  \<open>pos\<close> is an \<open>unsigned long\<close>, so the test \<open>pos < 0\<close> is the unsigned one; the array read that
  follows it is checked here against the size of \<open>mem_map\<close>.
\<close>

definition get_free_page :: "mm_state \<Rightarrow> (u32 \<times> mm_state) kres" where
  "get_free_page s =
     (let pos = scasl (mem_map s) MM_BITMAPS
      in if pos < 0 then Inr (0, s)
         else if MM_BITMAPS \<le> unat pos then Inl Fault
         else (let idx = free_idx 32 (mem_map s (unat pos));
                   addr = (pos * 32 + idx) * 4096 + LOW_MEM;
                   s1 = s\<lparr>pmem := stosb PAGE_SIZE (pmem s) addr 0\<rparr>
               in kbind (set_mem_map addr s1) (\<lambda>s2. Inr (addr, s2))))"

section \<open>Page tables\<close>

text \<open>The inner loop of \<open>copy_page_tables\<close> over the entries of one page table.\<close>

primrec copy_ptes :: "nat \<Rightarrow> u32 \<Rightarrow> u32 \<Rightarrow> mm_state \<Rightarrow> mm_state kres" where
  "copy_ptes 0 from_pt to_pt s = Inr s"
| "copy_ptes (Suc nr) from_pt to_pt s =
     (let this_page = ld32 (pmem s) from_pt
      in if this_page AND 1 = 0 then copy_ptes nr (from_pt + 4) (to_pt + 4) s
         else
           (let this_page = this_page AND NOT PTE_WRITE;
                s1 = s\<lparr>pmem := st32 (pmem s) to_pt this_page\<rparr>
            in if LOW_MEM \<le> this_page then
                 (let s2 = s1\<lparr>pmem := st32 (pmem s1) from_pt this_page\<rparr>
                  in case mms_page this_page of
                       None \<Rightarrow> Inl Fault
                     | Some p \<Rightarrow> copy_ptes nr (from_pt + 4) (to_pt + 4)
                         (s2\<lparr>refcount := (refcount s2)(p := refcount s2 p + 1)\<rparr>))
               else copy_ptes nr (from_pt + 4) (to_pt + 4) s1))"

text \<open>The outer loop over the page directory entries; the result is the C return value.\<close>

primrec copy_dirs :: "nat \<Rightarrow> u32 \<Rightarrow> u32 \<Rightarrow> mm_state \<Rightarrow> (int \<times> mm_state) kres" where
  "copy_dirs 0 from_dir to_dir s = Inr (0, s)"
| "copy_dirs (Suc n) from_dir to_dir s =
     (if ld32 (pmem s) from_dir AND 1 = 0 then copy_dirs n (from_dir + 4) (to_dir + 4) s
      else
        (let from_pt = 0xfffff000 AND ld32 (pmem s) from_dir
         in kbind (get_free_page s) (\<lambda>(to_pt, s1).
              if to_pt = 0 then Inr (-1, s1)
              else
                (let s2 = s1\<lparr>pmem := st32 (pmem s1) to_dir (to_pt OR 7)\<rparr>
                 in kbind (copy_ptes 1024 from_pt to_pt s2)
                      (copy_dirs n (from_dir + 4) (to_dir + 4))))))"

definition copy_page_tables :: "u32 \<Rightarrow> u32 \<Rightarrow> u32 \<Rightarrow> mm_state \<Rightarrow> (int \<times> mm_state) kres" where
  "copy_page_tables from to sz s =
     (let from_dir = pg_dir s + 4 * (drop_bit 22 from AND 0x3ff);
          to_dir = pg_dir s + 4 * (drop_bit 22 to AND 0x3ff);
          n = drop_bit 22 (sz + 0x3fffff)
      in copy_dirs (unat n) from_dir to_dir s)"

definition put_page :: "u32 \<Rightarrow> u32 \<Rightarrow> mm_state \<Rightarrow> (u32 \<times> mm_state) kres" where
  "put_page page address s =
     (case mms_page page of
        None \<Rightarrow> Inl Fault
      | Some _ \<Rightarrow>
          (let pg_dir_entry = pde s address
           in kbind
                (if ld32 (pmem s) pg_dir_entry AND PDE_PRESENT \<noteq> 0
                 then Inr (Some (page_table_from s pg_dir_entry), s)
                 else kbind (get_free_page s) (\<lambda>(free_page, s1).
                   if free_page = 0 then Inr (None, s1)
                   else Inr (Some free_page,
                     s1\<lparr>pmem := st32 (pmem s1) pg_dir_entry (free_page OR PDE_UWP)\<rparr>)))
                (\<lambda>(pt, s2). case pt of
                   None \<Rightarrow> Inr (0, s2)
                 | Some page_table \<Rightarrow>
                     Inr (page, s2\<lparr>pmem := st32 (pmem s2)
                       (page_table + 4 * page_idx address) (page OR PTE_UWP)\<rparr>))))"

definition get_empty_page :: "u32 \<Rightarrow> mm_state \<Rightarrow> mm_state kres" where
  "get_empty_page address s =
     kbind (get_free_page s) (\<lambda>(tmp, s1).
       if tmp = 0 then free_page tmp s1
       else kbind (put_page tmp address s1) (\<lambda>(r, s2).
         if r = 0 then free_page tmp s2 else Inr s2))"

text \<open>\<open>try_to_share\<close>: \<open>p_start\<close> and \<open>cur_start\<close> are \<open>p->start_code\<close> and \<open>current->start_code\<close>.\<close>

definition try_to_share :: "u32 \<Rightarrow> u32 \<Rightarrow> u32 \<Rightarrow> mm_state \<Rightarrow> (int \<times> mm_state) kres" where
  "try_to_share address p_start cur_start s =
     (let code_pos = p_start + address
      in if ld32 (pmem s) (pde s code_pos) AND PDE_PRESENT = 0 then Inr (0, s)
         else
           (let from_page = pte s code_pos
            in if ld32 (pmem s) from_page AND (PTE_DIRTY OR PTE_PRESENT) \<noteq> PTE_PRESENT then Inr (0, s)
               else
                 (let phys_addr = page_from s from_page
                  in if HIGH_MEMORY s \<le> phys_addr \<or> phys_addr < LOW_MEM then Inr (0, s)
                     else
                       (let to_pos = cur_start + address;
                            to_pde = pde s to_pos
                        in kbind
                             (if ld32 (pmem s) to_pde AND PDE_PRESENT = 0
                              then kbind (get_free_page s) (\<lambda>(to, s1).
                                if to \<noteq> 0 then Inr (s1\<lparr>pmem := st32 (pmem s1) to_pde (to OR PDE_UWP)\<rparr>)
                                else Inr s1)
                              else Inr s)
                             (\<lambda>s2.
                               let to_page = pte s2 to_pos
                               in if PTE_PRESENT AND ld32 (pmem s2) to_page \<noteq> 0
                                  then Inl (Panic ''try_to_share: to_page already exists'')
                                  else
                                    (let m1 = st32 (pmem s2) from_page
                                                (ld32 (pmem s2) from_page AND NOT PTE_WRITE);
                                         m2 = st32 m1 to_page (ld32 m1 from_page)
                                     in kbind (set_mem_map phys_addr (s2\<lparr>pmem := m2\<rparr>))
                                          (\<lambda>s3. Inr (1, s3))))))))"

section \<open>Copy on write\<close>

definition un_wp_page :: "u32 \<Rightarrow> mm_state \<Rightarrow> mm_state kres" where
  "un_wp_page page_table_entry s =
     (let old_page = page_from s page_table_entry
      in if LOW_MEM \<le> old_page \<and> mms_page old_page = None then Inl Fault
         else if LOW_MEM \<le> old_page \<and> refcount s (the (mms_page old_page)) = 1 then
           Inr (s\<lparr>pmem := st32 (pmem s) page_table_entry
                 (ld32 (pmem s) page_table_entry OR PTE_WRITE)\<rparr>)
         else
           kbind (get_free_page s) (\<lambda>(new_page, s1).
             let s2 = (if LOW_MEM \<le> old_page
                       then s1\<lparr>refcount := (refcount s1)
                              (the (mms_page old_page) := refcount s1 (the (mms_page old_page)) - 1)\<rparr>
                       else s1);
                 s3 = s2\<lparr>pmem := st32 (pmem s2) page_table_entry (new_page OR 7)\<rparr>
             in Inr (copy_page old_page new_page s3)))"

definition do_wp_page :: "u32 \<Rightarrow> u32 \<Rightarrow> mm_state \<Rightarrow> mm_state kres" where
  "do_wp_page error_code address s = un_wp_page (pte s address) s"

section \<open>Initialisation\<close>

text \<open>
  \<open>for (addr = main_memory_start; addr < memory_end; addr += PAGE_SIZE) clear_mem_map(addr)\<close>.
  The address space has \<open>2 ^ 20\<close> pages, so \<open>2 ^ 20 + 1\<close> rounds are enough unless \<open>addr\<close> wraps.
\<close>

primrec clear_range :: "nat \<Rightarrow> u32 \<Rightarrow> mm_state \<Rightarrow> mm_state kres" where
  "clear_range 0 addr s = Inl Hang"
| "clear_range (Suc fuel) addr s =
     (if addr < memory_end s
      then kbind (clear_mem_map addr s) (clear_range fuel (addr + 4096))
      else Inr s)"

text \<open>
  \<open>mm_init\<close> up to its last call, \<open>buffer_init\<close>. \<open>total_mem_size\<close> (in K) and \<open>frames\<close> are the two
  words the boot code leaves at 0x90200 and 0x90204, \<open>end_of_kernel\<close> is the linker's symbol.
  The first \<open>memset\<close> clears 4M from \<open>start_buffer\<close> (1M), the second the frame descriptors.
\<close>

definition mm_init_pages :: "u32 \<Rightarrow> u32 \<Rightarrow> u32 \<Rightarrow> mm_state \<Rightarrow> mm_state kres" where
  "mm_init_pages total_mem_size frames end_of_kernel s =
     (let mem_end = push_bit 10 total_mem_size;
          start = end_of_kernel + frames * 4096;
          s1 = s\<lparr>memory_end := mem_end, main_memory_start := start, HIGH_MEMORY := mem_end\<rparr>;
          s2 = s1\<lparr>mem_map := (\<lambda>i. if i < MM_BITMAPS then 0xFFFFFFFF else mem_map s1 i)\<rparr>;
          s3 = s2\<lparr>pmem := stosb 0x400000 (pmem s2) LOW_MEM 0\<rparr>;
          s4 = s3\<lparr>pmem := stosb 0x400000 (pmem s3) 0x400000 0, refcount := (\<lambda>_. 0)\<rparr>;
          s5 = s4\<lparr>refcount := (\<lambda>i. if i < MM_PAGES then refcount s4 i + 1 else refcount s4 i)\<rparr>
      in clear_range (2 ^ 20 + 1) start s5)"

section \<open>Frames and their addresses\<close>

definition frame_addr :: "nat \<Rightarrow> u32" where
  "frame_addr p = LOW_MEM + of_nat p * 4096"

definition page_used :: "mm_state \<Rightarrow> nat \<Rightarrow> bool" where
  "page_used s p \<longleftrightarrow> bit (mem_map s (p div 32)) (p mod 32)"

text \<open>The bitmap and the reference counts agree on which frames are in use.\<close>

definition mm_inv :: "mm_state \<Rightarrow> bool" where
  "mm_inv s \<longleftrightarrow> (\<forall>p<MM_PAGES. page_used s p \<longleftrightarrow> refcount s p \<noteq> 0)"

lemma unat_frame_nr [simp]: "p < MM_PAGES \<Longrightarrow> unat (drop_bit 12 (of_nat p * 4096 :: u32)) = p"
proof -
  assume "p < MM_PAGES"
  then have "unat (of_nat p * 4096 :: u32) = p * 4096"
    by (simp add: unat_word_ariths unat_of_nat)
  then show ?thesis by (simp add: unat_drop_bit_eq drop_bit_eq_div unat_div)
qed

lemma mms_page_frame [simp]: "p < MM_PAGES \<Longrightarrow> mms_page (frame_addr p) = Some p"
  by (simp add: mms_page_def frame_addr_def)

lemma unat_frame_addr: "p < MM_PAGES \<Longrightarrow> unat (frame_addr p) = 0x100000 + p * 4096"
  by (simp add: frame_addr_def unat_word_ariths unat_of_nat)

lemma frame_addr_nonzero: "p < MM_PAGES \<Longrightarrow> frame_addr p \<noteq> 0"
  using unat_frame_addr[of p] by auto

lemma frame_addr_inj:
  assumes "p < MM_PAGES" "q < MM_PAGES"
  shows "frame_addr p = frame_addr q \<longleftrightarrow> p = q"
proof
  assume "frame_addr p = frame_addr q"
  then have "unat (frame_addr p) = unat (frame_addr q)" by (rule arg_cong)
  then show "p = q" unfolding unat_frame_addr [OF assms(1)] unat_frame_addr [OF assms(2)] by linarith
qed simp

lemma get_bitpos_iff_mms_page:
  "get_bitpos a = map_option (\<lambda>p. \<lparr>bp_pos = p div 32, bp_idx = p mod 32\<rparr>) (mms_page a)"
  by (auto simp: get_bitpos_def mms_page_def MAP_NR_def Let_def)

lemma mms_page_lt: "mms_page a = Some p \<Longrightarrow> p < MM_PAGES"
  by (auto simp: mms_page_def split: if_splits)

lemma nat_diff_mult_div:
  assumes "0 < n"
  shows "(u - k * n) div n = u div n - (k :: nat)"
proof (cases "k * n \<le> u")
  case True
  then obtain d where "u = d + k * n" by (metis le_add_diff_inverse2)
  with assms show ?thesis by simp
next
  case False
  then have "u div n < k" by (simp add: less_mult_imp_div_less)
  with False show ?thesis by simp
qed

lemma mms_page_mask [simp]: "mms_page (a AND 0xfffff000) = mms_page a"
proof -
  have "drop_bit 12 ((a AND 0xfffff000) - LOW_MEM) = drop_bit 12 (a - LOW_MEM)"
  proof -
    have "unat ((a AND 0xfffff000) - LOW_MEM) div 4096 = unat (a - LOW_MEM) div 4096"
    proof (cases "LOW_MEM \<le> a")
      case True
      then have "LOW_MEM \<le> (a AND 0xfffff000)" by (simp add: word_le_nat_alt and_page_mask)
      with True show ?thesis unfolding unat_minus_eq
        using nat_diff_mult_div [of 4096 "unat a div 4096 * 4096" 256] nat_diff_mult_div [of 4096 "unat a" 256]
        by (simp add: and_page_mask)
    next
      case False
      then have "\<not> LOW_MEM \<le> (a AND 0xfffff000)" by (simp add: word_le_nat_alt and_page_mask)
      with False show ?thesis unfolding unat_minus_eq by (simp add: and_page_mask) 
    qed
    then show ?thesis by (simp add: word_unat_eq_iff drop_bit_eq_div unat_div)
  qed
  then show ?thesis by (simp add: mms_page_def)
qed

lemma set_mem_map_eq:
  "set_mem_map a s = (case mms_page a of None \<Rightarrow> Inr s | Some p \<Rightarrow>
     Inr (s\<lparr>mem_map := (mem_map s)(p div 32 := mem_map s (p div 32) OR push_bit (p mod 32) 1),
            refcount := (refcount s)(p := refcount s p + 1)\<rparr>))"
  by (simp add: set_mem_map_def get_bitpos_iff_mms_page Let_def split: option.split)

lemma clear_mem_map_eq:
  "clear_mem_map a s = (case mms_page a of None \<Rightarrow> Inr s | Some p \<Rightarrow>
     if refcount s p = 1
     then Inr (s\<lparr>mem_map := (mem_map s)(p div 32 := mem_map s (p div 32) AND NOT (push_bit (p mod 32) 1)),
                 refcount := (refcount s)(p := 0)\<rparr>)
     else if refcount s p - 1 <s 0 then Inl (Panic ''Try to free free page.'')
     else Inr (s\<lparr>refcount := (refcount s)(p := refcount s p - 1)\<rparr>))"
proof -
  have "r - 1 = 0 \<longleftrightarrow> r = 1" for r :: u32 by auto
  then show ?thesis
    by (auto simp: clear_mem_map_def get_bitpos_iff_mms_page Let_def intro!: mm_state.equality
        split: option.split)
qed

lemma div_mod_32_eq: "p div 32 = q div 32 \<Longrightarrow> p mod 32 = q mod 32 \<Longrightarrow> p = (q :: nat)"
  by (metis div_mult_mod_eq)

lemma bit_push_1_mod32: "bit (push_bit (p mod 32) 1 :: u32) i \<longleftrightarrow> i = p mod 32"
proof -
  have "p mod 32 < 32" by simp
  then show ?thesis by (auto simp: bit_push_bit_iff bit_1_iff simp del: push_bit_of_1)
qed

lemma page_used_set:
  "page_used (s\<lparr>mem_map := (mem_map s)(p div 32 := mem_map s (p div 32) OR push_bit (p mod 32) 1)\<rparr>) q
     \<longleftrightarrow> q = p \<or> page_used s q"
  using div_mod_32_eq [of q p]
  by (auto simp: page_used_def bit_or_iff bit_push_1_mod32 simp del: push_bit_of_1)

lemma page_used_clear:
  "page_used (s\<lparr>mem_map := (mem_map s)(p div 32 := mem_map s (p div 32) AND NOT (push_bit (p mod 32) 1))\<rparr>) q
     \<longleftrightarrow> q \<noteq> p \<and> page_used s q"
  using div_mod_32_eq [of q p]
  by (auto simp: page_used_def bit_and_iff bit_not_iff bit_push_1_mod32 bit_imp_le_length simp del: push_bit_of_1)

lemma page_used_upd [simp]:
  "page_used (s\<lparr>refcount := r\<rparr>) = page_used s" "page_used (s\<lparr>pmem := m\<rparr>) = page_used s"
  by (auto simp: page_used_def fun_eq_iff)

lemma scasl_cases:
  "(\<forall>j<n. mm j = 0xFFFFFFFF) \<and> scasl mm n = 0xFFFFFFFF \<or>
   (\<exists>k<n. mm k \<noteq> 0xFFFFFFFF \<and> scasl mm n = of_nat k \<and> (\<forall>j. k < j \<and> j < n \<longrightarrow> mm j = 0xFFFFFFFF))"
proof (induction n)
  case 0 then show ?case by simp
next
  case (Suc n)
  show ?case
  proof (cases "mm n = 0xFFFFFFFF")
    case True
    with Suc show ?thesis by (elim disjE exE conjE) (auto simp: less_Suc_eq)
  next
    case False
    then show ?thesis by (intro disjI2 exI [of _ n]) auto
  qed
qed

lemma and_exp_eq_0: "w AND 2 ^ n = 0 \<longleftrightarrow> \<not> bit (w :: 'a :: len word) n"
  using bit_iff_and_push_bit_not_eq_0 [of w n] by simp

lemma bit_of_all_ones: "i < 32 \<Longrightarrow> bit (0xFFFFFFFF :: u32) i"
proof -
  have "(0xFFFFFFFF :: u32) = mask 32" by (simp add: mask_eq_exp_minus_1)
  then show "i < 32 \<Longrightarrow> ?thesis" by (simp only: bit_mask_iff) simp
qed

lemma free_idx_spec:
  assumes "w \<noteq> 0xFFFFFFFF"
  obtains i where "i < 32" "\<not> bit w i" "free_idx 32 w = of_nat i" "\<forall>j. i < j \<and> j < 32 \<longrightarrow> bit w j"
proof -
  have "(\<forall>j<n. bit w j) \<or> (\<exists>i<n. \<not> bit w i \<and> free_idx n w = of_nat i \<and> (\<forall>j. i < j \<and> j < n \<longrightarrow> bit w j))" for n
  proof (induction n)
    case (Suc n)
    show ?case
    proof (cases "bit w n")
      case True
      with Suc show ?thesis by (elim disjE exE conjE) (auto simp: and_exp_eq_0 less_Suc_eq)
    next
      case False
      then show ?thesis by (intro disjI2 exI [of _ n]) (auto simp: and_exp_eq_0)
    qed
  qed simp
  from this [of 32] show ?thesis
  proof
    assume "\<forall>j<32. bit w j"
    then have "w = 0xFFFFFFFF" using bit_of_all_ones by (intro bit_word_eqI) auto
    with assms show ?thesis by simp
  qed (use that in blast)
qed


section \<open>The allocator\<close>

lemma frame_index: "k < MM_BITMAPS \<Longrightarrow> i < 32 \<Longrightarrow>
   ((of_nat k :: u32) * 32 + of_nat i) * 4096 + LOW_MEM = frame_addr (k * 32 + i)"
  by (simp add: frame_addr_def)

lemma page_free_above:
  assumes k: "\<forall>j. k < j \<and> j < MM_BITMAPS \<longrightarrow> mem_map s j = 0xFFFFFFFF"
    and i: "\<forall>j. i < j \<and> j < 32 \<longrightarrow> bit (mem_map s k) j"
    and q: "k * 32 + i < q" "q < MM_PAGES" "i < 32"
  shows "page_used s q"
proof (cases "q div 32 = k")
  case True
  then have "i < q mod 32" using q(1) div_mult_mod_eq [of q 32] by simp
  with i True show ?thesis by (auto simp: page_used_def)
next
  case False
  moreover have "k \<le> q div 32" using q(1) by (simp add: less_eq_div_iff_mult_less_eq)
  ultimately have "k < q div 32" "q div 32 < MM_BITMAPS" using q(2) by auto
  with k show ?thesis using bit_of_all_ones [of "q mod 32"] by (simp add: page_used_def)
qed

text \<open>The state after frame \<open>p\<close> has been handed out.\<close>

definition alloc_frame :: "nat \<Rightarrow> mm_state \<Rightarrow> mm_state" where
  "alloc_frame p s = s\<lparr>
     mem_map := (mem_map s)(p div 32 := mem_map s (p div 32) OR push_bit (p mod 32) 1),
     refcount := (refcount s)(p := refcount s p + 1),
     pmem := (\<lambda>x. if unat (x - frame_addr p) < PAGE_SIZE then 0 else pmem s x)\<rparr>"

lemma get_free_page_alloc:
  assumes "q < MM_PAGES" "\<not> page_used s q"
  obtains p where "p < MM_PAGES" "\<not> page_used s p" "\<forall>q. p < q \<and> q < MM_PAGES \<longrightarrow> page_used s q"
    "get_free_page s = Inr (frame_addr p, alloc_frame p s)"
proof -
  have "mem_map s (q div 32) \<noteq> 0xFFFFFFFF" "q div 32 < MM_BITMAPS"
    using assms bit_of_all_ones [of "q mod 32"] by (auto simp: page_used_def)
  then obtain k where k: "k < MM_BITMAPS" "mem_map s k \<noteq> 0xFFFFFFFF" "scasl (mem_map s) MM_BITMAPS = of_nat k"
    "\<forall>j. k < j \<and> j < MM_BITMAPS \<longrightarrow> mem_map s j = 0xFFFFFFFF"
    using scasl_cases [of MM_BITMAPS "mem_map s"] by blast
  from k(2) obtain i where i: "i < 32" "\<not> bit (mem_map s k) i" "free_idx 32 (mem_map s k) = of_nat i"
    "\<forall>j. i < j \<and> j < 32 \<longrightarrow> bit (mem_map s k) j"
    by (rule free_idx_spec)
  have u: "unat (of_nat k :: u32) = k" using k(1) by (simp add: unat_of_nat)
  let ?p = "k * 32 + i"
  have p: "?p < MM_PAGES" using k(1) i(1) by simp
  show ?thesis
  proof (rule that [of ?p])
    show "\<not> page_used s ?p" using i by (simp add: page_used_def)
    show "\<forall>q. ?p < q \<and> q < MM_PAGES \<longrightarrow> page_used s q"
      using page_free_above [OF k(4) i(4)] i(1) by blast
    have "get_free_page s = kbind (set_mem_map (frame_addr ?p) (s\<lparr>pmem := stosb PAGE_SIZE (pmem s) (frame_addr ?p) 0\<rparr>))
       (\<lambda>s2. Inr (frame_addr ?p, s2))"
      unfolding get_free_page_def Let_def k(3) u i(3) frame_index [OF k(1) i(1)] using k(1) by simp
    also have "\<dots> = Inr (frame_addr ?p, alloc_frame ?p s)"
      unfolding set_mem_map_eq mms_page_frame [OF p]
      by (simp add: alloc_frame_def stosb_apply fun_eq_iff)
    finally show "get_free_page s = Inr (frame_addr ?p, alloc_frame ?p s)" .
  qed (fact p)
qed

lemma page_used_alloc: "page_used (alloc_frame p s) q \<longleftrightarrow> q = p \<or> page_used s q"
  using page_used_set [of s p q] by (simp add: alloc_frame_def page_used_def)

lemma mm_inv_alloc:
  assumes "mm_inv s" "p < MM_PAGES" "\<not> page_used s p"
  shows "mm_inv (alloc_frame p s)" "refcount (alloc_frame p s) = (refcount s)(p := 1)"
proof -
  have r: "refcount s p = 0" using assms by (auto simp: mm_inv_def)
  then show ref: "refcount (alloc_frame p s) = (refcount s)(p := 1)" by (simp add: alloc_frame_def)
  show "mm_inv (alloc_frame p s)"
    using assms by (auto simp: mm_inv_def page_used_alloc ref)
qed

lemma alloc_frame_pmem:
  "pmem (alloc_frame p s) x = (if unat (x - frame_addr p) < PAGE_SIZE then 0 else pmem s x)"
  by (simp add: alloc_frame_def)

lemma mm_inv_used: "mm_inv s \<Longrightarrow> p < MM_PAGES \<Longrightarrow> page_used s p \<longleftrightarrow> refcount s p \<noteq> 0"
  by (simp add: mm_inv_def)

text \<open>
  C1: as long as some frame is unused, \<open>get_free_page\<close> returns the highest unused frame, gives it
  reference count 1, clears its 4096 bytes, changes nothing else, and keeps bitmap and reference
  counts in agreement.
\<close>

theorem get_free_page_ok:
  assumes inv: "mm_inv s" and free: "q < MM_PAGES" "refcount s q = 0"
  shows "\<exists>p s'. get_free_page s = Inr (frame_addr p, s') \<and> p < MM_PAGES \<and> refcount s p = 0
    \<and> (\<forall>r. p < r \<and> r < MM_PAGES \<longrightarrow> refcount s r \<noteq> 0)
    \<and> refcount s' = (refcount s)(p := 1) \<and> mm_inv s'
    \<and> (\<forall>x. pmem s' x = (if unat (x - frame_addr p) < PAGE_SIZE then 0 else pmem s x))"
proof -
  have "\<not> page_used s q" using inv free by (simp add: mm_inv_used)
  with free(1) obtain p where p: "p < MM_PAGES" "\<not> page_used s p"
    "\<forall>q. p < q \<and> q < MM_PAGES \<longrightarrow> page_used s q" "get_free_page s = Inr (frame_addr p, alloc_frame p s)"
    by (rule get_free_page_alloc)
  with inv show ?thesis
    by (intro exI [of _ p] exI [of _ "alloc_frame p s"] conjI)
      (auto simp: mm_inv_used mm_inv_alloc alloc_frame_pmem)
qed

lemma get_free_page_full:
  assumes "\<forall>q<MM_PAGES. page_used s q"
  shows "get_free_page s = Inl Fault"
proof -
  have full: "mem_map s k = 0xFFFFFFFF" if "k < MM_BITMAPS" for k
  proof (rule bit_word_eqI)
    fix i assume i: "i < LENGTH(32)"
    then have "page_used s (k * 32 + i)" using assms that by simp
    then show "bit (mem_map s k) i = bit (0xFFFFFFFF :: u32) i"
      using i bit_of_all_ones [of i] by (simp add: page_used_def)
  qed
  then have "scasl (mem_map s) MM_BITMAPS = 0xFFFFFFFF"
    using scasl_cases [of MM_BITMAPS "mem_map s"] by blast
  then show ?thesis by (simp add: get_free_page_def Let_def)
qed

text \<open>
  C36: when every frame is in use, \<open>get_free_page\<close> does not return 0 as its comment says: \<open>pos\<close> is
  unsigned, the test \<open>pos < 0\<close> never holds, and the code goes on to read \<open>mem_map[0xFFFFFFFF]\<close>.
\<close>

theorem get_free_page_exhausted:
  assumes "mm_inv s" and "\<forall>q<MM_PAGES. refcount s q \<noteq> 0"
  shows "get_free_page s = Inl Fault"
  using assms by (intro get_free_page_full) (simp add: mm_inv_used)

lemma get_free_page_InrD:
  assumes "get_free_page s = Inr (a, s')"
  obtains p where "p < MM_PAGES" "\<not> page_used s p" "a = frame_addr p" "s' = alloc_frame p s"
proof -
  have "\<exists>q<MM_PAGES. \<not> page_used s q" using get_free_page_full [of s] assms by auto
  then obtain q where "q < MM_PAGES" "\<not> page_used s q" by blast
  then obtain p where p: "p < MM_PAGES" "\<not> page_used s p" "get_free_page s = Inr (frame_addr p, alloc_frame p s)"
    by (rule get_free_page_alloc)
  with assms have "a = frame_addr p" "s' = alloc_frame p s" by simp_all
  with p(1,2) show ?thesis by (rule that)
qed

lemma or_and_not_bit:
  "\<not> bit w i \<Longrightarrow> (w OR push_bit i 1) AND NOT (push_bit i 1) = (w :: u32)"
  by (rule bit_word_eqI) (auto simp: bit_simps)

text \<open>
  Freeing a frame that was just allocated restores the bitmap and every reference count.
\<close>

theorem get_then_free_page:
  assumes inv: "mm_inv s" and get: "get_free_page s = Inr (a, s')" and high: "a < HIGH_MEMORY s"
  shows "\<exists>s''. free_page a s' = Inr s'' \<and> mem_map s'' = mem_map s \<and> refcount s'' = refcount s
    \<and> (\<forall>x. pmem s'' x = (if unat (x - a) < PAGE_SIZE then 0 else pmem s x))"
proof -
  from get obtain p where p: "p < MM_PAGES" "\<not> page_used s p" "a = frame_addr p" "s' = alloc_frame p s"
    by (rule get_free_page_InrD)
  have r: "refcount s p = 0" using inv p(1,2) by (simp add: mm_inv_used)
  have "\<not> a < LOW_MEM" using unat_frame_addr [OF p(1)] p(3) by (simp add: word_less_nat_alt)
  moreover have "\<not> HIGH_MEMORY s' \<le> a" using high by (simp add: p(4) alloc_frame_def)
  ultimately have "free_page a s' = clear_mem_map a s'" by (simp add: free_page_def)
  also have "\<dots> = Inr (s'\<lparr>mem_map := mem_map s, refcount := refcount s\<rparr>)"
    unfolding clear_mem_map_eq p(3) mms_page_frame [OF p(1)] using p(2) r
    by (auto simp: p(4) alloc_frame_def or_and_not_bit page_used_def intro!: mm_state.equality
        simp del: push_bit_of_1)
  finally show ?thesis by (auto simp: p(3,4) alloc_frame_pmem)
qed

section \<open>The allocator's contract\<close>

text \<open>What a client of a frame pool may rely on, and what follows for a series of requests.\<close>

locale frame_pool =
  fixes alloc :: "'s \<Rightarrow> ('f \<times> 's) kres"
    and inv :: "'s \<Rightarrow> bool"
    and in_use :: "'s \<Rightarrow> 'f \<Rightarrow> bool"
  assumes alloc_fresh: "inv s \<Longrightarrow> alloc s = Inr (f, s') \<Longrightarrow> \<not> in_use s f"
    and alloc_in_use: "inv s \<Longrightarrow> alloc s = Inr (f, s') \<Longrightarrow> in_use s' g \<longleftrightarrow> g = f \<or> in_use s g"
    and alloc_inv: "inv s \<Longrightarrow> alloc s = Inr (f, s') \<Longrightarrow> inv s'"

primrec alloc_many :: "('s \<Rightarrow> ('f \<times> 's) kres) \<Rightarrow> nat \<Rightarrow> 's \<Rightarrow> ('f list \<times> 's) kres" where
  "alloc_many alloc 0 s = Inr ([], s)"
| "alloc_many alloc (Suc n) s =
     kbind (alloc s) (\<lambda>(f, s1). kbind (alloc_many alloc n s1) (\<lambda>(fs, s2). Inr (f # fs, s2)))"

context frame_pool
begin

lemma alloc_many_distinct:
  "inv s \<Longrightarrow> alloc_many alloc n s = Inr (fs, s') \<Longrightarrow>
   inv s' \<and> distinct fs \<and> (\<forall>f\<in>set fs. \<not> in_use s f) \<and> (\<forall>g. in_use s' g \<longleftrightarrow> g \<in> set fs \<or> in_use s g)"
proof (induction n arbitrary: s fs)
  case 0 then show ?case by simp
next
  case (Suc n)
  from Suc.prems(2) obtain f s1 fs1 where
    f: "alloc s = Inr (f, s1)" "alloc_many alloc n s1 = Inr (fs1, s')" "fs = f # fs1"
    by (auto simp: kbind_eq_Inr)
  note a = alloc_fresh [OF Suc.prems(1) f(1)] alloc_in_use [OF Suc.prems(1) f(1)]
  show ?case using Suc.IH [OF alloc_inv [OF Suc.prems(1) f(1)] f(2)] a f(3) by auto
qed

end

definition frame_in_use :: "mm_state \<Rightarrow> u32 \<Rightarrow> bool" where
  "frame_in_use s a \<longleftrightarrow> (\<exists>p<MM_PAGES. a = frame_addr p \<and> refcount s p \<noteq> 0)"

interpretation frames: frame_pool get_free_page mm_inv frame_in_use
proof
  fix s f s'
  assume inv: "mm_inv s" and get: "get_free_page s = Inr (f, s')"
  from get obtain p where p: "p < MM_PAGES" "\<not> page_used s p" "f = frame_addr p" "s' = alloc_frame p s"
    by (rule get_free_page_InrD)
  note a = mm_inv_alloc [OF inv p(1,2)]
  show "mm_inv s'" using a(1) p(4) by simp
  show "\<not> frame_in_use s f"
    using p inv frame_addr_inj by (auto simp: frame_in_use_def mm_inv_used)
  show "frame_in_use s' g \<longleftrightarrow> g = f \<or> frame_in_use s g" for g
    using p(1,3,4) a(2) by (auto simp: frame_in_use_def)
qed

text \<open>C34: Any number of successive calls of \<open>get_free_page\<close> hand out pairwise different frames, none of
  which was in use before, and afterwards exactly these have become used.
\<close>

theorem get_free_pages_distinct:
  assumes "mm_inv s" and "alloc_many get_free_page n s = Inr (fs, s')"
  shows "distinct fs \<and> (\<forall>f\<in>set fs. \<not> frame_in_use s f)
    \<and> (\<forall>g. frame_in_use s' g \<longleftrightarrow> g \<in> set fs \<or> frame_in_use s g)"
  using frames.alloc_many_distinct [OF assms] by blast

section \<open>Sharing a page table\<close>

definition pt_entry :: "mm_state \<Rightarrow> u32 \<Rightarrow> nat \<Rightarrow> u32" where
  "pt_entry s pt i = ld32 (pmem s) (pt + 4 * of_nat i)"

text \<open>A present entry above 1M, which \<open>copy_page_tables\<close> makes read-only on both sides.\<close>

definition cow_shared :: "u32 \<Rightarrow> bool" where
  "cow_shared e \<longleftrightarrow> e AND 1 \<noteq> 0 \<and> LOW_MEM \<le> e AND NOT PTE_WRITE"

definition cow_child :: "u32 \<Rightarrow> u32 \<Rightarrow> u32" where
  "cow_child e old = (if e AND 1 = 0 then old else e AND NOT PTE_WRITE)"

definition cow_parent :: "u32 \<Rightarrow> u32" where
  "cow_parent e = (if cow_shared e then e AND NOT PTE_WRITE else e)"

lemma unat_4_times: "i < 0x40000000 \<Longrightarrow> unat (4 * of_nat i :: u32) = 4 * i"
  by (simp add: unat_word_ariths unat_of_nat)

lemma entry_addr_eq:
  assumes "i < 0x40000000" "j < 0x40000000"
  shows "(a :: u32) + 4 * of_nat i = a + 4 * of_nat j \<longleftrightarrow> i = j"
proof
  assume "a + 4 * of_nat i = a + 4 * of_nat j"
  then have "(4 * of_nat i :: u32) = 4 * of_nat j" by (rule add_left_imp_eq)
  then have "unat (4 * of_nat i :: u32) = unat (4 * of_nat j :: u32)" by (rule arg_cong)
  then show "i = j" unfolding unat_4_times [OF assms(1)] unat_4_times [OF assms(2)] by linarith
qed simp

lemma aligned4_entry: "aligned4 a \<Longrightarrow> i < 0x40000000 \<Longrightarrow> aligned4 (a + 4 * of_nat i)"
  by (rule aligned4_add [of "4 * of_nat i" a]) (simp_all add: aligned4_def unat_4_times)

definition disjoint_tables :: "nat \<Rightarrow> u32 \<Rightarrow> u32 \<Rightarrow> bool" where
  "disjoint_tables n f t \<longleftrightarrow> (\<forall>i<n. \<forall>j<n. f + 4 * of_nat i \<noteq> t + 4 * of_nat j)"

lemma disjoint_tablesD:
  "disjoint_tables n f t \<Longrightarrow> i < n \<Longrightarrow> j < n \<Longrightarrow> f + 4 * of_nat i \<noteq> t + 4 * of_nat j"
  by (simp add: disjoint_tables_def)

lemma entry_addr_Suc: "(a :: u32) + 4 + 4 * of_nat i = a + 4 * of_nat (Suc i)"
  by simp

lemma disjoint_tables_Suc:
  assumes "disjoint_tables (Suc n) f t"
  shows "disjoint_tables n (f + 4) (t + 4)"
  unfolding disjoint_tables_def entry_addr_Suc
proof (intro allI impI)
  fix i j assume "i < n" "j < n"
  then show "f + 4 * of_nat (Suc i) \<noteq> t + 4 * of_nat (Suc j)"
    using assms by (intro disjoint_tablesD [of "Suc n"]) simp_all
qed

text \<open>One round of the loop.\<close>

definition copy_pte :: "u32 \<Rightarrow> u32 \<Rightarrow> mm_state \<Rightarrow> mm_state kres" where
  "copy_pte from_pt to_pt s = copy_ptes 1 from_pt to_pt s"

lemma mms_page_not_write: "mms_page (e AND NOT PTE_WRITE) = mms_page e"
proof -
  have "(e AND NOT PTE_WRITE) AND 0xfffff000 = e AND 0xfffff000"
    unfolding page_mask_eq
    by (rule bit_word_eqI) (auto simp: bit_simps)
  then show ?thesis by (metis mms_page_mask)
qed

lemmas mms_page_minus_3 = mms_page_not_write [simplified]

lemma copy_ptes_Suc:
  "copy_ptes (Suc n) f t s = kbind (copy_pte f t s) (copy_ptes n (f + 4) (t + 4))"
  by (simp add: copy_pte_def Let_def split: option.split)

lemma copy_pte_eq:
  "copy_pte f t s =
     (let e = ld32 (pmem s) f in
      if e AND 1 = 0 then Inr s
      else if \<not> cow_shared e then Inr (s\<lparr>pmem := st32 (pmem s) t (e AND NOT PTE_WRITE)\<rparr>)
      else case mms_page e of None \<Rightarrow> Inl Fault
        | Some p \<Rightarrow> Inr (s\<lparr>pmem := st32 (st32 (pmem s) t (e AND NOT PTE_WRITE)) f (e AND NOT PTE_WRITE),
             refcount := (refcount s)(p := refcount s p + 1)\<rparr>))"
  by (simp add: copy_pte_def Let_def cow_shared_def mms_page_minus_3 split: option.split)


lemma copy_pte_step:
  assumes al: "aligned4 f" "aligned4 t" and ft: "f \<noteq> t"
    and fr: "cow_shared (ld32 (pmem s) f) \<Longrightarrow> mms_page (ld32 (pmem s) f) \<noteq> None"
  shows "\<exists>s1. copy_pte f t s = Inr s1 \<and> mem_map s1 = mem_map s
    \<and> (\<forall>p. refcount s1 p = refcount s p +
         (if cow_shared (ld32 (pmem s) f) \<and> mms_page (ld32 (pmem s) f) = Some p then 1 else 0))
    \<and> (\<forall>a. aligned4 a \<longrightarrow> ld32 (pmem s1) a =
         (if a = f then cow_parent (ld32 (pmem s) f)
          else if a = t then cow_child (ld32 (pmem s) f) (ld32 (pmem s) t)
          else ld32 (pmem s) a))"
proof -
  let ?e = "ld32 (pmem s) f"
  consider "?e AND 1 = 0" | "?e AND 1 \<noteq> 0" "\<not> cow_shared ?e"
    | p where "?e AND 1 \<noteq> 0" "cow_shared ?e" "mms_page ?e = Some p"
    using fr by fastforce
  then show ?thesis using al ft
    by cases (auto simp: copy_pte_eq Let_def cow_parent_def cow_child_def ld32_st32 cow_shared_def)
qed

definition table_frames_ok :: "nat \<Rightarrow> u32 \<Rightarrow> mm_state \<Rightarrow> bool" where
  "table_frames_ok n f s \<longleftrightarrow>
     (\<forall>i<n. cow_shared (pt_entry s f i) \<longrightarrow> mms_page (pt_entry s f i) \<noteq> None)"

definition shares :: "mm_state \<Rightarrow> u32 \<Rightarrow> nat \<Rightarrow> nat \<Rightarrow> u32" where
  "shares s f p i = (if cow_shared (pt_entry s f i) \<and> mms_page (pt_entry s f i) = Some p then 1 else 0)"

text \<open>The first entry, seen from the rest of the table.\<close>

lemma copy_pte_first:
  assumes "Suc n \<le> 1024" "aligned4 f" "aligned4 t" "disjoint_tables (Suc n) f t" "table_frames_ok (Suc n) f s"
  obtains s1 where "copy_pte f t s = Inr s1" "mem_map s1 = mem_map s" "\<And>p. refcount s1 p = refcount s p + shares s f p 0"
    "\<And>a. aligned4 a \<Longrightarrow> ld32 (pmem s1) a =
       (if a = f then cow_parent (ld32 (pmem s) f)
        else if a = t then cow_child (ld32 (pmem s) f) (ld32 (pmem s) t) else ld32 (pmem s) a)"
    "\<And>i. i < n \<Longrightarrow> pt_entry s1 (f + 4) i = pt_entry s f (Suc i)" "\<And>i. i < n \<Longrightarrow> pt_entry s1 (t + 4) i = pt_entry s t (Suc i)"
    "\<And>i. i < n \<Longrightarrow> f + 4 * of_nat (Suc i) \<notin> {f, t}" "\<And>i. i < n \<Longrightarrow> t + 4 * of_nat (Suc i) \<notin> {f, t}"
proof -
  have ft: "f \<noteq> t" using disjoint_tablesD [OF assms(4), of 0 0] by simp
  have fr: "cow_shared (ld32 (pmem s) f) \<Longrightarrow> mms_page (ld32 (pmem s) f) \<noteq> None"
    using assms(5) by (auto simp: table_frames_ok_def pt_entry_def dest: spec [of _ 0])
  obtain s1 where s1: "copy_pte f t s = Inr s1" "mem_map s1 = mem_map s"
    and ref: "\<And>p. refcount s1 p = refcount s p +
       (if cow_shared (ld32 (pmem s) f) \<and> mms_page (ld32 (pmem s) f) = Some p then 1 else 0)"
    and ld: "\<And>a. aligned4 a \<Longrightarrow> ld32 (pmem s1) a =
       (if a = f then cow_parent (ld32 (pmem s) f)
        else if a = t then cow_child (ld32 (pmem s) f) (ld32 (pmem s) t) else ld32 (pmem s) a)"
    using copy_pte_step [OF assms(2,3) ft fr] by blast
  have ref0: "refcount s1 p = refcount s p + shares s f p 0" for p
    by (simp add: ref shares_def pt_entry_def)
  have lt: "i \<le> n \<Longrightarrow> i < 0x40000000" for i using assms(1) by simp
  have al: "aligned4 (f + 4 * of_nat i)" "aligned4 (t + 4 * of_nat i)" if "i \<le> n" for i
    using aligned4_entry assms(2,3) lt [OF that] by blast+
  have nf: "f + 4 * of_nat (Suc i) \<noteq> f" "t + 4 * of_nat (Suc i) \<noteq> t" if "i < n" for i
    using entry_addr_eq [of "Suc i" 0] lt [of "Suc i"] that by auto
  have nt: "f + 4 * of_nat (Suc i) \<noteq> t" "t + 4 * of_nat (Suc i) \<noteq> f" if "i < n" for i
    using disjoint_tablesD [OF assms(4), of "Suc i" 0] disjoint_tablesD [OF assms(4), of 0 "Suc i"] that
    by auto
  have e1: "pt_entry s1 (f + 4) i = pt_entry s f (Suc i)" "pt_entry s1 (t + 4) i = pt_entry s t (Suc i)"
    if "i < n" for i
    unfolding pt_entry_def entry_addr_Suc using al [of "Suc i"] nf [OF that] nt [OF that] that
    by (simp_all add: ld)
  show ?thesis using that [OF s1 ref0 ld e1] nf nt by blast
qed

lemma copy_ptes_correct:
  assumes "n \<le> 1024" "aligned4 f" "aligned4 t" "disjoint_tables n f t" "table_frames_ok n f s"
  shows "\<exists>s'. copy_ptes n f t s = Inr s' \<and> mem_map s' = mem_map s
    \<and> (\<forall>i<n. pt_entry s' t i = cow_child (pt_entry s f i) (pt_entry s t i)
        \<and> pt_entry s' f i = cow_parent (pt_entry s f i))
    \<and> (\<forall>p. refcount s' p = refcount s p + (\<Sum>i<n. shares s f p i))
    \<and> (\<forall>a. aligned4 a \<longrightarrow> (\<forall>i<n. a \<noteq> f + 4 * of_nat i \<and> a \<noteq> t + 4 * of_nat i)
         \<longrightarrow> ld32 (pmem s') a = ld32 (pmem s) a)"
  using assms
proof (induction n arbitrary: f t s)
  case 0 then show ?case by simp
next
  case (Suc n)
  have ft: "f \<noteq> t" using disjoint_tablesD [OF Suc.prems(4), of 0 0] by simp
  obtain s1 where s1: "copy_pte f t s = Inr s1" "mem_map s1 = mem_map s" and ref0: "\<And>p. refcount s1 p = refcount s p + shares s f p 0"
    and ld: "\<And>a. aligned4 a \<Longrightarrow> ld32 (pmem s1) a =
       (if a = f then cow_parent (ld32 (pmem s) f)
        else if a = t then cow_child (ld32 (pmem s) f) (ld32 (pmem s) t) else ld32 (pmem s) a)"
    and e1: "\<And>i. i < n \<Longrightarrow> pt_entry s1 (f + 4) i = pt_entry s f (Suc i)" "\<And>i. i < n \<Longrightarrow> pt_entry s1 (t + 4) i = pt_entry s t (Suc i)"
    and nft: "\<And>i. i < n \<Longrightarrow> f + 4 * of_nat (Suc i) \<notin> {f, t}" "\<And>i. i < n \<Longrightarrow> t + 4 * of_nat (Suc i) \<notin> {f, t}"
    using copy_pte_first [OF Suc.prems] by blast
  have sh: "shares s1 (f + 4) p i = shares s f p (Suc i)" if "i < n" for p i
    using e1(1) [OF that] by (simp add: shares_def)
  have "table_frames_ok n (f + 4) s1"
    using Suc.prems(5) e1 by (auto simp: table_frames_ok_def)
  moreover have "aligned4 (f + 4)" "aligned4 (t + 4)"
    using aligned4_entry [of _ 1] Suc.prems(2,3) by auto
  moreover have "n \<le> 1024" using Suc.prems(1) by simp
  ultimately obtain s' where s': "copy_ptes n (f + 4) (t + 4) s1 = Inr s'" "mem_map s' = mem_map s1"
    and ent: "\<And>i. i < n \<Longrightarrow> pt_entry s' (t + 4) i = cow_child (pt_entry s1 (f + 4) i) (pt_entry s1 (t + 4) i)
        \<and> pt_entry s' (f + 4) i = cow_parent (pt_entry s1 (f + 4) i)"
    and ref': "\<And>p. refcount s' p = refcount s1 p + (\<Sum>i<n. shares s1 (f + 4) p i)"
    and oth: "\<And>a. aligned4 a \<Longrightarrow> (\<forall>i<n. a \<noteq> f + 4 + 4 * of_nat i \<and> a \<noteq> t + 4 + 4 * of_nat i)
         \<Longrightarrow> ld32 (pmem s') a = ld32 (pmem s1) a"
    using Suc.IH [of "f + 4" "t + 4" s1] disjoint_tables_Suc [OF Suc.prems(4)] by blast
  have ends: "ld32 (pmem s') f = ld32 (pmem s1) f" "ld32 (pmem s') t = ld32 (pmem s1) t"
    by (rule oth, fact Suc.prems, unfold entry_addr_Suc, use nft in \<open>metis insertI1 insertI2\<close>)+
  show ?case
  proof (intro exI conjI allI impI)
    show "copy_ptes (Suc n) f t s = Inr s'" using s1(1) s'(1) by (simp only: copy_ptes_Suc kbind_Inr)
    show "mem_map s' = mem_map s" using s'(2) s1(2) by simp
    show "refcount s' p = refcount s p + (\<Sum>i<Suc n. shares s f p i)" for p
      unfolding sum.lessThan_Suc_shift using ref' ref0 sh by simp
    fix i assume i: "i < Suc n"
    show "pt_entry s' t i = cow_child (pt_entry s f i) (pt_entry s t i)"
      "pt_entry s' f i = cow_parent (pt_entry s f i)"
    proof (atomize (full), cases i)
      case 0
      then show "pt_entry s' t i = cow_child (pt_entry s f i) (pt_entry s t i) \<and>
          pt_entry s' f i = cow_parent (pt_entry s f i)"
        using ends ld [OF Suc.prems(2)] ld [OF Suc.prems(3)] ft by (simp add: pt_entry_def)
    next
      case (Suc j)
      then have j: "j < n" using i by simp
      have "pt_entry s' f i = pt_entry s' (f + 4) j" "pt_entry s' t i = pt_entry s' (t + 4) j"
        unfolding pt_entry_def entry_addr_Suc Suc by simp_all
      then show "pt_entry s' t i = cow_child (pt_entry s f i) (pt_entry s t i) \<and>
          pt_entry s' f i = cow_parent (pt_entry s f i)"
        using ent [OF j] e1(1) [OF j] e1(2) [OF j] Suc by simp
    qed
  next
    fix a assume a: "aligned4 a" "\<forall>i<Suc n. a \<noteq> f + 4 * of_nat i \<and> a \<noteq> t + 4 * of_nat i"
    then have "a \<noteq> f" "a \<noteq> t" using spec [OF a(2), of 0] by auto
    moreover have "\<forall>i<n. a \<noteq> f + 4 + 4 * of_nat i \<and> a \<noteq> t + 4 + 4 * of_nat i"
      unfolding entry_addr_Suc using a(2) by blast
    then have "ld32 (pmem s') a = ld32 (pmem s1) a" by (intro oth a(1))
    ultimately show "ld32 (pmem s') a = ld32 (pmem s) a" using ld [OF a(1)] by simp
  qed
qed

section \<open>Copy on write of one page\<close>

definition page_of :: "u32 \<Rightarrow> u32" where
  "page_of x = x AND 0xfffff000"

lemma unat_page_of: "unat (page_of x) = unat x div 4096 * 4096"
  by (simp only: page_of_def and_page_mask)

lemma page_of_idem [simp]: "page_of (page_of x) = page_of x"
  by (simp add: page_of_def and.assoc)

lemma in_page_iff:
  assumes "page_of a = a"
  shows "unat (x - a) < 4096 \<longleftrightarrow> page_of x = a"
proof -
  obtain k where k: "unat a = k * 4096" using unat_page_of [of a] assms by metis
  have r: "unat x div 4096 * 4096 + unat x mod 4096 = unat x" by (rule div_mult_mod_eq)
  have lt: "unat x < 2 ^ 32" "unat a < 2 ^ 32" using unat_u32_lt by simp_all
  have "page_of x = a \<longleftrightarrow> unat x div 4096 = k"
    using unat_page_of [of x] k by (metis mult_cancel2 word_unat_eq_iff zero_neq_numeral)
  moreover have "unat (x - a) < 4096 \<longleftrightarrow> unat x div 4096 = k"
  proof (cases "a \<le> x")
    case True
    then have "unat (x - a) = unat x - k * 4096" "k * 4096 \<le> unat x"
      by (simp_all add: unat_minus_eq k word_le_nat_alt)
    moreover have "unat x - k * 4096 < 4096 \<longleftrightarrow> unat x div 4096 = k" if "k * 4096 \<le> unat x"
      using that nat_diff_mult_div [of 4096 "unat x" k] less_eq_div_iff_mult_less_eq [of 4096 k "unat x"]
      by (metis diff_is_0_eq div_eq_0_iff eq_iff zero_neq_numeral zero_less_numeral diff_self_eq_0)
    ultimately show ?thesis by simp
  next
    case False
    then have lt': "unat x < k * 4096" by (simp add: k word_le_nat_alt)
    then have "unat x div 4096 < k" by (simp add: less_mult_imp_div_less)
    moreover have "k * 4096 + 4096 \<le> 2 ^ 32" using lt(2) k by simp
    then have "4096 \<le> unat (x - a)" using False lt' by (simp add: unat_minus_eq k)
    ultimately show ?thesis by simp
  qed
  ultimately show ?thesis by simp
qed

lemma page_of_frame [simp]: "p < MM_PAGES \<Longrightarrow> page_of (frame_addr p) = frame_addr p"
  by (rule word_unat_eq_iff [THEN iffD2]) (simp add: unat_page_of unat_frame_addr)

lemma page_of_aligned_off:
  assumes "aligned4 x" "k < 4"
  shows "page_of (x + of_nat k) = page_of x"
proof -
  obtain j where j: "unat x = 4 * j" using assms(1) by (auto simp: aligned4_def mod_eq_0_iff_dvd)
  have lt: "4 * j + k < 2 ^ 32" using unat_u32_lt [of x] j assms(2) by simp
  have "unat (of_nat k :: u32) = k" using assms(2) by (simp add: unat_of_nat)
  then have "unat (x + of_nat k) = 4 * j + k" using lt j by (simp add: unat_word_ariths)
  moreover have "(4 * j + k) div 4096 = (4 * j) div 4096"
  proof -
    have "(4 * j + k) div 4 = j" using assms(2) by simp
    then have "(4 * j + k) div 4 div 1024 = (4 * j) div 4 div 1024" by simp
    then show ?thesis by (simp add: div_mult2_eq [symmetric])
  qed
  ultimately show ?thesis by (simp add: word_unat_eq_iff unat_page_of j)
qed

lemma mms_page_Some_frame: "LOW_MEM \<le> a \<Longrightarrow> mms_page a = Some p \<Longrightarrow> page_of a = frame_addr p"
proof -
  assume a: "LOW_MEM \<le> a" "mms_page a = Some p"
  then have p: "p = unat (a - LOW_MEM) div 4096" "p < MM_PAGES"
    by (auto simp: mms_page_def drop_bit_eq_div unat_div split: if_splits)
  have "unat (a - LOW_MEM) = unat a - 256 * 4096" using a(1) by (simp add: unat_minus_eq)
  then have "p = unat a div 4096 - 256" using p(1) nat_diff_mult_div [of 4096 "unat a" 256] by simp
  moreover have "256 \<le> unat a div 4096"
    using a(1) by (simp add: word_le_nat_alt less_eq_div_iff_mult_less_eq)
  ultimately have "unat a div 4096 = p + 256" by simp
  then show ?thesis using p(2) by (simp add: word_unat_eq_iff unat_page_of unat_frame_addr)
qed


lemma unat_frame_diff:
  assumes "p < MM_PAGES" "n < MM_PAGES" "p \<noteq> n"
  shows "unat (frame_addr p - frame_addr n) + 4096 \<le> 2 ^ 32"
proof (cases "n < p")
  case True
  then have "frame_addr n \<le> frame_addr p" using assms by (simp add: word_le_nat_alt unat_frame_addr)
  then have "unat (frame_addr p - frame_addr n) = p * 4096 - n * 4096"
    using assms by (simp add: unat_minus_eq unat_frame_addr)
  then show ?thesis using assms by simp
next
  case False
  then have "p < n" using assms by simp
  then have "\<not> frame_addr n \<le> frame_addr p" using assms by (simp add: word_le_nat_alt unat_frame_addr)
  then have "unat (frame_addr p - frame_addr n) = 2 ^ 32 + p * 4096 - n * 4096"
    using assms by (simp add: unat_minus_eq unat_frame_addr)
  moreover have "p * 4096 + 4096 \<le> n * 4096" using \<open>p < n\<close> by simp
  ultimately show ?thesis using assms by simp
qed

text \<open>The memory after the new frame \<open>n\<close> was cleared, the entry \<open>e\<close> written and frame \<open>p\<close> copied.\<close>

lemma cow_copy_memory:
  fixes m :: mem and v :: u32
  assumes p: "p < MM_PAGES" "n < MM_PAGES" "p \<noteq> n"
    and e: "aligned4 e" "page_of e \<noteq> frame_addr n" "page_of e \<noteq> frame_addr p"
  defines "m1 \<equiv> st32 (\<lambda>x. if page_of x = frame_addr n then 0 else m x) e v"
  shows "movsl 1024 m1 (frame_addr n) (frame_addr p) x =
    (if page_of x = frame_addr n then m (frame_addr p + (x - frame_addr n))
     else if unat (x - e) < 4 then ucast (drop_bit (8 * unat (x - e)) v) else m x)"
proof -
  have near: "page_of x = page_of e" if "unat (x - e) < 4" for x
    using page_of_aligned_off [OF e(1) that] by simp
  have src: "page_of (frame_addr p + (x - frame_addr n)) = frame_addr p" if "page_of x = frame_addr n"
  proof -
    have "unat (x - frame_addr n) < 4096" using that p by (simp add: in_page_iff)
    then have "unat ((frame_addr p + (x - frame_addr n)) - frame_addr p) < 4096" by simp
    then show ?thesis using p(1) by (simp only: in_page_iff [OF page_of_frame])
  qed
  have "movsl 1024 m1 (frame_addr n) (frame_addr p) x =
    (if page_of x = frame_addr n then m1 (frame_addr p + (x - frame_addr n)) else m1 x)"
    using movsl_apply [of "frame_addr p" "frame_addr n" 1024 m1 x] unat_frame_diff [OF p] p
    by (simp add: in_page_iff)
  also have "\<dots> = (if page_of x = frame_addr n then m (frame_addr p + (x - frame_addr n))
     else if unat (x - e) < 4 then ucast (drop_bit (8 * unat (x - e)) v) else m x)"
    using src near [of x] near [of "frame_addr p + (x - frame_addr n)"] e(2,3) p frame_addr_inj [of p n]
    by (auto simp: m1_def st32_apply)
  finally show ?thesis .
qed

lemma mm_inv_dec_shared:
  assumes "mm_inv s" "refcount s p \<noteq> 1" "refcount s p \<noteq> 0"
  shows "mm_inv (s\<lparr>refcount := (refcount s)(p := refcount s p - 1)\<rparr>)"
  using assms unfolding mm_inv_def by (auto simp: page_used_def)

text \<open>
  C4: a write fault on a frame shared by several mappings gives the faulting entry a fresh frame with
  the same 4096 bytes, mapped present, writable and user; the old frame loses one reference, the
  new one has one, and no other byte of memory changes.
\<close>

theorem un_wp_page_shared:
  assumes inv: "mm_inv s" and old: "page_from s e = frame_addr p" "p < MM_PAGES"
    and shared: "refcount s p \<noteq> 1" "refcount s p \<noteq> 0"
    and free: "q < MM_PAGES" "refcount s q = 0"
    and e: "aligned4 e" "page_of e \<noteq> frame_addr p"
    and e': "\<forall>r<MM_PAGES. refcount s r = 0 \<longrightarrow> page_of e \<noteq> frame_addr r"
  shows "\<exists>n s'. un_wp_page e s = Inr s' \<and> n < MM_PAGES \<and> refcount s n = 0 \<and> mm_inv s'
    \<and> refcount s' = (refcount s)(n := 1, p := refcount s p - 1)
    \<and> ld32 (pmem s') e = frame_addr n OR 7
    \<and> (\<forall>k<4096. pmem s' (frame_addr n + of_nat k) = pmem s (frame_addr p + of_nat k))
    \<and> (\<forall>x. page_of x \<noteq> frame_addr n \<longrightarrow> 4 \<le> unat (x - e) \<longrightarrow> pmem s' x = pmem s x)"
proof -
  have "\<not> page_used s q" using inv free by (simp add: mm_inv_used)
  with free(1) obtain n where n: "n < MM_PAGES" "\<not> page_used s n"
    "get_free_page s = Inr (frame_addr n, alloc_frame n s)"
    by (rule get_free_page_alloc)
  have rn: "refcount s n = 0" using inv n by (simp add: mm_inv_used)
  have pn: "p \<noteq> n" using rn shared by auto
  have en: "page_of e \<noteq> frame_addr n" using e' n(1) rn by blast
  have low: "LOW_MEM \<le> frame_addr p" using old(2) by (simp add: word_le_nat_alt unat_frame_addr)
  define s1 where "s1 = (alloc_frame n s)\<lparr>refcount := (refcount s)(n := 1, p := refcount s p - 1)\<rparr>"
  define s' where "s' = s1\<lparr>pmem := movsl 1024 (st32 (pmem s1) e (frame_addr n OR 7)) (frame_addr n) (frame_addr p)\<rparr>"
  have r: "refcount (alloc_frame n s) = (refcount s)(n := 1)" by (rule mm_inv_alloc [OF inv n(1,2)])
  have "un_wp_page e s = Inr s'"
    unfolding un_wp_page_def Let_def old(1) mms_page_frame [OF old(2)] n(3) using low shared pn
    by (simp add: r s'_def s1_def copy_page_def)
  moreover have "mm_inv s'"
    using mm_inv_dec_shared [OF mm_inv_alloc(1) [OF inv n(1,2)], of p] shared pn
    by (simp add: r s'_def s1_def mm_inv_def)
  moreover have m: "pmem s' x = (if page_of x = frame_addr n then pmem s (frame_addr p + (x - frame_addr n))
     else if unat (x - e) < 4 then ucast (drop_bit (8 * unat (x - e)) (frame_addr n OR 7)) else pmem s x)" for x
    using cow_copy_memory [OF old(2) n(1) pn e(1) en e(2), of "pmem s" "frame_addr n OR 7" x] n(1)
    by (simp add: s'_def s1_def alloc_frame_def in_page_iff)
  moreover have "ld32 (pmem s') e = ld32 (st32 (pmem s) e (frame_addr n OR 7)) e"
    using page_of_aligned_off [OF e(1), of 1] page_of_aligned_off [OF e(1), of 2]
      page_of_aligned_off [OF e(1), of 3] en
    by (intro ld32_cong) (simp_all add: m st32_apply)
  moreover have "page_of (frame_addr n + of_nat k) = frame_addr n" if "k < 4096" for k
    using that n(1) by (simp add: in_page_iff [symmetric] unat_of_nat)
  ultimately show ?thesis using n(1) rn
    by (intro exI [of _ n] exI [of _ s']) (simp add: s'_def s1_def)
qed

section \<open>Initialisation\<close>

lemma clear_mem_map_single:
  assumes "mm_inv s" "refcount s p = 1" "p < MM_PAGES"
  shows "\<exists>s1. clear_mem_map (frame_addr p) s = Inr s1 \<and> mm_inv s1 \<and> refcount s1 = (refcount s)(p := 0)
    \<and> memory_end s1 = memory_end s \<and> HIGH_MEMORY s1 = HIGH_MEMORY s"
proof -
  let ?s = "s\<lparr>mem_map := (mem_map s)(p div 32 := mem_map s (p div 32) AND NOT (push_bit (p mod 32) 1)),
       refcount := (refcount s)(p := 0)\<rparr>"
  have "clear_mem_map (frame_addr p) s = Inr ?s"
    unfolding clear_mem_map_eq mms_page_frame [OF assms(3)] using assms(2) by simp
  moreover have "mm_inv ?s"
    using assms(1) page_used_clear [of s p] by (simp add: mm_inv_def page_used_def)
  ultimately show ?thesis by (intro exI [of _ ?s]) simp
qed

lemma page_of_next:
  assumes "page_of a = a" "unat a + 8192 \<le> 2 ^ 32"
  shows "page_of (a + 4096) = a + 4096" "unat (a + 4096) = unat a + 4096"
proof -
  show u: "unat (a + 4096) = unat a + 4096" using assms(2) by (simp add: unat_word_ariths)
  have "unat a = unat a div 4096 * 4096" using assms(1) unat_page_of [of a] by simp
  then have "(unat a + 4096) div 4096 * 4096 = unat a + 4096" by (simp add: div_add_self2)
  then show "page_of (a + 4096) = a + 4096" by (simp add: word_unat_eq_iff unat_page_of u)
qed

lemma frame_between:
  assumes "page_of a = a" "LOW_MEM \<le> a" "p < MM_PAGES" "unat a + 4096 < 2 ^ 32"
  shows "a \<le> frame_addr p \<longleftrightarrow> frame_addr p = a \<or> a + 4096 \<le> frame_addr p"
proof -
  obtain k where k: "unat a = k * 4096" using assms(1) unat_page_of [of a] by metis
  have u: "unat (a + 4096) = k * 4096 + 4096" using assms(4) k by (simp add: unat_word_ariths)
  have "0x100000 + p * 4096 = (256 + p) * (4096 :: nat)" by simp
  then have f: "unat (frame_addr p) = (256 + p) * 4096" using unat_frame_addr [OF assms(3)] by simp
  have "k \<le> 256 + p \<longleftrightarrow> 256 + p = k \<or> k + 1 \<le> 256 + p" by arith
  then show ?thesis unfolding word_le_nat_alt word_unat_eq_iff u k f by auto
qed

lemma clear_mem_map_page:
  assumes "mm_inv s" "page_of a = a" "LOW_MEM \<le> a"
    "\<forall>p<MM_PAGES. a \<le> frame_addr p \<longrightarrow> refcount s p = 1"
  shows "\<exists>s1. clear_mem_map a s = Inr s1 \<and> mm_inv s1 \<and> memory_end s1 = memory_end s
     \<and> HIGH_MEMORY s1 = HIGH_MEMORY s
     \<and> (\<forall>p<MM_PAGES. refcount s1 p = (if frame_addr p = a then 0 else refcount s p))"
proof (cases "mms_page a")
  case None
  then have "p < MM_PAGES \<Longrightarrow> frame_addr p \<noteq> a" for p by auto
  with None assms(1) show ?thesis by (simp add: clear_mem_map_eq)
next
  case (Some p)
  then have p: "p < MM_PAGES" "frame_addr p = a"
    using mms_page_lt mms_page_Some_frame [OF assms(3)] assms(2) by auto
  then have "refcount s p = 1" using assms(4) by simp
  from clear_mem_map_single [OF assms(1) this p(1)] show ?thesis
    using p frame_addr_inj by auto
qed

text \<open>\<open>a\<close> runs through the frames from \<open>main_memory_start\<close> to the end of the memory.\<close>

lemma clear_range_ok:
  assumes "mm_inv s" "page_of a = a" "LOW_MEM \<le> a" "unat (memory_end s) + 4096 \<le> 2 ^ 32"
    "\<forall>p<MM_PAGES. a \<le> frame_addr p \<longrightarrow> refcount s p = 1" "unat (memory_end s) \<le> unat a + (fuel - 1) * 4096"
    "0 < fuel"
  shows "\<exists>s'. clear_range fuel a s = Inr s' \<and> mm_inv s' \<and> HIGH_MEMORY s' = HIGH_MEMORY s
    \<and> (\<forall>p<MM_PAGES. refcount s' p = (if a \<le> frame_addr p \<and> frame_addr p < memory_end s then 0 else refcount s p))"
  using assms
proof (induction fuel arbitrary: a s)
  case 0 then show ?case by simp
next
  case (Suc fuel)
  show ?case
  proof (cases "a < memory_end s")
    case False
    then have "\<not> (a \<le> frame_addr p \<and> frame_addr p < memory_end s)" for p by auto
    with False Suc.prems(1) show ?thesis by auto
  next
    case True
    then have lt: "unat a < unat (memory_end s)" by (simp add: word_less_nat_alt)
    then have a4: "unat a + 8192 \<le> 2 ^ 32"
    proof -
      obtain k where k: "unat a = k * 4096" using Suc.prems(2) unat_page_of [of a] by metis
      then show ?thesis using lt Suc.prems(4) by simp
    qed
    note nxt = page_of_next [OF Suc.prems(2) a4]
    have low: "LOW_MEM \<le> a + 4096" using Suc.prems(3) nxt(2) by (simp add: word_le_nat_alt)
    have btw: "p < MM_PAGES \<Longrightarrow> a \<le> frame_addr p \<longleftrightarrow> frame_addr p = a \<or> a + 4096 \<le> frame_addr p" for p
      using frame_between [OF Suc.prems(2,3)] a4 by simp
    from clear_mem_map_page [OF Suc.prems(1,2,3,5)]
    obtain s1 where s1: "clear_mem_map a s = Inr s1" "mm_inv s1" "memory_end s1 = memory_end s"
      "HIGH_MEMORY s1 = HIGH_MEMORY s"
      and r1: "\<And>p. p < MM_PAGES \<Longrightarrow> refcount s1 p = (if frame_addr p = a then 0 else refcount s p)" by blast
    have ne: "a + 4096 \<le> frame_addr p \<Longrightarrow> frame_addr p \<noteq> a" for p
      using nxt(2) by (auto simp: word_le_nat_alt)
    have fuel: "0 < fuel" using lt Suc.prems(6) a4 by (cases fuel) (auto)
    have "\<exists>s'. clear_range fuel (a + 4096) s1 = Inr s' \<and> mm_inv s' \<and> HIGH_MEMORY s' = HIGH_MEMORY s1
      \<and> (\<forall>p<MM_PAGES. refcount s' p =
          (if a + 4096 \<le> frame_addr p \<and> frame_addr p < memory_end s1 then 0 else refcount s1 p))"
      using Suc.prems s1 nxt low btw ne fuel by (intro Suc.IH) (auto simp: r1 Suc_le_eq gr0_conv_Suc)
    then obtain s' where s': "clear_range fuel (a + 4096) s1 = Inr s'" "mm_inv s'" "HIGH_MEMORY s' = HIGH_MEMORY s1"
      "\<And>p. p < MM_PAGES \<Longrightarrow> refcount s' p =
          (if a + 4096 \<le> frame_addr p \<and> frame_addr p < memory_end s then 0 else refcount s1 p)"
      using s1(3) by auto
    have "refcount s' p = (if a \<le> frame_addr p \<and> frame_addr p < memory_end s then 0 else refcount s p)"
      if "p < MM_PAGES" for p
      using s'(4) [OF that] r1 [OF that] btw [OF that] True by auto
    then show ?thesis using True s1 s' by auto
  qed
qed

text \<open>
  After \<open>mm_init\<close> has set up the frames, exactly the frames between \<open>main_memory_start\<close> and the
  end of memory are free, every other frame has one reference, and the bitmap agrees.
\<close>

lemma mm_init_pages_inv:
  assumes start: "start = end_of_kernel + frames * 4096" "page_of start = start" "LOW_MEM \<le> start"
    and mem: "mem_end = push_bit 10 total_mem_size" "unat mem_end + 4096 \<le> 2 ^ 32"
  shows "\<exists>s'. mm_init_pages total_mem_size frames end_of_kernel s = Inr s' \<and> mm_inv s'
    \<and> HIGH_MEMORY s' = mem_end
    \<and> (\<forall>p<MM_PAGES. refcount s' p = (if start \<le> frame_addr p \<and> frame_addr p < mem_end then 0 else 1))"
proof -
  obtain s5 where s5: "mm_init_pages total_mem_size frames end_of_kernel s = clear_range (2 ^ 20 + 1) start s5"
    "memory_end s5 = mem_end" "HIGH_MEMORY s5 = mem_end"
    "mem_map s5 = (\<lambda>i. if i < MM_BITMAPS then 0xFFFFFFFF else mem_map s i)"
    "refcount s5 = (\<lambda>i. if i < MM_PAGES then 1 else 0)"
    unfolding mm_init_pages_def Let_def mem(1) start(1) by (simp cong: if_cong)
  have used: "page_used s5 p" if "p < MM_PAGES" for p
  proof -
    have "p div 32 < MM_BITMAPS" using that by simp
    then show ?thesis using bit_of_all_ones [of "p mod 32"] by (simp add: page_used_def s5(4))
  qed
  then have "mm_inv s5" by (simp add: mm_inv_def s5(5))
  moreover have "unat (memory_end s5) \<le> unat start + (2 ^ 20 + 1 - 1) * 4096"
    using mem(2) s5(2) by simp
  ultimately show ?thesis
    using clear_range_ok [of s5 start "2 ^ 20 + 1"] start(2,3) mem(2) s5 by auto
qed

lemma disjoint_page_tables:
  assumes "page_of f = f" "page_of t = t" "f \<noteq> t"
  shows "disjoint_tables 1024 f t"
proof -
  have in_tab: "page_of (a + 4 * of_nat i) = a" if "page_of a = a" "i < 1024" for a i
    using that by (simp add: in_page_iff [symmetric] unat_4_times)
  show ?thesis
    unfolding disjoint_tables_def using assms in_tab by metis
qed

lemma aligned4_page: "page_of a = a \<Longrightarrow> aligned4 a"
proof -
  assume "page_of a = a"
  then obtain k where "unat a = k * 4096" using unat_page_of [of a] by metis
  then have "unat a = 4 * (k * 1024)" by simp
  then show ?thesis unfolding aligned4_def by (simp only: mod_mult_self1_is_0)
qed

lemma cow_child_not_writable: "cow_child e 0 AND PTE_WRITE = 0"
  by (simp add: cow_child_def and.assoc)

lemma cow_child_frame: "e AND 1 \<noteq> 0 \<Longrightarrow> page_of (cow_child e old) = page_of e"
  unfolding page_of_def cow_child_def page_mask_eq
  by (rule bit_word_eqI) (auto simp: bit_simps)

lemma cow_child_present: "cow_child e 0 AND 1 = e AND 1"
  by (auto simp: cow_child_def and.assoc)

text \<open>
  C2: copying a page table for fork leaves no writable entry in the child, maps the same frames, makes
  every shared entry of the parent equal to the child's read-only one, leaves the others of the
  parent alone, and adds to each frame's reference count the number of entries that share it.
\<close>

theorem copy_page_table_cow:
  assumes f: "page_of f = f" and t: "page_of t = t" "f \<noteq> t"
    and fresh: "\<forall>i<1024. pt_entry s t i = 0" and ok: "table_frames_ok 1024 f s"
  shows "\<exists>s'. copy_ptes 1024 f t s = Inr s' \<and> mem_map s' = mem_map s
    \<and> (\<forall>i<1024. pt_entry s' t i AND PTE_PRESENT = pt_entry s f i AND PTE_PRESENT
        \<and> pt_entry s' t i AND PTE_WRITE = 0
        \<and> (pt_entry s f i AND PTE_PRESENT \<noteq> 0 \<longrightarrow> page_of (pt_entry s' t i) = page_of (pt_entry s f i))
        \<and> (cow_shared (pt_entry s f i) \<longrightarrow> pt_entry s' f i = pt_entry s' t i)
        \<and> (\<not> cow_shared (pt_entry s f i) \<longrightarrow> pt_entry s' f i = pt_entry s f i))
    \<and> (\<forall>p. refcount s' p = refcount s p + (\<Sum>i<1024. shares s f p i))"
proof -
  from copy_ptes_correct [OF order_refl aligned4_page [OF f] aligned4_page [OF t(1)]
      disjoint_page_tables [OF f t] ok]
  obtain s' where s': "copy_ptes 1024 f t s = Inr s'" "mem_map s' = mem_map s"
    "\<And>i. i < 1024 \<Longrightarrow> pt_entry s' t i = cow_child (pt_entry s f i) 0"
    "\<And>i. i < 1024 \<Longrightarrow> pt_entry s' f i = cow_parent (pt_entry s f i)"
    "\<forall>p. refcount s' p = refcount s p + (\<Sum>i<1024. shares s f p i)"
    using fresh by auto
  have "cow_shared e \<Longrightarrow> cow_parent e = cow_child e 0" for e
    by (simp add: cow_parent_def cow_child_def cow_shared_def)
  moreover have "\<not> cow_shared e \<Longrightarrow> cow_parent e = e" for e by (simp add: cow_parent_def)
  ultimately show ?thesis
    using s' by (intro exI [of _ s']) (auto simp: cow_child_not_writable cow_child_frame cow_child_present)
qed

text \<open>A small machine for the witnesses: every frame free, and memory zero but for one entry.\<close>

definition demo_mm :: "mm_state" where
  "demo_mm = \<lparr>memory_end = 0x4100000, main_memory_start = 0x900000, HIGH_MEMORY = 0x4100000,
     mem_map = (\<lambda>_. 0), refcount = (\<lambda>_. 0), pg_dir = 0x800000, pmem = st32 (\<lambda>_. 0) 0x200000 0x500007\<rparr>"

lemma demo_mm_inv: "mm_inv demo_mm"
  by (simp add: mm_inv_def page_used_def demo_mm_def)

lemma demo_mm_free: "\<not> page_used demo_mm q"
  by (simp add: page_used_def demo_mm_def)

lemma ld32_zero_mem: "ld32 (\<lambda>_. 0) a = 0"
  by (simp add: ld32_def)

lemma demo_mm_entry:
  "i < 1024 \<Longrightarrow> pt_entry demo_mm 0x200000 i = (if i = 0 then 0x500007 else 0)"
  "i < 1024 \<Longrightarrow> pt_entry demo_mm 0x300000 i = 0"
proof -
  assume i: "i < 1024"
  have al: "aligned4 0x200000" "aligned4 0x300000" by (simp_all add: aligned4_def)
  note a = aligned4_entry [OF al(1), of i] aligned4_entry [OF al(2), of i]
  have "(0x200000 :: u32) = 0x200000 + 4 * of_nat i \<longleftrightarrow> i = 0"
    using entry_addr_eq [of 0 i "0x200000"] i by auto
  then show "pt_entry demo_mm 0x200000 i = (if i = 0 then 0x500007 else 0)"
    using a(1) al(1) i by (simp add: pt_entry_def demo_mm_def ld32_st32 ld32_zero_mem)
  have "disjoint_tables 1024 0x200000 0x300000"
    by (rule disjoint_page_tables) (simp_all add: page_of_def)
  from disjoint_tablesD [OF this, of 0 i] have "(0x200000 :: u32) \<noteq> 0x300000 + 4 * of_nat i"
    using i by simp
  then show "pt_entry demo_mm 0x300000 i = 0"
    using a(2) al(1) i by (simp add: pt_entry_def demo_mm_def ld32_st32 ld32_zero_mem)
qed

theorem copy_page_table_cow_witness:
  "\<exists>s'. copy_ptes 1024 0x200000 0x300000 demo_mm = Inr s' \<and> pt_entry s' 0x300000 0 AND PTE_WRITE = 0
     \<and> refcount s' 1024 = refcount demo_mm 1024 + (\<Sum>i<1024. shares demo_mm 0x200000 1024 i)"
proof -
  have "\<exists>s'. copy_ptes 1024 0x200000 0x300000 demo_mm = Inr s' \<and> mem_map s' = mem_map demo_mm
    \<and> (\<forall>i<1024. pt_entry s' 0x300000 i AND PTE_PRESENT = pt_entry demo_mm 0x200000 i AND PTE_PRESENT
        \<and> pt_entry s' 0x300000 i AND PTE_WRITE = 0
        \<and> (pt_entry demo_mm 0x200000 i AND PTE_PRESENT \<noteq> 0 \<longrightarrow> page_of (pt_entry s' 0x300000 i) = page_of (pt_entry demo_mm 0x200000 i))
        \<and> (cow_shared (pt_entry demo_mm 0x200000 i) \<longrightarrow> pt_entry s' 0x200000 i = pt_entry s' 0x300000 i)
        \<and> (\<not> cow_shared (pt_entry demo_mm 0x200000 i) \<longrightarrow> pt_entry s' 0x200000 i = pt_entry demo_mm 0x200000 i))
    \<and> (\<forall>p. refcount s' p = refcount demo_mm p + (\<Sum>i<1024. shares demo_mm 0x200000 p i))"
    by (rule copy_page_table_cow)
      (simp_all add: page_of_def demo_mm_entry table_frames_ok_def cow_shared_def mms_page_def)
  then show ?thesis by (metis zero_less_numeral)
qed

theorem get_free_page_ok_witness:
  "\<exists>p s'. get_free_page demo_mm = Inr (frame_addr p, s') \<and> p < MM_PAGES \<and> refcount s' p = 1"
proof -
  have free: "0 < MM_PAGES" "refcount demo_mm 0 = 0" by (simp_all add: demo_mm_def)
  show ?thesis using get_free_page_ok [OF demo_mm_inv free] by auto
qed

definition full_mm :: "mm_state" where
  "full_mm = demo_mm\<lparr>mem_map := (\<lambda>_. 0xFFFFFFFF), refcount := (\<lambda>_. 1)\<rparr>"

theorem get_free_page_exhausted_witness: "get_free_page full_mm = Inl Fault"
  by (rule get_free_page_exhausted)
    (use bit_of_all_ones in \<open>simp_all add: mm_inv_def page_used_def full_mm_def\<close>)

lemma demo_mm_get: "\<exists>a s'. get_free_page demo_mm = Inr (a, s') \<and> a < HIGH_MEMORY demo_mm"
proof -
  obtain p where "get_free_page demo_mm = Inr (frame_addr p, alloc_frame p demo_mm)" "p < MM_PAGES"
    by (rule get_free_page_alloc [OF _ demo_mm_free [of 0]]) simp_all
  then show ?thesis by (auto simp: demo_mm_def word_less_nat_alt unat_frame_addr)
qed

theorem get_then_free_page_witness:
  "\<exists>a s' s''. get_free_page demo_mm = Inr (a, s') \<and> free_page a s' = Inr s'' \<and> refcount s'' = refcount demo_mm"
  using demo_mm_get get_then_free_page [OF demo_mm_inv] by blast

theorem get_free_pages_distinct_witness:
  "\<exists>fs s'. alloc_many get_free_page 2 demo_mm = Inr (fs, s') \<and> distinct fs"
proof -
  obtain p where p: "p < MM_PAGES" "get_free_page demo_mm = Inr (frame_addr p, alloc_frame p demo_mm)"
    by (rule get_free_page_alloc [OF _ demo_mm_free [of 0]]) simp_all
  define q where "q = (if p = 0 then 1 else 0 :: nat)"
  have "q < MM_PAGES" "\<not> page_used (alloc_frame p demo_mm) q"
    by (auto simp: q_def page_used_alloc demo_mm_free)
  then obtain b s2 where "get_free_page (alloc_frame p demo_mm) = Inr (b, s2)"
    by (metis get_free_page_alloc)
  then have "alloc_many get_free_page 2 demo_mm = Inr ([frame_addr p, b], s2)"
    by (simp add: numeral_2_eq_2 p(2))
  then show ?thesis using get_free_pages_distinct [OF demo_mm_inv] by blast
qed

text \<open>One frame, number 1024 (at 5M), mapped twice; the entry lies in the frame at 2M, in use.\<close>

definition shared_mm :: "mm_state" where
  "shared_mm = demo_mm\<lparr>mem_map := (\<lambda>i. if i = 8 \<or> i = 32 then 1 else 0),
     refcount := (\<lambda>p. if p = 256 then 1 else if p = 1024 then 2 else 0)\<rparr>"

theorem un_wp_page_shared_witness:
  "\<exists>n s'. un_wp_page 0x200000 shared_mm = Inr s' \<and> refcount shared_mm n = 0 \<and> refcount s' 1024 = 1
     \<and> ld32 (pmem s') 0x200000 = frame_addr n OR 7"
proof -
  have bit1: "bit (1 :: u32) i \<longleftrightarrow> i = 0" for i by (auto simp: bit_1_iff)
  have dm: "p div 32 = 8 \<and> p mod 32 = 0 \<longleftrightarrow> p = 256" "p div 32 = 32 \<and> p mod 32 = 0 \<longleftrightarrow> p = 1024" for p :: nat
    using div_mod_32_eq [of p 256] div_mod_32_eq [of p 1024] by auto
  have inv: "mm_inv shared_mm"
  proof -
    have "page_used shared_mm p \<longleftrightarrow> p = 256 \<or> p = 1024" for p
      using dm [of p] by (auto simp: page_used_def shared_mm_def bit1)
    then show ?thesis by (auto simp: mm_inv_def shared_mm_def)
  qed
  have old: "page_from shared_mm 0x200000 = frame_addr 1024"
    by (simp add: page_from_def shared_mm_def demo_mm_def frame_addr_def)
  have e: "aligned4 0x200000" "page_of 0x200000 \<noteq> frame_addr 1024"
    by (simp_all add: aligned4_def page_of_def frame_addr_def)
  have pg: "page_of 0x200000 = frame_addr 256" by (simp add: page_of_def frame_addr_def)
  have e': "\<forall>r<MM_PAGES. refcount shared_mm r = 0 \<longrightarrow> page_of 0x200000 \<noteq> frame_addr r"
    unfolding pg using frame_addr_inj [of 256] by (auto simp: shared_mm_def)
  have ref: "refcount shared_mm 1024 = 2" "refcount shared_mm 0 = 0" by (simp_all add: shared_mm_def)
  show ?thesis
    using un_wp_page_shared [OF inv old _ _ _ _ ref(2) e e'] ref(1) by auto
qed

end
