(* ===== verification/Descriptors.thy ===== *)
theory Descriptors
  imports Prelude
begin

text \<open>
  Segment descriptors and interrupt gates, as the assembly macros of
  arch/x86/asm/include/system.h and include/kernel/schedule.h write and read them, byte by byte.
  A descriptor is the pair of longs \<open>a\<close> (bytes 0 to 3) and \<open>b\<close> (bytes 4 to 7).
\<close>

record desc_struct =
  d_a :: u32
  d_b :: u32

text \<open>\<open>put_bits off len v w\<close>: the \<open>len\<close> bits of \<open>w\<close> from bit \<open>off\<close> on replaced by the low bits of \<open>v\<close>.\<close>

definition put_bits :: "nat \<Rightarrow> nat \<Rightarrow> u32 \<Rightarrow> u32 \<Rightarrow> u32" where
  "put_bits off len v w = (w AND NOT (push_bit off (mask len))) OR push_bit off (take_bit len v)"

definition get_bits :: "nat \<Rightarrow> nat \<Rightarrow> u32 \<Rightarrow> u32" where
  "get_bits off len w = take_bit len (drop_bit off w)"

section \<open>Bases and limits (include/kernel/schedule.h)\<close>

text \<open>\<open>movb 7,%dh; movb 4,%dl; shll $16,%edx; movw 2,%dx\<close>\<close>

definition get_base :: "desc_struct \<Rightarrow> u32" where
  "get_base d = put_bits 0 16 (get_bits 16 16 (d_a d))
     (push_bit 16 (put_bits 0 8 (get_bits 0 8 (d_b d)) (push_bit 8 (get_bits 24 8 (d_b d)))))"

text \<open>\<open>movw %dx,2; rorl $16,%edx; movb %dl,4; movb %dh,7\<close>\<close>

definition set_base :: "desc_struct \<Rightarrow> u32 \<Rightarrow> desc_struct" where
  "set_base d base = d\<lparr>d_a := put_bits 16 16 base (d_a d),
     d_b := put_bits 24 8 (drop_bit 24 base) (put_bits 0 8 (drop_bit 16 base) (d_b d))\<rparr>"

text \<open>\<open>_set_limit\<close> keeps the high half of byte 6, where the flags G, D and AVL are.\<close>

definition set_limit_raw :: "desc_struct \<Rightarrow> u32 \<Rightarrow> desc_struct" where
  "set_limit_raw d lim = d\<lparr>d_a := put_bits 0 16 lim (d_a d),
     d_b := put_bits 16 8 (get_bits 16 8 lim OR (get_bits 16 8 (d_b d) AND 0xf0)) (d_b d)\<rparr>"

definition set_limit :: "desc_struct \<Rightarrow> u32 \<Rightarrow> desc_struct" where
  "set_limit d lim = set_limit_raw d (drop_bit 12 (lim - 1))"

text \<open>
  \<open>lsll; incl\<close>: the instruction reads the 20 limit bits of the descriptor the selector names and
  scales them by 4K when the granularity bit (bit 23 of \<open>b\<close>) is set.
\<close>

definition get_limit :: "desc_struct \<Rightarrow> u32" where
  "get_limit d =
     (let raw = put_bits 16 4 (get_bits 16 4 (d_b d)) (get_bits 0 16 (d_a d))
      in (if bit (d_b d) 23 then push_bit 12 raw OR 0xfff else raw) + 1)"

section \<open>TSS and LDT descriptors, gates (arch/x86/asm/include/system.h)\<close>

definition set_tssldt_desc :: "desc_struct \<Rightarrow> u32 \<Rightarrow> u32 \<Rightarrow> desc_struct" where
  "set_tssldt_desc d addr ty = d\<lparr>
     d_a := put_bits 16 16 addr (put_bits 0 16 104 (d_a d)),
     d_b := put_bits 24 8 (drop_bit 24 addr) (put_bits 16 8 0 (put_bits 8 8 ty
              (put_bits 0 8 (drop_bit 16 addr) (d_b d))))\<rparr>"

definition set_tss_desc :: "desc_struct \<Rightarrow> u32 \<Rightarrow> desc_struct" where
  "set_tss_desc d addr = set_tssldt_desc d addr 0x89"

definition set_ldt_desc :: "desc_struct \<Rightarrow> u32 \<Rightarrow> desc_struct" where
  "set_ldt_desc d addr = set_tssldt_desc d addr 0x82"

text \<open>\<open>movw %dx,%ax; movw $flags,%dx; movl %eax,gate; movl %edx,gate+4\<close> with \<open>eax = 0x00080000\<close>.\<close>

definition set_gate :: "u32 \<Rightarrow> u32 \<Rightarrow> u32 \<Rightarrow> desc_struct" where
  "set_gate ty dpl addr = \<lparr>d_a = put_bits 0 16 addr 0x00080000,
     d_b = put_bits 0 16 (0x8000 + push_bit 13 dpl + push_bit 8 ty) addr\<rparr>"

definition set_intr_gate :: "u32 \<Rightarrow> desc_struct" where
  "set_intr_gate addr = set_gate 14 0 addr"

definition set_trap_gate :: "u32 \<Rightarrow> desc_struct" where
  "set_trap_gate addr = set_gate 15 0 addr"

definition set_system_gate :: "u32 \<Rightarrow> desc_struct" where
  "set_system_gate addr = set_gate 15 3 addr"

text \<open>What the processor reads from a gate.\<close>

definition gate_offset :: "desc_struct \<Rightarrow> u32" where
  "gate_offset d = put_bits 0 16 (d_a d) (d_b d)"

definition gate_selector :: "desc_struct \<Rightarrow> u32" where
  "gate_selector d = get_bits 16 16 (d_a d)"

definition gate_type :: "desc_struct \<Rightarrow> u32" where
  "gate_type d = get_bits 8 4 (d_b d)"

definition gate_dpl :: "desc_struct \<Rightarrow> u32" where
  "gate_dpl d = get_bits 13 2 (d_b d)"

section \<open>Bit fields\<close>

lemma bit_put_bits [simp]:
  "bit (put_bits off len v w) n \<longleftrightarrow>
     (if off \<le> n \<and> n < off + len \<and> n < 32 then bit v (n - off) else bit w n)"
  by (auto simp: put_bits_def bit_simps dest: bit_imp_le_length)

lemma bit_get_bits [simp]: "bit (get_bits off len w) n \<longleftrightarrow> n < len \<and> bit w (off + n)"
  by (auto simp: get_bits_def bit_simps)

lemma base_of_set_base [simp]: "get_base (set_base d base) = base"
  by (rule bit_word_eqI) (auto simp: get_base_def set_base_def bit_simps)

lemma limit_of_set_base [simp]: "get_limit (set_base d base) = get_limit d"
proof -
  have "get_bits 16 4 (d_b (set_base d base)) = get_bits 16 4 (d_b d)"
    "get_bits 0 16 (d_a (set_base d base)) = get_bits 0 16 (d_a d)"
    "bit (d_b (set_base d base)) 23 = bit (d_b d) 23"
    by (auto simp: set_base_def intro!: bit_word_eqI)
  then show ?thesis by (simp add: get_limit_def)
qed

lemma base_of_set_tssldt [simp]: "get_base (set_tssldt_desc d addr ty) = addr"
  by (rule bit_word_eqI) (auto simp: get_base_def set_tssldt_desc_def bit_simps)

lemma base_of_system_desc [simp]:
  "get_base (set_tss_desc d addr) = addr" "get_base (set_ldt_desc d addr) = addr"
  by (simp_all add: set_tss_desc_def set_ldt_desc_def)

text \<open>
  A base written into a descriptor is the base read back from it, and writing the base does
  not disturb the limit, the type or the flags of the segment.
\<close>

theorem get_base_set_base:
  "get_base (set_base d base) = base \<and> get_limit (set_base d base) = get_limit d
   \<and> get_bits 8 16 (d_b (set_base d base)) = get_bits 8 16 (d_b d)"
proof (intro conjI)
  show "get_bits 8 16 (d_b (set_base d base)) = get_bits 8 16 (d_b d)"
    by (rule bit_word_eqI) (auto simp: set_base_def)
qed simp_all

text \<open>
  A limit that is a multiple of 4K (at most 4G minus 4K) written into a page-granular
  descriptor is the limit read back from it, and the base stays as it was.
\<close>

theorem get_limit_set_limit:
  assumes "bit (d_b d) 23" and "lim = push_bit 12 n" and "n \<noteq> 0" and "n < 2 ^ 20"
  shows "get_limit (set_limit d lim) = lim \<and> get_base (set_limit d lim) = get_base d"
proof
  have n: "0 < unat n" "unat n < 2 ^ 20" using assms(3,4) by (simp_all add: word_less_nat_alt unat_gt_0)
  then have ul: "unat lim = unat n * 4096"
    by (simp add: assms(2) push_bit_eq_mult unat_word_ariths)
  then have l1: "1 \<le> lim" using n by (simp add: word_le_nat_alt)
  define k where "k = drop_bit 12 (lim - 1)"
  have "unat (lim - 1) = unat n * 4096 - 1" using ul l1 by (simp add: unat_sub)
  then have uk: "unat k = unat n - 1"
    using n(1) by (simp add: k_def drop_bit_eq_div unat_div)
  have kb: "bit k i \<Longrightarrow> i < 20" for i
  proof -
    have "k < 2 ^ 20" using uk n by (simp add: word_less_nat_alt)
    then have "take_bit 20 k = k" by (simp add: word_unat_eq_iff unsigned_take_bit_eq take_bit_eq_mod word_less_nat_alt unat_mod)
    then show "bit k i \<Longrightarrow> i < 20" by (metis bit_take_bit_iff)
  qed
  have raw: "put_bits 16 4 (get_bits 16 4 (d_b (set_limit d lim))) (get_bits 0 16 (d_a (set_limit d lim))) = k"
  proof (rule bit_word_eqI)
    fix i
    have "j < 4 \<Longrightarrow> \<not> bit (240 :: int) j" for j
      by (auto simp: numeral_eq_Suc less_Suc_eq bit_Suc bit_0)
    then show "bit (put_bits 16 4 (get_bits 16 4 (d_b (set_limit d lim)))
        (get_bits 0 16 (d_a (set_limit d lim)))) i = bit k i"
      using kb [of i] by (auto simp: set_limit_def set_limit_raw_def k_def [symmetric] bit_simps)
  qed
  have g: "bit (d_b (set_limit d lim)) 23"
    using assms(1) by (simp add: set_limit_def set_limit_raw_def bit_simps)
  have "(0xfff :: u32) = mask 12" by (simp add: mask_eq_exp_minus_1)
  moreover have "push_bit 12 k AND (mask 12 :: u32) = 0" by (rule bit_word_eqI) (auto simp: bit_simps)
  ultimately have "push_bit 12 k OR 0xfff = push_bit 12 k + 0xfff"
    by (metis disjunctive_add_eq_or)
  then have "get_limit (set_limit d lim) = push_bit 12 k + 0xfff + 1"
    unfolding get_limit_def Let_def raw using g by simp
  also have "\<dots> = push_bit 12 (k + 1)" by (simp add: push_bit_eq_mult algebra_simps)
  also have "k + 1 = n" using uk n by (simp add: word_unat_eq_iff unat_word_ariths)
  finally show "get_limit (set_limit d lim) = lim" using assms(2) by simp
  show "get_base (set_limit d lim) = get_base d"
    by (rule bit_word_eqI) (auto simp: get_base_def set_limit_def set_limit_raw_def bit_simps)
qed

theorem get_limit_set_limit_witness:
  "get_limit (set_limit \<lparr>d_a = 0x3FFF, d_b = 0xc0fa00\<rparr> 0xA0000) = 0xA0000"
proof -
  have "get_limit (set_limit \<lparr>d_a = 0x3FFF, d_b = 0xc0fa00\<rparr> 0xA0000) = 0xA0000
    \<and> get_base (set_limit \<lparr>d_a = 0x3FFF, d_b = 0xc0fa00\<rparr> 0xA0000) = get_base \<lparr>d_a = 0x3FFF, d_b = 0xc0fa00\<rparr>"
    by (rule get_limit_set_limit [of _ _ 160]) (simp_all add: bit_numeral_rec)
  then show ?thesis by simp
qed

text \<open>
  A TSS or LDT descriptor written for an address has that base and byte limit 104, its type
  byte says present and of its kind, and a gate leads to the given handler in the kernel code
  segment (selector 8) with the type and the privilege level of its macro.
\<close>

theorem system_descriptors:
  "get_base (set_tss_desc d addr) = addr \<and> get_limit (set_tss_desc d addr) = 105
   \<and> get_bits 8 8 (d_b (set_tss_desc d addr)) = 0x89
   \<and> get_base (set_ldt_desc d addr) = addr \<and> get_bits 8 8 (d_b (set_ldt_desc d addr)) = 0x82
   \<and> gate_offset (set_system_gate h) = h \<and> gate_selector (set_system_gate h) = 8
   \<and> gate_dpl (set_system_gate h) = 3 \<and> gate_dpl (set_trap_gate h) = 0 \<and> gate_dpl (set_intr_gate h) = 0
   \<and> gate_type (set_intr_gate h) = 14 \<and> gate_type (set_trap_gate h) = 15"
  (is "?A \<and> ?B \<and> ?C \<and> ?D \<and> ?E \<and> ?F \<and> ?G \<and> ?H \<and> ?I \<and> ?J \<and> ?K \<and> ?L")
proof -
  have ty: "get_bits 8 8 (d_b (set_tssldt_desc d addr ty)) = take_bit 8 ty" for ty
    by (rule bit_word_eqI) (auto simp: set_tssldt_desc_def bit_simps)
  have "take_bit 16 (104 :: int) = 104" by simp
  then have b104: "16 \<le> n \<Longrightarrow> \<not> bit (104 :: int) n" for n by (metis bit_take_bit_iff not_le)
  have lo: "get_bits 0 16 (d_a (set_tssldt_desc d addr ty)) = 104" for ty
    by (rule bit_word_eqI) (auto simp: set_tssldt_desc_def bit_simps b104)
  have hi: "put_bits 16 4 (get_bits 16 4 (d_b (set_tssldt_desc d addr ty))) 104 = 104"
    "\<not> bit (d_b (set_tssldt_desc d addr ty)) 23" for ty
    by (auto intro!: bit_word_eqI simp: set_tssldt_desc_def bit_simps b104 split: if_splits)
  have off: "gate_offset (set_gate t p h) = h" for t p
    by (rule bit_word_eqI) (auto simp: gate_offset_def set_gate_def)
  have ?A ?B ?C ?D ?E ?F
    by (simp_all add: set_tss_desc_def set_ldt_desc_def ty get_limit_def lo hi set_system_gate_def off)
  moreover have "get_bits 16 16 (put_bits 0 16 v w) = get_bits 16 16 w" for v w
    by (rule bit_word_eqI) simp
  then have ?G
    by (simp add: gate_selector_def set_system_gate_def set_gate_def) (simp add: get_bits_def)
  moreover have "off + len \<le> 16 \<Longrightarrow> get_bits off len (put_bits 0 16 v w) = get_bits off len v" for off len v w
    by (rule bit_word_eqI) auto
  then have ?H ?I ?J ?K ?L
    by (simp_all add: gate_dpl_def gate_type_def set_system_gate_def set_trap_gate_def
        set_intr_gate_def set_gate_def) (simp_all add: get_bits_def)
  ultimately show ?thesis by blast
qed

end
