(* ===== verification/Sched.thy ===== *)
theory Sched
  imports Prelude Descriptors
begin

text \<open>
  Tasks, the scheduler and the wait queues: include/kernel/schedule.h, kernel/schedule.c and
  \<open>find_empty_process\<close> of kernel/fork.c. Task structures live in a store indexed by their
  address (0 is NULL); \<open>long\<close> fields are 32 bit words read as signed where the code compares them.
  A pointer to an in-core inode or to an open file is its index in \<open>inode_table\<close> or \<open>file_table\<close>.
\<close>

section \<open>Data (include/kernel/schedule.h)\<close>

abbreviation (input) NR_TASKS :: nat where "NR_TASKS \<equiv> 8"
abbreviation (input) NR_OPEN :: nat where "NR_OPEN \<equiv> 20"
abbreviation (input) TASK_RUNNING :: u32 where "TASK_RUNNING \<equiv> 0"
abbreviation (input) TASK_INTERRUPTIBLE :: u32 where "TASK_INTERRUPTIBLE \<equiv> 1"
abbreviation (input) TASK_UNINTERRUPTIBLE :: u32 where "TASK_UNINTERRUPTIBLE \<equiv> 2"
abbreviation (input) FIRST_TSS_ENTRY :: nat where "FIRST_TSS_ENTRY \<equiv> 4"
abbreviation (input) FIRST_LDT_ENTRY :: nat where "FIRST_LDT_ENTRY \<equiv> 5"

definition TSS_sel :: "nat \<Rightarrow> u32" where
  "TSS_sel n = push_bit 4 (of_nat n) + push_bit 3 (of_nat FIRST_TSS_ENTRY)"

definition LDT_sel :: "nat \<Rightarrow> u32" where
  "LDT_sel n = push_bit 4 (of_nat n) + push_bit 3 (of_nat FIRST_LDT_ENTRY)"

record tss_struct =
  back_link :: u32
  esp0 :: u32
  ss0 :: u32
  esp1 :: u32
  ss1 :: u32
  esp2 :: u32
  ss2 :: u32
  cr3 :: u32
  eip :: u32
  eflags :: u32
  eax :: u32
  ecx :: u32
  edx :: u32
  ebx :: u32
  esp :: u32
  ebp :: u32
  esi :: u32
  edi :: u32
  es :: u32
  cs :: u32
  ss :: u32
  ds :: u32
  fs :: u32
  gs :: u32
  ldt_sel :: u32
  trace_bitmap :: u32

record task_struct =
  t_state :: u32
  t_counter :: u32
  t_priority :: u32
  t_pid :: u32
  t_father :: u32
  t_pgrp :: u32
  t_session :: u32
  t_leader :: u32
  t_tty :: u32
  t_umask :: u16
  t_pwd :: "nat option"
  t_root :: "nat option"
  t_executable :: "nat option"
  t_close_on_exec :: u32
  t_uid :: u16
  t_euid :: u16
  t_suid :: u16
  t_gid :: u16
  t_egid :: u16
  t_sgid :: u16
  t_filp :: "nat \<Rightarrow> nat option"
  t_exit_code :: u32
  t_start_code :: u32
  t_end_code :: u32
  t_end_data :: u32
  t_brk :: u32
  t_start_stack :: u32
  t_ldt :: "nat \<Rightarrow> desc_struct"
  t_tss :: tss_struct

text \<open>\<open>INIT_TASK\<close>; the two arguments are the addresses of \<open>init_task\<close> and of \<open>_pg_dir\<close>.\<close>

definition INIT_TASK :: "u32 \<Rightarrow> u32 \<Rightarrow> task_struct" where
  "INIT_TASK init_task pgdir = \<lparr>t_state = 0, t_counter = 15, t_priority = 15, t_pid = 0, t_father = -1,
     t_pgrp = 0, t_session = 0, t_leader = 0, t_tty = -1, t_umask = 18,
     t_pwd = None, t_root = None, t_executable = None, t_close_on_exec = 0,
     t_uid = 0, t_euid = 0, t_suid = 0, t_gid = 0, t_egid = 0, t_sgid = 0, t_filp = (\<lambda>_. None),
     t_exit_code = 0, t_start_code = 0, t_end_code = 0, t_end_data = 0, t_brk = 0, t_start_stack = 0,
     t_ldt = (\<lambda>i. if i = 1 then \<lparr>d_a = 0x3FFF, d_b = 0xc0fa00\<rparr>
                  else if i = 2 then \<lparr>d_a = 0x3FFF, d_b = 0xc0f200\<rparr> else \<lparr>d_a = 0, d_b = 0\<rparr>),
     t_tss = \<lparr>back_link = 0, esp0 = 4096 + init_task, ss0 = 0x10, esp1 = 0, ss1 = 0, esp2 = 0, ss2 = 0,
       cr3 = pgdir, eip = 0, eflags = 0, eax = 0, ecx = 0, edx = 0, ebx = 0, esp = 0, ebp = 0,
       esi = 0, edi = 0, es = 0x17, cs = 0x17, ss = 0x17, ds = 0x17, fs = 0x17, gs = 0x1B,
       ldt_sel = LDT_sel 0, trace_bitmap = 0x80000000\<rparr>\<rparr>"

record sched =
  tasks :: "u32 \<Rightarrow> task_struct"
  task :: "nat \<Rightarrow> u32"
  current :: u32
  init_task :: u32
  last_pid :: u32
  gdt :: "nat \<Rightarrow> desc_struct"
  idt :: "nat \<Rightarrow> desc_struct"

section \<open>The scheduler (kernel/schedule.c)\<close>

definition upd_task :: "u32 \<Rightarrow> (task_struct \<Rightarrow> task_struct) \<Rightarrow> sched \<Rightarrow> sched" where
  "upd_task p f k = k\<lparr>tasks := (tasks k)(p := f (tasks k p))\<rparr>"

text \<open>\<open>while (--i >= 0) ...\<close>: the search for the runnable task with the largest counter.\<close>

fun sched_scan :: "sched \<Rightarrow> nat \<Rightarrow> u32 \<Rightarrow> nat \<Rightarrow> u32 \<times> nat" where
  "sched_scan k 0 c nxt = (c, nxt)"
| "sched_scan k (Suc i) c nxt =
     (let p = task k i
      in if p = 0 then sched_scan k i c nxt
         else if t_state (tasks k p) = TASK_RUNNING \<and> c <s t_counter (tasks k p)
         then sched_scan k i (t_counter (tasks k p)) i
         else sched_scan k i c nxt)"

text \<open>\<open>for (p = &LAST_TASK; p >= &FIRST_TASK; --p)\<close>: new counters for every task.\<close>

primrec recalc :: "nat \<Rightarrow> sched \<Rightarrow> sched" where
  "recalc 0 k = k"
| "recalc (Suc i) k =
     recalc i (if task k i = 0 then k
               else upd_task (task k i)
                 (\<lambda>t. t\<lparr>t_counter := signed_drop_bit 1 (t_counter t) + t_priority t\<rparr>) k)"

text \<open>The \<open>while (1)\<close> loop; \<open>None\<close> is a loop that never ends.\<close>

partial_function (option) schedule_loop :: "sched \<Rightarrow> (nat \<times> sched) option" where
  "schedule_loop k =
     (case sched_scan k NR_TASKS (-1) 0 of
        (c, nxt) \<Rightarrow> if 0 <s c then Some (nxt, k) else schedule_loop (recalc NR_TASKS k))"

definition switch_to :: "nat \<Rightarrow> sched \<Rightarrow> sched" where
  "switch_to n k = (if task k n = current k then k else k\<lparr>current := task k n\<rparr>)"

definition schedule :: "sched \<Rightarrow> sched option" where
  "schedule k = map_option (\<lambda>(nxt, k1). switch_to nxt k1) (schedule_loop k)"

definition do_timer :: "u32 \<Rightarrow> sched \<Rightarrow> sched option" where
  "do_timer cpl k =
     (let k1 = upd_task (current k) (\<lambda>t. t\<lparr>t_counter := t_counter t - 1\<rparr>) k
      in if 0 <s t_counter (tasks k1 (current k1)) then Some k1
         else (let k2 = upd_task (current k1) (\<lambda>t. t\<lparr>t_counter := 0\<rparr>) k1
               in if cpl = 0 then Some k2 else schedule k2))"

text \<open>
  \<open>schedule_init\<close>: descriptors of task 0, every other slot empty, and the gates of the timer and of
  the system call, whose handlers' addresses are arguments. Loading the task register and
  programming the timer chip and the interrupt controller have no counterpart in the state.
\<close>

primrec clear_slots :: "nat \<Rightarrow> sched \<Rightarrow> sched" where
  "clear_slots 0 k = k"
| "clear_slots (Suc n) k =
     (let k1 = clear_slots n k; i = Suc n; d = 2 + FIRST_TSS_ENTRY + 2 * n; z = \<lparr>d_a = 0, d_b = 0\<rparr>
      in k1\<lparr>task := (task k1)(i := 0), gdt := (gdt k1)(d := z, Suc d := z)\<rparr>)"

definition schedule_init :: "u32 \<Rightarrow> u32 \<Rightarrow> u32 \<Rightarrow> u32 \<Rightarrow> sched \<Rightarrow> sched" where
  "schedule_init tss_addr ldt_addr timer_interrupt system_call k =
     (let k1 = k\<lparr>gdt := (gdt k)(FIRST_TSS_ENTRY := set_tss_desc (gdt k FIRST_TSS_ENTRY) tss_addr,
                        FIRST_LDT_ENTRY := set_ldt_desc (gdt k FIRST_LDT_ENTRY) ldt_addr)\<rparr>;
          k2 = clear_slots (NR_TASKS - 1) k1
      in k2\<lparr>idt := (idt k2)(0x20 := set_intr_gate timer_interrupt, 0x80 := set_system_gate system_call)\<rparr>)"

section \<open>Wait queues\<close>

text \<open>
  A wait queue is a pointer to the task that went to sleep on it last. \<open>sleep_on\<close> is two halves
  with a task switch between them: \<open>sleep_on_enter\<close> runs up to \<open>schedule()\<close> (which is included) and
  \<open>sleep_on_leave\<close> from its return; \<open>tmp\<close>, on the kernel stack of the sleeper, links them.
\<close>

definition sleep_on_enter :: "u32 \<Rightarrow> sched \<Rightarrow> (u32 \<times> u32 \<times> sched) option" where
  "sleep_on_enter head k =
     (if current k = init_task k then None
      else (let tmp = head; head' = current k;
                k1 = upd_task (current k) (\<lambda>t. t\<lparr>t_state := TASK_UNINTERRUPTIBLE\<rparr>) k
            in map_option (\<lambda>k2. (tmp, head', k2)) (schedule k1)))"

definition sleep_on_leave :: "u32 \<Rightarrow> sched \<Rightarrow> u32 \<times> sched" where
  "sleep_on_leave tmp k =
     (tmp, if tmp = 0 then k else upd_task tmp (\<lambda>t. t\<lparr>t_state := TASK_RUNNING\<rparr>) k)"

definition wake_up :: "u32 \<Rightarrow> sched \<Rightarrow> u32 \<times> sched" where
  "wake_up head k =
     (if head = 0 then (head, k) else (0, upd_task head (\<lambda>t. t\<lparr>t_state := TASK_RUNNING\<rparr>) k))"

text \<open>
  \<open>interruptible_sleep_on\<close>: the entry, and one return from \<open>schedule()\<close>. The latter either goes
  round again (\<open>Inl\<close>: the head is woken and the task sleeps once more) or leaves (\<open>Inr\<close>).
\<close>

definition interruptible_sleep_on_enter :: "u32 \<Rightarrow> sched \<Rightarrow> (u32 \<times> u32 \<times> sched) kres" where
  "interruptible_sleep_on_enter head k =
     (if current k = init_task k then Inl (Panic ''task[0] trying to sleep'')
      else (let k1 = upd_task (current k) (\<lambda>t. t\<lparr>t_state := TASK_INTERRUPTIBLE\<rparr>) k
            in case schedule k1 of None \<Rightarrow> Inl Hang | Some k2 \<Rightarrow> Inr (head, current k, k2)))"

definition interruptible_sleep_on_resume ::
    "u32 \<Rightarrow> u32 \<Rightarrow> sched \<Rightarrow> (u32 \<times> sched) kres + (u32 \<times> sched)" where
  "interruptible_sleep_on_resume tmp head k =
     (if head \<noteq> 0 \<and> head \<noteq> current k then
        Inl (let k1 = upd_task head (\<lambda>t. t\<lparr>t_state := TASK_RUNNING\<rparr>) k;
                 k2 = upd_task (current k1) (\<lambda>t. t\<lparr>t_state := TASK_INTERRUPTIBLE\<rparr>) k1
             in case schedule k2 of None \<Rightarrow> Inl Hang | Some k3 \<Rightarrow> Inr (head, k3))
      else Inr (tmp, if tmp = 0 then k else upd_task tmp (\<lambda>t. t\<lparr>t_state := TASK_RUNNING\<rparr>) k))"

section \<open>Process numbers (kernel/fork.c)\<close>

definition next_pid :: "u32 \<Rightarrow> u32" where
  "next_pid p = (if p + 1 <s 0 then 1 else p + 1)"

definition pid_taken :: "sched \<Rightarrow> u32 \<Rightarrow> bool" where
  "pid_taken k p \<longleftrightarrow> list_ex (\<lambda>i. task k i \<noteq> 0 \<and> t_pid (tasks k (task k i)) = p) [0..<NR_TASKS]"

partial_function (option) find_pid :: "sched \<Rightarrow> u32 \<Rightarrow> u32 option" where
  "find_pid k p =
     (let p1 = next_pid p in if pid_taken k p1 then find_pid k p1 else Some p1)"

definition EAGAIN :: int where "EAGAIN = 11"

definition find_empty_process :: "sched \<Rightarrow> (int \<times> sched) option" where
  "find_empty_process k =
     map_option (\<lambda>p. (case find (\<lambda>i. task k i = 0) [1..<NR_TASKS] of
         Some i \<Rightarrow> int i | None \<Rightarrow> - EAGAIN, k\<lparr>last_pid := p\<rparr>))
       (find_pid k (last_pid k))"

section \<open>What schedule() promises\<close>

definition runnable :: "sched \<Rightarrow> nat \<Rightarrow> bool" where
  "runnable k i \<longleftrightarrow> task k i \<noteq> 0 \<and> t_state (tasks k (task k i)) = TASK_RUNNING"

definition ctr :: "sched \<Rightarrow> nat \<Rightarrow> int" where
  "ctr k i = sint (t_counter (tasks k (task k i)))"

text \<open>The runnable slot with the largest counter; among equal counters the highest slot.\<close>

definition best_slot :: "sched \<Rightarrow> nat \<Rightarrow> bool" where
  "best_slot k n \<longleftrightarrow> n < NR_TASKS \<and> runnable k n \<and> 0 < ctr k n
     \<and> (\<forall>i<NR_TASKS. runnable k i \<longrightarrow> ctr k i \<le> ctr k n \<and> (n < i \<longrightarrow> ctr k i < ctr k n))"

text \<open>Two scheduler states that differ at most in the counters of the tasks.\<close>

definition same_but_counters :: "sched \<Rightarrow> sched \<Rightarrow> bool" where
  "same_but_counters k k' \<longleftrightarrow> (\<exists>c. k' = k\<lparr>tasks := \<lambda>p. (tasks k p)\<lparr>t_counter := c p\<rparr>\<rparr>)"

lemma same_but_counters_refl [simp]: "same_but_counters k k"
  unfolding same_but_counters_def
  by (rule exI[of _ "\<lambda>p. t_counter (tasks k p)"]) simp

lemma same_but_counters_upd: "same_but_counters k (upd_task p (\<lambda>t. t\<lparr>t_counter := f t\<rparr>) k)"
  unfolding same_but_counters_def
  by (rule exI[of _ "\<lambda>q. if q = p then f (tasks k p) else t_counter (tasks k q)"])
    (simp add: upd_task_def fun_eq_iff)

lemma same_but_counters_field:
  assumes "same_but_counters k k'"
  shows "task k' = task k" "current k' = current k" "t_state (tasks k' p) = t_state (tasks k p)"
    "t_priority (tasks k' p) = t_priority (tasks k p)" "t_pid (tasks k' p) = t_pid (tasks k p)"
    "init_task k' = init_task k" "last_pid k' = last_pid k"
  using assms by (auto simp: same_but_counters_def)

lemma same_but_counters_trans:
  assumes "same_but_counters a b" and "same_but_counters b c"
  shows "same_but_counters a c"
  using assms by (auto simp: same_but_counters_def)

lemma same_but_counters_runnable:
  "same_but_counters k k' \<Longrightarrow> runnable k' i = runnable k i"
  by (simp add: runnable_def same_but_counters_field)

lemma sched_scan_spec:
  assumes "sched_scan k n c nx = (c', nx')"
  shows "(c' = c \<and> nx' = nx \<and> (\<forall>i<n. runnable k i \<longrightarrow> ctr k i \<le> sint c))
    \<or> (nx' < n \<and> runnable k nx' \<and> sint c < sint c' \<and> sint c' = ctr k nx'
       \<and> (\<forall>i<n. runnable k i \<longrightarrow> ctr k i \<le> sint c' \<and> (nx' < i \<longrightarrow> ctr k i < sint c')))"
  using assms
proof (induction k n c nx rule: sched_scan.induct)
  case (1 k c nxt)
  then show ?case by simp
next
  case (2 k n c nx)
  show ?case
  proof (cases "runnable k n \<and> sint c < ctr k n")
    case True
    then have T: "task k n \<noteq> 0" "t_state (tasks k (task k n)) = 0" "c <s t_counter (tasks k (task k n))"
      by (auto simp: runnable_def ctr_def word_sless_alt)
    then have "sched_scan k n (t_counter (tasks k (task k n))) n = (c', nx')"
      using "2.prems" by (simp add: Let_def)
    note IH = "2.IH"(2)[OF refl T(1) conjI[OF T(2,3)] this]
    from IH True show ?thesis
      by (auto simp: less_Suc_eq ctr_def)
  next
    case False
    then have "sched_scan k n c nx = (c', nx')"
      using "2.prems" by (simp add: Let_def runnable_def ctr_def word_sless_alt split: if_splits)
    then have "(c' = c \<and> nx' = nx \<and> (\<forall>i<n. runnable k i \<longrightarrow> ctr k i \<le> sint c))
      \<or> (nx' < n \<and> runnable k nx' \<and> sint c < sint c' \<and> sint c' = ctr k nx'
       \<and> (\<forall>i<n. runnable k i \<longrightarrow> ctr k i \<le> sint c' \<and> (nx' < i \<longrightarrow> ctr k i < sint c')))"
      using "2.IH"(1,3) False by (auto simp: runnable_def ctr_def word_sless_alt)
    with False show ?thesis by (auto simp: less_Suc_eq)
  qed
qed

lemma sched_scan_best:
  assumes "sched_scan k NR_TASKS (-1) 0 = (c, n)"
  shows "0 <s c \<longleftrightarrow> best_slot k n" and "0 <s c \<longleftrightarrow> (\<exists>i<NR_TASKS. runnable k i \<and> 0 < ctr k i)"
  using sched_scan_spec[OF assms] by (auto simp: best_slot_def word_sless_alt)

lemma recalc_same: "same_but_counters k (recalc n k)"
proof (induction n arbitrary: k)
  case (Suc n)
  show ?case
  proof (cases "task k n = 0")
    case True
    with Suc show ?thesis by simp
  next
    case False
    show ?thesis
      by (simp only: recalc.simps False if_False)
        (rule same_but_counters_trans[OF same_but_counters_upd Suc])
  qed
qed simp

lemma schedule_loop_best:
  assumes "schedule_loop k = Some r"
  shows "best_slot (snd r) (fst r) \<and> same_but_counters k (snd r)"
proof (rule schedule_loop.raw_induct[where P = "\<lambda>k r. best_slot (snd r) (fst r) \<and> same_but_counters k (snd r)", OF _ assms])
  fix loop k r
  assume IH: "\<And>k r. loop k = Some r \<Longrightarrow> best_slot (snd r) (fst r) \<and> same_but_counters k (snd r)"
    and R: "(case sched_scan k NR_TASKS (-1) 0 of
        (c, nxt) \<Rightarrow> if 0 <s c then Some (nxt, k) else loop (recalc NR_TASKS k)) = Some r"
  obtain c n where S: "sched_scan k NR_TASKS (-1) 0 = (c, n)" by force
  show "best_slot (snd r) (fst r) \<and> same_but_counters k (snd r)"
  proof (cases "0 <s c")
    case True
    with R S have "r = (n, k)" by simp
    with True sched_scan_best(1)[OF S] show ?thesis by simp
  next
    case False
    with R S have "loop (recalc NR_TASKS k) = Some r" by simp
    from IH[OF this] show ?thesis
      using recalc_same same_but_counters_trans by blast
  qed
qed

lemma schedule_best:
  assumes "schedule k = Some k'"
  shows "\<exists>n. best_slot k' n \<and> current k' = task k n \<and> task k' = task k
    \<and> same_but_counters k (k'\<lparr>current := current k\<rparr>)"
proof -
  obtain n k1 where L: "schedule_loop k = Some (n, k1)" and k': "k' = switch_to n k1"
    using assms by (auto simp: schedule_def)
  have B: "best_slot k1 n" and S: "same_but_counters k k1"
    using schedule_loop_best[OF L] by auto
  have "k' = k1\<lparr>current := task k1 n\<rparr>" by (auto simp: k' switch_to_def)
  moreover from this B have "best_slot k' n"
    by (auto simp: best_slot_def runnable_def ctr_def)
  moreover have "k1\<lparr>current := current k\<rparr> = k1"
    using same_but_counters_field(2)[OF S] by (cases k1) simp
  ultimately show ?thesis using S same_but_counters_field(1)[OF S] by auto
qed

section \<open>The scheduler's invariant\<close>

text \<open>Every slot has a task structure of its own, and its counter stays within twice its priority.\<close>

definition ctr_ok :: "task_struct \<Rightarrow> bool" where
  "ctr_ok t \<longleftrightarrow> 0 < sint (t_priority t) \<and> sint (t_priority t) \<le> 0x3fffffff
     \<and> 0 \<le> sint (t_counter t) \<and> sint (t_counter t) \<le> 2 * sint (t_priority t)"

definition sched_inv :: "sched \<Rightarrow> bool" where
  "sched_inv k \<longleftrightarrow> (\<forall>i<NR_TASKS. task k i \<noteq> 0 \<longrightarrow> ctr_ok (tasks k (task k i)))
     \<and> (\<forall>i<NR_TASKS. \<forall>j<NR_TASKS. task k i \<noteq> 0 \<longrightarrow> task k i = task k j \<longrightarrow> i = j)"

definition new_counter :: "task_struct \<Rightarrow> u32" where
  "new_counter t = signed_drop_bit 1 (t_counter t) + t_priority t"

lemma sint_new_counter:
  assumes "ctr_ok t"
  shows "sint (new_counter t) = sint (t_counter t) div 2 + sint (t_priority t)"
proof -
  have d: "sint (signed_drop_bit 1 (t_counter t)) = sint (t_counter t) div 2"
    by (simp add: sint_signed_drop_bit_eq drop_bit_eq_div)
  have "sint (new_counter t) = signed_take_bit 31 (sint (t_counter t) div 2 + sint (t_priority t))"
    unfolding new_counter_def d[symmetric] by (simp add: sint_word_ariths)
  also have "\<dots> = sint (t_counter t) div 2 + sint (t_priority t)"
    using assms by (intro signed_take_bit_int_eq_self) (auto simp: ctr_ok_def)
  finally show ?thesis .
qed

lemma ctr_ok_new_counter:
  "ctr_ok t \<Longrightarrow> ctr_ok (t\<lparr>t_counter := new_counter t\<rparr>) \<and> 0 < sint (new_counter t)"
  using sint_new_counter[of t] by (auto simp: ctr_ok_def)

lemma recalc_tasks:
  assumes "n \<le> NR_TASKS" and "\<And>i j. i < NR_TASKS \<Longrightarrow> j < NR_TASKS \<Longrightarrow> task k i \<noteq> 0 \<Longrightarrow> task k i = task k j \<Longrightarrow> i = j"
  shows "tasks (recalc n k) p =
    (if \<exists>i<n. task k i = p \<and> p \<noteq> 0 then (tasks k p)\<lparr>t_counter := new_counter (tasks k p)\<rparr> else tasks k p)"
  using assms
proof (induction n arbitrary: k)
  case (Suc n)
  let ?k = "if task k n = 0 then k else upd_task (task k n) (\<lambda>t. t\<lparr>t_counter := new_counter t\<rparr>) k"
  have t: "task ?k = task k" by (simp add: upd_task_def)
  have IH: "tasks (recalc n ?k) p = (if \<exists>i<n. task k i = p \<and> p \<noteq> 0
      then (tasks ?k p)\<lparr>t_counter := new_counter (tasks ?k p)\<rparr> else tasks ?k p)"
    using Suc.IH[of ?k] Suc.prems by (simp add: t)
  have uniq: "task k i \<noteq> task k n \<or> task k n = 0" if "i < n" for i
    using Suc.prems(1) Suc.prems(2)[of i n] that by fastforce
  have "recalc (Suc n) k = recalc n ?k" by (simp add: new_counter_def)
  with IH show ?case using uniq by (auto simp: upd_task_def less_Suc_eq)
qed simp

lemma recalc_inv:
  assumes "sched_inv k"
  shows "sched_inv (recalc NR_TASKS k)"
    and "i < NR_TASKS \<Longrightarrow> task k i \<noteq> 0 \<Longrightarrow> 0 < ctr (recalc NR_TASKS k) i"
proof -
  let ?k = "recalc NR_TASKS k"
  have T: "tasks ?k p = (if \<exists>i<NR_TASKS. task k i = p \<and> p \<noteq> 0
      then (tasks k p)\<lparr>t_counter := new_counter (tasks k p)\<rparr> else tasks k p)" for p
    using assms by (intro recalc_tasks) (auto simp: sched_inv_def)
  have t: "task ?k = task k" by (rule same_but_counters_field(1)[OF recalc_same])
  have N: "ctr_ok (tasks ?k (task k i)) \<and> 0 < sint (t_counter (tasks ?k (task k i)))"
    if "i < NR_TASKS" "task k i \<noteq> 0" for i
  proof -
    have "tasks ?k (task k i) = (tasks k (task k i))\<lparr>t_counter := new_counter (tasks k (task k i))\<rparr>"
      using that by (auto simp: T)
    moreover have "ctr_ok (tasks k (task k i))" using assms that by (auto simp: sched_inv_def)
    ultimately show ?thesis using ctr_ok_new_counter by simp
  qed
  show "sched_inv ?k" using N assms unfolding sched_inv_def t by blast
  show "0 < ctr ?k i" if "i < NR_TASKS" "task k i \<noteq> 0" using N[OF that] by (simp add: ctr_def t)
qed

lemma schedule_loop_returns:
  assumes "sched_inv k" and "\<exists>i<NR_TASKS. runnable k i"
  shows "\<exists>n k'. schedule_loop k = Some (n, k') \<and> sched_inv k'"
proof (cases "\<exists>i<NR_TASKS. runnable k i \<and> 0 < ctr k i")
  case True
  obtain c n where S: "sched_scan k NR_TASKS (-1) 0 = (c, n)" by force
  with True have "schedule_loop k = Some (n, k)"
    using sched_scan_best(2)[OF S] by (subst schedule_loop.simps) simp
  with assms show ?thesis by blast
next
  case False
  let ?k = "recalc NR_TASKS k"
  obtain c n where S: "sched_scan k NR_TASKS (-1) 0 = (c, n)" by force
  obtain c' n' where S': "sched_scan ?k NR_TASKS (-1) 0 = (c', n')" by force
  have t: "task ?k = task k" by (rule same_but_counters_field(1)[OF recalc_same])
  obtain i where i: "i < NR_TASKS" "runnable k i" using assms(2) by blast
  then have "runnable ?k i" "0 < ctr ?k i"
    using recalc_inv(2)[OF assms(1), of i] same_but_counters_runnable[OF recalc_same]
    by (auto simp: runnable_def)
  with i have "0 <s c'" using sched_scan_best(2)[OF S'] by blast
  with S' have "schedule_loop ?k = Some (n', ?k)" by (subst schedule_loop.simps) simp
  moreover have "schedule_loop k = schedule_loop ?k"
    using S sched_scan_best(2)[OF S] False by (subst schedule_loop.simps) simp
  ultimately show ?thesis using recalc_inv(1)[OF assms(1)] by simp
qed

lemma sched_inv_switch: "sched_inv (k\<lparr>current := c\<rparr>) = sched_inv k"
  by (simp add: sched_inv_def)

lemma schedule_returns:
  assumes "sched_inv k" and "\<exists>i<NR_TASKS. runnable k i"
  shows "\<exists>k'. schedule k = Some k' \<and> sched_inv k'"
proof -
  obtain n k' where "schedule_loop k = Some (n, k')" "sched_inv k'"
    using schedule_loop_returns[OF assms] by blast
  then show ?thesis by (simp add: schedule_def switch_to_def sched_inv_switch)
qed

lemma schedule_first_scan:
  assumes "\<exists>i<NR_TASKS. runnable k i \<and> 0 < ctr k i"
  shows "\<exists>m. best_slot k m \<and> schedule k = Some (k\<lparr>current := task k m\<rparr>)"
proof -
  obtain c m where S: "sched_scan k NR_TASKS (-1) 0 = (c, m)" by force
  have c: "0 <s c" using sched_scan_best(2)[OF S] assms by blast
  then have "schedule_loop k = Some (m, k)" using S by (subst schedule_loop.simps) simp
  then have "schedule k = Some (k\<lparr>current := task k m\<rparr>)"
    by (simp add: schedule_def switch_to_def)
  with c show ?thesis using sched_scan_best(1)[OF S] by blast
qed

lemma recalc_exact:
  assumes "sched_inv k"
  shows "recalc NR_TASKS k = k\<lparr>tasks := tasks (recalc NR_TASKS k)\<rparr>"
    and "tasks (recalc NR_TASKS k) p = (tasks k p)\<lparr>t_counter := t_counter (tasks (recalc NR_TASKS k) p)\<rparr>"
    and "p \<notin> task k ` {..<NR_TASKS} \<Longrightarrow> tasks (recalc NR_TASKS k) p = tasks k p"
    and "i < NR_TASKS \<Longrightarrow> task k i \<noteq> 0 \<Longrightarrow> ctr (recalc NR_TASKS k) i = ctr k i div 2 + sint (t_priority (tasks k (task k i)))"
proof -
  let ?k = "recalc NR_TASKS k"
  have T: "tasks ?k p = (if \<exists>i<NR_TASKS. task k i = p \<and> p \<noteq> 0
      then (tasks k p)\<lparr>t_counter := new_counter (tasks k p)\<rparr> else tasks k p)" for p
    using assms by (intro recalc_tasks) (auto simp: sched_inv_def)
  obtain c where c: "?k = k\<lparr>tasks := \<lambda>p. (tasks k p)\<lparr>t_counter := c p\<rparr>\<rparr>"
    using recalc_same[of k NR_TASKS] by (auto simp: same_but_counters_def)
  show "?k = k\<lparr>tasks := tasks ?k\<rparr>" "tasks ?k p = (tasks k p)\<lparr>t_counter := t_counter (tasks ?k p)\<rparr>" by (simp_all add: c)
  show "tasks ?k p = tasks k p" if "p \<notin> task k ` {..<NR_TASKS}" using that by (auto simp: T)
  show "ctr ?k i = ctr k i div 2 + sint (t_priority (tasks k (task k i)))" if "i < NR_TASKS" "task k i \<noteq> 0"
  proof -
    have "tasks ?k (task k i) = (tasks k (task k i))\<lparr>t_counter := new_counter (tasks k (task k i))\<rparr>" using that by (auto simp: T)
    moreover have "ctr_ok (tasks k (task k i))" using assms that by (auto simp: sched_inv_def)
    moreover have "task ?k = task k" by (simp add: c)
    ultimately show ?thesis by (simp add: ctr_def sint_new_counter)
  qed
qed

lemma schedule_recharges:
  assumes "sched_inv k" and "\<exists>i<NR_TASKS. runnable k i" and "\<not> (\<exists>i<NR_TASKS. runnable k i \<and> 0 < ctr k i)"
  shows "\<exists>m. best_slot (recalc NR_TASKS k) m \<and> schedule k = Some ((recalc NR_TASKS k)\<lparr>current := task k m\<rparr>)"
proof -
  let ?k = "recalc NR_TASKS k"
  have t: "task ?k = task k" by (rule same_but_counters_field(1)[OF recalc_same])
  obtain i where i: "i < NR_TASKS" "runnable k i" using assms(2) by blast
  have "runnable ?k i" "0 < ctr ?k i"
    using i recalc_inv(2)[OF assms(1), of i] same_but_counters_runnable[OF recalc_same] by (auto simp: runnable_def)
  then obtain m where m: "best_slot ?k m" "schedule ?k = Some (?k\<lparr>current := task ?k m\<rparr>)"
    using schedule_first_scan[of ?k] i(1) by blast
  obtain c n where S: "sched_scan k NR_TASKS (-1) 0 = (c, n)" by force
  have "schedule_loop k = schedule_loop ?k"
    using S sched_scan_best(2)[OF S] assms(3) by (subst schedule_loop.simps) simp
  then have "schedule k = schedule ?k" by (simp add: schedule_def)
  with m t show ?thesis by auto
qed

text \<open>
  C9: Under the scheduler's invariant (each slot its own task structure, counters between 0 and twice the priority) and with some task
  runnable, \<open>schedule()\<close> returns. When some runnable task has time left, the only change is that the runnable task with the
  largest counter, the highest slot winning ties, becomes the current one: no counter changes. When the time of every runnable task has
  expired, every task, asleep or not, gets a new counter, half of its old one plus its priority, nothing else of it changes, and the
  choice is made by the new counters; the invariant is kept.
\<close>

theorem schedule_spec:
  assumes "sched_inv k" and "\<exists>i<NR_TASKS. runnable k i"
  shows "\<exists>k' n. schedule k = Some (k'\<lparr>current := task k n\<rparr>) \<and> best_slot k' n \<and> sched_inv k'
    \<and> (if \<exists>i<NR_TASKS. runnable k i \<and> 0 < ctr k i then k' = k
       else k' = k\<lparr>tasks := tasks k'\<rparr>
         \<and> (\<forall>i<NR_TASKS. task k i \<noteq> 0 \<longrightarrow> ctr k' i = ctr k i div 2 + sint (t_priority (tasks k (task k i))))
         \<and> (\<forall>p. tasks k' p = (tasks k p)\<lparr>t_counter := t_counter (tasks k' p)\<rparr>)
         \<and> (\<forall>p. p \<notin> task k ` {..<NR_TASKS} \<longrightarrow> tasks k' p = tasks k p))"
proof (cases "\<exists>i<NR_TASKS. runnable k i \<and> 0 < ctr k i")
  case True
  then show ?thesis using schedule_first_scan[OF True] assms(1) by (intro exI[of _ k]) auto
next
  case False
  obtain m where m: "best_slot (recalc NR_TASKS k) m" "schedule k = Some ((recalc NR_TASKS k)\<lparr>current := task k m\<rparr>)"
    using schedule_recharges[OF assms False] by blast
  show ?thesis
    by (rule exI[of _ "recalc NR_TASKS k"], rule exI[of _ m], subst if_not_P[OF False], intro conjI allI impI)
      (use m recalc_inv(1)[OF assms(1)] recalc_exact[OF assms(1)] in \<open>simp_all\<close>)
qed

text \<open>
  If no task at all is runnable the loop of \<open>schedule()\<close> never ends: there is no fall-back to task 0.
\<close>

theorem schedule_spins_when_idle:
  assumes "\<not> (\<exists>i<NR_TASKS. runnable k i)"
  shows "schedule k = None"
proof (cases "schedule_loop k")
  case (Some r)
  then have "\<exists>i<NR_TASKS. runnable (snd r) i"
    using schedule_loop_best[OF Some] by (auto simp: best_slot_def)
  with assms schedule_loop_best[OF Some] show ?thesis
    using same_but_counters_runnable by blast
qed (simp add: schedule_def)

section \<open>The timer tick\<close>

lemma upd_task_inv:
  assumes "sched_inv k" and "ctr_ok (tasks k p) \<Longrightarrow> ctr_ok (f (tasks k p))"
  shows "sched_inv (upd_task p f k)"
  using assms by (auto simp: sched_inv_def upd_task_def)

definition tick :: "task_struct \<Rightarrow> task_struct" where
  "tick t = t\<lparr>t_counter := (if sint (t_counter t) \<le> 1 then 0 else t_counter t - 1)\<rparr>"

lemma sint_minus_1:
  assumes "0 \<le> sint (c :: u32)"
  shows "sint (c - 1) = sint c - 1"
proof -
  have "sint (c - 1) = signed_take_bit 31 (sint c - 1)"
    by (simp add: sint_word_ariths)
  also have "\<dots> = sint c - 1"
    using assms sint_lt[of c] by (intro signed_take_bit_int_eq_self) auto
  finally show ?thesis .
qed

lemma tick_ok: "ctr_ok t \<Longrightarrow> ctr_ok (tick t)"
  using sint_minus_1[of "t_counter t"] by (auto simp: ctr_ok_def tick_def)

lemma do_timer_cases:
  assumes "0 \<le> sint (t_counter (tasks k (current k)))"
  shows "do_timer cpl k = (let k' = upd_task (current k) tick k
    in if 1 < sint (t_counter (tasks k (current k))) \<or> cpl = 0 then Some k' else schedule k')"
proof -
  let ?c = "t_counter (tasks k (current k))"
  have "0 <s ?c - 1 \<longleftrightarrow> 1 < sint ?c" using sint_minus_1[OF assms] by (auto simp: word_sless_alt)
  then show ?thesis
    by (auto simp: do_timer_def upd_task_def tick_def Let_def)
qed

text \<open>
  A timer tick while task slot \<open>j\<close> runs takes one from its counter, never below zero. In kernel mode, or while the time slice lasts, that is all; otherwise the scheduler chooses the best task, and the expired task is not chosen again while another runnable one has time left.
\<close>

theorem do_timer_spec:
  assumes "sched_inv k" and "j < NR_TASKS" and "runnable k j" and "current k = task k j"
  shows "\<exists>k'. do_timer cpl k = Some k' \<and> sched_inv k'
    \<and> (1 < ctr k j \<or> cpl = 0 \<longrightarrow> k' = upd_task (current k) tick k)
    \<and> (ctr k j \<le> 1 \<and> cpl \<noteq> 0 \<longrightarrow> (\<exists>n. best_slot k' n \<and> current k' = task k n
        \<and> ((\<exists>i<NR_TASKS. i \<noteq> j \<and> runnable k i \<and> 0 < ctr k i) \<longrightarrow> n \<noteq> j)))"
proof -
  let ?k1 = "upd_task (current k) tick k"
  have ok: "ctr_ok (tasks k (current k))" using assms by (auto simp: sched_inv_def runnable_def)
  have inv: "sched_inv ?k1" using assms(1) tick_ok by (rule upd_task_inv)
  have run: "runnable ?k1 i = runnable k i" for i
    by (simp add: runnable_def upd_task_def tick_def)
  have timer: "do_timer cpl k = (if 1 < ctr k j \<or> cpl = 0 then Some ?k1 else schedule ?k1)"
    using do_timer_cases[of k cpl] ok assms(4) by (simp add: ctr_ok_def ctr_def Let_def)
  show ?thesis
  proof (cases "1 < ctr k j \<or> cpl = 0")
    case True
    with timer inv show ?thesis by auto
  next
    case False
    obtain k' where k': "schedule ?k1 = Some k'" "sched_inv k'"
      using schedule_returns[OF inv] assms(2,3) run by blast
    obtain n where n: "best_slot k' n" "current k' = task k n"
      using schedule_best[OF k'(1)] by (auto simp: upd_task_def)
    have z: "ctr ?k1 j = 0" using False assms(4) by (simp add: ctr_def upd_task_def tick_def)
    have "n \<noteq> j" if "\<exists>i<NR_TASKS. i \<noteq> j \<and> runnable k i \<and> 0 < ctr k i"
    proof -
      from that obtain i where i: "i < NR_TASKS" "i \<noteq> j" "runnable k i" "0 < ctr k i" by blast
      have "task k i \<noteq> task k j" using assms(1,2) i by (auto simp: sched_inv_def runnable_def)
      then have pos: "0 < ctr ?k1 i" using i assms(4) by (simp add: ctr_def upd_task_def)
      obtain m where m: "best_slot ?k1 m" and "schedule ?k1 = Some (?k1\<lparr>current := task ?k1 m\<rparr>)"
        using schedule_first_scan[of ?k1] i pos run by blast
      then have "current k' = task k m" using k'(1) by (auto simp: upd_task_def)
      moreover have "m \<noteq> j" using m z by (auto simp: best_slot_def)
      moreover have "task k m \<noteq> 0" "m < NR_TASKS" using m by (auto simp: best_slot_def runnable_def upd_task_def)
      ultimately show ?thesis
        using n(2) assms(1,2) unfolding sched_inv_def by metis
    qed
    with False timer k' n show ?thesis by auto
  qed
qed

section \<open>Process numbers\<close>

abbreviation (input) PID_MAX :: int where "PID_MAX \<equiv> 2147483647"

lemma sint_next_pid:
  assumes "0 \<le> sint p"
  shows "sint (next_pid p) = sint p mod PID_MAX + 1"
proof -
  have b: "sint p \<le> PID_MAX" using sint_lt[of p] by simp
  have s: "sint (p + 1) = signed_take_bit 31 (sint p + 1)" by (simp add: sint_word_ariths)
  show ?thesis
  proof (cases "sint p = PID_MAX")
    case True
    then have "sint (p + 1) = -2147483648" by (simp add: s)
    with True show ?thesis by (simp add: next_pid_def word_sless_alt)
  next
    case False
    have "signed_take_bit 31 (sint p + 1) = sint p + 1"
      using assms b False by (intro signed_take_bit_int_eq_self) auto
    with s assms b False show ?thesis by (simp add: next_pid_def word_sless_alt)
  qed
qed

lemma sint_next_pid_funpow:
  assumes "0 \<le> sint p"
  shows "sint ((next_pid ^^ Suc n) p) = (sint p + int n) mod PID_MAX + 1"
proof (induction n)
  case 0
  show ?case using sint_next_pid[OF assms] by simp
next
  case (Suc n)
  let ?x = "sint p + int n"
  have "sint ((next_pid ^^ Suc (Suc n)) p) = sint (next_pid ((next_pid ^^ Suc n) p))" by simp
  also have "\<dots> = (?x mod PID_MAX + 1) mod PID_MAX + 1"
  proof -
    have "0 \<le> sint ((next_pid ^^ Suc n) p)" unfolding Suc.IH by simp
    from sint_next_pid[OF this] Suc.IH show ?thesis by simp
  qed
  also have "(?x mod PID_MAX + 1) mod PID_MAX = (sint p + int (Suc n)) mod PID_MAX"
    using mod_add_left_eq[of ?x PID_MAX 1] by (simp add: algebra_simps)
  finally show ?case .
qed

lemma next_pid_orbit_inj:
  assumes "0 \<le> sint p"
  shows "inj_on (\<lambda>n. (next_pid ^^ Suc n) p) {..NR_TASKS}"
proof (rule inj_onI)
  fix i j
  assume ij: "i \<in> {..NR_TASKS}" "j \<in> {..NR_TASKS}" and eq: "(next_pid ^^ Suc i) p = (next_pid ^^ Suc j) p"
  have "(sint p + int i) mod PID_MAX = (sint p + int j) mod PID_MAX"
    using arg_cong[OF eq, of sint] unfolding sint_next_pid_funpow[OF assms] by simp
  then have "PID_MAX dvd int i - int j" by (simp add: mod_eq_dvd_iff)
  moreover have "\<bar>int i - int j\<bar> < PID_MAX" using ij by auto
  ultimately have "int i - int j = 0" using dvd_imp_le_int[of "int i - int j" PID_MAX] by fastforce
  then show "i = j" by simp
qed

lemma find_pid_funpow:
  assumes "\<And>j. j < i \<Longrightarrow> pid_taken k ((next_pid ^^ Suc j) p)" and "\<not> pid_taken k ((next_pid ^^ Suc i) p)"
  shows "find_pid k p = Some ((next_pid ^^ Suc i) p)"
  using assms
proof (induction i arbitrary: p)
  case 0
  then show ?case by (subst find_pid.simps) simp
next
  case (Suc i)
  have sh: "(next_pid ^^ Suc j) (next_pid p) = (next_pid ^^ Suc (Suc j)) p" for j
    by (simp only: funpow_Suc_right o_apply)
  have "find_pid k (next_pid p) = Some ((next_pid ^^ Suc i) (next_pid p))"
  proof (rule Suc.IH)
    show "pid_taken k ((next_pid ^^ Suc j) (next_pid p))" if "j < i" for j
      unfolding sh using Suc.prems(1)[of "Suc j"] that by simp
    show "\<not> pid_taken k ((next_pid ^^ Suc i) (next_pid p))" unfolding sh by (rule Suc.prems(2))
  qed
  moreover have "pid_taken k (next_pid p)" using Suc.prems(1)[of 0] by simp
  ultimately show ?case by (subst find_pid.simps) (simp only: Let_def if_True sh)
qed

lemma find_pid_returns:
  assumes "0 \<le> sint p"
  shows "\<exists>n\<le>NR_TASKS. find_pid k p = Some ((next_pid ^^ Suc n) p) \<and> \<not> pid_taken k ((next_pid ^^ Suc n) p)"
proof -
  let ?f = "\<lambda>n. (next_pid ^^ Suc n) p"
  have "\<exists>n\<le>NR_TASKS. \<not> pid_taken k (?f n)"
  proof (rule ccontr)
    assume "\<not> ?thesis"
    then have "?f ` {..NR_TASKS} \<subseteq> (\<lambda>i. t_pid (tasks k (task k i))) ` {..<NR_TASKS}"
      by (auto simp: pid_taken_def list_ex_iff simp del: funpow.simps) (metis atLeastLessThan_iff imageI lessThan_iff)
    from card_mono[OF _ this] have "card {..NR_TASKS} \<le> card ((\<lambda>i. t_pid (tasks k (task k i))) ` {..<NR_TASKS})"
      using card_image[OF next_pid_orbit_inj[OF assms]] by simp
    also have "\<dots> \<le> card {..<NR_TASKS}" by (rule card_image_le) simp
    finally show False by simp
  qed
  then obtain n where n: "n \<le> NR_TASKS" "\<not> pid_taken k (?f n)" by blast
  define m where "m = (LEAST n. \<not> pid_taken k (?f n))"
  have "\<not> pid_taken k (?f m)" unfolding m_def by (rule LeastI[of "\<lambda>n. \<not> pid_taken k (?f n)", OF n(2)])
  moreover have "m \<le> n" unfolding m_def by (rule Least_le[of "\<lambda>n. \<not> pid_taken k (?f n)", OF n(2)])
  moreover have "pid_taken k (?f j)" if "j < m" for j
    using not_less_Least[of j "\<lambda>n. \<not> pid_taken k (?f n)"] that by (simp add: m_def)
  ultimately show ?thesis using n(1) find_pid_funpow[of m k p] by (meson le_trans)
qed

lemma find_empty_process_ok:
  assumes "0 \<le> sint (last_pid k)"
  shows "\<exists>r p. find_empty_process k = Some (r, k\<lparr>last_pid := p\<rparr>) \<and> 0 < sint p
    \<and> (\<forall>i<NR_TASKS. task k i \<noteq> 0 \<longrightarrow> t_pid (tasks k (task k i)) \<noteq> p)
    \<and> (if \<exists>i\<in>{1..<NR_TASKS}. task k i = 0
       then nat r \<in> {1..<NR_TASKS} \<and> task k (nat r) = 0 \<and> (\<forall>i\<in>{1..<nat r}. task k i \<noteq> 0)
       else r = - EAGAIN)"
proof -
  obtain n where n: "find_pid k (last_pid k) = Some ((next_pid ^^ Suc n) (last_pid k))"
      "\<not> pid_taken k ((next_pid ^^ Suc n) (last_pid k))"
    using find_pid_returns[OF assms] by blast
  define p where "p = (next_pid ^^ Suc n) (last_pid k)"
  have pos: "0 < sint p"
    using sint_next_pid_funpow[OF assms, of n] pos_mod_sign[of PID_MAX "sint (last_pid k) + int n"]
    unfolding p_def by linarith
  have free: "\<forall>i<NR_TASKS. task k i \<noteq> 0 \<longrightarrow> t_pid (tasks k (task k i)) \<noteq> p"
    using n(2) by (auto simp: p_def pid_taken_def list_ex_iff)
  show ?thesis
  proof (cases "find (\<lambda>i. task k i = 0) [1..<NR_TASKS]")
    case None
    then have "\<not> (\<exists>i\<in>{1..<NR_TASKS}. task k i = 0)" by (auto simp: find_None_iff)
    with None n pos free show ?thesis
      by (intro exI[of _ "- EAGAIN"] exI[of _ p]) (simp add: find_empty_process_def p_def)
  next
    case (Some i)
    then obtain j where j: "j < length [1..<NR_TASKS]" "i = [1..<NR_TASKS] ! j" "task k i = 0"
        "\<forall>l<j. task k ([1..<NR_TASKS] ! l) \<noteq> 0"
      by (auto simp: find_Some_iff)
    then have i: "i = Suc j" "j < 7" by (auto simp: nth_upt)
    have "task k l \<noteq> 0" if "l \<in> {1..<i}" for l
      using j(4)[rule_format, of "l - 1"] that i by (cases l) (auto simp: nth_upt)
    moreover have "i \<in> {1..<NR_TASKS}" using i by simp
    ultimately show ?thesis using Some n pos free j(3)
      by (intro exI[of _ "int i"] exI[of _ p]) (auto simp: find_empty_process_def p_def)
  qed
qed

text \<open>C33: \<open>find_empty_process\<close> always comes back. It leaves a positive \<open>last_pid\<close> that no task
  has, reached within nine steps of the wrapping counter, and returns the lowest free slot above 0, or
  \<open>-EAGAIN\<close> exactly when every slot above 0 is taken; nothing else changes.\<close>

theorem find_empty_process_spec:
  assumes "0 \<le> sint (last_pid k)"
  shows "\<exists>r p. find_empty_process k = Some (r, k\<lparr>last_pid := p\<rparr>) \<and> 0 < sint p
    \<and> (\<forall>i<NR_TASKS. task k i \<noteq> 0 \<longrightarrow> t_pid (tasks k (task k i)) \<noteq> p)
    \<and> (if \<exists>i\<in>{1..<NR_TASKS}. task k i = 0
       then nat r \<in> {1..<NR_TASKS} \<and> task k (nat r) = 0 \<and> (\<forall>i\<in>{1..<nat r}. task k i \<noteq> 0)
       else r = - EAGAIN)"
  using assms by (rule find_empty_process_ok)

section \<open>Wait queues as a transition system\<close>

text \<open>
  The state of one wait queue: the head pointer, the scheduler, and \<open>frames p = Some tmp\<close> for a
  task \<open>p\<close> that is inside \<open>schedule()\<close> in \<open>sleep_on\<close> with the local variable \<open>tmp\<close>. \<open>Sleep\<close> and
  \<open>Resume\<close> are the two halves of \<open>sleep_on\<close>, \<open>Wake\<close> is \<open>wake_up\<close> (from any context), and \<open>Other\<close> is
  whatever else the kernel does meanwhile: it may change everything but the states of the tasks
  sleeping here.
\<close>

record wq =
  wq_head :: u32
  wq_sched :: sched
  wq_frames :: "u32 \<rightharpoonup> u32"

datatype wq_act = Sleep | Wake | Resume | Other

definition st_of :: "sched \<Rightarrow> u32 \<Rightarrow> u32" where
  "st_of k p = t_state (tasks k p)"

inductive wq_step :: "wq_act \<Rightarrow> wq \<Rightarrow> wq \<Rightarrow> bool" where
  wq_sleep: "wq_frames w (current (wq_sched w)) = None \<Longrightarrow> current (wq_sched w) \<noteq> 0
     \<Longrightarrow> sleep_on_enter (wq_head w) (wq_sched w) = Some (tmp, h, k)
     \<Longrightarrow> wq_step Sleep w \<lparr>wq_head = h, wq_sched = k,
           wq_frames = (wq_frames w)(current (wq_sched w) \<mapsto> tmp)\<rparr>"
| wq_wake: "wake_up (wq_head w) (wq_sched w) = (h, k)
     \<Longrightarrow> wq_step Wake w (w\<lparr>wq_head := h, wq_sched := k\<rparr>)"
| wq_resume: "wq_frames w (current (wq_sched w)) = Some tmp
     \<Longrightarrow> st_of (wq_sched w) (current (wq_sched w)) = TASK_RUNNING
     \<Longrightarrow> sleep_on_leave tmp (wq_sched w) = (h, k)
     \<Longrightarrow> wq_step Resume w \<lparr>wq_head = h, wq_sched = k,
           wq_frames = (wq_frames w)(current (wq_sched w) := None)\<rparr>"
| wq_other: "(\<And>p. p \<in> dom (wq_frames w) \<Longrightarrow> st_of k p = st_of (wq_sched w) p)
     \<Longrightarrow> wq_step Other w (w\<lparr>wq_sched := k\<rparr>)"


inductive wq_run :: "wq_act list \<Rightarrow> wq \<Rightarrow> wq \<Rightarrow> bool" where
  wq_done: "wq_run [] w w"
| wq_more: "wq_run as w w' \<Longrightarrow> wq_step a w' w'' \<Longrightarrow> wq_run (as @ [a]) w w''"

text \<open>\<open>chain F h ps\<close>: starting at \<open>h\<close> and following the saved \<open>tmp\<close>s one meets exactly \<open>ps\<close>.\<close>

fun chain :: "(u32 \<rightharpoonup> u32) \<Rightarrow> u32 \<Rightarrow> u32 list \<Rightarrow> bool" where
  "chain F h [] \<longleftrightarrow> h = 0"
| "chain F h (p # ps) \<longleftrightarrow> h = p \<and> p \<noteq> 0 \<and> (\<exists>t. F p = Some t \<and> chain F t ps)"

lemma chain_upd [simp]: "q \<notin> set ps \<Longrightarrow> chain (F(q := v)) h ps = chain F h ps"
  by (induction ps arbitrary: h) (auto simp del: fun_upd_apply simp: fun_upd_other)

text \<open>Everybody sleeps and is linked from the head.\<close>

definition all_asleep :: "wq \<Rightarrow> bool" where
  "all_asleep w \<longleftrightarrow> (\<exists>ps. distinct ps \<and> chain (wq_frames w) (wq_head w) ps \<and> set ps = dom (wq_frames w)
     \<and> (\<forall>p\<in>set ps. st_of (wq_sched w) p = TASK_UNINTERRUPTIBLE))"

text \<open>
  A wake-up is travelling along the queue: \<open>p\<close> has been made runnable and has yet to resume, and all
  the others sleep and are linked from its \<open>tmp\<close>; the head is empty or still \<open>p\<close>.
\<close>

definition waking :: "wq \<Rightarrow> u32 \<Rightarrow> u32 list \<Rightarrow> bool" where
  "waking w p ps \<longleftrightarrow> distinct (p # ps) \<and> chain (wq_frames w) p (p # ps)
     \<and> set (p # ps) = dom (wq_frames w) \<and> (wq_head w = 0 \<or> wq_head w = p)
     \<and> st_of (wq_sched w) p = TASK_RUNNING
     \<and> (\<forall>q\<in>set ps. st_of (wq_sched w) q = TASK_UNINTERRUPTIBLE)"

definition wq_draining :: "wq \<Rightarrow> bool" where
  "wq_draining w \<longleftrightarrow> (wq_frames w = Map.empty \<and> wq_head w = 0) \<or> (\<exists>p ps. waking w p ps)"

lemma schedule_st_of: "schedule k = Some k' \<Longrightarrow> st_of k' p = st_of k p"
proof -
  assume "schedule k = Some k'"
  from schedule_best[OF this] have "same_but_counters k (k'\<lparr>current := current k\<rparr>)" by blast
  from same_but_counters_field(3)[OF this, of p] show ?thesis by (simp add: st_of_def)
qed

lemma st_of_upd [simp]:
  "st_of (upd_task q (\<lambda>t. t\<lparr>t_state := s\<rparr>) k) p = (if p = q then s else st_of k p)"
  by (simp add: st_of_def upd_task_def)

lemma sleep_keeps_asleep:
  assumes "all_asleep w" and "wq_step Sleep w w'"
  shows "all_asleep w'"
  using assms(2)
proof cases
  case 1: (wq_sleep tmp h k)
  let ?c = "current (wq_sched w)"
  obtain ps where ps: "distinct ps" "chain (wq_frames w) (wq_head w) ps" "set ps = dom (wq_frames w)"
      "\<forall>p\<in>set ps. st_of (wq_sched w) p = TASK_UNINTERRUPTIBLE"
    using assms(1) by (auto simp: all_asleep_def)
  from 1(4) have eq: "tmp = wq_head w" "h = ?c"
      "schedule (upd_task ?c (\<lambda>t. t\<lparr>t_state := TASK_UNINTERRUPTIBLE\<rparr>) (wq_sched w)) = Some k"
    by (auto simp: sleep_on_enter_def Let_def split: if_splits)
  have "st_of k p = (if p = ?c then TASK_UNINTERRUPTIBLE else st_of (wq_sched w) p)" for p
    using schedule_st_of[OF eq(3)] by simp
  moreover have "?c \<notin> set ps" using 1(2) ps(3) by auto
  ultimately show ?thesis unfolding all_asleep_def
    using ps 1(1,3) eq(1,2) by (intro exI[of _ "?c # ps"]) auto
qed

lemma other_keeps_asleep:
  assumes "all_asleep w" and "wq_step Other w w'"
  shows "all_asleep w'"
  using assms(2)
proof cases
  case 1: (wq_other k)
  obtain ps where ps: "distinct ps" "chain (wq_frames w) (wq_head w) ps" "set ps = dom (wq_frames w)"
      "\<forall>p\<in>set ps. st_of (wq_sched w) p = TASK_UNINTERRUPTIBLE"
    using assms(1) by (auto simp: all_asleep_def)
  then have "st_of k p = TASK_UNINTERRUPTIBLE" if "p \<in> set ps" for p
    using 1(2)[of p] that by simp
  with ps 1(1) show ?thesis unfolding all_asleep_def by (intro exI[of _ ps]) simp
qed

lemma wake_starts_draining:
  assumes "all_asleep w" and "wq_step Wake w w'"
  shows "wq_draining w'"
  using assms(2)
proof cases
  case 1: (wq_wake h k)
  obtain ps where ps: "distinct ps" "chain (wq_frames w) (wq_head w) ps" "set ps = dom (wq_frames w)"
      "\<forall>p\<in>set ps. st_of (wq_sched w) p = TASK_UNINTERRUPTIBLE"
    using assms(1) by (auto simp: all_asleep_def)
  show ?thesis
  proof (cases ps)
    case Nil
    with ps 1 show ?thesis by (auto simp: wq_draining_def wake_up_def)
  next
    case (Cons p qs)
    have "\<forall>q\<in>set qs. st_of (wq_sched w) q = TASK_UNINTERRUPTIBLE" using ps(4) Cons by simp
    with ps(1,2,3) 1 Cons have "waking w' p qs" by (auto simp: waking_def wake_up_def)
    then show ?thesis by (auto simp: wq_draining_def)
  qed
qed

lemma resume_drains:
  assumes "waking w p ps" and "wq_step Resume w w'"
  shows "wq_draining w' \<and> dom (wq_frames w') = set ps"
  using assms(2)
proof cases
  case 1: (wq_resume tmp h k)
  have W: "distinct (p # ps)" "chain (wq_frames w) p (p # ps)" "set (p # ps) = dom (wq_frames w)"
      "\<forall>q\<in>set ps. st_of (wq_sched w) q = TASK_UNINTERRUPTIBLE"
    using assms(1) by (auto simp: waking_def)
  have c: "current (wq_sched w) = p"
  proof (rule ccontr)
    assume "current (wq_sched w) \<noteq> p"
    moreover have "current (wq_sched w) \<in> set (p # ps)" using 1(2) W(3) by blast
    ultimately have "st_of (wq_sched w) (current (wq_sched w)) = TASK_UNINTERRUPTIBLE" using W(4) by simp
    with 1(3) show False by simp
  qed
  have "chain (wq_frames w) tmp ps" using W(2) 1(2) c by auto
  moreover have "p \<notin> set ps" using W(1) by simp
  moreover have d: "dom (wq_frames w') = set ps" using 1(1) c W(1,3) by auto
  ultimately have "waking w' tmp (tl ps)" if "ps \<noteq> []"
    using 1 c W that by (cases ps) (auto simp: waking_def sleep_on_leave_def)
  moreover have "wq_frames w' = Map.empty" if "ps = []" using d that by simp
  moreover have "wq_head w' = 0" if "ps = []"
    using 1 \<open>chain (wq_frames w) tmp ps\<close> that by (simp add: sleep_on_leave_def)
  ultimately show ?thesis using d unfolding wq_draining_def by blast
qed

lemma other_keeps_waking:
  assumes "waking w p ps" and "wq_step Other w w'"
  shows "waking w' p ps"
  using assms(2)
proof cases
  case 1: (wq_other k)
  have sub: "p \<in> dom (wq_frames w)" "\<And>q. q \<in> set ps \<Longrightarrow> q \<in> dom (wq_frames w)"
    using assms(1) unfolding waking_def by auto
  have "st_of k p = TASK_RUNNING" "\<forall>q\<in>set ps. st_of k q = TASK_UNINTERRUPTIBLE"
    using 1(2)[OF sub(1)] 1(2)[OF sub(2)] assms(1) unfolding waking_def by auto
  then show ?thesis using 1(1) assms(1) unfolding waking_def by simp
qed

lemma wake_keeps_waking:
  assumes "waking w p ps" and "wq_step Wake w w'"
  shows "waking w' p ps"
  using assms(2)
proof cases
  case 1: (wq_wake h k)
  with assms(1) show ?thesis unfolding waking_def by (auto simp: wake_up_def split: if_splits)
qed

lemma draining_step:
  assumes "wq_draining w" and "a \<in> {Wake, Resume, Other}" and "wq_step a w w'"
  shows "wq_draining w'"
proof (cases "wq_frames w = Map.empty \<and> wq_head w = 0")
  case True
  from assms(3,2) True show ?thesis
    by cases (auto simp: wq_draining_def wake_up_def)
next
  case False
  then obtain p ps where "waking w p ps" using assms(1) by (auto simp: wq_draining_def)
  note W = resume_drains[OF this] other_keeps_waking[OF this] wake_keeps_waking[OF this]
  from assms(2) consider "a = Wake" | "a = Resume" | "a = Other" by blast
  then show ?thesis
    using assms(3) W unfolding wq_draining_def by cases blast+
qed

lemma run_keeps_asleep:
  assumes "wq_run as w w'" and "set as \<subseteq> {Sleep, Other}" and "all_asleep w"
  shows "all_asleep w'"
  using assms by (induction rule: wq_run.induct) (auto intro: sleep_keeps_asleep other_keeps_asleep)

lemma run_keeps_draining:
  assumes "wq_run as w w'" and "set as \<subseteq> {Wake, Resume, Other}" and "wq_draining w"
  shows "wq_draining w'"
  using assms by (induction rule: wq_run.induct) (auto intro: draining_step)

lemma draining_runnable:
  assumes "wq_draining w" and "wq_frames w \<noteq> Map.empty"
  shows "\<exists>p\<in>dom (wq_frames w). st_of (wq_sched w) p = TASK_RUNNING"
  using assms by (fastforce simp: wq_draining_def waking_def)

text \<open>
  C10: After any number of tasks have gone to sleep on an empty queue, one \<open>wake_up\<close> reaches all of them, provided nobody else goes to sleep there meanwhile: at every later moment either all have left \<open>sleep_on\<close> and the queue is empty, or some task of the queue is runnable, all the others are linked from its \<open>tmp\<close>, and its return hands the wake-up on to exactly those.
\<close>

theorem wake_up_reaches_all:
  assumes "wq_run sleeps w0 w1" and "set sleeps \<subseteq> {Sleep, Other}"
    and "wq_frames w0 = Map.empty" and "wq_head w0 = 0"
    and "wq_step Wake w1 w2"
    and "wq_run resumes w2 w3" and "set resumes \<subseteq> {Wake, Resume, Other}"
  shows "(wq_frames w3 = Map.empty \<and> wq_head w3 = 0)
    \<or> (\<exists>p ps. waking w3 p ps \<and> (\<forall>w4. wq_step Resume w3 w4 \<longrightarrow> dom (wq_frames w4) = set ps))"
proof -
  have "all_asleep w0" using assms(3,4) by (auto simp: all_asleep_def intro: exI[of _ "[]"])
  then have "all_asleep w1" using run_keeps_asleep assms(1,2) by blast
  then have "wq_draining w2" using wake_starts_draining assms(5) by blast
  then have "wq_draining w3" using run_keeps_draining assms(6,7) by blast
  then show ?thesis unfolding wq_draining_def using resume_drains by blast
qed

section \<open>A sleeper overtaken by a wake-up\<close>

text \<open>A task sleeps in the queue, and neither the head nor the \<open>tmp\<close> of any sleeper leads to it.\<close>

definition lost :: "wq \<Rightarrow> u32 \<Rightarrow> bool" where
  "lost w c \<longleftrightarrow> c \<noteq> 0 \<and> c \<in> dom (wq_frames w) \<and> st_of (wq_sched w) c = TASK_UNINTERRUPTIBLE
     \<and> wq_head w \<noteq> c \<and> c \<notin> ran (wq_frames w)"

lemma lost_step:
  assumes "wq_step a w w'" and "lost w c"
  shows "lost w' c"
  using assms(1)
proof cases
  case 1: (wq_sleep tmp h k)
  let ?q = "current (wq_sched w)"
  from 1(5) have eq: "tmp = wq_head w" "h = ?q"
      "schedule (upd_task ?q (\<lambda>t. t\<lparr>t_state := TASK_UNINTERRUPTIBLE\<rparr>) (wq_sched w)) = Some k"
    by (auto simp: sleep_on_enter_def Let_def split: if_splits)
  have "st_of k c = st_of (wq_sched w) c" using schedule_st_of[OF eq(3), of c] 1(3) assms(2) by (auto simp: lost_def)
  with assms(2) 1 eq(1,2) show ?thesis by (auto simp: lost_def ran_def split: if_splits)
next
  case 2: (wq_wake h k)
  with assms(2) show ?thesis by (auto simp: lost_def wake_up_def split: if_splits)
next
  case 3: (wq_resume tmp h k)
  with assms(2) have "tmp \<noteq> c" by (auto simp: lost_def ran_def)
  with assms(2) 3 show ?thesis by (auto simp: lost_def ran_def sleep_on_leave_def split: if_splits)
next
  case 4: (wq_other k)
  with assms(2) show ?thesis by (auto simp: lost_def)
qed

lemma lost_run: "wq_run as w w' \<Longrightarrow> lost w c \<Longrightarrow> lost w' c"
  by (induction rule: wq_run.induct) (auto intro: lost_step)

lemma chain_ran: "chain F h ps \<Longrightarrow> p \<in> set ps \<Longrightarrow> F p = Some t \<Longrightarrow> t = 0 \<or> t \<in> set ps"
proof (induction ps arbitrary: h)
  case (Cons q ps)
  then obtain u where u: "F q = Some u" "chain F u ps" by auto
  show ?case
  proof (cases "p = q")
    case True
    then show ?thesis using u Cons.prems(3) by (cases ps) auto
  next
    case False
    then show ?thesis using Cons.IH[OF u(2)] Cons.prems by auto
  qed
qed simp

text \<open>A third task has gone to sleep while the wake-up is with \<open>p\<close>: it is the head, and every other sleeper but \<open>p\<close> sleeps.\<close>

definition overtaken :: "wq \<Rightarrow> u32 \<Rightarrow> u32 \<Rightarrow> bool" where
  "overtaken w p c \<longleftrightarrow> c \<noteq> 0 \<and> c \<noteq> p \<and> p \<in> dom (wq_frames w) \<and> c \<in> dom (wq_frames w) \<and> c \<notin> ran (wq_frames w)
     \<and> (\<forall>q\<in>dom (wq_frames w). q \<noteq> p \<longrightarrow> st_of (wq_sched w) q = TASK_UNINTERRUPTIBLE)"

lemma waking_overtaken:
  assumes "waking w p ps" and "wq_step Sleep w w'"
  shows "overtaken w' p (current (wq_sched w))"
  using assms(2)
proof cases
  case 1: (wq_sleep tmp h k)
  let ?q = "current (wq_sched w)"
  from 1(4) have eq: "tmp = wq_head w" "h = ?q"
      "schedule (upd_task ?q (\<lambda>t. t\<lparr>t_state := TASK_UNINTERRUPTIBLE\<rparr>) (wq_sched w)) = Some k"
    by (auto simp: sleep_on_enter_def Let_def split: if_splits)
  have st: "st_of k p = (if p = ?q then TASK_UNINTERRUPTIBLE else st_of (wq_sched w) p)" for p
    using schedule_st_of[OF eq(3), of p] by simp
  have W: "chain (wq_frames w) p (p # ps)" "set (p # ps) = dom (wq_frames w)" "wq_head w = 0 \<or> wq_head w = p"
      "\<forall>q\<in>set ps. st_of (wq_sched w) q = TASK_UNINTERRUPTIBLE"
    using assms(1) by (auto simp: waking_def)
  have q: "?q \<notin> set (p # ps)" using 1(2) W(2) by (metis domIff)
  have nr: "t \<noteq> ?q" if "wq_frames w r = Some t" for r t
  proof -
    have "r \<in> set (p # ps)" using that W(2) by auto
    then show ?thesis using chain_ran[OF W(1) _ that] q 1(3) by auto
  qed
  have "?q \<notin> ran (wq_frames w')" using nr q W(3) 1(1,3) eq(1) by (auto simp: ran_def split: if_splits)
  moreover have "dom (wq_frames w') = insert ?q (set (p # ps))" using 1(1) W(2) by auto
  ultimately show ?thesis unfolding overtaken_def using q 1(1,3) st W(4) by auto
qed

lemma overtaken_other: "wq_step Other w w' \<Longrightarrow> overtaken w p c \<Longrightarrow> overtaken w' p c"
  by (erule wq_step.cases) (auto simp: overtaken_def)

lemma overtaken_others: "wq_run as w w' \<Longrightarrow> set as \<subseteq> {Other} \<Longrightarrow> overtaken w p c \<Longrightarrow> overtaken w' p c"
  by (induction rule: wq_run.induct) (auto intro: overtaken_other)

lemma overtaken_lost:
  assumes "overtaken w p c" and "wq_step Resume w w'"
  shows "lost w' c"
  using assms(2)
proof cases
  case 1: (wq_resume tmp h k)
  let ?q = "current (wq_sched w)"
  have "?q \<in> dom (wq_frames w)" using 1(2) by blast
  then have q: "?q = p" using assms(1) 1(3) by (auto simp: overtaken_def)
  have t: "tmp \<noteq> c" using 1(2) assms(1) by (auto simp: overtaken_def ran_def)
  have "ran (wq_frames w') \<subseteq> ran (wq_frames w)" using 1(1) by (auto simp: ran_def split: if_splits)
  then show ?thesis using assms(1) t q 1 by (auto simp: lost_def overtaken_def sleep_on_leave_def)
qed

section \<open>Four tasks: the idle task and three processes\<close>

definition demo_task :: "u32 \<Rightarrow> u32 \<Rightarrow> u32 \<Rightarrow> task_struct" where
  "demo_task s c p = (INIT_TASK 0x1000 0)\<lparr>t_state := s, t_counter := c, t_pid := p\<rparr>"

definition demo_sched :: "u32 \<Rightarrow> u32 \<Rightarrow> u32 \<Rightarrow> u32 \<Rightarrow> sched" where
  "demo_sched a b c cur = \<lparr>
     tasks = (\<lambda>_. demo_task 0 5 0)(0x2000 := demo_task a 30 1, 0x3000 := demo_task b 20 2, 0x4000 := demo_task c 10 3),
     task = (\<lambda>_. 0)(0 := 0x1000, Suc 0 := 0x2000, 2 := 0x3000, 3 := 0x4000),
     current = cur, init_task = 0x1000, last_pid = 3,
     gdt = (\<lambda>_. \<lparr>d_a = 0, d_b = 0\<rparr>), idt = (\<lambda>_. \<lparr>d_a = 0, d_b = 0\<rparr>)\<rparr>"

lemma demo_task_fields [simp]:
  "t_state (demo_task s c p) = s" "t_counter (demo_task s c p) = c" "t_priority (demo_task s c p) = 15"
  "t_pid (demo_task s c p) = p" "(demo_task s c p)\<lparr>t_state := s'\<rparr> = demo_task s' c p"
  by (simp_all add: demo_task_def INIT_TASK_def)

lemma demo_inv: "sched_inv (demo_sched a b c cur)"
  by (auto simp: sched_inv_def demo_sched_def ctr_ok_def)

lemma demo_scan:
  "sched_scan (demo_sched a b c cur) 8 (-1) 0 =
     (if a = 0 then (30, 1) else if b = 0 then (20, 2) else if c = 0 then (10, 3) else (5, 0))"
proof -
  have n: "(8::nat) = Suc (Suc (Suc (Suc (Suc (Suc (Suc (Suc 0)))))))" "(2::nat) = Suc (Suc 0)" "(3::nat) = Suc (Suc (Suc 0))"
    by simp_all
  show ?thesis
    by (cases "a = 0"; cases "b = 0"; cases "c = 0"; simp only: n; simp add: demo_sched_def word_sless_alt)
qed

lemma demo_schedule:
  "schedule (demo_sched a b c cur) = Some (demo_sched a b c
     (if a = 0 then 0x2000 else if b = 0 then 0x3000 else if c = 0 then 0x4000 else 0x1000))"
proof -
  have "schedule_loop (demo_sched a b c cur)
    = Some (if a = 0 then 1 else if b = 0 then 2 else if c = 0 then 3 else 0, demo_sched a b c cur)"
    by (subst schedule_loop.simps) (simp add: demo_scan word_sless_alt)
  then show ?thesis by (auto simp: schedule_def switch_to_def demo_sched_def)
qed

lemma demo_upd:
  "upd_task 0x2000 (\<lambda>t. t\<lparr>t_state := s\<rparr>) (demo_sched a b c cur) = demo_sched s b c cur"
  "upd_task 0x3000 (\<lambda>t. t\<lparr>t_state := s\<rparr>) (demo_sched a b c cur) = demo_sched a s c cur"
  "upd_task 0x4000 (\<lambda>t. t\<lparr>t_state := s\<rparr>) (demo_sched a b c cur) = demo_sched a b s cur"
  by (simp_all add: upd_task_def demo_sched_def fun_upd_twist)

lemma demo_fields [simp]:
  "current (demo_sched a b c cur) = cur" "init_task (demo_sched a b c cur) = 0x1000"
  "last_pid (demo_sched a b c cur) = 3"
  "st_of (demo_sched a b c cur) 0x2000 = a" "st_of (demo_sched a b c cur) 0x3000 = b"
  "st_of (demo_sched a b c cur) 0x4000 = c"
  by (simp_all add: demo_sched_def st_of_def)

lemma demo_runnable: "\<exists>i<NR_TASKS. runnable (demo_sched a b c cur) i"
  by (intro exI[of _ 0]) (simp add: runnable_def demo_sched_def)

lemmas demo_wq = sleep_on_enter_def sleep_on_leave_def wake_up_def demo_schedule demo_upd

lemma demo_sleep:
  "wq_step Sleep \<lparr>wq_head = 0, wq_sched = demo_sched 0 0 0 0x2000, wq_frames = Map.empty\<rparr>
     \<lparr>wq_head = 0x2000, wq_sched = demo_sched 2 0 0 0x3000, wq_frames = [0x2000 \<mapsto> 0]\<rparr>"
  "wq_step Sleep \<lparr>wq_head = 0x2000, wq_sched = demo_sched 2 0 0 0x3000, wq_frames = [0x2000 \<mapsto> 0]\<rparr>
     \<lparr>wq_head = 0x3000, wq_sched = demo_sched 2 2 0 0x4000, wq_frames = [0x2000 \<mapsto> 0, 0x3000 \<mapsto> 0x2000]\<rparr>"
  "wq_step Sleep \<lparr>wq_head = 0, wq_sched = demo_sched 2 0 0 0x4000, wq_frames = [0x2000 \<mapsto> 0, 0x3000 \<mapsto> 0x2000]\<rparr>
     \<lparr>wq_head = 0x4000, wq_sched = demo_sched 2 0 2 0x3000,
      wq_frames = [0x2000 \<mapsto> 0, 0x3000 \<mapsto> 0x2000, 0x4000 \<mapsto> 0]\<rparr>"
  using wq_sleep[of "\<lparr>wq_head = 0, wq_sched = demo_sched 0 0 0 0x2000, wq_frames = Map.empty\<rparr>"]
    wq_sleep[of "\<lparr>wq_head = 0x2000, wq_sched = demo_sched 2 0 0 0x3000, wq_frames = [0x2000 \<mapsto> 0]\<rparr>"]
    wq_sleep[of "\<lparr>wq_head = 0, wq_sched = demo_sched 2 0 0 0x4000, wq_frames = [0x2000 \<mapsto> 0, 0x3000 \<mapsto> 0x2000]\<rparr>"]
  by (simp_all add: demo_wq)

lemma demo_wake:
  "wq_step Wake \<lparr>wq_head = 0x3000, wq_sched = demo_sched 2 2 0 0x4000, wq_frames = F\<rparr>
     \<lparr>wq_head = 0, wq_sched = demo_sched 2 0 0 0x4000, wq_frames = F\<rparr>"
  using wq_wake[of "\<lparr>wq_head = 0x3000, wq_sched = demo_sched 2 2 0 0x4000, wq_frames = F\<rparr>"]
  by (simp add: demo_wq)

lemma demo_resume:
  "F 0x3000 = Some 0x2000 \<Longrightarrow> wq_step Resume \<lparr>wq_head = h, wq_sched = demo_sched 2 0 c 0x3000, wq_frames = F\<rparr>
     \<lparr>wq_head = 0x2000, wq_sched = demo_sched 0 0 c 0x3000, wq_frames = F(0x3000 := None)\<rparr>"
  "F 0x2000 = Some 0 \<Longrightarrow> wq_step Resume \<lparr>wq_head = h, wq_sched = demo_sched 0 0 c 0x2000, wq_frames = F\<rparr>
     \<lparr>wq_head = 0, wq_sched = demo_sched 0 0 c 0x2000, wq_frames = F(0x2000 := None)\<rparr>"
  using wq_resume[of "\<lparr>wq_head = h, wq_sched = demo_sched 2 0 c 0x3000, wq_frames = F\<rparr>"]
    wq_resume[of "\<lparr>wq_head = h, wq_sched = demo_sched 0 0 c 0x2000, wq_frames = F\<rparr>"]
  by (simp_all add: demo_wq)

lemma schedule_is_other:
  assumes "schedule (wq_sched w) = Some k"
  shows "wq_step Other w (w\<lparr>wq_sched := k\<rparr>)"
  by (rule wq_other) (simp add: schedule_st_of[OF assms])

lemma demo_other:
  "wq_step Other \<lparr>wq_head = h, wq_sched = demo_sched a b c cur, wq_frames = F\<rparr>
     \<lparr>wq_head = h, wq_sched = demo_sched a b c
       (if a = 0 then 0x2000 else if b = 0 then 0x3000 else if c = 0 then 0x4000 else 0x1000), wq_frames = F\<rparr>"
  using schedule_is_other[of "\<lparr>wq_head = h, wq_sched = demo_sched a b c cur, wq_frames = F\<rparr>"]
  by (simp add: demo_schedule)

text \<open>C11: A sleeper can be lost for ever. A wake-up is travelling along the queue and is with \<open>p\<close>, which is runnable but has not run yet. A task \<open>c\<close>
  goes to sleep on the queue, and after that, with no \<open>wake_up\<close> in between, \<open>p\<close> returns from \<open>schedule()\<close>: it puts its old \<open>tmp\<close> into the queue head over \<open>c\<close>. From then on, through every
  further series of sleeps, wake-ups and returns on this queue and of other kernel activity, \<open>c\<close> stays inside \<open>sleep_on\<close>, uninterruptible.\<close>

theorem sleep_on_loses_sleeper:
  assumes "waking w p ps" and "wq_step Sleep w w1" and "c = current (wq_sched w)"
    and "wq_run others w1 w2" and "set others \<subseteq> {Other}" and "wq_step Resume w2 w3" and "wq_run later w3 w4"
  shows "c \<in> dom (wq_frames w4) \<and> st_of (wq_sched w4) c = TASK_UNINTERRUPTIBLE"
proof -
  have "overtaken w2 p c" using waking_overtaken[OF assms(1,2)] overtaken_others[OF assms(4,5)] assms(3) by blast
  then have "lost w4 c" using overtaken_lost[OF _ assms(6)] lost_run[OF assms(7)] by blast
  then show ?thesis by (simp add: lost_def)
qed

text \<open>From an empty queue: two tasks sleep, \<open>wake_up\<close> is called, and the third task goes to sleep before the second has run on.
  When both have returned, the head is empty and a further \<open>wake_up\<close> changes nothing.\<close>

theorem sleep_on_loses_sleeper_witness:
  "\<exists>w0 w. wq_run [Sleep, Sleep, Wake, Sleep, Resume, Other, Resume, Wake] w0 w
     \<and> wq_head w0 = 0 \<and> wq_frames w0 = Map.empty \<and> sched_inv (wq_sched w0)
     \<and> wq_head w = 0 \<and> 0x4000 \<in> dom (wq_frames w) \<and> st_of (wq_sched w) 0x4000 = TASK_UNINTERRUPTIBLE"
proof -
  let ?start = "\<lparr>wq_head = 0, wq_sched = demo_sched 0 0 0 0x2000, wq_frames = Map.empty\<rparr>"
  let ?G = "[0x2000 \<mapsto> 0, 0x3000 \<mapsto> 0x2000] :: u32 \<rightharpoonup> u32"
  let ?F = "?G(0x4000 \<mapsto> 0)"
  let ?w = "\<lparr>wq_head = 0, wq_sched = demo_sched 2 0 0 0x4000, wq_frames = ?G\<rparr>"
  let ?w3 = "\<lparr>wq_head = 0x2000, wq_sched = demo_sched 0 0 2 0x3000, wq_frames = ?F(0x3000 := None)\<rparr>"
  let ?w4 = "\<lparr>wq_head = 0x2000, wq_sched = demo_sched 0 0 2 0x2000, wq_frames = ?F(0x3000 := None)\<rparr>"
  let ?w5 = "\<lparr>wq_head = 0, wq_sched = demo_sched 0 0 2 0x2000, wq_frames = ?F(0x3000 := None, 0x2000 := None)\<rparr>"
  have w: "waking ?w 0x3000 [0x2000]" by (auto simp: waking_def split: if_splits)
  note r2 = wq_more[OF wq_more[OF wq_more[OF wq_done demo_sleep(1)] demo_sleep(2)] demo_wake]
  have s3: "wq_step Resume \<lparr>wq_head = 0x4000, wq_sched = demo_sched 2 0 2 0x3000, wq_frames = ?F\<rparr> ?w3" by (rule demo_resume(1)) simp
  have s4: "wq_step Other ?w3 ?w4"
    using demo_other[where h = "0x2000" and a = 0 and b = 0 and c = 2 and F = "?F(0x3000 := None)"] by simp
  have s5: "wq_step Resume ?w4 ?w5" by (rule demo_resume(2)) simp
  have s6: "wq_step Wake ?w5 ?w5" using wq_wake[of ?w5] by (simp add: wake_up_def)
  have later: "wq_run ((([] @ [Other]) @ [Resume]) @ [Wake]) ?w3 ?w5" by (rule wq_more wq_done s4 s5 s6)+
  have "0x4000 \<in> dom (wq_frames ?w5) \<and> st_of (wq_sched ?w5) 0x4000 = TASK_UNINTERRUPTIBLE"
    by (rule sleep_on_loses_sleeper[OF w demo_sleep(3) _ wq_done _ s3 later]) simp_all
  moreover have "wq_run [Sleep, Sleep, Wake, Sleep, Resume, Other, Resume, Wake] ?start ?w5"
    using wq_more[OF wq_more[OF wq_more[OF wq_more[OF wq_more[OF r2 demo_sleep(3)] s3] s4] s5] s6] by (simp only: append.simps)
  ultimately show ?thesis using demo_inv by (intro exI[of _ ?start] exI[of _ ?w5]) simp
qed

section \<open>The scheduler's theorems at work\<close>

theorem schedule_spec_witness:
  "\<exists>k' n. schedule (upd_task 0x1000 (\<lambda>t. t\<lparr>t_counter := 0\<rparr>) (demo_sched 2 2 1 0x2000)) = Some k' \<and> current k' = 0x1000
     \<and> t_counter (tasks k' 0x1000) = 15 \<and> t_counter (tasks k' 0x2000) = 30 \<and> t_counter (tasks k' 0x3000) = 25 \<and> t_counter (tasks k' 0x4000) = 20"
proof -
  let ?k = "upd_task 0x1000 (\<lambda>t. t\<lparr>t_counter := 0\<rparr>) (demo_sched 2 2 1 0x2000)"
  have inv: "sched_inv ?k" by (rule upd_task_inv[OF demo_inv]) (auto simp: ctr_ok_def)
  have sl: "task ?k = (\<lambda>_. 0)(0 := 0x1000, Suc 0 := 0x2000, 2 := 0x3000, 3 := 0x4000)" by (simp add: upd_task_def demo_sched_def)
  have run: "runnable ?k i \<longleftrightarrow> i = 0" if "i < NR_TASKS" for i using that unfolding runnable_def sl by (auto simp: upd_task_def demo_sched_def)
  have c: "ctr ?k 0 = 0" "ctr ?k 1 = 30" "ctr ?k 2 = 20" "ctr ?k 3 = 10" "\<And>p. t_priority (tasks ?k p) = 15"
    by (auto simp: ctr_def upd_task_def demo_sched_def)
  have e: "\<not> (\<exists>i<NR_TASKS. runnable ?k i \<and> 0 < ctr ?k i)" using run c by auto
  have r0: "\<exists>i<NR_TASKS. runnable ?k i" using run[of 0] by (intro exI[of _ 0]) simp
  obtain k' n where k: "schedule ?k = Some (k'\<lparr>current := task ?k n\<rparr>)" "best_slot k' n" "k' = ?k\<lparr>tasks := tasks k'\<rparr>"
      "\<forall>i<NR_TASKS. task ?k i \<noteq> 0 \<longrightarrow> ctr k' i = ctr ?k i div 2 + sint (t_priority (tasks ?k (task ?k i)))"
      "\<forall>p. tasks k' p = (tasks ?k p)\<lparr>t_counter := t_counter (tasks k' p)\<rparr>"
    using schedule_spec[OF inv r0] unfolding if_not_P[OF e] by blast
  have tk: "task k' = task ?k" using k(3) by (metis sched.select_convs(2) sched.surjective sched.update_convs(1))
  have st: "t_state (tasks k' p) = t_state (tasks ?k p)" for p using k(5) by (metis task_struct.select_convs(1) task_struct.surjective task_struct.update_convs(2))
  have "n = 0" using k(2) run unfolding best_slot_def runnable_def tk st by blast
  moreover have "ctr k' 0 = 15" "ctr k' 1 = 30" "ctr k' 2 = 25" "ctr k' 3 = 20"
    using k(4)[rule_format, of 0] k(4)[rule_format, of 1] k(4)[rule_format, of 2] k(4)[rule_format, of 3] c by (simp_all add: sl)
  then have "sint (t_counter (tasks k' 0x1000)) = sint (15::u32)" "sint (t_counter (tasks k' 0x2000)) = sint (30::u32)"
    "sint (t_counter (tasks k' 0x3000)) = sint (25::u32)" "sint (t_counter (tasks k' 0x4000)) = sint (20::u32)" by (simp_all add: ctr_def tk sl)
  then have "t_counter (tasks k' 0x1000) = 15" "t_counter (tasks k' 0x2000) = 30" "t_counter (tasks k' 0x3000) = 25" "t_counter (tasks k' 0x4000) = 20"
    by (simp_all only: signed_word_eqI)
  ultimately show ?thesis using k(1) by (simp add: sl)
qed

theorem schedule_spins_when_idle_witness:
  "schedule (upd_task 0x1000 (\<lambda>t. t\<lparr>t_state := 1\<rparr>) (demo_sched 2 2 2 0x1000)) = None"
  by (rule schedule_spins_when_idle)
    (auto simp: runnable_def upd_task_def demo_sched_def)

theorem do_timer_spec_witness:
  "\<exists>k'. do_timer 3 (demo_sched 0 0 0 0x2000) = Some k' \<and> sched_inv k'
     \<and> k' = upd_task 0x2000 tick (demo_sched 0 0 0 0x2000)"
proof -
  have r: "runnable (demo_sched 0 0 0 0x2000) (Suc 0)" "ctr (demo_sched 0 0 0 0x2000) (Suc 0) = 30"
    "task (demo_sched 0 0 0 0x2000) (Suc 0) = 0x2000"
    by (simp_all add: runnable_def ctr_def demo_sched_def)
  show ?thesis
    using do_timer_spec[of "demo_sched 0 0 0 0x2000" "Suc 0" 3] demo_inv r by simp
qed

theorem find_empty_process_spec_witness:
  "\<exists>r p. find_empty_process (demo_sched 0 0 0 0x2000) = Some (r, (demo_sched 0 0 0 0x2000)\<lparr>last_pid := p\<rparr>)
     \<and> task (demo_sched 0 0 0 0x2000) (nat r) = 0"
proof -
  let ?k = "demo_sched 0 0 0 0x2000"
  have "\<exists>i\<in>{1..<NR_TASKS}. task ?k i = 0" by (rule bexI[of _ 4]) (simp_all add: demo_sched_def)
  then show ?thesis using find_empty_process_spec[of ?k] by auto
qed

theorem wake_up_reaches_all_witness:
  "\<exists>w1 w2. wq_run [Sleep, Sleep] \<lparr>wq_head = 0, wq_sched = demo_sched 0 0 0 0x2000, wq_frames = Map.empty\<rparr> w1
     \<and> wq_step Wake w1 w2 \<and> (\<exists>p ps. waking w2 p ps)"
proof -
  let ?start = "\<lparr>wq_head = 0, wq_sched = demo_sched 0 0 0 0x2000, wq_frames = Map.empty\<rparr>"
  have r: "wq_run [Sleep, Sleep] ?start
      \<lparr>wq_head = 0x3000, wq_sched = demo_sched 2 2 0 0x4000, wq_frames = [0x2000 \<mapsto> 0, 0x3000 \<mapsto> 0x2000]\<rparr>"
    using wq_more[OF wq_more[OF wq_done demo_sleep(1)] demo_sleep(2)] by simp
  show ?thesis
    using wake_up_reaches_all[OF r _ _ _ demo_wake wq_done] r demo_wake[of "[0x2000 \<mapsto> 0, 0x3000 \<mapsto> 0x2000]"]
    by auto
qed

end
