(* ===== verification/Block.thy ===== *)
theory Block
  imports Sched "HOL-Library.Multiset"
begin

text \<open>
  The block layer: \<open>struct buffer_head\<close> (include/fs/fs.h), the request queue (drivers/block/include/blk.h)
  and drivers/block/hardisk/ll_rw_blk.c. A buffer head is addressed by its pointer, a request by its
  index in the array \<open>request\<close>. \<open>sleep_on\<close> gives the processor away: a call of it, up to its
  return in the same task, is the parameter \<open>zz\<close>, which gets the wait queue and may change the
  whole state. Loops around \<open>sleep_on\<close> have as fuel the number of times the task may go to sleep.
  Messages on the console are left out.
\<close>

section \<open>State\<close>

record buffer_head =
  b_data :: u32
  b_blocknr :: u32
  b_dev :: u16
  b_uptodate :: u8
  b_dirt :: u8
  b_count :: u8
  b_lock :: u8
  b_wait :: u32
  b_prev :: u32
  b_next :: u32
  b_prev_free :: u32
  b_next_free :: u32

record request =
  r_dev :: u32
  r_cmd :: u32
  r_errors :: u32
  r_sector :: u32
  r_nr_sectors :: u32
  r_buffer :: u32
  r_waiting :: u32
  r_bh :: u32
  r_next :: "nat option"

text \<open>\<open>current_request\<close> and whether \<open>request_fn\<close> is set, per major number. The buffer cache's own variables
  (fs/buffer.c) are here too, since every buffer operation works on them.\<close>

record bio =
  heads :: "u32 \<Rightarrow> buffer_head"
  hash_table :: "nat \<Rightarrow> u32"
  free_list :: u32
  buffer_wait :: u32
  nr_buffers :: nat
  request :: "nat \<Rightarrow> request"
  current_request :: "nat \<Rightarrow> nat option"
  has_request_fn :: "nat \<Rightarrow> bool"
  wait_for_request :: u32
  bdata :: mem
  bio_sched :: sched

datatype chan = B_wait u32 | Buffer_wait | Wait_for_request | I_wait nat | S_wait nat

abbreviation (input) READ :: u32 where "READ \<equiv> 0"
abbreviation (input) WRITE :: u32 where "WRITE \<equiv> 1"
abbreviation (input) READA :: u32 where "READA \<equiv> 2"
abbreviation (input) WRITEA :: u32 where "WRITEA \<equiv> 3"

abbreviation (input) NR_REQUEST :: nat where "NR_REQUEST \<equiv> 32"
abbreviation (input) NR_BLK_DEV :: nat where "NR_BLK_DEV \<equiv> 7"

definition MAJOR :: "u32 \<Rightarrow> u32" where "MAJOR a = drop_bit 8 a"
definition MINOR :: "u32 \<Rightarrow> u32" where "MINOR a = a AND 0xff"

definition upd_bh :: "u32 \<Rightarrow> (buffer_head \<Rightarrow> buffer_head) \<Rightarrow> 'a bio_scheme \<Rightarrow> 'a bio_scheme" where
  "upd_bh p f s = s\<lparr>heads := (heads s)(p := f (heads s p))\<rparr>"

definition upd_req :: "nat \<Rightarrow> (request \<Rightarrow> request) \<Rightarrow> 'a bio_scheme \<Rightarrow> 'a bio_scheme" where
  "upd_req i f s = s\<lparr>request := (request s)(i := f (request s i))\<rparr>"

section \<open>Locks\<close>

primrec wait_on_buffer :: "nat \<Rightarrow> (chan \<Rightarrow> 'a bio_scheme \<Rightarrow> 'a bio_scheme kres) \<Rightarrow> u32 \<Rightarrow> 'a bio_scheme \<Rightarrow> 'a bio_scheme kres" where
  "wait_on_buffer 0 zz bh s = (if b_lock (heads s bh) \<noteq> 0 then Inl Hang else Inr s)"
| "wait_on_buffer (Suc n) zz bh s =
     (if b_lock (heads s bh) \<noteq> 0 then kbind (zz (B_wait bh) s) (wait_on_buffer n zz bh) else Inr s)"

definition lock_buffer :: "nat \<Rightarrow> (chan \<Rightarrow> 'a bio_scheme \<Rightarrow> 'a bio_scheme kres) \<Rightarrow> u32 \<Rightarrow> 'a bio_scheme \<Rightarrow> 'a bio_scheme kres" where
  "lock_buffer fuel zz bh s = kbind (wait_on_buffer fuel zz bh s) (\<lambda>s. Inr (upd_bh bh (\<lambda>h. h\<lparr>b_lock := 1\<rparr>) s))"

definition unlock_buffer :: "u32 \<Rightarrow> 'a bio_scheme \<Rightarrow> 'a bio_scheme" where
  "unlock_buffer bh s =
     (let s1 = upd_bh bh (\<lambda>h. h\<lparr>b_lock := 0\<rparr>) s
      in case wake_up (b_wait (heads s1 bh)) (bio_sched s1) of
           (p, k) \<Rightarrow> upd_bh bh (\<lambda>h. h\<lparr>b_wait := p\<rparr>) (s1\<lparr>bio_sched := k\<rparr>))"

section \<open>The request queue\<close>

definition IN_ORDER :: "request \<Rightarrow> request \<Rightarrow> bool" where
  "IN_ORDER s1 s2 \<longleftrightarrow> r_cmd s1 <s r_cmd s2 \<or> r_cmd s1 = r_cmd s2 \<and>
     (r_dev s1 <s r_dev s2 \<or> r_dev s1 = r_dev s2 \<and> r_sector s1 < r_sector s2)"

text \<open>The loop of \<open>add_request\<close>: the request after which the new one goes. It does not end on a cyclic list.\<close>

partial_function (option) ins_point :: "(nat \<Rightarrow> request) \<Rightarrow> nat \<Rightarrow> nat \<Rightarrow> nat option" where
  "ins_point rq new tmp =
     (case r_next (rq tmp) of
        None \<Rightarrow> Some tmp
      | Some nxt \<Rightarrow>
          if (IN_ORDER (rq tmp) (rq new) \<or> \<not> IN_ORDER (rq tmp) (rq nxt)) \<and> IN_ORDER (rq new) (rq nxt)
          then Some tmp else ins_point rq new nxt)"

definition add_request :: "(nat \<Rightarrow> 'a bio_scheme \<Rightarrow> 'a bio_scheme kres) \<Rightarrow> nat \<Rightarrow> nat \<Rightarrow> 'a bio_scheme \<Rightarrow> 'a bio_scheme kres" where
  "add_request request_fn major req s0 =
     (let s1 = upd_req req (\<lambda>r. r\<lparr>r_next := None\<rparr>) s0;
          bh = r_bh (request s1 req);
          s = (if bh \<noteq> 0 then upd_bh bh (\<lambda>h. h\<lparr>b_dirt := 0\<rparr>) s1 else s1)
      in case current_request s major of
           None \<Rightarrow> request_fn major (s\<lparr>current_request := (current_request s)(major := Some req)\<rparr>)
         | Some cur \<Rightarrow>
             (case ins_point (request s) req cur of
                None \<Rightarrow> Inl Hang
              | Some tmp \<Rightarrow>
                  Inr (upd_req tmp (\<lambda>r. r\<lparr>r_next := Some req\<rparr>)
                        (upd_req req (\<lambda>r. r\<lparr>r_next := r_next (request s tmp)\<rparr>) s))))"

text \<open>\<open>while (--req >= request) if (req->dev < 0) break;\<close>\<close>

primrec find_request :: "(nat \<Rightarrow> request) \<Rightarrow> nat \<Rightarrow> nat option" where
  "find_request rq 0 = None"
| "find_request rq (Suc i) = (if r_dev (rq i) <s 0 then Some i else find_request rq i)"

definition new_request :: "u32 \<Rightarrow> u32 \<Rightarrow> 'a bio_scheme \<Rightarrow> request \<Rightarrow> request" where
  "new_request rw bh s r =
     r\<lparr>r_dev := ucast (b_dev (heads s bh)), r_cmd := rw, r_errors := 0, r_sector := push_bit 1 (b_blocknr (heads s bh)),
       r_nr_sectors := 2, r_buffer := b_data (heads s bh), r_waiting := 0, r_bh := bh, r_next := None\<rparr>"

definition slot_limit :: "u32 \<Rightarrow> nat" where
  "slot_limit rw = (if rw = READ then NR_REQUEST else NR_REQUEST * 2 div 3)"

text \<open>From the label \<open>repeat\<close> on.\<close>

primrec get_request :: "nat \<Rightarrow> (chan \<Rightarrow> 'a bio_scheme \<Rightarrow> 'a bio_scheme kres) \<Rightarrow> (nat \<Rightarrow> 'a bio_scheme \<Rightarrow> 'a bio_scheme kres)
    \<Rightarrow> nat \<Rightarrow> u32 \<Rightarrow> bool \<Rightarrow> u32 \<Rightarrow> 'a bio_scheme \<Rightarrow> 'a bio_scheme kres" where
  "get_request 0 zz request_fn major rw rw_ahead bh s = Inl Hang"
| "get_request (Suc n) zz request_fn major rw rw_ahead bh s =
     (case find_request (request s) (slot_limit rw) of
        None \<Rightarrow> if rw_ahead then Inr (unlock_buffer bh s)
                else kbind (zz Wait_for_request s) (get_request n zz request_fn major rw rw_ahead bh)
      | Some i \<Rightarrow> add_request request_fn major i (upd_req i (new_request rw bh s) s))"

definition make_request :: "nat \<Rightarrow> (chan \<Rightarrow> 'a bio_scheme \<Rightarrow> 'a bio_scheme kres) \<Rightarrow> (nat \<Rightarrow> 'a bio_scheme \<Rightarrow> 'a bio_scheme kres)
    \<Rightarrow> nat \<Rightarrow> u32 \<Rightarrow> u32 \<Rightarrow> 'a bio_scheme \<Rightarrow> 'a bio_scheme kres" where
  "make_request fuel zz request_fn major rw0 bh s0 =
     (let rw_ahead = (rw0 = READA \<or> rw0 = WRITEA);
          rw = (if rw_ahead then (if rw0 = READA then READ else WRITE) else rw0)
      in if rw_ahead \<and> b_lock (heads s0 bh) \<noteq> 0 then Inr s0
         else if rw \<noteq> READ \<and> rw \<noteq> WRITE then Inl Hang
         else kbind (lock_buffer fuel zz bh s0) (\<lambda>s.
           if rw = WRITE \<and> b_dirt (heads s bh) = 0 \<or> rw = READ \<and> b_uptodate (heads s bh) \<noteq> 0
           then Inr (unlock_buffer bh s)
           else get_request fuel zz request_fn major rw rw_ahead bh s))"

definition ll_rw_block :: "nat \<Rightarrow> (chan \<Rightarrow> 'a bio_scheme \<Rightarrow> 'a bio_scheme kres) \<Rightarrow> (nat \<Rightarrow> 'a bio_scheme \<Rightarrow> 'a bio_scheme kres)
    \<Rightarrow> u32 \<Rightarrow> u32 \<Rightarrow> 'a bio_scheme \<Rightarrow> 'a bio_scheme kres" where
  "ll_rw_block fuel zz request_fn rw bh s =
     (let major = unat (MAJOR (ucast (b_dev (heads s bh))))
      in if NR_BLK_DEV \<le> major \<or> \<not> has_request_fn s major then Inr s
         else make_request fuel zz request_fn major rw bh s)"

definition blk_dev_init :: "'a bio_scheme \<Rightarrow> 'a bio_scheme" where
  "blk_dev_init s = s\<lparr>request := (\<lambda>i. if i < NR_REQUEST then (request s i)\<lparr>r_dev := -1, r_next := None\<rparr> else request s i)\<rparr>"

section \<open>Completion of a request\<close>

text \<open>\<open>end_request\<close> of blk.h for the driver with the given major number. \<open>CURRENT\<close> null is undefined, and
  so is reading \<open>bh->b_blocknr\<close> for the error message when there is no buffer.\<close>

definition end_request :: "nat \<Rightarrow> u8 \<Rightarrow> 'a bio_scheme \<Rightarrow> 'a bio_scheme kres" where
  "end_request major uptodate s =
     (case current_request s major of
        None \<Rightarrow> Inl Fault
      | Some cur \<Rightarrow>
          (let bh = r_bh (request s cur);
               s1 = (if bh \<noteq> 0 then unlock_buffer bh (upd_bh bh (\<lambda>h. h\<lparr>b_uptodate := uptodate\<rparr>) s) else s)
           in if uptodate = 0 \<and> bh = 0 then Inl Fault
              else case wake_up (r_waiting (request s1 cur)) (bio_sched s1) of
                (p, k) \<Rightarrow> (case wake_up (wait_for_request s1) k of
                  (q, k') \<Rightarrow>
                    (let s2 = upd_req cur (\<lambda>r. r\<lparr>r_waiting := p, r_dev := -1\<rparr>)
                                (s1\<lparr>wait_for_request := q, bio_sched := k'\<rparr>)
                     in Inr (s2\<lparr>current_request := (current_request s2)(major := r_next (request s2 cur))\<rparr>)))))"

section \<open>The queue as a list\<close>

text \<open>The requests of a device's queue in service order.\<close>

primrec rlist :: "(nat \<Rightarrow> request) \<Rightarrow> nat option \<Rightarrow> nat list \<Rightarrow> bool" where
  "rlist rq p [] \<longleftrightarrow> p = None"
| "rlist rq p (i # is) \<longleftrightarrow> p = Some i \<and> rlist rq (r_next (rq i)) is"

text \<open>The elevator on lists: where \<open>add_request\<close> puts a new request behind the one in progress.\<close>

fun elev :: "(nat \<Rightarrow> request) \<Rightarrow> nat \<Rightarrow> nat list \<Rightarrow> nat list" where
  "elev rq r [] = [r]"
| "elev rq r [t] = [t, r]"
| "elev rq r (t # n # is) =
     (if (IN_ORDER (rq t) (rq r) \<or> \<not> IN_ORDER (rq t) (rq n)) \<and> IN_ORDER (rq r) (rq n) then t # r # n # is
      else t # elev rq r (n # is))"

text \<open>The number of places where the head has to turn back.\<close>

fun turns :: "(nat \<Rightarrow> request) \<Rightarrow> nat list \<Rightarrow> nat" where
  "turns rq (t # n # is) = (if IN_ORDER (rq t) (rq n) then 0 else 1) + turns rq (n # is)"
| "turns rq _ = 0"

definition same_key :: "request \<Rightarrow> request \<Rightarrow> bool" where
  "same_key a b \<longleftrightarrow> r_cmd a = r_cmd b \<and> r_dev a = r_dev b \<and> r_sector a = r_sector b"

lemma IN_ORDER_irrefl [simp]: "\<not> IN_ORDER a a"
  by (simp add: IN_ORDER_def)

lemma IN_ORDER_trans: "IN_ORDER a b \<Longrightarrow> IN_ORDER b c \<Longrightarrow> IN_ORDER a c"
  by (auto simp: IN_ORDER_def word_sless_alt word_less_alt)

lemma sint_eqD:
  assumes "\<not> (a :: u32) <s b" and "\<not> b <s a"
  shows "a = b"
proof -
  have "sint a = sint b" using assms by (simp add: word_sless_alt)
  then have "word_of_int (sint a) = (word_of_int (sint b) :: u32)" by simp
  then show ?thesis by simp
qed

lemma IN_ORDER_linear: "\<not> same_key a b \<Longrightarrow> IN_ORDER a b \<or> IN_ORDER b a"
  using sint_eqD[of "r_cmd a" "r_cmd b"] sint_eqD[of "r_dev a" "r_dev b"]
  by (auto simp: IN_ORDER_def same_key_def)

lemma elev_hd: "is \<noteq> [] \<Longrightarrow> elev rq r is \<noteq> [] \<and> hd (elev rq r is) = hd is"
  by (induction rq r "is" rule: elev.induct) auto

lemma elev_mset: "mset (elev rq r is) = add_mset r (mset is)"
  by (induction rq r "is" rule: elev.induct) auto

lemma turns_Cons: "is \<noteq> [] \<Longrightarrow> turns rq (t # is) = (if IN_ORDER (rq t) (rq (hd is)) then 0 else 1) + turns rq is"
  by (cases "is") auto

lemma elev_ascending:
  assumes "turns rq (t # is) = 0" and "IN_ORDER (rq t) (rq r)" and "\<forall>i \<in> set is. \<not> same_key (rq r) (rq i)"
  shows "turns rq (elev rq r (t # is)) = 0"
  using assms
proof (induction "is" arbitrary: t)
  case (Cons n "is")
  show ?case
  proof (cases "IN_ORDER (rq r) (rq n)")
    case True
    with Cons.prems show ?thesis by auto
  next
    case False
    with Cons.prems have "IN_ORDER (rq n) (rq r)" using IN_ORDER_linear by auto
    with Cons have "turns rq (elev rq r (n # is)) = 0" by (auto split: if_splits)
    with False Cons.prems show ?thesis using elev_hd[of "n # is" rq r] by (simp add: turns_Cons split: if_splits)
  qed
qed simp

lemma elev_low:
  assumes "turns rq (t # is) = 0" and "\<not> IN_ORDER (rq t) (rq r)"
  shows "turns rq (elev rq r (t # is)) \<le> 1"
  using assms
proof (induction "is" arbitrary: t)
  case (Cons n "is")
  have tn: "IN_ORDER (rq t) (rq n)" "turns rq (n # is) = 0" using Cons.prems(1) by (auto split: if_splits)
  have "\<not> IN_ORDER (rq n) (rq r)" using Cons.prems(2) tn(1) IN_ORDER_trans by blast
  with Cons.IH[of n] tn have "turns rq (elev rq r (n # is)) \<le> 1" by blast
  with Cons.prems(2) tn show ?case using elev_hd[of "n # is" rq r] by (simp add: turns_Cons)
qed simp

lemma elev_turns:
  assumes "turns rq (t # is) \<le> 1" and "\<forall>i \<in> set (t # is). \<not> same_key (rq r) (rq i)"
  shows "turns rq (elev rq r (t # is)) \<le> 1"
  using assms
proof (induction "is" arbitrary: t)
  case (Cons n "is")
  have h: "elev rq r (n # is) \<noteq> []" "hd (elev rq r (n # is)) = n" using elev_hd[of "n # is" rq r] by auto
  have lin: "IN_ORDER (rq t) (rq r) \<or> IN_ORDER (rq r) (rq t)" "IN_ORDER (rq n) (rq r) \<or> IN_ORDER (rq r) (rq n)"
    using Cons.prems(2) IN_ORDER_linear[of "rq r"] by auto
  show ?case
  proof (cases "IN_ORDER (rq t) (rq n)")
    case True
    then have "turns rq (n # is) \<le> 1" using Cons.prems(1) by simp
    with Cons.IH[of n] Cons.prems(2) have "turns rq (elev rq r (n # is)) \<le> 1" by simp
    with True Cons.prems(1) h show ?thesis by (auto simp: turns_Cons)
  next
    case False
    then have z: "turns rq (n # is) = 0" using Cons.prems(1) by simp
    show ?thesis
    proof (cases "IN_ORDER (rq r) (rq n)")
      case True
      then show ?thesis using False z by simp
    next
      case r: False
      then have "turns rq (elev rq r (n # is)) = 0"
        using elev_ascending[OF z] lin Cons.prems(2) by simp
      with False r h show ?thesis by (simp add: turns_Cons)
    qed
  qed
qed simp

lemma rlist_cong: "(\<And>j. j \<in> set js \<Longrightarrow> r_next (rq' j) = r_next (rq j)) \<Longrightarrow> rlist rq' p js = rlist rq p js"
  by (induction js arbitrary: p) auto

lemma ins_point_elev:
  assumes "rlist rq (Some t) (t # is)" and "distinct (t # is)" and "r \<notin> set (t # is)"
  shows "\<exists>p. ins_point rq r t = Some p \<and> p \<in> set (t # is)
    \<and> rlist (rq(r := (rq r)\<lparr>r_next := r_next (rq p)\<rparr>, p := (rq p)\<lparr>r_next := Some r\<rparr>)) (Some t) (elev rq r (t # is))"
  using assms
proof (induction "is" arbitrary: t)
  case Nil
  then show ?case by (subst ins_point.simps) auto
next
  case (Cons n "is")
  have nt: "r_next (rq t) = Some n" and rl: "rlist rq (Some n) (n # is)" using Cons.prems(1) by auto
  let ?c = "(IN_ORDER (rq t) (rq r) \<or> \<not> IN_ORDER (rq t) (rq n)) \<and> IN_ORDER (rq r) (rq n)"
  show ?case
  proof (cases ?c)
    case True
    then have "ins_point rq r t = Some t" by (subst ins_point.simps) (simp add: nt)
    moreover have "elev rq r (t # n # is) = t # r # n # is" using True by simp
    moreover define rq' where "rq' = rq(r := (rq r)\<lparr>r_next := r_next (rq t)\<rparr>, t := (rq t)\<lparr>r_next := Some r\<rparr>)"
    have "rlist rq' (Some n) (n # is) = rlist rq (Some n) (n # is)"
      using Cons.prems(2,3) by (intro rlist_cong) (auto simp: rq'_def)
    moreover have "r_next (rq' t) = Some r" "r_next (rq' r) = Some n" using Cons.prems(3) nt by (auto simp: rq'_def)
    ultimately have "ins_point rq r t = Some t" "rlist rq' (Some t) (elev rq r (t # n # is))" using rl by simp_all
    then show ?thesis unfolding rq'_def by (intro exI[of _ t]) (simp only: list.set simp_thms insert_iff)
  next
    case False
    have "distinct (n # is)" "r \<notin> set (n # is)" using Cons.prems(2,3) by auto
    from Cons.IH[OF rl this] obtain p where p: "ins_point rq r n = Some p" "p \<in> set (n # is)"
      "rlist (rq(r := (rq r)\<lparr>r_next := r_next (rq p)\<rparr>, p := (rq p)\<lparr>r_next := Some r\<rparr>)) (Some n) (elev rq r (n # is))"
      by blast
    have "ins_point rq r t = Some p" using False p(1) by (subst ins_point.simps) (auto simp: nt)
    moreover have "elev rq r (t # n # is) = t # elev rq r (n # is)" using False by auto
    moreover have "t \<noteq> p" "t \<noteq> r" using Cons.prems(2,3) p(2) by auto
    moreover define rq' where "rq' = rq(r := (rq r)\<lparr>r_next := r_next (rq p)\<rparr>, p := (rq p)\<lparr>r_next := Some r\<rparr>)"
    moreover have "r_next (rq' t) = Some n" using calculation(3,4) nt by (simp add: rq'_def)
    ultimately have "ins_point rq r t = Some p" "rlist rq' (Some t) (elev rq r (t # n # is))" using p(3) by simp_all
    with p(2) show ?thesis unfolding rq'_def by (intro exI[of _ p]) (simp only: list.set simp_thms insert_iff)
  qed
qed

lemma upd_fields [simp]:
  "heads (upd_req i g s) = heads s" "request (upd_bh p f s) = request s"
  "current_request (upd_req i g s) = current_request s" "current_request (upd_bh p f s) = current_request s"
  "request (upd_req i g s) = (request s)(i := g (request s i))"
  "heads (upd_bh p f s) = (heads s)(p := f (heads s p))"
  by (simp_all add: upd_req_def upd_bh_def)

lemma find_request_Some:
  "find_request rq n = Some i \<Longrightarrow> i < n \<and> r_dev (rq i) <s 0 \<and> (\<forall>j. i < j \<and> j < n \<longrightarrow> \<not> r_dev (rq j) <s 0)"
  by (induction n) (auto split: if_splits simp: less_Suc_eq)

lemma find_request_None: "find_request rq n = None \<longleftrightarrow> (\<forall>j < n. \<not> r_dev (rq j) <s 0)"
  by (induction n) (auto simp: less_Suc_eq)

lemma same_key_order:
  assumes "same_key a a'" and "same_key b b'"
  shows "IN_ORDER a b = IN_ORDER a' b'"
  using assms by (simp add: same_key_def IN_ORDER_def)

lemma turns_cong:
  assumes "\<And>i. same_key (rq i) (rq' i)"
  shows "turns rq is = turns rq' is"
proof -
  have "IN_ORDER (rq t) (rq n) = IN_ORDER (rq' t) (rq' n)" for t n
    by (intro same_key_order assms)
  then show ?thesis by (induction rq' "is" rule: turns.induct) auto
qed

lemma same_key_refl [simp]: "same_key a a" "same_key a (b\<lparr>r_next := n\<rparr>) = same_key a b" "same_key (a\<lparr>r_next := n\<rparr>) b = same_key a b"
  by (simp_all add: same_key_def)

lemma elev_Cons: "\<exists>qs. elev rq r (t # is) = t # qs \<and> mset qs = add_mset r (mset is)"
proof -
  have h: "elev rq r (t # is) \<noteq> []" "hd (elev rq r (t # is)) = t" using elev_hd[of "t # is" rq r] by auto
  then have e: "elev rq r (t # is) = t # tl (elev rq r (t # is))" by (metis list.collapse)
  then have "add_mset t (mset (tl (elev rq r (t # is)))) = add_mset r (add_mset t (mset is))"
    using elev_mset[of rq r "t # is"] by (metis mset.simps(2))
  then have "mset (tl (elev rq r (t # is))) = add_mset r (mset is)" by (simp add: add_mset_commute)
  with e show ?thesis by blast
qed

lemma add_request_queue:
  assumes "current_request s major = Some t" and "rlist (request s) (Some t) (t # is)" and "distinct (t # is)" and "req \<notin> set (t # is)"
    and "\<forall>i \<in> set (t # is). \<not> same_key (request s req) (request s i)" and "turns (request s) (t # is) \<le> 1"
  shows "\<exists>s' qs. add_request fn major req s = Inr s' \<and> current_request s' = current_request s
    \<and> rlist (request s') (Some t) (t # qs) \<and> mset qs = add_mset req (mset is) \<and> turns (request s') (t # qs) \<le> 1
    \<and> (\<forall>i. \<exists>n. request s' i = (request s i)\<lparr>r_next := n\<rparr>) \<and> (\<forall>p. \<exists>d. heads s' p = (heads s p)\<lparr>b_dirt := d\<rparr>)"
proof -
  define s1 where "s1 = (if r_bh (request s req) \<noteq> 0 then upd_bh (r_bh (request s req)) (\<lambda>h. h\<lparr>b_dirt := 0\<rparr>)
    (upd_req req (\<lambda>r. r\<lparr>r_next := None\<rparr>) s) else upd_req req (\<lambda>r. r\<lparr>r_next := None\<rparr>) s)"
  have r1: "request s1 = (request s)(req := (request s req)\<lparr>r_next := None\<rparr>)" "current_request s1 = current_request s"
    by (simp_all add: s1_def)
  have key: "same_key (request s1 i) (request s i)" for i by (simp add: r1)
  have "rlist (request s1) (Some t) (t # is) = rlist (request s) (Some t) (t # is)"
    using assms(4) by (intro rlist_cong) (auto simp: r1)
  with assms(2) have "rlist (request s1) (Some t) (t # is)" by blast
  from ins_point_elev[OF this assms(3,4)] obtain p where p: "ins_point (request s1) req t = Some p" "p \<in> set (t # is)"
    "rlist ((request s1)(req := (request s1 req)\<lparr>r_next := r_next (request s1 p)\<rparr>, p := (request s1 p)\<lparr>r_next := Some req\<rparr>))
      (Some t) (elev (request s1) req (t # is))" by blast
  define s2 where "s2 = upd_req p (\<lambda>r. r\<lparr>r_next := Some req\<rparr>) (upd_req req (\<lambda>r. r\<lparr>r_next := r_next (request s1 p)\<rparr>) s1)"
  have ad: "add_request fn major req s = Inr s2"
  proof -
    have "r_bh (request (upd_req req (\<lambda>r. r\<lparr>r_next := None\<rparr>) s) req) = r_bh (request s req)" by simp
    then show ?thesis
      unfolding add_request_def Let_def using assms(1) p(1) r1(2) by (simp only: s1_def[symmetric]) (simp add: s2_def)
  qed
  have "p \<noteq> req" using p(2) assms(4) by auto
  then have r2: "request s2 = (request s1)(req := (request s1 req)\<lparr>r_next := r_next (request s1 p)\<rparr>, p := (request s1 p)\<lparr>r_next := Some req\<rparr>)"
    by (simp add: s2_def)
  obtain qs where qs: "elev (request s1) req (t # is) = t # qs" "mset qs = add_mset req (mset is)" using elev_Cons by blast
  have "turns (request s1) (t # is) \<le> 1" using assms(6) turns_cong[of "request s1" "request s" "t # is"] key by simp
  moreover have "\<forall>i \<in> set (t # is). \<not> same_key (request s1 req) (request s1 i)"
    using assms(5) by (auto simp: r1)
  ultimately have "turns (request s1) (t # qs) \<le> 1" using elev_turns[of "request s1" t "is" req] qs(1) by simp
  moreover have "same_key (request s2 i) (request s1 i)" for i by (simp add: r2)
  ultimately have "turns (request s2) (t # qs) \<le> 1" using turns_cong[of "request s2" "request s1" "t # qs"] by simp
  moreover have "\<exists>n. request s2 i = (request s i)\<lparr>r_next := n\<rparr>" for i
    by (auto simp: r2 r1 intro: exI[of _ "r_next (request s i)"])
  moreover have "\<exists>d. heads s2 q = (heads s q)\<lparr>b_dirt := d\<rparr>" for q
    by (auto simp: s2_def s1_def intro: exI[of _ "b_dirt (heads s q)"])
  ultimately show ?thesis using ad p(3) qs r1(2) by (auto simp: r2 s2_def)
qed

lemma wait_on_unlocked: "b_lock (heads s bh) = 0 \<Longrightarrow> wait_on_buffer fuel zz bh s = Inr s"
  by (cases fuel) simp_all

text \<open>C22: \<open>make_request\<close> for an unlocked buffer that needs the transfer, with a request in progress and a free
  slot: it returns with the buffer locked and the highest free slot allowed for the command describing
  the transfer. Writes only get the lower 21 of the 32 slots. The request in progress stays first, no
  request is lost, and if the disk head had to turn back at most once to serve the queue in order, it
  still has to turn back at most once.\<close>

theorem make_request_elevator:
  assumes "rw = READ \<and> b_uptodate (heads s bh) = 0 \<or> rw = WRITE \<and> b_dirt (heads s bh) \<noteq> 0"
    and "b_lock (heads s bh) = 0" and "\<exists>i < slot_limit rw. r_dev (request s i) <s 0"
    and "current_request s major = Some t" and "rlist (request s) (Some t) (t # is)" and "distinct (t # is)"
    and "\<forall>i \<in> set (t # is). \<not> r_dev (request s i) <s 0"
    and "\<forall>i \<in> set (t # is). \<not> (r_cmd (request s i) = rw \<and> r_dev (request s i) = ucast (b_dev (heads s bh))
      \<and> r_sector (request s i) = push_bit 1 (b_blocknr (heads s bh)))"
    and "turns (request s) (t # is) \<le> 1" and "0 < fuel"
  shows "\<exists>s' i qs. make_request fuel zz fn major rw bh s = Inr s' \<and> b_lock (heads s' bh) = 1
    \<and> r_dev (request s i) <s 0 \<and> i < (if rw = WRITE then 21 else 32)
    \<and> r_bh (request s' i) = bh \<and> r_cmd (request s' i) = rw \<and> r_dev (request s' i) = ucast (b_dev (heads s bh))
    \<and> r_sector (request s' i) = push_bit 1 (b_blocknr (heads s bh)) \<and> r_buffer (request s' i) = b_data (heads s bh)
    \<and> rlist (request s') (current_request s' major) (t # qs) \<and> mset qs = add_mset i (mset is) \<and> turns (request s') (t # qs) \<le> 1"
proof -
  define s1 where "s1 = upd_bh bh (\<lambda>h. h\<lparr>b_lock := 1\<rparr>) s"
  obtain i where i: "find_request (request s) (slot_limit rw) = Some i"
    using assms(3) find_request_None[of "request s" "slot_limit rw"] by (cases "find_request (request s) (slot_limit rw)") auto
  then have ic: "i < slot_limit rw" "r_dev (request s i) <s 0" using find_request_Some by auto
  define s2 where "s2 = upd_req i (new_request rw bh s1) s1"
  obtain n where n: "fuel = Suc n" using assms(10) by (cases fuel) auto
  have m: "make_request fuel zz fn major rw bh s = add_request fn major i s2"
    using assms(1,2) i
    by (auto simp: make_request_def Let_def lock_buffer_def wait_on_unlocked n s2_def s1_def)
  have r2: "request s2 = (request s)(i := new_request rw bh s1 (request s i))" by (simp add: s2_def s1_def)
  have ni: "i \<notin> set (t # is)" using ic(2) assms(7) by auto
  have "rlist (request s2) (Some t) (t # is) = rlist (request s) (Some t) (t # is)"
    using ni by (intro rlist_cong) (auto simp: r2)
  moreover have "turns (request s2) js = turns (request s) js" if "i \<notin> set js" for js
    using that by (induction "request s" js rule: turns.induct) (auto simp: r2)
  moreover have "\<forall>j \<in> set (t # is). \<not> same_key (request s2 i) (request s2 j)"
  proof
    fix j
    assume j: "j \<in> set (t # is)"
    then have "request s2 j = request s j" using ni by (auto simp: r2)
    moreover have "r_cmd (request s2 i) = rw" "r_dev (request s2 i) = ucast (b_dev (heads s bh))"
      "r_sector (request s2 i) = push_bit 1 (b_blocknr (heads s bh))"
      by (simp_all add: r2 new_request_def s1_def)
    ultimately show "\<not> same_key (request s2 i) (request s2 j)" using assms(8) j by (auto simp: same_key_def)
  qed
  moreover have "current_request s2 major = Some t" using assms(4) by (simp add: s2_def s1_def)
  ultimately obtain s' qs where q: "add_request fn major i s2 = Inr s'" "current_request s' = current_request s2"
    "rlist (request s') (Some t) (t # qs)" "mset qs = add_mset i (mset is)" "turns (request s') (t # qs) \<le> 1"
    "\<forall>i. \<exists>n. request s' i = (request s2 i)\<lparr>r_next := n\<rparr>" "\<forall>p. \<exists>d. heads s' p = (heads s2 p)\<lparr>b_dirt := d\<rparr>"
    using add_request_queue[of s2 major t "is" i fn] assms(5,6,9) ni by auto
  obtain n d where f: "request s' i = (request s2 i)\<lparr>r_next := n\<rparr>" "heads s' bh = (heads s2 bh)\<lparr>b_dirt := d\<rparr>"
    using q(6,7) by blast
  have "i < (if rw = WRITE then 21 else 32)" using ic(1) assms(1) by (auto simp: slot_limit_def)
  moreover have "request s2 i = new_request rw bh s1 (request s i)" "b_lock (heads s2 bh) = 1" "heads s1 bh = (heads s bh)\<lparr>b_lock := 1\<rparr>"
    by (simp_all add: r2 s2_def s1_def)
  ultimately show ?thesis
    using m q(1-5) ic(2) f assms(4)
    by (intro exI[of _ s'] exI[of _ i] exI[of _ qs]) (simp add: new_request_def s2_def s1_def)
qed

text \<open>\<open>end_request\<close> releases the request in progress: its slot is free again, its buffer is unlocked and
  has the outcome recorded, and the next request of the queue becomes the current one.\<close>

theorem end_request_pops:
  assumes "current_request s major = Some t" and "rlist (request s) (Some t) (t # is)" and "distinct (t # is)"
    and "r_bh (request s t) \<noteq> 0"
  shows "\<exists>s'. end_request major u s = Inr s' \<and> rlist (request s') (current_request s' major) is
    \<and> r_dev (request s' t) <s 0 \<and> b_lock (heads s' (r_bh (request s t))) = 0
    \<and> b_uptodate (heads s' (r_bh (request s t))) = u
    \<and> (\<forall>i. i \<noteq> t \<longrightarrow> request s' i = request s i) \<and> (\<forall>p. p \<noteq> r_bh (request s t) \<longrightarrow> heads s' p = heads s p)"
proof -
  let ?bh = "r_bh (request s t)"
  define s1 where "s1 = unlock_buffer ?bh (upd_bh ?bh (\<lambda>h. h\<lparr>b_uptodate := u\<rparr>) s)"
  have u: "request s1 = request s" "current_request s1 = current_request s" "b_lock (heads s1 ?bh) = 0"
    "b_uptodate (heads s1 ?bh) = u" "\<forall>p. p \<noteq> ?bh \<longrightarrow> heads s1 p = heads s p"
    by (simp_all add: s1_def unlock_buffer_def Let_def upd_bh_def split: prod.split)
  obtain p k where w1: "wake_up (r_waiting (request s1 t)) (bio_sched s1) = (p, k)" by force
  obtain q k' where w2: "wake_up (wait_for_request s1) k = (q, k')" by force
  let ?s2 = "upd_req t (\<lambda>r. r\<lparr>r_waiting := p, r_dev := -1\<rparr>) (s1\<lparr>wait_for_request := q, bio_sched := k'\<rparr>)"
  let ?s' = "?s2\<lparr>current_request := (current_request ?s2)(major := r_next (request ?s2 t))\<rparr>"
  have "end_request major u s = Inr ?s'"
    using assms(1,4) w1 w2 by (simp add: end_request_def Let_def s1_def[symmetric])
  moreover have "rlist (request ?s') (r_next (request s t)) is = rlist (request s) (r_next (request s t)) is"
    using assms(3) by (intro rlist_cong) (auto simp: upd_req_def u(1))
  moreover have "(- 1 :: u32) <s 0" by (simp add: word_sless_alt)
  ultimately show ?thesis using assms(2) u by (intro exI[of _ ?s']) (auto simp: upd_req_def)
qed

definition demo_bio :: bio where
  "demo_bio = \<lparr>heads = (\<lambda>p. \<lparr>b_data = 0x8000, b_blocknr = 3, b_dev = 0x301, b_uptodate = 0, b_dirt = 0, b_count = 1, b_lock = 0,
       b_wait = 0, b_prev = 0, b_next = 0, b_prev_free = 0x1000, b_next_free = 0x1000\<rparr>),
     hash_table = (\<lambda>_. 0), free_list = 0x1000, buffer_wait = 0, nr_buffers = 1,
     request = (\<lambda>i. \<lparr>r_dev = (if i = 31 then 0x301 else - 1), r_cmd = READ, r_errors = 0, r_sector = 20, r_nr_sectors = 2,
       r_buffer = 0, r_waiting = 0, r_bh = 0x2000, r_next = None\<rparr>),
     current_request = (\<lambda>m. if m = 3 then Some 31 else None), has_request_fn = (\<lambda>m. m = 3), wait_for_request = 0,
     bdata = (\<lambda>_. 0), bio_sched = demo_sched 0 0 0 0x2000\<rparr>"

theorem make_request_elevator_witness:
  "\<exists>s' i. make_request 1 (\<lambda>_. Inr) (\<lambda>_. Inr) 3 READ 0x1000 demo_bio = Inr s' \<and> i < 32 \<and> rlist (request s') (Some 31) [31, i]"
proof -
  have "r_dev (request demo_bio 30) <s 0" by (simp add: demo_bio_def word_sless_alt)
  then have "\<exists>i < slot_limit READ. r_dev (request demo_bio i) <s 0" by (intro exI[of _ 30]) (simp add: slot_limit_def)
  from make_request_elevator[of READ demo_bio "0x1000" 3 31 "[]" 1 "\<lambda>_. Inr" "\<lambda>_. Inr", OF _ _ this]
  show ?thesis by (auto simp: demo_bio_def word_sless_alt)
qed

theorem end_request_pops_witness: "\<exists>s'. end_request 3 1 demo_bio = Inr s' \<and> current_request s' 3 = None"
  using end_request_pops[of demo_bio 3 31 "[]" 1] by (auto simp: demo_bio_def)

end
