(* ===== verification/Links.thy ===== *)
theory Links
  imports Prelude
begin

text \<open>
  Doubly linked lists and circular lists over two pointer fields, as the kernel builds them by hand:
  a predicate relates the fields to the list of elements, and unlinking and appending are shown to
  do on the fields what removal and append do on the list.
\<close>

section \<open>Doubly linked lists\<close>

text \<open>The elements \<open>xs\<close> linked in both directions by two pointer fields, between the neighbours \<open>q\<close> and \<open>e\<close>.\<close>

primrec dl :: "('p \<Rightarrow> 'p) \<Rightarrow> ('p \<Rightarrow> 'p) \<Rightarrow> 'p \<Rightarrow> 'p list \<Rightarrow> 'p \<Rightarrow> bool" where
  "dl nx pv q [] e \<longleftrightarrow> True"
| "dl nx pv q (x # xs) e \<longleftrightarrow> pv x = q \<and> nx x = hd (xs @ [e]) \<and> dl nx pv x xs e"

lemma dl_append: "dl nx pv q (as @ bs) e \<longleftrightarrow> dl nx pv q as (hd (bs @ [e])) \<and> dl nx pv (last (q # as)) bs e"
proof (induction as arbitrary: q)
  case (Cons a as)
  then show ?case by (cases as) auto
qed simp

lemma dl_cong:
  assumes "\<And>x. x \<in> set xs \<Longrightarrow> nx' x = nx x \<and> pv' x = pv x"
  shows "dl nx' pv' q xs e = dl nx pv q xs e"
  using assms by (induction xs arbitrary: q) auto

lemma dl_set_last:
  assumes "dl nx pv q xs e" and "distinct xs" and "xs \<noteq> []"
  shows "dl (nx(last xs := e')) pv q xs e'"
proof -
  obtain ys y where xs: "xs = ys @ [y]" using assms(3) by (cases xs rule: rev_cases) auto
  then have "dl nx pv q ys y" "pv y = last (q # ys)" "y \<notin> set ys" using assms(1,2) by (auto simp: dl_append)
  moreover have "dl (nx(y := e')) pv q ys y = dl nx pv q ys y" using \<open>y \<notin> set ys\<close> by (intro dl_cong) auto
  ultimately show ?thesis by (simp add: xs dl_append)
qed

lemma dl_set_first:
  assumes "dl nx pv q xs e" and "distinct xs" and "xs \<noteq> []"
  shows "dl nx (pv(hd xs := q')) q' xs e"
proof -
  obtain y ys where xs: "xs = y # ys" using assms(3) by (cases xs) auto
  then have "dl nx (pv(y := q')) y ys e = dl nx pv y ys e" using assms(2) by (intro dl_cong) auto
  with assms(1) show ?thesis by (simp add: xs)
qed

text \<open>Taking an element out of a list that ends in null pointers.\<close>

definition unlink_nx :: "u32 \<Rightarrow> (u32 \<Rightarrow> u32) \<Rightarrow> (u32 \<Rightarrow> u32) \<Rightarrow> u32 \<Rightarrow> u32" where
  "unlink_nx x nx pv = (if pv x \<noteq> 0 then nx(pv x := nx x) else nx)"

definition unlink_pv :: "u32 \<Rightarrow> (u32 \<Rightarrow> u32) \<Rightarrow> (u32 \<Rightarrow> u32) \<Rightarrow> u32 \<Rightarrow> u32" where
  "unlink_pv x nx pv = (if nx x \<noteq> 0 then pv(nx x := pv x) else pv)"

lemma dl_unlink:
  assumes "dl nx pv 0 (as @ x # bs) 0" and "distinct (as @ x # bs)" and "0 \<notin> set (as @ x # bs)"
  shows "dl (unlink_nx x nx pv) (unlink_pv x nx pv) 0 (as @ bs) 0"
proof -
  have A: "dl nx pv 0 as x" and B: "dl nx pv x bs 0" and x: "pv x = last (0 # as)" "nx x = hd (bs @ [0])"
    using assms(1) by (auto simp: dl_append)
  let ?nx = "unlink_nx x nx pv" and ?pv = "unlink_pv x nx pv"
  have nx: "?nx = (if as = [] then nx else nx(last as := hd (bs @ [0])))"
  proof (cases "as = []")
    case False
    then have "last as \<noteq> 0" using assms(3) last_in_set[of as] by (metis Un_iff set_append)
    with False x show ?thesis by (simp add: unlink_nx_def)
  qed (simp add: unlink_nx_def x)
  have pv: "?pv = (if bs = [] then pv else pv(hd bs := last (0 # as)))"
    using assms(3) x hd_in_set[of bs] by (cases bs) (auto simp: unlink_pv_def)
  have "dl ?nx ?pv 0 as (hd (bs @ [0]))"
  proof (cases "as = []")
    case False
    have "dl ?nx ?pv 0 as (hd (bs @ [0])) = dl (nx(last as := hd (bs @ [0]))) pv 0 as (hd (bs @ [0]))"
      using False assms(2) hd_in_set[of bs] by (intro dl_cong) (auto simp: nx pv)
    then show ?thesis using dl_set_last[OF A _ False] assms(2) by simp
  qed simp
  moreover have "dl ?nx ?pv (last (0 # as)) bs 0"
  proof (cases "bs = []")
    case False
    have "dl ?nx ?pv (last (0 # as)) bs 0 = dl nx (pv(hd bs := last (0 # as))) (last (0 # as)) bs 0"
    proof (rule dl_cong)
      fix y
      assume "y \<in> set bs"
      then have "as \<noteq> [] \<Longrightarrow> y \<noteq> last as" using assms(2) by (auto dest: last_in_set)
      then show "?nx y = nx y \<and> ?pv y = (pv(hd bs := last (0 # as))) y" using False by (simp add: nx pv)
    qed
    then show ?thesis using dl_set_first[OF B _ False] assms(2) by simp
  qed simp
  ultimately show ?thesis by (simp add: dl_append)
qed

section \<open>Circular lists\<close>

definition ring :: "('p \<Rightarrow> 'p) \<Rightarrow> ('p \<Rightarrow> 'p) \<Rightarrow> 'p list \<Rightarrow> bool" where
  "ring nx pv xs \<longleftrightarrow> xs \<noteq> [] \<and> dl nx pv (last xs) xs (hd xs)"

lemma ring_rotate: "ring nx pv (as @ bs) \<longleftrightarrow> ring nx pv (bs @ as)"
proof (cases "as = [] \<or> bs = []")
  case False
  then show ?thesis by (auto simp: ring_def dl_append)
qed auto

lemma ring_remove_first:
  assumes "ring nx pv (x # ys)" and "distinct (x # ys)" and "ys \<noteq> []"
  shows "ring (nx(pv x := nx x)) (pv(nx x := pv x)) ys"
proof -
  have x: "pv x = last ys" "nx x = hd ys" and D: "dl nx pv x ys x" using assms(1,3) by (auto simp: ring_def)
  have "dl (nx(last ys := hd ys)) pv x ys (hd ys)" using dl_set_last[OF D _ assms(3)] assms(2) by simp
  from dl_set_first[OF this _ assms(3)] assms(2,3) show ?thesis by (simp add: ring_def x)
qed

lemma ring_remove:
  assumes "ring nx pv (as @ x # bs)" and "distinct (as @ x # bs)" and "as @ bs \<noteq> []"
  shows "ring (nx(pv x := nx x)) (pv(nx x := pv x)) (as @ bs)"
proof -
  have "ring nx pv (x # bs @ as)" using assms(1) ring_rotate[of nx pv as "x # bs"] by simp
  from ring_remove_first[OF this] assms(2,3) show ?thesis using ring_rotate[of _ _ as bs] by auto
qed

lemma ring_add:
  assumes "ring nx pv xs" and "distinct xs" and "x \<notin> set xs"
  shows "ring (nx(x := hd xs, last xs := x)) (pv(x := last xs, hd xs := x)) (xs @ [x])"
proof -
  have ne: "xs \<noteq> []" and D: "dl nx pv (last xs) xs (hd xs)" using assms(1) by (auto simp: ring_def)
  from dl_set_first[OF dl_set_last[OF D assms(2) ne] assms(2) ne]
  have "dl (nx(last xs := x)) (pv(hd xs := x)) x xs x" .
  moreover have "dl (nx(x := hd xs, last xs := x)) (pv(x := last xs, hd xs := x)) x xs x = dl (nx(last xs := x)) (pv(hd xs := x)) x xs x"
    using assms(3) ne by (intro dl_cong) auto
  moreover have "x \<noteq> last xs" "x \<noteq> hd xs" using assms(3) last_in_set[OF ne] hd_in_set[OF ne] by metis+
  ultimately show ?thesis using ne by (simp add: ring_def dl_append)
qed

lemma ring_cong: "(\<And>x. x \<in> set xs \<Longrightarrow> nx' x = nx x \<and> pv' x = pv x) \<Longrightarrow> ring nx' pv' xs = ring nx pv xs"
  unfolding ring_def using dl_cong[of xs nx' nx pv' pv "last xs" "hd xs"] by simp

lemma ring_neighbours:
  assumes "ring nx pv xs" and "x \<in> set xs"
  shows "nx x \<in> set xs \<and> pv x \<in> set xs"
proof -
  obtain as bs where xs: "xs = as @ x # bs" using assms(2) by (meson split_list)
  then have "ring nx pv (x # bs @ as)" using assms(1) ring_rotate[of nx pv as "x # bs"] by simp
  then have "pv x = last (x # bs @ as)" "nx x = hd ((bs @ as) @ [x])" by (auto simp: ring_def)
  moreover have "hd ((bs @ as) @ [x]) \<in> set ((bs @ as) @ [x])" by (rule hd_in_set) simp
  moreover have "last (x # bs @ as) \<in> set (x # bs @ as)" by (rule last_in_set) simp
  ultimately show ?thesis by (auto simp: xs)
qed

lemma ring_neighbours_ne:
  assumes "ring nx pv xs" and "x \<in> set xs" and "distinct xs" and "2 \<le> length xs"
  shows "nx x \<noteq> x \<and> pv x \<noteq> x"
proof -
  obtain as bs where xs: "xs = as @ x # bs" using assms(2) by (meson split_list)
  then have "ring nx pv (x # bs @ as)" using assms(1) ring_rotate[of nx pv as "x # bs"] by simp
  moreover have "bs @ as \<noteq> []" using assms(4) by (auto simp: xs)
  ultimately have "pv x = last (bs @ as)" "nx x = hd (bs @ as)" "bs @ as \<noteq> []"
    using hd_append2[of "bs @ as" "[x]"] by (auto simp: ring_def split: if_splits)
  then have "pv x \<in> set (bs @ as)" "nx x \<in> set (bs @ as)" using last_in_set hd_in_set by metis+
  with assms(3) show ?thesis by (auto simp: xs)
qed

end
