(* ===== verification/Buffer.thy ===== *)
theory Buffer
  imports Block Links
begin

text \<open>
  The buffer cache, fs/buffer.c: buffer heads in hash chains by device and block and on one circular
  list in the order of their last use. The loops that follow pointers are partial functions whose
  value is \<open>None\<close> when they do not end; the \<open>repeat\<close> loops of \<open>getblk\<close> and \<open>get_hash_table\<close>, which go round
  only after a sleep, have fuel.
\<close>

section \<open>Queues\<close>

abbreviation (input) NR_HASH :: nat where "NR_HASH \<equiv> 307"
abbreviation (input) BLOCK_SIZE :: u32 where "BLOCK_SIZE \<equiv> 1024"

definition hashfn :: "u32 \<Rightarrow> u32 \<Rightarrow> nat" where
  "hashfn dev block = unat (dev XOR block) mod NR_HASH"

definition bh_hash :: "buffer_head \<Rightarrow> nat" where
  "bh_hash h = hashfn (ucast (b_dev h)) (b_blocknr h)"

definition remove_from_queues :: "u32 \<Rightarrow> 'a bio_scheme \<Rightarrow> 'a bio_scheme kres" where
  "remove_from_queues bh s0 =
     (let s1 = (if b_next (heads s0 bh) \<noteq> 0
                then upd_bh (b_next (heads s0 bh)) (\<lambda>h. h\<lparr>b_prev := b_prev (heads s0 bh)\<rparr>) s0 else s0);
          s2 = (if b_prev (heads s1 bh) \<noteq> 0
                then upd_bh (b_prev (heads s1 bh)) (\<lambda>h. h\<lparr>b_next := b_next (heads s1 bh)\<rparr>) s1 else s1);
          i = bh_hash (heads s2 bh);
          s3 = (if hash_table s2 i = bh then s2\<lparr>hash_table := (hash_table s2)(i := b_next (heads s2 bh))\<rparr> else s2)
      in if b_prev_free (heads s3 bh) = 0 \<or> b_next_free (heads s3 bh) = 0
         then Inl (Panic ''Free block list corrupted'')
         else
          (let s4 = upd_bh (b_prev_free (heads s3 bh)) (\<lambda>h. h\<lparr>b_next_free := b_next_free (heads s3 bh)\<rparr>) s3;
               s5 = upd_bh (b_next_free (heads s4 bh)) (\<lambda>h. h\<lparr>b_prev_free := b_prev_free (heads s4 bh)\<rparr>) s4
           in Inr (if free_list s5 = bh then s5\<lparr>free_list := b_next_free (heads s5 bh)\<rparr> else s5)))"

definition insert_into_queues :: "u32 \<Rightarrow> 'a bio_scheme \<Rightarrow> 'a bio_scheme" where
  "insert_into_queues bh s0 =
     (let s1 = upd_bh bh (\<lambda>h. h\<lparr>b_next_free := free_list s0\<rparr>) s0;
          s2 = upd_bh bh (\<lambda>h. h\<lparr>b_prev_free := b_prev_free (heads s1 (free_list s1))\<rparr>) s1;
          s3 = upd_bh (b_prev_free (heads s2 (free_list s2))) (\<lambda>h. h\<lparr>b_next_free := bh\<rparr>) s2;
          s4 = upd_bh (free_list s3) (\<lambda>h. h\<lparr>b_prev_free := bh\<rparr>) s3;
          s5 = upd_bh bh (\<lambda>h. h\<lparr>b_prev := 0, b_next := 0\<rparr>) s4;
          i = bh_hash (heads s5 bh)
      in if b_dev (heads s5 bh) = 0 then s5
         else if hash_table s5 i \<noteq> 0 then
          (let s6 = upd_bh bh (\<lambda>h. h\<lparr>b_next := hash_table s5 i\<rparr>) s5;
               s7 = s6\<lparr>hash_table := (hash_table s6)(i := bh)\<rparr>
           in upd_bh (b_next (heads s7 bh)) (\<lambda>h. h\<lparr>b_prev := bh\<rparr>) s7)
         else s5\<lparr>hash_table := (hash_table s5)(i := bh)\<rparr>)"

section \<open>Initialisation\<close>

text \<open>A buffer head takes 36 bytes. The loop puts heads upwards from \<open>start_buffer\<close> and blocks downwards from
  the end of the buffer memory, jumping over the hole of video memory and ROM.\<close>

abbreviation (input) start_buffer :: u32 where "start_buffer \<equiv> 0x100000"
abbreviation (input) sizeof_bh :: u32 where "sizeof_bh \<equiv> 36"

partial_function (option) init_loop :: "u32 \<Rightarrow> u32 \<Rightarrow> 'a bio_scheme \<Rightarrow> (u32 \<times> 'a bio_scheme) option" where
  "init_loop h b0 s =
     (let b = b0 - BLOCK_SIZE in
      if h + sizeof_bh \<le> b
      then init_loop (h + sizeof_bh) (if b = 0x100000 then 0xa0000 else b)
             ((upd_bh h (\<lambda>x. x\<lparr>b_dev := 0, b_dirt := 0, b_count := 0, b_lock := 0, b_uptodate := 0, b_wait := 0,
                  b_next := 0, b_prev := 0, b_data := b, b_prev_free := h - sizeof_bh, b_next_free := h + sizeof_bh\<rparr>) s)
              \<lparr>nr_buffers := nr_buffers s + 1\<rparr>)
      else Some (h, s))"

definition buffer_init :: "u32 \<Rightarrow> 'a bio_scheme \<Rightarrow> 'a bio_scheme option" where
  "buffer_init buffer_end s =
     (case init_loop start_buffer buffer_end s of
        None \<Rightarrow> None
      | Some (h1, s1) \<Rightarrow>
          (let h = h1 - sizeof_bh;
               s2 = s1\<lparr>free_list := start_buffer\<rparr>;
               s3 = upd_bh (free_list s2) (\<lambda>x. x\<lparr>b_prev_free := h\<rparr>) s2;
               s4 = upd_bh h (\<lambda>x. x\<lparr>b_next_free := free_list s3\<rparr>) s3
           in Some (s4\<lparr>hash_table := (\<lambda>i. if i < NR_HASH then 0 else hash_table s4 i)\<rparr>)))"

section \<open>Finding and getting buffers\<close>

partial_function (option) find_from :: "(u32 \<Rightarrow> buffer_head) \<Rightarrow> u32 \<Rightarrow> u32 \<Rightarrow> u32 \<Rightarrow> u32 option" where
  "find_from h dev block tmp =
     (if tmp = 0 then Some 0
      else if ucast (b_dev (h tmp)) = dev \<and> b_blocknr (h tmp) = block then Some tmp
      else find_from h dev block (b_next (h tmp)))"

definition find_buffer :: "u32 \<Rightarrow> u32 \<Rightarrow> 'a bio_scheme \<Rightarrow> u32 kres" where
  "find_buffer dev block s =
     (case find_from (heads s) dev block (hash_table s (hashfn dev block)) of None \<Rightarrow> Inl Hang | Some p \<Rightarrow> Inr p)"

primrec get_hash_table :: "nat \<Rightarrow> (chan \<Rightarrow> 'a bio_scheme \<Rightarrow> 'a bio_scheme kres) \<Rightarrow> u32 \<Rightarrow> u32
    \<Rightarrow> 'a bio_scheme \<Rightarrow> (u32 \<times> 'a bio_scheme) kres" where
  "get_hash_table 0 zz dev block s = Inl Hang"
| "get_hash_table (Suc n) zz dev block s =
     kbind (find_buffer dev block s) (\<lambda>bh.
       if bh = 0 then Inr (0, s)
       else kbind (wait_on_buffer n zz bh (upd_bh bh (\<lambda>h. h\<lparr>b_count := b_count h + 1\<rparr>) s)) (\<lambda>s.
         if ucast (b_dev (heads s bh)) = dev \<and> b_blocknr (heads s bh) = block then Inr (bh, s)
         else get_hash_table n zz dev block (upd_bh bh (\<lambda>h. h\<lparr>b_count := b_count h - 1\<rparr>) s)))"

definition BADNESS :: "buffer_head \<Rightarrow> nat" where
  "BADNESS h = 2 * unat (b_dirt h) + unat (b_lock h)"

text \<open>The \<open>do ... while\<close> loop over the free list, with the best buffer so far.\<close>

partial_function (option) scan_free :: "(u32 \<Rightarrow> buffer_head) \<Rightarrow> u32 \<Rightarrow> u32 \<Rightarrow> u32 \<Rightarrow> u32 option" where
  "scan_free h fl tmp bh =
     (let better = (b_count (h tmp) = 0 \<and> (bh = 0 \<or> BADNESS (h tmp) < BADNESS (h bh)));
          bh' = (if better then tmp else bh)
      in if better \<and> BADNESS (h tmp) = 0 then Some bh'
         else if b_next_free (h tmp) = fl then Some bh'
         else scan_free h fl (b_next_free (h tmp)) bh')"

text \<open>The end of \<open>getblk\<close>: the buffer changes its identity.\<close>

definition take_buffer :: "u32 \<Rightarrow> u32 \<Rightarrow> u32 \<Rightarrow> 'a bio_scheme \<Rightarrow> (u32 \<times> 'a bio_scheme) kres" where
  "take_buffer dev block bh s =
     kbind (remove_from_queues bh (upd_bh bh (\<lambda>h. h\<lparr>b_count := 1, b_dirt := 0, b_uptodate := 0\<rparr>) s)) (\<lambda>s.
       Inr (bh, insert_into_queues bh (upd_bh bh (\<lambda>h. h\<lparr>b_dev := ucast dev, b_blocknr := block\<rparr>) s)))"

primrec getblk :: "nat \<Rightarrow> (chan \<Rightarrow> 'a bio_scheme \<Rightarrow> 'a bio_scheme kres) \<Rightarrow> u32 \<Rightarrow> u32
    \<Rightarrow> 'a bio_scheme \<Rightarrow> (u32 \<times> 'a bio_scheme) kres" where
  "getblk 0 zz dev block s = Inl Hang"
| "getblk (Suc n) zz dev block s =
     kbind (get_hash_table (Suc n) zz dev block s) (\<lambda>(bh, s).
       if bh \<noteq> 0 then Inr (bh, s)
       else case scan_free (heads s) (free_list s) (free_list s) 0 of
         None \<Rightarrow> Inl Hang
       | Some bh \<Rightarrow>
           if bh = 0 then kbind (zz Buffer_wait s) (getblk n zz dev block)
           else kbind (wait_on_buffer n zz bh s) (\<lambda>s.
             if b_count (heads s bh) \<noteq> 0 then getblk n zz dev block s
             else kbind (find_buffer dev block s) (\<lambda>p.
               if p \<noteq> 0 then getblk n zz dev block s
               else take_buffer dev block bh s)))"

definition brelse :: "nat \<Rightarrow> (chan \<Rightarrow> 'a bio_scheme \<Rightarrow> 'a bio_scheme kres) \<Rightarrow> u32 \<Rightarrow> 'a bio_scheme \<Rightarrow> 'a bio_scheme kres" where
  "brelse fuel zz buf s =
     (if buf = 0 then Inr s
      else kbind (wait_on_buffer fuel zz buf s) (\<lambda>s.
        if b_count (heads s buf) = 0 then Inl (Panic ''Trying to free free buffer'')
        else case wake_up (buffer_wait s) (bio_sched s) of
          (p, k) \<Rightarrow> Inr ((upd_bh buf (\<lambda>h. h\<lparr>b_count := b_count h - 1\<rparr>) s)\<lparr>buffer_wait := p, bio_sched := k\<rparr>)))"

definition bread :: "nat \<Rightarrow> (chan \<Rightarrow> 'a bio_scheme \<Rightarrow> 'a bio_scheme kres) \<Rightarrow> (nat \<Rightarrow> 'a bio_scheme \<Rightarrow> 'a bio_scheme kres)
    \<Rightarrow> u32 \<Rightarrow> u32 \<Rightarrow> 'a bio_scheme \<Rightarrow> (u32 \<times> 'a bio_scheme) kres" where
  "bread fuel zz fn dev block s =
     kbind (getblk fuel zz dev block s) (\<lambda>(bh, s).
       if bh = 0 then Inl (Panic ''bread: getblk returned NULL'')
       else if b_uptodate (heads s bh) \<noteq> 0 then Inr (bh, s)
       else kbind (ll_rw_block fuel zz fn READ bh s) (\<lambda>s.
         kbind (wait_on_buffer fuel zz bh s) (\<lambda>s.
           if b_uptodate (heads s bh) \<noteq> 0 then Inr (bh, s)
           else kbind (brelse fuel zz bh s) (\<lambda>s. Inr (0, s)))))"

definition COPYBLK :: "u32 \<Rightarrow> u32 \<Rightarrow> 'a bio_scheme \<Rightarrow> 'a bio_scheme" where
  "COPYBLK src dst s = s\<lparr>bdata := movsl 256 (bdata s) dst src\<rparr>"

text \<open>The two loops of \<open>bread_page\<close>.\<close>

primrec page_get :: "nat \<Rightarrow> (chan \<Rightarrow> 'a bio_scheme \<Rightarrow> 'a bio_scheme kres) \<Rightarrow> (nat \<Rightarrow> 'a bio_scheme \<Rightarrow> 'a bio_scheme kres)
    \<Rightarrow> u32 \<Rightarrow> u32 list \<Rightarrow> 'a bio_scheme \<Rightarrow> (u32 list \<times> 'a bio_scheme) kres" where
  "page_get fuel zz fn dev [] s = Inr ([], s)"
| "page_get fuel zz fn dev (b # bs) s =
     kbind (if b \<noteq> 0 then
              kbind (getblk fuel zz dev b s) (\<lambda>(bh, s).
                if bh \<noteq> 0 \<and> b_uptodate (heads s bh) = 0
                then kbind (ll_rw_block fuel zz fn READ bh s) (\<lambda>s. Inr (bh, s)) else Inr (bh, s))
            else Inr (0, s)) (\<lambda>(bh, s).
       kbind (page_get fuel zz fn dev bs s) (\<lambda>(bhs, s). Inr (bh # bhs, s)))"

primrec page_copy :: "nat \<Rightarrow> (chan \<Rightarrow> 'a bio_scheme \<Rightarrow> 'a bio_scheme kres) \<Rightarrow> u32 \<Rightarrow> u32 list
    \<Rightarrow> 'a bio_scheme \<Rightarrow> 'a bio_scheme kres" where
  "page_copy fuel zz address [] s = Inr s"
| "page_copy fuel zz address (bh # bhs) s =
     kbind (if bh \<noteq> 0 then
              kbind (wait_on_buffer fuel zz bh s) (\<lambda>s.
                brelse fuel zz bh
                  (if b_uptodate (heads s bh) \<noteq> 0 then COPYBLK (b_data (heads s bh)) address s else s))
            else Inr s) (page_copy fuel zz (address + BLOCK_SIZE) bhs)"

definition bread_page :: "nat \<Rightarrow> (chan \<Rightarrow> 'a bio_scheme \<Rightarrow> 'a bio_scheme kres) \<Rightarrow> (nat \<Rightarrow> 'a bio_scheme \<Rightarrow> 'a bio_scheme kres)
    \<Rightarrow> u32 \<Rightarrow> u32 \<Rightarrow> u32 list \<Rightarrow> 'a bio_scheme \<Rightarrow> 'a bio_scheme kres" where
  "bread_page fuel zz fn address dev b s =
     kbind (page_get fuel zz fn dev (take 4 b) s) (\<lambda>(bhs, s). page_copy fuel zz address bhs s)"

section \<open>The cache's data structure\<close>

abbreviation (input) "NX s \<equiv> (\<lambda>p. b_next (heads s p))"
abbreviation (input) "PV s \<equiv> (\<lambda>p. b_prev (heads s p))"
abbreviation (input) "NXF s \<equiv> (\<lambda>p. b_next_free (heads s p))"
abbreviation (input) "PVF s \<equiv> (\<lambda>p. b_prev_free (heads s p))"

text \<open>What a buffer head holds apart from its links.\<close>

definition core :: "buffer_head \<Rightarrow> u32 \<times> u32 \<times> u16 \<times> u8 \<times> u8 \<times> u8 \<times> u8 \<times> u32" where
  "core h = (b_data h, b_blocknr h, b_dev h, b_uptodate h, b_dirt h, b_count h, b_lock h, b_wait h)"

text \<open>
  The buffers \<open>fl\<close>, in the order of the free list, are on a ring that starts at \<open>free_list\<close>. Those with a
  device are on the chain of their hash value, a doubly linked list, and no others are. No two
  buffers stand for the same block.
\<close>

definition cache_rep :: "u32 list \<Rightarrow> (nat \<Rightarrow> u32 list) \<Rightarrow> 'a bio_scheme \<Rightarrow> bool" where
  "cache_rep fl ch s \<longleftrightarrow> distinct fl \<and> 0 \<notin> set fl \<and> ring (NXF s) (PVF s) fl \<and> free_list s = hd fl
     \<and> (\<forall>i. dl (NX s) (PV s) 0 (ch i) 0 \<and> hash_table s i = hd (ch i @ [0]) \<and> distinct (ch i)
          \<and> set (ch i) = {p \<in> set fl. b_dev (heads s p) \<noteq> 0 \<and> bh_hash (heads s p) = i})
     \<and> (\<forall>p \<in> set fl. b_dev (heads s p) = 0 \<longrightarrow> b_next (heads s p) = 0 \<and> b_prev (heads s p) = 0)
     \<and> (\<forall>p \<in> set fl. \<forall>q \<in> set fl. b_dev (heads s p) \<noteq> 0 \<and> b_dev (heads s p) = b_dev (heads s q)
          \<and> b_blocknr (heads s p) = b_blocknr (heads s q) \<longrightarrow> p = q)"

lemma cache_repD:
  assumes "cache_rep fl ch s"
  shows "distinct fl" and "0 \<notin> set fl" and "ring (NXF s) (PVF s) fl" and "free_list s = hd fl"
    and "dl (NX s) (PV s) 0 (ch i) 0" and "hash_table s i = hd (ch i @ [0])" and "distinct (ch i)"
    and "set (ch i) = {p \<in> set fl. b_dev (heads s p) \<noteq> 0 \<and> bh_hash (heads s p) = i}"
    and "p \<in> set fl \<Longrightarrow> b_dev (heads s p) = 0 \<Longrightarrow> b_next (heads s p) = 0 \<and> b_prev (heads s p) = 0"
    and "p \<in> set fl \<Longrightarrow> q \<in> set fl \<Longrightarrow> b_dev (heads s p) \<noteq> 0 \<Longrightarrow> b_dev (heads s p) = b_dev (heads s q)
      \<Longrightarrow> b_blocknr (heads s p) = b_blocknr (heads s q) \<Longrightarrow> p = q"
  using assms unfolding cache_rep_def by blast+

text \<open>\<open>remove_from_queues\<close> as four field updates.\<close>

lemma remove_eq:
  assumes "b_next (heads s x) \<noteq> x" and "b_prev (heads s x) \<noteq> x" and "b_next_free (heads s x) \<noteq> x" and "b_prev_free (heads s x) \<noteq> x"
    and "b_next_free (heads s x) \<noteq> 0" and "b_prev_free (heads s x) \<noteq> 0"
  shows "\<exists>s'. remove_from_queues x s = Inr s' \<and> NX s' = unlink_nx x (NX s) (PV s) \<and> PV s' = unlink_pv x (NX s) (PV s)
    \<and> NXF s' = (NXF s)(PVF s x := NXF s x) \<and> PVF s' = (PVF s)(NXF s x := PVF s x) \<and> (\<forall>p. core (heads s' p) = core (heads s p))
    \<and> hash_table s' = (let i = bh_hash (heads s x) in if hash_table s i = x then (hash_table s)(i := NX s x) else hash_table s)
    \<and> free_list s' = (if free_list s = x then NXF s x else free_list s)
    \<and> request s' = request s \<and> bdata s' = bdata s"
proof -
  define s1 where "s1 = (if b_next (heads s x) \<noteq> 0
      then upd_bh (b_next (heads s x)) (\<lambda>h. h\<lparr>b_prev := b_prev (heads s x)\<rparr>) s else s)"
  have h1: "heads s1 x = heads s x" using assms(1) by (simp add: s1_def)
  define s2 where "s2 = (if b_prev (heads s x) \<noteq> 0
      then upd_bh (b_prev (heads s x)) (\<lambda>h. h\<lparr>b_next := b_next (heads s x)\<rparr>) s1 else s1)"
  have h2: "heads s2 x = heads s x" using assms(2) h1 by (simp add: s2_def)
  define s3 where "s3 = (if hash_table s2 (bh_hash (heads s x)) = x
      then s2\<lparr>hash_table := (hash_table s2)(bh_hash (heads s x) := b_next (heads s x))\<rparr> else s2)"
  have h3: "heads s3 = heads s2" by (simp add: s3_def)
  define s4 where "s4 = upd_bh (b_prev_free (heads s x)) (\<lambda>h. h\<lparr>b_next_free := b_next_free (heads s x)\<rparr>) s3"
  have h4: "heads s4 x = heads s x" using assms(4) h2 h3 by (simp add: s4_def)
  define s5 where "s5 = upd_bh (b_next_free (heads s x)) (\<lambda>h. h\<lparr>b_prev_free := b_prev_free (heads s x)\<rparr>) s4"
  have h5: "heads s5 x = heads s x" using assms(3) h4 by (simp add: s5_def)
  define s6 where "s6 = (if free_list s5 = x then s5\<lparr>free_list := b_next_free (heads s x)\<rparr> else s5)"
  have "remove_from_queues x s = Inr s6"
    unfolding remove_from_queues_def s1_def[symmetric] unfolding Let_def[of s1] h1 s2_def[symmetric]
    unfolding Let_def[of s2] h2 Let_def[of "bh_hash (heads s x)"] s3_def[symmetric]
    unfolding Let_def[of s3] h3 h2 s4_def[symmetric] unfolding Let_def[of s4] h4 s5_def[symmetric]
    unfolding Let_def[of s5] h5 s6_def[symmetric]
    using assms(5,6) by (simp only: simp_thms if_False)
  moreover have "NX s6 = unlink_nx x (NX s) (PV s)"
  proof -
    have "b_next (heads s1 p) = b_next (heads s p)" for p by (simp add: s1_def)
    then have "b_next (heads s2 p) = (if b_prev (heads s x) \<noteq> 0 \<and> p = b_prev (heads s x) then b_next (heads s x) else b_next (heads s p))" for p
      by (simp add: s2_def)
    moreover have "b_next (heads s6 p) = b_next (heads s2 p)" for p by (simp add: s6_def s5_def s4_def h3)
    ultimately show ?thesis by (simp add: unlink_nx_def fun_eq_iff)
  qed
  moreover have "PV s6 = unlink_pv x (NX s) (PV s)"
  proof -
    have "b_prev (heads s1 p) = (if b_next (heads s x) \<noteq> 0 \<and> p = b_next (heads s x) then b_prev (heads s x) else b_prev (heads s p))" for p
      by (simp add: s1_def)
    moreover have "b_prev (heads s2 p) = b_prev (heads s1 p)" for p by (simp add: s2_def)
    moreover have "b_prev (heads s6 p) = b_prev (heads s2 p)" for p by (simp add: s6_def s5_def s4_def h3)
    ultimately show ?thesis by (simp add: unlink_pv_def fun_eq_iff)
  qed
  moreover have "NXF s6 = (NXF s)(PVF s x := NXF s x)" "PVF s6 = (PVF s)(NXF s x := PVF s x)"
  proof -
    have "b_next_free (heads s3 p) = b_next_free (heads s p)" "b_prev_free (heads s3 p) = b_prev_free (heads s p)" for p
      by (simp_all add: h3 s2_def s1_def)
    moreover have "heads s6 = heads s5" by (simp add: s6_def)
    ultimately show "NXF s6 = (NXF s)(PVF s x := NXF s x)" "PVF s6 = (PVF s)(NXF s x := PVF s x)"
      by (simp_all add: s5_def s4_def fun_eq_iff)
  qed
  moreover have "\<forall>p. core (heads s6 p) = core (heads s p)"
  proof -
    have "core (heads s3 p) = core (heads s p)" for p by (simp add: h3 s2_def s1_def core_def)
    then show ?thesis by (simp add: s6_def s5_def s4_def core_def)
  qed
  moreover have "hash_table s2 = hash_table s" "free_list s5 = free_list s"
    by (simp_all add: s5_def s4_def s3_def s2_def s1_def upd_bh_def)
  then have "hash_table s6 = (let i = bh_hash (heads s x) in if hash_table s i = x then (hash_table s)(i := NX s x) else hash_table s)"
    "free_list s6 = (if free_list s = x then NXF s x else free_list s)"
    by (auto simp: s6_def s5_def s4_def s3_def upd_bh_def Let_def)
  moreover have "request s6 = request s" "bdata s6 = bdata s"
    by (simp_all add: s6_def s5_def s4_def s3_def s2_def s1_def upd_bh_def)
  ultimately show ?thesis by blast
qed

lemma dl_neighbours:
  assumes "dl nx pv 0 (as @ x # bs) 0"
  shows "nx x = hd (bs @ [0])" and "pv x = last (0 # as)"
    and "nx x \<in> insert 0 (set bs)" and "pv x \<in> insert 0 (set as)"
proof -
  show n: "nx x = hd (bs @ [0])" and p: "pv x = last (0 # as)" using assms by (auto simp: dl_append)
  show "nx x \<in> insert 0 (set bs)" unfolding n by (cases bs) auto
  show "pv x \<in> insert 0 (set as)" unfolding p by (cases "as = []") auto
qed

lemma cache_next_prev:
  assumes "cache_rep fl ch s" and "x \<in> set fl"
  shows "b_next (heads s x) \<in> insert 0 (set (ch (bh_hash (heads s x))) - {x}) \<and> b_prev (heads s x) \<in> insert 0 (set (ch (bh_hash (heads s x))) - {x})"
proof (cases "b_dev (heads s x) = 0")
  case True
  then show ?thesis using cache_repD(9)[OF assms] by simp
next
  case False
  note C = cache_repD[OF assms(1)]
  let ?j = "bh_hash (heads s x)"
  have "x \<in> set (ch ?j)" using C(8)[of ?j] False assms(2) by auto
  then obtain as bs where ab: "ch ?j = as @ x # bs" by (meson split_list)
  have "distinct (as @ x # bs)" using C(7)[of ?j] by (simp add: ab)
  then show ?thesis using dl_neighbours(3,4)[of "NX s" "PV s" as x bs] C(5)[of ?j] by (auto simp: ab)
qed

lemma cache_links:
  assumes "cache_rep fl ch s" and "x \<in> set fl"
  shows "b_next (heads s x) \<noteq> x" and "b_prev (heads s x) \<noteq> x"
    and "i \<noteq> bh_hash (heads s x) \<or> b_dev (heads s x) = 0 \<Longrightarrow> b_next (heads s x) \<notin> set (ch i) \<and> b_prev (heads s x) \<notin> set (ch i)"
    and "p \<in> set fl \<Longrightarrow> b_dev (heads s p) = 0 \<Longrightarrow> p \<noteq> b_next (heads s x) \<and> p \<noteq> b_prev (heads s x)"
proof -
  note C = cache_repD[OF assms(1)] and N = cache_next_prev[OF assms]
  show "b_next (heads s x) \<noteq> x" "b_prev (heads s x) \<noteq> x" using N C(2) assms(2) by auto
  show "p \<noteq> b_next (heads s x) \<and> p \<noteq> b_prev (heads s x)" if "p \<in> set fl" "b_dev (heads s p) = 0"
  proof -
    have "p \<notin> insert 0 (set (ch (bh_hash (heads s x))))" using that C(2) unfolding C(8) by auto
    with N show ?thesis by blast
  qed
  assume i: "i \<noteq> bh_hash (heads s x) \<or> b_dev (heads s x) = 0"
  show "b_next (heads s x) \<notin> set (ch i) \<and> b_prev (heads s x) \<notin> set (ch i)"
  proof (cases "b_dev (heads s x) = 0")
    case True
    then show ?thesis using C(9)[OF assms(2)] C(2) C(8)[of i] by auto
  next
    case False
    then have "q \<notin> set (ch i)" if "q \<in> insert 0 (set (ch (bh_hash (heads s x))))" for q
      using i that C(8)[of i] C(8)[of "bh_hash (heads s x)"] C(2) by auto
    with N show ?thesis by blast
  qed
qed

lemma core_fields:
  "core h = core h' \<Longrightarrow> b_dev h = b_dev h' \<and> b_blocknr h = b_blocknr h' \<and> bh_hash h = bh_hash h' \<and> b_count h = b_count h'
     \<and> b_lock h = b_lock h' \<and> b_dirt h = b_dirt h' \<and> b_uptodate h = b_uptodate h' \<and> b_data h = b_data h'"
  by (simp add: core_def bh_hash_def)

lemma remove_chain:
  assumes "cache_rep fl ch s" and "x \<in> set fl"
    and nx: "NX s' = unlink_nx x (NX s) (PV s)" and pv: "PV s' = unlink_pv x (NX s) (PV s)"
    and ht: "hash_table s' = (let i = bh_hash (heads s x) in if hash_table s i = x then (hash_table s)(i := NX s x) else hash_table s)"
  shows "dl (NX s') (PV s') 0 (remove1 x (ch i)) 0 \<and> hash_table s' i = hd (remove1 x (ch i) @ [0])"
proof -
  note C = cache_repD[OF assms(1)]
  have x0: "x \<noteq> 0" using C(2) assms(2) by auto
  have x_in: "x \<in> set (ch i) \<longleftrightarrow> i = bh_hash (heads s x) \<and> b_dev (heads s x) \<noteq> 0" for i
    using C(8)[of i] assms(2) by auto
  show ?thesis
  proof (cases "x \<in> set (ch i)")
    case True
    then have i: "i = bh_hash (heads s x)" using x_in by blast
    obtain as bs where ab: "ch i = as @ x # bs" and nas: "x \<notin> set as" using True by (meson split_list_first)
    have "0 \<notin> set (ch i)" using C(8)[of i] C(2) by auto
    then have "dl (NX s') (PV s') 0 (as @ bs) 0" unfolding nx pv
      using C(5)[of i] C(7)[of i] dl_unlink[of "NX s" "PV s" as x bs] by (simp add: ab)
    moreover have "hash_table s' i = hd ((as @ bs) @ [0])"
    proof (cases as)
      case Nil
      then have "hash_table s i = x" using C(6)[of i] by (simp add: ab)
      then show ?thesis using Nil dl_neighbours(1)[of "NX s" "PV s" as x bs] C(5)[of i] by (simp add: ht i[symmetric] ab Let_def)
    next
      case (Cons a as')
      then have "hash_table s i \<noteq> x" using C(6)[of i] nas by (auto simp: ab)
      then show ?thesis using Cons C(6)[of i] by (simp add: ht i[symmetric] ab Let_def)
    qed
    ultimately show ?thesis using ab nas by (simp add: remove1_append)
  next
    case False
    then have "i \<noteq> bh_hash (heads s x) \<or> b_dev (heads s x) = 0" using x_in by blast
    from cache_links(3)[OF assms(1,2) this] have nb: "b_next (heads s x) \<notin> set (ch i)" "b_prev (heads s x) \<notin> set (ch i)" by auto
    have "dl (NX s') (PV s') 0 (ch i) 0 = dl (NX s) (PV s) 0 (ch i) 0"
    proof (rule dl_cong)
      fix y
      assume "y \<in> set (ch i)"
      then have "y \<noteq> b_next (heads s x)" "y \<noteq> b_prev (heads s x)" using nb by auto
      then show "NX s' y = NX s y \<and> PV s' y = PV s y" by (simp add: fun_cong[OF nx] fun_cong[OF pv] unlink_nx_def unlink_pv_def)
    qed
    moreover have "hash_table s' i = hash_table s i"
    proof (cases "i = bh_hash (heads s x)")
      case True
      have "hd (ch i @ [0]) \<in> insert 0 (set (ch i))" by (cases "ch i") auto
      then have "hash_table s i \<noteq> x" using C(6)[of i] False x0 by auto
      then show ?thesis using True by (simp add: ht Let_def)
    qed (simp add: ht Let_def)
    ultimately show ?thesis using False C(5,6)[of i] by (simp add: remove1_idem)
  qed
qed

lemma remove_rep:
  assumes "cache_rep fl ch s" and "x \<in> set fl" and "2 \<le> length fl"
  shows "\<exists>s'. remove_from_queues x s = Inr s' \<and> cache_rep (remove1 x fl) (\<lambda>i. remove1 x (ch i)) s'
    \<and> (\<forall>p. core (heads s' p) = core (heads s p)) \<and> request s' = request s \<and> bdata s' = bdata s"
proof -
  note C = cache_repD[OF assms(1)]
  obtain as bs where ab: "fl = as @ x # bs" and nas: "x \<notin> set as" using assms(2) by (meson split_list_first)
  have ne: "as @ bs \<noteq> []" using assms(3) by (auto simp: ab)
  have nf: "NXF s x \<in> set fl" "PVF s x \<in> set fl" "NXF s x \<noteq> x" "PVF s x \<noteq> x"
    using ring_neighbours[OF C(3) assms(2)] ring_neighbours_ne[OF C(3) assms(2) C(1) assms(3)] by auto
  then have "NXF s x \<noteq> 0" "PVF s x \<noteq> 0" using C(2) by auto
  from remove_eq[OF cache_links(1,2)[OF assms(1,2)] nf(3,4) this]
  obtain s' where s': "remove_from_queues x s = Inr s'" "NX s' = unlink_nx x (NX s) (PV s)" "PV s' = unlink_pv x (NX s) (PV s)"
    "NXF s' = (NXF s)(PVF s x := NXF s x)" "PVF s' = (PVF s)(NXF s x := PVF s x)" "\<forall>p. core (heads s' p) = core (heads s p)"
    "hash_table s' = (let i = bh_hash (heads s x) in if hash_table s i = x then (hash_table s)(i := NX s x) else hash_table s)"
    "free_list s' = (if free_list s = x then NXF s x else free_list s)" "request s' = request s" "bdata s' = bdata s"
    by blast
  have fl': "remove1 x fl = as @ bs" using nas by (simp add: ab remove1_append)
  have r: "ring (NXF s') (PVF s') (as @ bs)"
    unfolding s'(4,5) using ring_remove[OF _ _ ne, of "NXF s" "PVF s" x] C(1,3) by (simp add: ab)
  have fh: "free_list s' = hd (as @ bs)"
  proof (cases as)
    case Nil
    have "NXF s x = hd (bs @ [x])" using C(3) Nil by (simp add: ab ring_def)
    then show ?thesis using Nil ne C(4) s'(8) by (simp add: ab)
  next
    case (Cons a as')
    then show ?thesis using nas C(4) s'(8) by (auto simp: ab)
  qed
  have f: "b_dev (heads s' p) = b_dev (heads s p)" "b_blocknr (heads s' p) = b_blocknr (heads s p)" "bh_hash (heads s' p) = bh_hash (heads s p)" for p
    using core_fields[OF s'(6)[rule_format, of p]] by auto
  have st: "set (as @ bs) = set fl - {x}" using C(1) by (auto simp: ab)
  have "cache_rep (as @ bs) (\<lambda>i. remove1 x (ch i)) s'"
    unfolding cache_rep_def f
  proof (intro conjI allI ballI impI)
    show "distinct (as @ bs)" "0 \<notin> set (as @ bs)" using C(1,2) by (auto simp: ab)
    show "ring (NXF s') (PVF s') (as @ bs)" by (rule r)
    show "free_list s' = hd (as @ bs)" by (rule fh)
    fix i
    show "dl (NX s') (PV s') 0 (remove1 x (ch i)) 0" "hash_table s' i = hd (remove1 x (ch i) @ [0])"
      using remove_chain[OF assms(1,2) s'(2,3,7)] by auto
    show "distinct (remove1 x (ch i))" using C(7) by simp
    show "set (remove1 x (ch i)) = {p \<in> set (as @ bs). b_dev (heads s p) \<noteq> 0 \<and> bh_hash (heads s p) = i}"
      unfolding st using C(7,8)[of i] by auto
  next
    fix p
    assume p: "p \<in> set (as @ bs)" "b_dev (heads s p) = 0"
    then have z: "b_next (heads s p) = 0" "b_prev (heads s p) = 0" using C(9)[of p] st by auto
    have "p \<noteq> b_next (heads s x)" "p \<noteq> b_prev (heads s x)" using cache_links(4)[OF assms(1,2), of p] p st by auto
    then show "b_next (heads s' p) = 0" "b_prev (heads s' p) = 0"
      using z fun_cong[OF s'(2), of p] fun_cong[OF s'(3), of p] by (auto simp: unlink_nx_def unlink_pv_def)
  next
    fix p q
    assume "p \<in> set (as @ bs)" "q \<in> set (as @ bs)"
      "b_dev (heads s p) \<noteq> 0 \<and> b_dev (heads s p) = b_dev (heads s q) \<and> b_blocknr (heads s p) = b_blocknr (heads s q)"
    moreover from this have "p \<in> set fl" "q \<in> set fl" unfolding st by blast+
    ultimately show "p = q" using C(10)[of p q] by blast
  qed
  with s'(1,6,9,10) show ?thesis unfolding fl' by (intro exI[of _ s']) (simp only: simp_thms)
qed

text \<open>\<open>insert_into_queues\<close> as field updates, for a buffer that is on no list.\<close>

lemma insert_eq:
  assumes "free_list s \<noteq> x" and "hash_table s (bh_hash (heads s x)) \<noteq> x"
    and "s' = insert_into_queues x s" and "f = free_list s" and "l = PVF s f" and "h0 = hash_table s (bh_hash (heads s x))"
  shows "NXF s' = (NXF s)(x := f, l := x)" and "PVF s' = (PVF s)(x := l, f := x)"
    and "NX s' = (NX s)(x := if b_dev (heads s x) = 0 then 0 else h0)"
    and "PV s' = (if b_dev (heads s x) = 0 \<or> h0 = 0 then (PV s)(x := 0) else (PV s)(x := 0, h0 := x))"
    and "hash_table s' = (if b_dev (heads s x) = 0 then hash_table s else (hash_table s)(bh_hash (heads s x) := x))"
    and "free_list s' = f" and "core (heads s' p) = core (heads s p)" and "request s' = request s" and "bdata s' = bdata s"
proof -
  define s1 where "s1 = upd_bh x (\<lambda>h. h\<lparr>b_next_free := free_list s\<rparr>) s"
  define s2 where "s2 = upd_bh x (\<lambda>h. h\<lparr>b_prev_free := l\<rparr>) s1"
  define s3 where "s3 = upd_bh l (\<lambda>h. h\<lparr>b_next_free := x\<rparr>) s2"
  define s4 where "s4 = upd_bh f (\<lambda>h. h\<lparr>b_prev_free := x\<rparr>) s3"
  define s5 where "s5 = upd_bh x (\<lambda>h. h\<lparr>b_prev := 0, b_next := 0\<rparr>) s4"
  have fl: "free_list s1 = f" "free_list s2 = f" "free_list s3 = f" "hash_table s5 = hash_table s" "free_list s5 = f"
    by (simp_all add: s1_def s2_def s3_def s4_def s5_def upd_bh_def assms(4))
  have l: "b_prev_free (heads s1 f) = l" "b_prev_free (heads s2 f) = l" using assms(1,4,5) by (auto simp: s1_def s2_def)
  have c5: "core (heads s5 p) = core (heads s p)" for p
    by (simp add: s1_def s2_def s3_def s4_def s5_def core_def)
  then have h5: "b_dev (heads s5 x) = b_dev (heads s x)" "bh_hash (heads s5 x) = bh_hash (heads s x)" using core_fields by blast+
  define s8 where "s8 = (if b_dev (heads s x) = 0 then s5
      else if h0 \<noteq> 0 then upd_bh h0 (\<lambda>h. h\<lparr>b_prev := x\<rparr>)
         ((upd_bh x (\<lambda>h. h\<lparr>b_next := h0\<rparr>) s5)\<lparr>hash_table := (hash_table s)(bh_hash (heads s x) := x)\<rparr>)
      else s5\<lparr>hash_table := (hash_table s)(bh_hash (heads s x) := x)\<rparr>)"
  have e: "s' = s8"
    unfolding assms(3) insert_into_queues_def s1_def[symmetric] unfolding Let_def[of s1] fl l s2_def[symmetric]
    unfolding Let_def[of s2] fl l s3_def[symmetric] unfolding Let_def[of s3] fl s4_def[symmetric]
    unfolding Let_def[of s4] s5_def[symmetric] unfolding Let_def[of s5] h5 fl assms(6)[symmetric]
    by (simp add: Let_def s8_def upd_bh_def fl assms(6))
  have n5: "b_next (heads s5 p) = (if p = x then 0 else b_next (heads s p))" "b_prev (heads s5 p) = (if p = x then 0 else b_prev (heads s p))" for p
    by (simp_all add: s1_def s2_def s3_def s4_def s5_def)
  have f5: "b_next_free (heads s5 p) = (if p = l then x else if p = x then f else b_next_free (heads s p))"
    "b_prev_free (heads s5 p) = (if p = f then x else if p = x then l else b_prev_free (heads s p))" for p
    by (simp_all add: s1_def s2_def s3_def s4_def s5_def assms(4))
  have f8: "b_next_free (heads s8 p) = b_next_free (heads s5 p)" "b_prev_free (heads s8 p) = b_prev_free (heads s5 p)" for p
    by (simp_all add: s8_def)
  show "NXF s' = (NXF s)(x := f, l := x)" "PVF s' = (PVF s)(x := l, f := x)"
    unfolding e by (auto simp: fun_eq_iff f8 f5)
  show "NX s' = (NX s)(x := if b_dev (heads s x) = 0 then 0 else h0)" unfolding e
    by (auto simp: fun_eq_iff s8_def n5)
  show "PV s' = (if b_dev (heads s x) = 0 \<or> h0 = 0 then (PV s)(x := 0) else (PV s)(x := 0, h0 := x))" unfolding e
    by (auto simp: fun_eq_iff s8_def n5)
  show "hash_table s' = (if b_dev (heads s x) = 0 then hash_table s else (hash_table s)(bh_hash (heads s x) := x))"
    "free_list s' = f" unfolding e by (auto simp: s8_def fl upd_bh_def)
  show "core (heads s' p) = core (heads s p)" unfolding e using c5[of p] by (auto simp: s8_def core_def)
  show "request s' = request s" "bdata s' = bdata s" unfolding e
    by (simp_all add: s8_def s1_def s2_def s3_def s4_def s5_def upd_bh_def)
qed

text \<open>The hash chains after an insertion.\<close>

lemma insert_chain:
  assumes "cache_rep fl ch s" and "x \<notin> set fl" and "x \<noteq> 0"
  shows "dl (NX (insert_into_queues x s)) (PV (insert_into_queues x s)) 0 (if b_dev (heads s x) \<noteq> 0 \<and> i = bh_hash (heads s x) then x # ch i else ch i) 0"
proof -
  note C = cache_repD[OF assms(1)]
  let ?i = "bh_hash (heads s x)" and ?s = "insert_into_queues x s"
  have ne: "fl \<noteq> []" using C(3) by (simp add: ring_def)
  have fx: "free_list s \<noteq> x" using C(4) assms(2) hd_in_set[OF ne] by metis
  have xc: "x \<notin> set (ch i)" for i using C(8)[of i] assms(2) by auto
  have h_in: "hash_table s i \<in> insert 0 (set (ch i))" for i using C(6)[of i] by (cases "ch i") auto
  then have hx: "hash_table s ?i \<noteq> x" using xc[of ?i] assms(3) by (metis insert_iff)
  have l: "PVF s (hd fl) = last fl" using C(3) ne by (cases fl) (simp_all add: ring_def)
  note I = insert_eq[OF fx hx refl refl refl refl, unfolded C(4) l]
  have old: "dl (NX ?s) (PV ?s) 0 (ch i) 0" if "b_dev (heads s x) = 0 \<or> i \<noteq> ?i"
  proof -
    have "hash_table s ?i \<notin> set (ch i)" if "i \<noteq> ?i" using h_in[of ?i] that C(2) unfolding C(8) by auto
    then have "dl (NX ?s) (PV ?s) 0 (ch i) 0 = dl (NX s) (PV s) 0 (ch i) 0"
      unfolding I(3,4) using xc[of i] that by (intro dl_cong) auto
    with C(5)[of i] show ?thesis by blast
  qed
  have new: "dl (NX ?s) (PV ?s) 0 (x # ch ?i) 0" if "b_dev (heads s x) \<noteq> 0"
  proof (cases "ch ?i")
    case Nil
    then show ?thesis unfolding I(3,4) using that C(6)[of ?i] by simp
  next
    case (Cons c cs)
    then have "c \<in> set (ch ?i)" by simp
    then have "c \<in> set fl" unfolding C(8) by simp
    then have h0: "hash_table s ?i = c" "c \<noteq> 0" using C(6)[of ?i] C(2) Cons by auto
    have "dl (NX ?s) (PV ?s) x (ch ?i) 0 = dl (NX s) ((PV s)(hd (ch ?i) := x)) x (ch ?i) 0"
      unfolding I(3,4) using xc[of ?i] that h0 by (intro dl_cong) (auto simp: Cons)
    moreover have "dl (NX s) ((PV s)(hd (ch ?i) := x)) x (ch ?i) 0" by (rule dl_set_first[OF C(5) C(7)]) (simp add: Cons)
    moreover have "NX ?s x = hash_table s ?i" "PV ?s x = 0" using that hx h0 by (simp_all add: fun_cong[OF I(3)] fun_cong[OF I(4)])
    ultimately show ?thesis using C(6)[of ?i] by simp
  qed
  show ?thesis using old new by auto
qed

lemma insert_rep:
  assumes "cache_rep fl ch s" and "x \<notin> set fl" and "x \<noteq> 0"
    and "\<forall>p \<in> set fl. b_dev (heads s x) \<noteq> 0 \<longrightarrow> \<not> (b_dev (heads s p) = b_dev (heads s x) \<and> b_blocknr (heads s p) = b_blocknr (heads s x))"
  shows "cache_rep (fl @ [x]) (\<lambda>i. if b_dev (heads s x) \<noteq> 0 \<and> i = bh_hash (heads s x) then x # ch i else ch i) (insert_into_queues x s)"
proof -
  note C = cache_repD[OF assms(1)]
  let ?i = "bh_hash (heads s x)" and ?s = "insert_into_queues x s"
  have ne: "fl \<noteq> []" using C(3) by (simp add: ring_def)
  have fx: "free_list s \<noteq> x" using C(4) assms(2) hd_in_set[OF ne] by metis
  have xc: "x \<notin> set (ch i)" for i using C(8)[of i] assms(2) by auto
  have h_in: "hash_table s i \<in> insert 0 (set (ch i))" for i using C(6)[of i] by (cases "ch i") auto
  then have hx: "hash_table s ?i \<noteq> x" using xc[of ?i] assms(3) by (metis insert_iff)
  have l: "PVF s (hd fl) = last fl" using C(3) ne by (cases fl) (simp_all add: ring_def)
  note I = insert_eq[OF fx hx refl refl refl refl, unfolded C(4) l]
  have f: "b_dev (heads ?s p) = b_dev (heads s p)" "b_blocknr (heads ?s p) = b_blocknr (heads s p)" "bh_hash (heads ?s p) = bh_hash (heads s p)" for p
    using core_fields[OF I(7)[of p]] by auto
  show ?thesis
    unfolding cache_rep_def f
  proof (intro conjI allI ballI impI)
    show "distinct (fl @ [x])" "0 \<notin> set (fl @ [x])" using C(1,2) assms(2,3) by auto
    show "ring (NXF ?s) (PVF ?s) (fl @ [x])" unfolding I(1,2) by (rule ring_add[OF C(3,1) assms(2)])
    show "free_list ?s = hd (fl @ [x])" using I(6) ne by simp
    fix i
    let ?c = "if b_dev (heads s x) \<noteq> 0 \<and> i = ?i then x # ch i else ch i"
    show "dl (NX ?s) (PV ?s) 0 ?c 0" by (rule insert_chain[OF assms(1-3)])
    show "hash_table ?s i = hd (?c @ [0])" unfolding I(5) using C(6)[of i] by auto
    show "distinct ?c" using C(7)[of i] xc[of i] by auto
    show "set ?c = {p \<in> set (fl @ [x]). b_dev (heads s p) \<noteq> 0 \<and> bh_hash (heads s p) = i}" using C(8)[of i] by auto
  next
    fix p
    assume p: "p \<in> set (fl @ [x])" "b_dev (heads s p) = 0"
    have "p \<noteq> x \<Longrightarrow> p \<noteq> hash_table s ?i" using h_in[of ?i] p C(2) unfolding C(8) by auto
    then show "b_next (heads ?s p) = 0" "b_prev (heads ?s p) = 0"
      using p C(9)[of p] by (auto simp: fun_cong[OF I(3)] fun_cong[OF I(4)])
  next
    fix p q
    assume pq: "p \<in> set (fl @ [x])" "q \<in> set (fl @ [x])"
      "b_dev (heads s p) \<noteq> 0 \<and> b_dev (heads s p) = b_dev (heads s q) \<and> b_blocknr (heads s p) = b_blocknr (heads s q)"
    show "p = q"
    proof (cases "p = x \<or> q = x")
      case True
      then show ?thesis using pq assms(4) by auto
    next
      case False
      then show ?thesis using pq C(10)[of p q] by auto
    qed
  qed
qed

section \<open>Lookup and replacement\<close>

lemma cache_rep_cong:
  assumes "\<And>p. p \<in> set fl \<Longrightarrow> b_next (heads s' p) = b_next (heads s p) \<and> b_prev (heads s' p) = b_prev (heads s p)
      \<and> b_next_free (heads s' p) = b_next_free (heads s p) \<and> b_prev_free (heads s' p) = b_prev_free (heads s p)
      \<and> b_dev (heads s' p) = b_dev (heads s p) \<and> b_blocknr (heads s' p) = b_blocknr (heads s p)"
    and "hash_table s' = hash_table s" and "free_list s' = free_list s" and "cache_rep fl ch s"
  shows "cache_rep fl ch s'"
proof -
  note C = cache_repD[OF assms(4)]
  have sub: "p \<in> set (ch i) \<Longrightarrow> p \<in> set fl" for p i using C(8)[of i] by auto
  have k: "b_dev (heads s' p) = b_dev (heads s p)" "b_blocknr (heads s' p) = b_blocknr (heads s p)" "bh_hash (heads s' p) = bh_hash (heads s p)"
    if "p \<in> set fl" for p using assms(1)[OF that] by (auto simp: bh_hash_def)
  have "ring (NXF s') (PVF s') fl = ring (NXF s) (PVF s) fl" by (rule ring_cong) (simp add: assms(1))
  moreover have "dl (NX s') (PV s') 0 (ch i) 0 = dl (NX s) (PV s) 0 (ch i) 0" for i
    by (rule dl_cong) (simp add: assms(1) sub)
  moreover have "{p \<in> set fl. b_dev (heads s' p) \<noteq> 0 \<and> bh_hash (heads s' p) = i} = {p \<in> set fl. b_dev (heads s p) \<noteq> 0 \<and> bh_hash (heads s p) = i}" for i
    using k by auto
  ultimately show ?thesis
    using assms(4) unfolding cache_rep_def assms(2,3) by (simp add: k assms(1)) blast
qed

lemma find_from_dl:
  assumes "dl (\<lambda>p. b_next (h p)) pv q xs 0" and "0 \<notin> set xs"
  shows "find_from h dev block (hd (xs @ [0]))
    = Some (case find (\<lambda>p. ucast (b_dev (h p)) = dev \<and> b_blocknr (h p) = block) xs of None \<Rightarrow> 0 | Some p \<Rightarrow> p)"
  using assms
proof (induction xs arbitrary: q)
  case Nil
  then show ?case by (simp add: find_from.simps)
next
  case (Cons x xs)
  then show ?case by (subst find_from.simps) auto
qed

lemma ucast_ucast16 [simp]: "(ucast (ucast (a :: u16) :: u32) :: u16) = a"
  by (rule bit_word_eqI) (simp add: bit_simps)

lemma ucast_16_inj: "(ucast (a :: u16) :: u32) = ucast b \<longleftrightarrow> a = b"
  by (metis ucast_ucast16)

lemma find_buffer_rep:
  assumes "cache_rep fl ch s"
  shows "\<exists>p. find_buffer (ucast d) block s = Inr p
    \<and> (if p = 0 then d \<noteq> 0 \<longrightarrow> (\<forall>q \<in> set fl. \<not> (b_dev (heads s q) = d \<and> b_blocknr (heads s q) = block))
       else p \<in> set fl \<and> b_dev (heads s p) = d \<and> b_blocknr (heads s p) = block)"
proof -
  note C = cache_repD[OF assms]
  let ?i = "hashfn (ucast d) block"
  let ?P = "\<lambda>p. (ucast (b_dev (heads s p)) :: u32) = ucast d \<and> b_blocknr (heads s p) = block"
  have z: "0 \<notin> set (ch ?i)" using C(2) unfolding C(8) by auto
  have f: "find_from (heads s) (ucast d) block (hash_table s ?i) = Some (case find ?P (ch ?i) of None \<Rightarrow> 0 | Some p \<Rightarrow> p)"
    unfolding C(6) by (rule find_from_dl[OF C(5) z])
  show ?thesis
  proof (cases "find ?P (ch ?i)")
    case None
    have "\<not> (b_dev (heads s q) = d \<and> b_blocknr (heads s q) = block)" if "q \<in> set fl" "d \<noteq> 0" for q
    proof
      assume "b_dev (heads s q) = d \<and> b_blocknr (heads s q) = block"
      with that have "q \<in> set (ch ?i)" "?P q" unfolding C(8) by (auto simp: bh_hash_def)
      with None show False by (auto simp: find_None_iff)
    qed
    with f None show ?thesis by (simp add: find_buffer_def)
  next
    case (Some p)
    then have "p \<in> set (ch ?i)" "?P p" by (auto simp: find_Some_iff)
    then have "p \<in> set fl" "b_dev (heads s p) = d" "b_blocknr (heads s p) = block" unfolding C(8) by (auto simp: ucast_16_inj)
    moreover from this have "p \<noteq> 0" using C(2) by auto
    ultimately show ?thesis using f Some by (simp add: find_buffer_def)
  qed
qed

text \<open>The choice of a buffer, on the list of buffers in the order of the free list.\<close>

fun pick :: "(u32 \<Rightarrow> buffer_head) \<Rightarrow> u32 \<Rightarrow> u32 list \<Rightarrow> u32" where
  "pick h bh [] = bh"
| "pick h bh (x # xs) =
     (if b_count (h x) = 0 \<and> (bh = 0 \<or> BADNESS (h x) < BADNESS (h bh))
      then (if BADNESS (h x) = 0 then x else pick h x xs) else pick h bh xs)"

lemma scan_free_pick:
  assumes "dl (\<lambda>p. b_next_free (h p)) pv q (x # xs) fl" and "fl \<notin> set xs"
  shows "scan_free h fl x bh = Some (pick h bh (x # xs))"
  using assms
proof (induction xs arbitrary: q x bh)
  case Nil
  then show ?case by (subst scan_free.simps) (auto simp: Let_def)
next
  case (Cons y ys)
  then have "b_next_free (h x) = y" "y \<noteq> fl" by auto
  moreover have "scan_free h fl y b = Some (pick h b (y # ys))" for b using Cons.IH[of x y] Cons.prems by simp
  ultimately have e: "b_next_free (h x) \<noteq> fl" "scan_free h fl (b_next_free (h x)) b = Some (pick h b (y # ys))" for b by simp_all
  show ?case
  proof (cases "b_count (h x) = 0 \<and> (bh = 0 \<or> BADNESS (h x) < BADNESS (h bh))")
    case True
    then show ?thesis using e by (subst scan_free.simps) (simp add: Let_def pick.simps(2)[of h bh x "y # ys"] del: pick.simps)
  next
    case False
    then have "pick h bh (x # y # ys) = pick h bh (y # ys)" by (auto simp del: pick.simps simp: pick.simps(2)[of h bh x "y # ys"])
    with False e show ?thesis by (subst scan_free.simps) (auto simp: Let_def simp del: pick.simps)
  qed
qed

lemma scan_free_rep:
  assumes "cache_rep fl ch s"
  shows "scan_free (heads s) (free_list s) (free_list s) 0 = Some (pick (heads s) 0 fl)"
proof -
  note C = cache_repD[OF assms]
  obtain x xs where fl: "fl = x # xs" using C(3) by (cases fl) (auto simp: ring_def)
  then have "dl (NXF s) (PVF s) (last fl) (x # xs) x" using C(3) by (simp add: ring_def)
  from scan_free_pick[OF this, of 0] C(1,4) show ?thesis by (simp add: fl)
qed

lemma pick_in: "pick h bh xs \<noteq> bh \<Longrightarrow> pick h bh xs \<in> set xs \<and> b_count (h (pick h bh xs)) = 0"
proof (induction h bh xs rule: pick.induct)
  case (2 h bh x xs)
  then show ?case by (cases "pick h x xs = x") (auto split: if_splits)
qed simp

lemma pick_best:
  assumes "0 \<notin> set xs" and "p \<in> set xs" and "b_count (h p) = 0"
  shows "pick h bh xs \<noteq> 0 \<and> BADNESS (h (pick h bh xs)) \<le> BADNESS (h p)"
  using assms
proof (induction h bh xs rule: pick.induct)
  case (2 h bh x xs)
  have mono: "BADNESS (h (pick h b ys)) \<le> BADNESS (h b) \<and> pick h b ys \<noteq> 0" if "b \<noteq> 0" "0 \<notin> set ys" for b ys
    using that by (induction h b ys rule: pick.induct) (auto intro: order.trans less_imp_le)
  show ?case
  proof (cases "b_count (h x) = 0 \<and> (bh = 0 \<or> BADNESS (h x) < BADNESS (h bh))")
    case True
    show ?thesis
    proof (cases "BADNESS (h x) = 0")
      case z: True
      then show ?thesis using True 2 by auto
    next
      case z: False
      then show ?thesis using True 2 mono[of x xs] by auto
    qed
  next
    case False
    then have "p = x \<Longrightarrow> bh \<noteq> 0 \<and> BADNESS (h bh) \<le> BADNESS (h p)" using 2 by auto
    then show ?thesis using False 2 mono[of bh xs] by (auto intro: order.trans)
  qed
qed simp

lemma take_buffer_rep:
  assumes "cache_rep fl ch s" and "x \<in> set fl" and "2 \<le> length fl"
    and "d \<noteq> 0 \<longrightarrow> (\<forall>q \<in> set fl. \<not> (b_dev (heads s q) = d \<and> b_blocknr (heads s q) = block))"
  shows "\<exists>s' ch'. take_buffer (ucast d) block x s = Inr (x, s') \<and> cache_rep (remove1 x fl @ [x]) ch' s'
    \<and> core (heads s' x) = core ((heads s x)\<lparr>b_dev := d, b_blocknr := block, b_count := 1, b_dirt := 0, b_uptodate := 0\<rparr>)
    \<and> (\<forall>p. p \<noteq> x \<longrightarrow> core (heads s' p) = core (heads s p)) \<and> request s' = request s \<and> bdata s' = bdata s"
proof -
  note C = cache_repD[OF assms(1)]
  let ?s1 = "upd_bh x (\<lambda>h. h\<lparr>b_count := 1, b_dirt := 0, b_uptodate := 0\<rparr>) s"
  have "cache_rep fl ch ?s1" by (rule cache_rep_cong[OF _ _ _ assms(1)]) (auto simp: upd_bh_def)
  from remove_rep[OF this assms(2,3)] obtain s2 where s2: "remove_from_queues x ?s1 = Inr s2"
    "cache_rep (remove1 x fl) (\<lambda>i. remove1 x (ch i)) s2" "\<forall>p. core (heads s2 p) = core (heads ?s1 p)" "request s2 = request s" "bdata s2 = bdata s"
    by (auto simp: upd_bh_def)
  let ?s3 = "upd_bh x (\<lambda>h. h\<lparr>b_dev := d, b_blocknr := block\<rparr>) s2"
  have nx: "x \<notin> set (remove1 x fl)" using C(1) by simp
  have r3: "cache_rep (remove1 x fl) (\<lambda>i. remove1 x (ch i)) ?s3"
    by (rule cache_rep_cong[OF _ _ _ s2(2)]) (use nx in \<open>auto simp: upd_bh_def\<close>)
  have c2: "b_dev (heads s2 p) = b_dev (heads s p)" "b_blocknr (heads s2 p) = b_blocknr (heads s p)" if "p \<noteq> x" for p
    using core_fields[OF s2(3)[rule_format, of p]] that by auto
  have u: "\<forall>p \<in> set (remove1 x fl). b_dev (heads ?s3 x) \<noteq> 0 \<longrightarrow>
      \<not> (b_dev (heads ?s3 p) = b_dev (heads ?s3 x) \<and> b_blocknr (heads ?s3 p) = b_blocknr (heads ?s3 x))"
  proof
    fix p
    assume p: "p \<in> set (remove1 x fl)"
    then have "p \<in> set fl" "p \<noteq> x" using nx set_remove1_subset[of x fl] by auto
    then show "b_dev (heads ?s3 x) \<noteq> 0 \<longrightarrow> \<not> (b_dev (heads ?s3 p) = b_dev (heads ?s3 x) \<and> b_blocknr (heads ?s3 p) = b_blocknr (heads ?s3 x))"
      using assms(4) c2[of p] by auto
  qed
  have x0: "x \<noteq> 0" using C(2) assms(2) by auto
  let ?s4 = "insert_into_queues x ?s3"
  from insert_rep[OF r3 nx x0 u] obtain ch' where r4: "cache_rep (remove1 x fl @ [x]) ch' ?s4" by blast
  have fx: "free_list ?s3 \<noteq> x" using cache_repD(4)[OF r3] nx hd_in_set cache_repD(3)[OF r3] by (metis ring_def)
  have "hash_table ?s3 i \<in> insert 0 (set (remove1 x (ch i)))" for i using cache_repD(6)[OF r3, of i] by (cases "remove1 x (ch i)") auto
  moreover have "x \<notin> set (remove1 x (ch i))" for i using C(7)[of i] by simp
  ultimately have hx: "hash_table ?s3 (bh_hash (heads ?s3 x)) \<noteq> x" using x0 by (metis insert_iff)
  note I = insert_eq(7-9)[OF fx hx refl refl refl refl]
  have cx: "core (heads ?s4 p) = core (heads ?s3 p)" for p by (rule I(1))
  have "take_buffer (ucast d) block x s = Inr (x, ?s4)" using s2(1) by (simp add: take_buffer_def)
  moreover have "core (heads ?s4 x) = core ((heads s x)\<lparr>b_dev := d, b_blocknr := block, b_count := 1, b_dirt := 0, b_uptodate := 0\<rparr>)"
    using cx[of x] s2(3)[rule_format, of x] by (simp add: core_def)
  moreover have "core (heads ?s4 p) = core (heads s p)" if "p \<noteq> x" for p
    using cx[of p] s2(3)[rule_format, of p] that by (simp add: core_def)
  moreover have "request ?s4 = request s" "bdata ?s4 = bdata s" using I(2,3) s2(4,5) by (simp_all add: upd_bh_def)
  ultimately show ?thesis using r4 by blast
qed

section \<open>Cache operations that may sleep\<close>

definition cache_inv :: "u32 set \<Rightarrow> 'a bio_scheme \<Rightarrow> bool" where
  "cache_inv B s \<longleftrightarrow> (\<exists>fl ch. cache_rep fl ch s \<and> set fl = B \<and> 2 \<le> length fl)"

text \<open>Changes that touch neither links nor the identity of a buffer keep the structure.\<close>

definition same_links :: "'a bio_scheme \<Rightarrow> 'a bio_scheme \<Rightarrow> bool" where
  "same_links s s' \<longleftrightarrow> hash_table s' = hash_table s \<and> free_list s' = free_list s \<and> (\<forall>p. b_next (heads s' p) = b_next (heads s p)
      \<and> b_prev (heads s' p) = b_prev (heads s p)
      \<and> b_next_free (heads s' p) = b_next_free (heads s p) \<and> b_prev_free (heads s' p) = b_prev_free (heads s p)
      \<and> b_dev (heads s' p) = b_dev (heads s p) \<and> b_blocknr (heads s' p) = b_blocknr (heads s p))"

lemma same_links_refl [simp]: "same_links s s"
  by (simp add: same_links_def)

lemma same_links_trans: "same_links s s' \<Longrightarrow> same_links s' s'' \<Longrightarrow> same_links s s''"
  by (simp add: same_links_def)

lemma same_links_rep: "same_links s s' \<Longrightarrow> cache_rep fl ch s \<Longrightarrow> cache_rep fl ch s'"
  by (rule cache_rep_cong) (auto simp: same_links_def)

lemma same_links_inv: "same_links s s' \<Longrightarrow> cache_inv B s \<Longrightarrow> cache_inv B s'"
  unfolding cache_inv_def using same_links_rep by blast

lemma same_links_upd:
  assumes "\<And>h. b_next (f h) = b_next h \<and> b_prev (f h) = b_prev h \<and> b_next_free (f h) = b_next_free h
      \<and> b_prev_free (f h) = b_prev_free h \<and> b_dev (f h) = b_dev h \<and> b_blocknr (f h) = b_blocknr h"
  shows "same_links s (upd_bh p f s)"
  using assms by (simp add: same_links_def upd_bh_def)

lemma unlock_links: "same_links s (unlock_buffer bh s)"
  by (simp add: unlock_buffer_def same_links_def upd_bh_def Let_def split: prod.split)

lemma end_request_links: "end_request major u s = Inr s' \<Longrightarrow> same_links s s'"
proof -
  assume a: "end_request major u s = Inr s'"
  then obtain cur where c: "current_request s major = Some cur" by (cases "current_request s major") (auto simp: end_request_def)
  define s1 where "s1 = (if r_bh (request s cur) \<noteq> 0 then unlock_buffer (r_bh (request s cur))
      (upd_bh (r_bh (request s cur)) (\<lambda>h. h\<lparr>b_uptodate := u\<rparr>) s) else s)"
  have "same_links s s1"
  proof -
    have "same_links s (upd_bh p (\<lambda>h. h\<lparr>b_uptodate := u\<rparr>) s)" for p by (rule same_links_upd) simp
    from same_links_trans[OF this unlock_links] show ?thesis by (simp add: s1_def)
  qed
  moreover have "same_links s1 s'"
    using a c by (auto simp: end_request_def Let_def s1_def[symmetric] same_links_def upd_req_def split: if_splits prod.splits)
  ultimately show ?thesis by (rule same_links_trans)
qed

text \<open>What a task may rely on while it sleeps: the others leave the cache consistent, with the same buffers.\<close>

locale sleeper =
  fixes zz :: "chan \<Rightarrow> 'a bio_scheme \<Rightarrow> 'a bio_scheme kres"
    and B :: "u32 set"
  assumes zz_inv: "cache_inv B s \<Longrightarrow> zz c s = Inr s' \<Longrightarrow> cache_inv B s'"
begin

lemma wait_on_buffer_inv:
  assumes "cache_inv B s" and "wait_on_buffer n zz bh s = Inr s'"
  shows "cache_inv B s' \<and> b_lock (heads s' bh) = 0"
  using assms
proof (induction n arbitrary: s)
  case (Suc n)
  then show ?case by (auto simp: kres_simps dest: zz_inv split: if_splits)
qed (auto split: if_splits)

lemma get_hash_table_inv:
  assumes "cache_inv B s" and "get_hash_table n zz (ucast d) block s = Inr (bh, s')"
  shows "cache_inv B s' \<and> (bh \<noteq> 0 \<longrightarrow> bh \<in> B \<and> b_dev (heads s' bh) = d \<and> b_blocknr (heads s' bh) = block \<and> b_lock (heads s' bh) = 0)"
  using assms
proof (induction n arbitrary: s)
  case (Suc n)
  obtain fl ch where r: "cache_rep fl ch s" "set fl = B" using Suc.prems(1) by (auto simp: cache_inv_def)
  obtain p where p: "find_buffer (ucast d) block s = Inr p" "p \<noteq> 0 \<Longrightarrow> p \<in> B"
    using find_buffer_rep[OF r(1), of d block] r(2) by (auto split: if_splits)
  show ?case
  proof (cases "p = 0")
    case True
    then show ?thesis using Suc.prems p by auto
  next
    case False
    obtain s1 where s1: "wait_on_buffer n zz p (upd_bh p (\<lambda>h. h\<lparr>b_count := b_count h + 1\<rparr>) s) = Inr s1"
      "(if ucast (b_dev (heads s1 p)) = (ucast d :: u32) \<and> b_blocknr (heads s1 p) = block then Inr (p, s1)
         else get_hash_table n zz (ucast d) block (upd_bh p (\<lambda>h. h\<lparr>b_count := b_count h - 1\<rparr>) s1)) = Inr (bh, s')"
      using Suc.prems(2) p(1) False by (auto simp: kres_simps simp del: upd_fields)
    have i1: "cache_inv B s1" "b_lock (heads s1 p) = 0"
      using wait_on_buffer_inv[OF same_links_inv[OF same_links_upd Suc.prems(1)] s1(1)] by auto
    show ?thesis
    proof (cases "ucast (b_dev (heads s1 p)) = (ucast d :: u32) \<and> b_blocknr (heads s1 p) = block")
      case True
      with s1(2) i1 p(2)[OF False] show ?thesis by (auto simp: ucast_16_inj)
    next
      case no: False
      have "cache_inv B (upd_bh p (\<lambda>h. h\<lparr>b_count := b_count h - 1\<rparr>) s1)"
        by (rule same_links_inv[OF same_links_upd i1(1)]) simp
      from Suc.IH[OF this] s1(2) show ?thesis unfolding if_not_P[OF no] by blast
    qed
  qed
qed simp

lemma getblk_inv:
  assumes "cache_inv B s" and "getblk n zz (ucast d) block s = Inr (bh, s')"
  shows "cache_inv B s' \<and> bh \<in> B \<and> b_dev (heads s' bh) = d \<and> b_blocknr (heads s' bh) = block \<and> b_lock (heads s' bh) = 0"
  using assms
proof (induction n arbitrary: s)
  case (Suc n)
  obtain b1 s1 where g: "get_hash_table (Suc n) zz (ucast d) block s = Inr (b1, s1)"
    using Suc.prems(2) by (auto simp: kres_simps simp del: get_hash_table.simps)
  note G = get_hash_table_inv[OF Suc.prems(1) g]
  show ?case
  proof (cases "b1 = 0")
    case False
    then show ?thesis using Suc.prems(2) g G by (simp del: get_hash_table.simps)
  next
    case True
    obtain fl ch where r: "cache_rep fl ch s1" "set fl = B" using G by (auto simp: cache_inv_def)
    have sc: "scan_free (heads s1) (free_list s1) (free_list s1) 0 = Some (pick (heads s1) 0 fl)" by (rule scan_free_rep[OF r(1)])
    let ?x = "pick (heads s1) 0 fl"
    show ?thesis
    proof (cases "?x = 0")
      case x: True
      then obtain s2 where "zz Buffer_wait s1 = Inr s2" "getblk n zz (ucast d) block s2 = Inr (bh, s')"
        using Suc.prems(2) g True sc by (auto simp: kres_simps simp del: get_hash_table.simps)
      then show ?thesis using Suc.IH zz_inv G by blast
    next
      case x: False
      then have xB: "?x \<in> B" using pick_in[of "heads s1" 0 fl] r(2) by auto
      obtain s2 where w: "wait_on_buffer n zz ?x s1 = Inr s2"
        and k: "(if b_count (heads s2 ?x) \<noteq> 0 then getblk n zz (ucast d) block s2
             else kbind (find_buffer (ucast d) block s2) (\<lambda>p.
               if p \<noteq> 0 then getblk n zz (ucast d) block s2 else take_buffer (ucast d) block ?x s2)) = Inr (bh, s')"
        using Suc.prems(2) g True sc x by (auto simp: kres_simps simp del: get_hash_table.simps)
      have i2: "cache_inv B s2" "b_lock (heads s2 ?x) = 0" using wait_on_buffer_inv[OF _ w] G by auto
      obtain fl2 ch2 where r2: "cache_rep fl2 ch2 s2" "set fl2 = B" "2 \<le> length fl2" using i2(1) by (auto simp: cache_inv_def)
      obtain p where p: "find_buffer (ucast d) block s2 = Inr p"
        "p = 0 \<Longrightarrow> d \<noteq> 0 \<longrightarrow> (\<forall>q \<in> set fl2. \<not> (b_dev (heads s2 q) = d \<and> b_blocknr (heads s2 q) = block))"
        using find_buffer_rep[OF r2(1), of d block] by (auto split: if_splits)
      show ?thesis
      proof (cases "b_count (heads s2 ?x) \<noteq> 0 \<or> p \<noteq> 0")
        case True
        then have "getblk n zz (ucast d) block s2 = Inr (bh, s')" using k p(1) by (auto split: if_splits)
        then show ?thesis using Suc.IH[OF i2(1)] by blast
      next
        case False
        then have t: "take_buffer (ucast d) block ?x s2 = Inr (bh, s')" using k p(1) by simp
        obtain s3 ch3 where r3: "take_buffer (ucast d) block ?x s2 = Inr (?x, s3)" "cache_rep (remove1 ?x fl2 @ [?x]) ch3 s3"
          "core (heads s3 ?x) = core ((heads s2 ?x)\<lparr>b_dev := d, b_blocknr := block, b_count := 1, b_dirt := 0, b_uptodate := 0\<rparr>)"
          using take_buffer_rep[OF r2(1) _ r2(3) p(2)] xB r2(2) False by blast
        have "set (remove1 ?x fl2 @ [?x]) = B" "length (remove1 ?x fl2 @ [?x]) = length fl2"
          using cache_repD(1)[OF r2(1)] xB r2(2,3) by (auto simp: length_remove1)
        then have "cache_inv B s3" using r3(2) r2(3) by (auto simp: cache_inv_def)
        then show ?thesis using t r3(1) xB core_fields[OF r3(3)] i2(2) by simp
      qed
    qed
  qed
qed simp

lemma brelse_inv:
  assumes "cache_inv B s" and "brelse n zz bh s = Inr s'"
  shows "cache_inv B s'"
proof (cases "bh = 0")
  case True
  then show ?thesis using assms by (simp add: brelse_def)
next
  case False
  then obtain s1 where w: "wait_on_buffer n zz bh s = Inr s1" using assms(2) by (auto simp: brelse_def kres_simps)
  have "same_links s1 s'" using assms(2) False w
    by (auto simp: brelse_def same_links_def upd_bh_def split: if_splits prod.splits)
  then show ?thesis using same_links_inv wait_on_buffer_inv[OF assms(1) w] by blast
qed

end

section \<open>Other tasks\<close>

text \<open>What other tasks and the disk interrupt do to the cache while a task sleeps: any sequence of these
  operations, each of which may sleep in turn, to any depth.\<close>

datatype bop = Getblk u16 u32 | Brelse u32 | Lock u32 | Unlock u32 | Done nat u8

primrec run_bop :: "nat \<Rightarrow> (chan \<Rightarrow> 'a bio_scheme \<Rightarrow> 'a bio_scheme kres) \<Rightarrow> bop \<Rightarrow> 'a bio_scheme \<Rightarrow> 'a bio_scheme kres" where
  "run_bop n zz (Getblk d b) s = kbind (getblk n zz (ucast d) b s) (\<lambda>(bh, s). Inr s)"
| "run_bop n zz (Brelse p) s = brelse n zz p s"
| "run_bop n zz (Lock p) s = lock_buffer n zz p s"
| "run_bop n zz (Unlock p) s = Inr (unlock_buffer p s)"
| "run_bop n zz (Done m u) s = end_request m u s"

primrec run_bops :: "nat \<Rightarrow> (chan \<Rightarrow> 'a bio_scheme \<Rightarrow> 'a bio_scheme kres) \<Rightarrow> bop list \<Rightarrow> 'a bio_scheme \<Rightarrow> 'a bio_scheme kres" where
  "run_bops n zz [] s = Inr s"
| "run_bops n zz (p # ps) s = kbind (run_bop n zz p s) (run_bops n zz ps)"

primrec others :: "nat \<Rightarrow> (chan \<Rightarrow> bop list) \<Rightarrow> chan \<Rightarrow> 'a bio_scheme \<Rightarrow> 'a bio_scheme kres" where
  "others 0 ops c s = Inr s"
| "others (Suc n) ops c s = run_bops n (others n ops) (ops c) s"

context sleeper
begin

lemma lock_buffer_inv: "cache_inv B s \<Longrightarrow> lock_buffer n zz p s = Inr s' \<Longrightarrow> cache_inv B s'"
proof -
  assume a: "cache_inv B s" "lock_buffer n zz p s = Inr s'"
  then obtain s1 where w: "wait_on_buffer n zz p s = Inr s1" "s' = upd_bh p (\<lambda>h. h\<lparr>b_lock := 1\<rparr>) s1"
    by (auto simp: lock_buffer_def kres_simps)
  have "same_links s1 s'" unfolding w(2) by (rule same_links_upd) simp
  then show ?thesis using same_links_inv wait_on_buffer_inv[OF a(1) w(1)] by blast
qed

lemma run_bop_inv:
  assumes i: "cache_inv B s" and r: "run_bop n zz p s = Inr s'"
  shows "cache_inv B s'"
proof (cases p)
  case (Getblk d b)
  then obtain bh where "getblk n zz (ucast d) b s = Inr (bh, s')" using r by (auto simp: kres_simps)
  from getblk_inv[OF i this] show ?thesis by blast
next
  case (Brelse q)
  then have "brelse n zz q s = Inr s'" using r by simp
  with i show ?thesis by (rule brelse_inv)
next
  case (Lock q)
  then have "lock_buffer n zz q s = Inr s'" using r by simp
  with i show ?thesis by (rule lock_buffer_inv)
next
  case (Unlock q)
  then have "s' = unlock_buffer q s" using r by simp
  then show ?thesis using same_links_inv[OF unlock_links i] by simp
next
  case (Done m u)
  then have "end_request m u s = Inr s'" using r by simp
  from same_links_inv[OF end_request_links[OF this] i] show ?thesis .
qed

lemma run_bops_inv: "cache_inv B s \<Longrightarrow> run_bops n zz ps s = Inr s' \<Longrightarrow> cache_inv B s'"
proof (induction ps arbitrary: s)
  case (Cons p ps)
  then obtain s1 where s1: "run_bop n zz p s = Inr s1" "run_bops n zz ps s1 = Inr s'" by (auto simp: kres_simps)
  from Cons.IH[OF run_bop_inv[OF Cons.prems(1) s1(1)] s1(2)] show ?case .
qed simp

end

lemma others_inv:
  fixes s s' :: "'a bio_scheme"
  shows "cache_inv B s \<Longrightarrow> others n ops c s = Inr s' \<Longrightarrow> cache_inv B s'"
proof (induction n arbitrary: c s s')
  case (Suc n)
  have "sleeper (others n ops :: chan \<Rightarrow> 'a bio_scheme \<Rightarrow> 'a bio_scheme kres) B" by unfold_locales (rule Suc.IH)
  from sleeper.run_bops_inv[OF this Suc.prems(1)] Suc.prems(2) show ?case by simp
qed simp

interpretation oth: sleeper "others n ops" B for n ops B
proof unfold_locales
  fix s s' :: "'a bio_scheme" and c
  assume "cache_inv B s" "others n ops c s = Inr s'"
  then show "cache_inv B s'" by (rule others_inv)
qed

text \<open>A caller that also has a device driver behind it.\<close>

locale bio_client = sleeper zz B for zz :: "chan \<Rightarrow> 'a bio_scheme \<Rightarrow> 'a bio_scheme kres" and B +
  fixes fn :: "nat \<Rightarrow> 'a bio_scheme \<Rightarrow> 'a bio_scheme kres"
  assumes fn_inv: "cache_inv B s \<Longrightarrow> fn m s = Inr s' \<Longrightarrow> cache_inv B s'"
begin

lemma upd_req_links: "same_links s (upd_req i g s)"
  by (simp add: same_links_def upd_req_def)

lemma add_request_inv:
  assumes "cache_inv B s" and "add_request fn m i s = Inr s'"
  shows "cache_inv B s'"
proof -
  define s1 where "s1 = (if r_bh (request s i) \<noteq> 0 then upd_bh (r_bh (request s i)) (\<lambda>h. h\<lparr>b_dirt := 0\<rparr>)
    (upd_req i (\<lambda>r. r\<lparr>r_next := None\<rparr>) s) else upd_req i (\<lambda>r. r\<lparr>r_next := None\<rparr>) s)"
  have "same_links s s1"
    by (auto simp: s1_def same_links_def upd_bh_def upd_req_def)
  then have i1: "cache_inv B s1" using same_links_inv assms(1) by blast
  have b: "r_bh (request (upd_req i (\<lambda>r. r\<lparr>r_next := None\<rparr>) s) i) = r_bh (request s i)" by simp
  show ?thesis
  proof (cases "current_request s1 m")
    case None
    have "same_links s1 (s1\<lparr>current_request := c\<rparr>)" for c by (simp add: same_links_def)
    then have "cache_inv B (s1\<lparr>current_request := c\<rparr>)" for c using same_links_inv i1 by blast
    moreover have "fn m (s1\<lparr>current_request := (current_request s1)(m := Some i)\<rparr>) = Inr s'"
      using assms(2) None unfolding add_request_def Let_def by (simp only: b s1_def[symmetric]) simp
    ultimately show ?thesis using fn_inv by blast
  next
    case (Some cur)
    then have "\<exists>t. s' = upd_req t (\<lambda>r. r\<lparr>r_next := Some i\<rparr>) (upd_req i (\<lambda>r. r\<lparr>r_next := r_next (request s1 t)\<rparr>) s1)"
      using assms(2) unfolding add_request_def Let_def by (simp only: b s1_def[symmetric]) (auto split: option.splits)
    then have "same_links s1 s'" using upd_req_links same_links_trans by blast
    then show ?thesis using same_links_inv i1 by blast
  qed
qed

lemma get_request_inv: "cache_inv B s \<Longrightarrow> get_request n zz fn m rw ra bh s = Inr s' \<Longrightarrow> cache_inv B s'"
proof (induction n arbitrary: s)
  case (Suc n)
  show ?case
  proof (cases "find_request (request s) (slot_limit rw)")
    case None
    show ?thesis
    proof (cases ra)
      case True
      then have "s' = unlock_buffer bh s" using Suc.prems(2) None by simp
      then show ?thesis using same_links_inv[OF unlock_links Suc.prems(1)] by simp
    next
      case False
      then obtain s1 where s1: "zz Wait_for_request s = Inr s1" "get_request n zz fn m rw ra bh s1 = Inr s'"
        using Suc.prems(2) None by (auto simp: kres_simps)
      from Suc.IH[OF zz_inv[OF Suc.prems(1) s1(1)] s1(2)] show ?thesis .
    qed
  next
    case (Some i)
    then have "add_request fn m i (upd_req i (new_request rw bh s) s) = Inr s'" using Suc.prems(2) by simp
    from add_request_inv[OF same_links_inv[OF upd_req_links Suc.prems(1)] this] show ?thesis .
  qed
qed simp

lemma make_request_inv:
  assumes "cache_inv B s" and "make_request n zz fn m rw bh s = Inr s'"
  shows "cache_inv B s'"
proof (cases "(rw = READA \<or> rw = WRITEA) \<and> b_lock (heads s bh) \<noteq> 0")
  case True
  then show ?thesis using assms by (simp add: make_request_def Let_def)
next
  case False
  then obtain rw' ra s1 where l: "lock_buffer n zz bh s = Inr s1"
    and e: "s' = unlock_buffer bh s1 \<or> get_request n zz fn m rw' ra bh s1 = Inr s'"
    using assms(2) by (auto simp: make_request_def Let_def kres_simps split: if_splits)
  have i: "cache_inv B s1" by (rule lock_buffer_inv[OF assms(1) l])
  from e show ?thesis using same_links_inv[OF unlock_links i] get_request_inv[OF i] by blast
qed

lemma ll_rw_block_inv:
  assumes "cache_inv B s" and "ll_rw_block n zz fn rw bh s = Inr s'"
  shows "cache_inv B s'"
  using assms make_request_inv[OF assms(1)] by (auto simp: ll_rw_block_def Let_def split: if_splits)

lemma bread_inv:
  fixes d :: u16
  assumes "cache_inv B s" and "bread n zz fn (ucast d) block s = Inr (bh, s')"
  shows "cache_inv B s' \<and> (bh \<noteq> 0 \<longrightarrow> bh \<in> B \<and> b_uptodate (heads s' bh) \<noteq> 0 \<and> b_lock (heads s' bh) = 0)"
proof -
  obtain b1 s1 where g: "getblk n zz (ucast d) block s = Inr (b1, s1)" using assms(2) by (auto simp: bread_def kres_simps)
  note G = getblk_inv[OF assms(1) g]
  show ?thesis
  proof (cases "b_uptodate (heads s1 b1) \<noteq> 0")
    case True
    then show ?thesis using assms(2) G by (auto simp: bread_def g split: if_splits)
  next
    case False
    then obtain s2 s3 where s2: "ll_rw_block n zz fn READ b1 s1 = Inr s2" and s3: "wait_on_buffer n zz b1 s2 = Inr s3"
      and e: "(if b_uptodate (heads s3 b1) \<noteq> 0 then Inr (b1, s3) else kbind (brelse n zz b1 s3) (\<lambda>s. Inr (0, s))) = Inr (bh, s')"
      using assms(2) by (auto simp: bread_def g kres_simps split: if_splits)
    have W: "cache_inv B s3" "b_lock (heads s3 b1) = 0" using wait_on_buffer_inv[OF ll_rw_block_inv[OF _ s2] s3] G by auto
    show ?thesis using e W G brelse_inv[OF W(1)] by (auto simp: kres_simps split: if_splits)
  qed
qed

end

section \<open>Properties of the buffer cache\<close>

text \<open>C13: Whatever the other tasks do to the cache while \<open>getblk\<close> sleeps (any nesting of getting, releasing,
  locking and unlocking buffers and of completed requests): when it returns, the lists of the cache are
  intact, no block is cached twice, and the buffer returned is an unlocked one with the
  device and block number asked for.\<close>

theorem getblk_coherent:
  assumes "cache_inv B s" and "getblk fuel (others n ops) (ucast (d :: u16)) block s = Inr (bh, s')"
  shows "cache_inv B s' \<and> bh \<in> B \<and> b_dev (heads s' bh) = d \<and> b_blocknr (heads s' bh) = block \<and> b_lock (heads s' bh) = 0"
  using assms by (rule oth.getblk_inv)

lemma pick_first:
  assumes "0 \<notin> set fl" and "q \<in> set fl" and "b_count (h q) = 0" and "BADNESS (h q) = 0" and "bh = 0 \<or> 0 < BADNESS (h bh)"
  shows "\<exists>as bs. fl = as @ pick h bh fl # bs \<and> b_count (h (pick h bh fl)) = 0 \<and> BADNESS (h (pick h bh fl)) = 0
    \<and> (\<forall>p \<in> set as. b_count (h p) \<noteq> 0 \<or> BADNESS (h p) \<noteq> 0)"
  using assms
proof (induction h bh fl rule: pick.induct)
  case (2 h bh x xs)
  have step: "\<exists>as bs. x # xs = as @ pick h b xs # bs \<and> b_count (h (pick h b xs)) = 0 \<and> BADNESS (h (pick h b xs)) = 0
      \<and> (\<forall>p \<in> set as. b_count (h p) \<noteq> 0 \<or> BADNESS (h p) \<noteq> 0)"
    if "\<exists>as bs. xs = as @ pick h b xs # bs \<and> b_count (h (pick h b xs)) = 0 \<and> BADNESS (h (pick h b xs)) = 0
      \<and> (\<forall>p \<in> set as. b_count (h p) \<noteq> 0 \<or> BADNESS (h p) \<noteq> 0)" "b_count (h x) \<noteq> 0 \<or> BADNESS (h x) \<noteq> 0" for b
  proof -
    from that(1) obtain as bs where "xs = as @ pick h b xs # bs" "b_count (h (pick h b xs)) = 0 \<and> BADNESS (h (pick h b xs)) = 0"
      "\<forall>p \<in> set as. b_count (h p) \<noteq> 0 \<or> BADNESS (h p) \<noteq> 0" by blast
    then show ?thesis using that(2) by (intro exI[of _ "x # as"] exI[of _ bs]) auto
  qed
  show ?case
  proof (cases "b_count (h x) = 0 \<and> BADNESS (h x) = 0")
    case True
    then have "pick h bh (x # xs) = x" using 2(7) by auto
    then show ?thesis using True by (intro exI[of _ "[]"] exI[of _ xs]) simp
  next
    case False
    then have q: "q \<in> set xs" using 2(4-6) by auto
    show ?thesis
    proof (cases "b_count (h x) = 0 \<and> (bh = 0 \<or> BADNESS (h x) < BADNESS (h bh))")
      case b: True
      then have "0 < BADNESS (h x)" using False by simp
      then have "pick h bh (x # xs) = pick h x xs" using b by simp
      then show ?thesis using step[of x] 2(1)[OF b] False q 2(3,5,6) \<open>0 < BADNESS (h x)\<close> by simp
    next
      case b: False
      then have "pick h bh (x # xs) = pick h bh xs" by (simp only: pick.simps if_False)
      then show ?thesis using step[of bh] 2(2)[OF b] False q 2(3,5-7) by simp
    qed
  qed
qed simp

lemma getblk_takes:
  assumes "cache_rep fl ch s"
    and "d \<noteq> 0" and "\<forall>p \<in> set fl. \<not> (b_dev (heads s p) = d \<and> b_blocknr (heads s p) = block)"
    and "x = pick (heads s) 0 fl" and "x \<noteq> 0" and "b_lock (heads s x) = 0"
  shows "getblk (Suc n) zz (ucast d) block s = take_buffer (ucast d) block x s"
proof -
  obtain p where p: "find_buffer (ucast d) block s = Inr p" "p = 0"
    using find_buffer_rep[OF assms(1), of d block] assms(3) by (auto split: if_splits)
  have x: "b_count (heads s x) = 0" using pick_in[of "heads s" 0 fl] assms(4,5) by auto
  have "get_hash_table (Suc n) zz (ucast d) block s = Inr (0, s)" using p by simp
  then show ?thesis
    using scan_free_rep[OF assms(1)] assms(4-6) p x by (simp add: wait_on_unlocked del: get_hash_table.simps)
qed

lemma getblk_miss:
  assumes "cache_rep fl ch s" and "2 \<le> length fl"
    and "d \<noteq> 0" and "\<forall>p \<in> set fl. \<not> (b_dev (heads s p) = d \<and> b_blocknr (heads s p) = block)"
    and "x = pick (heads s) 0 fl" and "x \<noteq> 0" and "b_lock (heads s x) = 0"
  shows "\<exists>s' ch'. getblk (Suc n) zz (ucast d) block s = Inr (x, s') \<and> cache_rep (remove1 x fl @ [x]) ch' s'
    \<and> core (heads s' x) = core ((heads s x)\<lparr>b_dev := d, b_blocknr := block, b_count := 1, b_dirt := 0, b_uptodate := 0\<rparr>)
    \<and> (\<forall>p. p \<noteq> x \<longrightarrow> core (heads s' p) = core (heads s p)) \<and> request s' = request s \<and> bdata s' = bdata s"
proof -
  have x: "x \<in> set fl" using pick_in[of "heads s" 0 fl] assms(5,6) by auto
  show ?thesis
    using take_buffer_rep[OF assms(1) x assms(2)] assms(4) getblk_takes[OF assms(1,3-7), of n zz] by simp
qed

lemma get_hash_table_hit:
  assumes "cache_rep fl ch s" and "d \<noteq> 0"
    and "p \<in> set fl" "b_dev (heads s p) = d \<and> b_blocknr (heads s p) = block \<and> b_lock (heads s p) = 0"
  shows "get_hash_table (Suc n) zz (ucast d) block s = Inr (p, upd_bh p (\<lambda>h. h\<lparr>b_count := b_count h + 1\<rparr>) s)"
proof -
  have p: "p \<noteq> 0" using assms(3) cache_repD(2)[OF assms(1)] by auto
  obtain p' where p': "find_buffer (ucast d) block s = Inr p'" "p' \<noteq> 0 \<Longrightarrow> p' \<in> set fl \<and> b_dev (heads s p') = d \<and> b_blocknr (heads s p') = block"
      "p' = 0 \<Longrightarrow> \<forall>q \<in> set fl. \<not> (b_dev (heads s q) = d \<and> b_blocknr (heads s q) = block)"
    using find_buffer_rep[OF assms(1), of d block] assms(2) by (auto split: if_splits)
  moreover have "p' = p" using assms(3,4) p' cache_repD(10)[OF assms(1), of p' p] assms(2) by (cases "p' = 0") auto
  ultimately show ?thesis using assms(4) p by (simp add: wait_on_unlocked)
qed

lemma getblk_hit:
  assumes "cache_rep fl ch s" and "d \<noteq> 0"
    and "p \<in> set fl" "b_dev (heads s p) = d \<and> b_blocknr (heads s p) = block \<and> b_lock (heads s p) = 0"
  shows "getblk (Suc n) zz (ucast d) block s = Inr (p, upd_bh p (\<lambda>h. h\<lparr>b_count := b_count h + 1\<rparr>) s)"
proof -
  have "p \<noteq> 0" using assms(3) cache_repD(2)[OF assms(1)] by auto
  then show ?thesis using get_hash_table_hit[OF assms] by (simp del: get_hash_table.simps)
qed

text \<open>C14: \<open>getblk\<close> without sleeping. A block in the cache that is not locked is returned with one more user
  and nothing else changed. Otherwise, if some unused buffer is clean and unlocked, the least recently
  used one of these is returned, with the new identity, one user and no valid data, and moves to the
  end of the free list; all other buffers and the request queue stay as they were.\<close>

theorem getblk_lru:
  assumes "cache_rep fl ch s" and "2 \<le> length fl" and "d \<noteq> 0"
  shows "(\<forall>p \<in> set fl. b_dev (heads s p) = d \<and> b_blocknr (heads s p) = block \<and> b_lock (heads s p) = 0 \<longrightarrow>
      getblk (Suc n) zz (ucast d) block s = Inr (p, upd_bh p (\<lambda>h. h\<lparr>b_count := b_count h + 1\<rparr>) s))
    \<and> ((\<forall>p \<in> set fl. \<not> (b_dev (heads s p) = d \<and> b_blocknr (heads s p) = block))
       \<and> (\<exists>q \<in> set fl. b_count (heads s q) = 0 \<and> BADNESS (heads s q) = 0) \<longrightarrow>
      (\<exists>s' ch' as x bs. getblk (Suc n) zz (ucast d) block s = Inr (x, s') \<and> fl = as @ x # bs \<and> cache_rep (as @ bs @ [x]) ch' s'
        \<and> b_count (heads s x) = 0 \<and> BADNESS (heads s x) = 0 \<and> (\<forall>p \<in> set as. b_count (heads s p) \<noteq> 0 \<or> BADNESS (heads s p) \<noteq> 0)
        \<and> b_dev (heads s' x) = d \<and> b_blocknr (heads s' x) = block \<and> b_count (heads s' x) = 1 \<and> b_uptodate (heads s' x) = 0
        \<and> (\<forall>p. p \<noteq> x \<longrightarrow> core (heads s' p) = core (heads s p)) \<and> request s' = request s))"
proof (intro conjI ballI impI)
  fix p
  assume "p \<in> set fl" "b_dev (heads s p) = d \<and> b_blocknr (heads s p) = block \<and> b_lock (heads s p) = 0"
  then show "getblk (Suc n) zz (ucast d) block s = Inr (p, upd_bh p (\<lambda>h. h\<lparr>b_count := b_count h + 1\<rparr>) s)"
    by (rule getblk_hit[OF assms(1,3)])
next
  assume a: "(\<forall>p \<in> set fl. \<not> (b_dev (heads s p) = d \<and> b_blocknr (heads s p) = block))
    \<and> (\<exists>q \<in> set fl. b_count (heads s q) = 0 \<and> BADNESS (heads s q) = 0)"
  define x where "x = pick (heads s) 0 fl"
  obtain as bs where ab: "fl = as @ x # bs" "b_count (heads s x) = 0" "BADNESS (heads s x) = 0"
    "\<forall>p \<in> set as. b_count (heads s p) \<noteq> 0 \<or> BADNESS (heads s p) \<noteq> 0"
    using pick_first[of fl _ "heads s" 0] cache_repD(2)[OF assms(1)] a unfolding x_def by blast
  have "x \<noteq> 0" using ab(1) cache_repD(2)[OF assms(1)] by auto
  moreover have "b_lock (heads s x) = 0" using ab(3) by (simp add: BADNESS_def unat_eq_0)
  ultimately obtain s' ch' where s': "getblk (Suc n) zz (ucast d) block s = Inr (x, s')" "cache_rep (remove1 x fl @ [x]) ch' s'"
    "core (heads s' x) = core ((heads s x)\<lparr>b_dev := d, b_blocknr := block, b_count := 1, b_dirt := 0, b_uptodate := 0\<rparr>)"
    "\<forall>p. p \<noteq> x \<longrightarrow> core (heads s' p) = core (heads s p)" "request s' = request s"
    using getblk_miss[OF assms(1-3) conjunct1[OF a] x_def] by blast
  have "x \<notin> set as" using cache_repD(1)[OF assms(1)] ab(1) by auto
  then have "remove1 x fl @ [x] = as @ bs @ [x]" by (simp add: ab(1) remove1_append)
  with s' ab core_fields[OF s'(3)] show "\<exists>s' ch' as x bs. getblk (Suc n) zz (ucast d) block s = Inr (x, s') \<and> fl = as @ x # bs \<and> cache_rep (as @ bs @ [x]) ch' s'
        \<and> b_count (heads s x) = 0 \<and> BADNESS (heads s x) = 0 \<and> (\<forall>p \<in> set as. b_count (heads s p) \<noteq> 0 \<or> BADNESS (heads s p) \<noteq> 0)
        \<and> b_dev (heads s' x) = d \<and> b_blocknr (heads s' x) = block \<and> b_count (heads s' x) = 1 \<and> b_uptodate (heads s' x) = 0
        \<and> (\<forall>p. p \<noteq> x \<longrightarrow> core (heads s' p) = core (heads s p)) \<and> request s' = request s"
    by (intro exI[of _ s'] exI[of _ ch'] exI[of _ as] exI[of _ x] exI[of _ bs]) simp
qed

text \<open>C39: \<open>getblk\<close> gives away a dirty buffer without writing it: when the only unused buffers are dirty, the
  one taken is marked clean and renamed, and no request to write its old block is made. The loop
  that would do so is commented out, while the comment says the buffer is clean here.\<close>

theorem getblk_loses_dirty_block:
  assumes "cache_rep fl ch s" and "2 \<le> length fl" and "d \<noteq> 0"
    and "\<forall>p \<in> set fl. \<not> (b_dev (heads s p) = d \<and> b_blocknr (heads s p) = block)"
    and "x \<in> set fl" and "b_count (heads s x) = 0" and "b_dirt (heads s x) = 1" and "b_lock (heads s x) = 0"
    and "\<forall>p \<in> set fl. p \<noteq> x \<longrightarrow> b_count (heads s p) \<noteq> 0"
  shows "\<exists>s'. getblk (Suc n) zz (ucast d) block s = Inr (x, s') \<and> b_dirt (heads s' x) = 0
    \<and> b_blocknr (heads s' x) = block \<and> request s' = request s \<and> bdata s' = bdata s"
proof -
  have "pick (heads s) 0 fl \<noteq> 0" using pick_best[of fl x "heads s" 0] cache_repD(2)[OF assms(1)] assms(5,6) by auto
  moreover from this have "pick (heads s) 0 fl = x" using pick_in[of "heads s" 0 fl] assms(9) by blast
  ultimately obtain s' where s': "getblk (Suc n) zz (ucast d) block s = Inr (x, s')"
    "core (heads s' x) = core ((heads s x)\<lparr>b_dev := d, b_blocknr := block, b_count := 1, b_dirt := 0, b_uptodate := 0\<rparr>)"
    "request s' = request s" "bdata s' = bdata s"
    using getblk_miss[OF assms(1-4), of x n zz] assms(8) by auto
  with core_fields[OF s'(2)] show ?thesis by auto
qed

definition demo_cache :: "u8 \<Rightarrow> u8 \<Rightarrow> bio" where
  "demo_cache c1 dirt2 = demo_bio\<lparr>
     heads := (\<lambda>p. if p = 0x1000 then (heads demo_bio p)\<lparr>b_dev := 0, b_count := c1, b_prev_free := 0x2000, b_next_free := 0x2000\<rparr>
                  else (heads demo_bio p)\<lparr>b_dev := 0, b_count := 0, b_dirt := dirt2\<rparr>),
     free_list := 0x1000, nr_buffers := 2\<rparr>"

lemma demo_cache_rep: "cache_rep [0x1000, 0x2000] (\<lambda>_. []) (demo_cache c1 dirt2)"
  by (simp add: cache_rep_def demo_cache_def demo_bio_def ring_def)

theorem getblk_coherent_witness:
  "\<exists>bh s'. getblk 1 (others 0 (\<lambda>_. [])) 0x301 7 (demo_cache 0 0) = Inr (bh, s') \<and> bh \<in> {0x1000, 0x2000} \<and> b_blocknr (heads s' bh) = 7"
proof -
  have i: "cache_inv {0x1000, 0x2000} (demo_cache 0 0)"
    unfolding cache_inv_def using demo_cache_rep by (intro exI[of _ "[0x1000, 0x2000]"]) auto
  have p: "pick (heads (demo_cache 0 0)) 0 [0x1000, 0x2000] = 0x1000" by (simp add: demo_cache_def demo_bio_def BADNESS_def)
  have "\<forall>p \<in> set [0x1000, 0x2000 :: u32]. \<not> (b_dev (heads (demo_cache 0 0) p) = 0x301 \<and> b_blocknr (heads (demo_cache 0 0) p) = 7)"
    by (simp add: demo_cache_def demo_bio_def)
  from getblk_miss[OF demo_cache_rep _ _ this p[symmetric], of 0 "others 0 (\<lambda>_. [])"]
  obtain s' where g: "getblk 1 (others 0 (\<lambda>_. [])) (ucast (0x301 :: u16)) 7 (demo_cache 0 0) = Inr (0x1000, s')"
    by (auto simp: demo_cache_def demo_bio_def simp del: getblk.simps)
  from getblk_coherent[OF i g] g show ?thesis by (simp del: getblk.simps)
qed

theorem getblk_lru_witness:
  "\<exists>s' ch'. getblk 1 (\<lambda>_. Inr) 0x301 7 (demo_cache 1 0) = Inr (0x2000, s') \<and> cache_rep [0x1000, 0x2000] ch' s'"
proof -
  have a: "\<forall>p \<in> set [0x1000, 0x2000 :: u32]. \<not> (b_dev (heads (demo_cache 1 0) p) = 0x301 \<and> b_blocknr (heads (demo_cache 1 0) p) = 7)"
    "\<exists>q \<in> set [0x1000, 0x2000 :: u32]. b_count (heads (demo_cache 1 0) q) = 0 \<and> BADNESS (heads (demo_cache 1 0) q) = 0"
    by (simp_all add: demo_cache_def demo_bio_def BADNESS_def)
  have l: "2 \<le> length [0x1000, 0x2000 :: u32]" "(0x301 :: u16) \<noteq> 0" by simp_all
  from mp[OF conjunct2[OF getblk_lru[OF demo_cache_rep[of 1 0] l]] conjI[OF a], of 0 "\<lambda>_. Inr"]
  obtain s' ch' as x bs where g: "getblk (Suc 0) (\<lambda>_. Inr) (ucast (0x301 :: u16)) 7 (demo_cache 1 0) = Inr (x, s')"
    "[0x1000, 0x2000] = as @ x # bs" "cache_rep (as @ bs @ [x]) ch' s'" "b_count (heads (demo_cache 1 0) x) = 0"
    by (elim exE conjE)
  then have "x = 0x2000 \<and> as = [0x1000] \<and> bs = []" by (auto simp: demo_cache_def demo_bio_def Cons_eq_append_conv)
  with g show ?thesis by (auto simp del: getblk.simps)
qed

theorem getblk_loses_dirty_block_witness:
  "\<exists>s'. getblk 1 (\<lambda>_. Inr) 0x301 7 (demo_cache 1 1) = Inr (0x2000, s') \<and> b_dirt (heads s' 0x2000) = 0 \<and> request s' = request (demo_cache 1 1)"
  using getblk_loses_dirty_block[OF demo_cache_rep[of 1 1], where d = "0x301" and block = 7 and x = "0x2000" and n = 0 and zz = "\<lambda>_. Inr"]
  by (auto simp: demo_cache_def demo_bio_def simp del: getblk.simps)

section \<open>Initialisation of the cache\<close>

lemma dl_map:
  assumes "\<And>i. i < n \<Longrightarrow> pv (f i) = (if i = 0 then q else f (i - 1)) \<and> nx (f i) = (if Suc i = n then e else f (Suc i))"
  shows "dl nx pv q (map f [0..<n]) e"
  using assms
proof (induction n arbitrary: e)
  case (Suc n)
  have "dl nx pv q (map f [0..<n]) (f n)" by (rule Suc.IH) (use Suc.prems in auto)
  moreover have "pv (f n) = (if n = 0 then q else f (n - 1))" "nx (f n) = e" using Suc.prems[of n] by auto
  ultimately show ?case by (cases n) (simp_all add: dl_append)
qed simp

text \<open>The heads written by the loop, the \<open>i\<close>-th with the \<open>i\<close>-th block from the top.\<close>

definition fresh_head :: "u32 \<Rightarrow> u32 \<Rightarrow> nat \<Rightarrow> buffer_head \<Rightarrow> bool" where
  "fresh_head h b i x \<longleftrightarrow> b_dev x = 0 \<and> b_dirt x = 0 \<and> b_count x = 0 \<and> b_lock x = 0 \<and> b_uptodate x = 0 \<and> b_next x = 0 \<and> b_prev x = 0
     \<and> unat (b_data x) = unat b - 1024 * Suc i
     \<and> b_prev_free x = h + 36 * of_nat i - 36 \<and> b_next_free x = h + 36 * of_nat i + 36"

lemma init_loop_heads:
  assumes "0x100000 \<le> unat h" and "unat h + 1024 \<le> unat b" and "unat b \<le> 0x1000000"
  shows "\<exists>n s'. init_loop h b s = Some (h + 36 * of_nat n, s') \<and> (\<forall>i < n. fresh_head h b i (heads s' (h + 36 * of_nat i)))
    \<and> (\<forall>p. unat p < unat h \<longrightarrow> heads s' p = heads s p) \<and> hash_table s' = hash_table s
    \<and> unat h + 1060 * n \<le> unat b \<and> unat b < unat h + 1060 * Suc n"
  using assms
proof (induction "unat b - unat h" arbitrary: h b s rule: less_induct)
  case less
  let ?b = "b - 1024"
  have ub: "unat ?b = unat b - 1024" using less.prems by (simp add: unat_sub word_le_nat_alt)
  have uh: "unat (h + 36) = unat h + 36" using less.prems by (subst unat_word_ariths) simp
  show ?case
  proof (cases "h + 36 \<le> ?b")
    case False
    then have "init_loop h b s = Some (h + 36 * of_nat 0, s)" by (subst init_loop.simps) simp
    moreover have "unat b < unat h + 1060" using False uh ub less.prems by (simp add: word_le_nat_alt)
    ultimately show ?thesis using less.prems by (intro exI[of _ 0] exI[of _ s]) auto
  next
    case True
    then have le: "unat h + 1060 \<le> unat b" using uh ub less.prems by (simp add: word_le_nat_alt)
    have nb: "?b \<noteq> 0x100000" using ub le less.prems(1) by auto
    define s1 where "s1 = (upd_bh h (\<lambda>x. x\<lparr>b_dev := 0, b_dirt := 0, b_count := 0, b_lock := 0, b_uptodate := 0, b_wait := 0,
                  b_next := 0, b_prev := 0, b_data := ?b, b_prev_free := h - 36, b_next_free := h + 36\<rparr>) s)\<lparr>nr_buffers := nr_buffers s + 1\<rparr>"
    have st: "init_loop h b s = init_loop (h + 36) ?b s1"
      using True nb by (subst init_loop.simps) (simp add: s1_def Let_def)
    show ?thesis
    proof (cases "unat (h + 36) + 1024 \<le> unat ?b")
      case c: True
      have "unat ?b - unat (h + 36) < unat b - unat h" using le uh ub by simp
      moreover have "0x100000 \<le> unat (h + 36)" "unat ?b \<le> 0x1000000" using less.prems uh ub by simp_all
      ultimately obtain n s' where n: "init_loop (h + 36) ?b s1 = Some (h + 36 + 36 * of_nat n, s')"
        "\<forall>i < n. fresh_head (h + 36) ?b i (heads s' (h + 36 + 36 * of_nat i))" "\<forall>p. unat p < unat (h + 36) \<longrightarrow> heads s' p = heads s1 p"
        "hash_table s' = hash_table s1" "unat (h + 36) + 1060 * n \<le> unat ?b" "unat ?b < unat (h + 36) + 1060 * Suc n"
        using less.hyps[of ?b "h + 36" s1] c by blast
      have f0: "fresh_head h b 0 (heads s' h)" using n(3) uh ub by (simp add: fresh_head_def s1_def)
      have "fresh_head h b i (heads s' (h + 36 * of_nat i))" if i: "i < Suc n" for i
      proof (cases i)
        case 0
        with f0 show ?thesis by simp
      next
        case (Suc j)
        have "h + 36 + 36 * of_nat j = h + 36 * of_nat i" by (simp add: Suc algebra_simps)
        with n(2) i Suc ub show ?thesis by (auto simp: fresh_head_def algebra_simps)
      qed
      moreover have "init_loop h b s = Some (h + 36 * of_nat (Suc n), s')" using st n(1) by (simp add: algebra_simps)
      moreover have "\<forall>p. unat p < unat h \<longrightarrow> heads s' p = heads s p" using n(3) uh by (auto simp: s1_def)
      moreover have "hash_table s' = hash_table s" using n(4) by (simp add: s1_def upd_bh_def)
      moreover have "unat h + 1060 * Suc n \<le> unat b" "unat b < unat h + 1060 * Suc (Suc n)" using n(5,6) uh ub le by auto
      ultimately show ?thesis by blast
    next
      case c: False
      then have "\<not> (h + 36) + 36 \<le> ?b - 1024"
      proof -
        have u2: "unat (h + 36 + 36) = unat h + 72" using uh less.prems by (subst unat_word_ariths) simp
        have "unat (?b - 1024) = unat ?b - 1024" using ub le less.prems by (simp add: unat_sub word_le_nat_alt)
        with u2 c uh show ?thesis by (simp add: word_le_nat_alt)
      qed
      then have "init_loop (h + 36) ?b s1 = Some (h + 36, s1)" by (subst init_loop.simps) simp
      then have "init_loop h b s = Some (h + 36 * of_nat (Suc 0), s1)" using st by simp
      moreover have "\<forall>i < Suc 0. fresh_head h b i (heads s1 (h + 36 * of_nat i))" using ub by (simp add: fresh_head_def s1_def)
      moreover have "unat b < unat h + 1060 * Suc (Suc 0)" using c uh ub by simp
      ultimately show ?thesis using le by (intro exI[of _ "Suc 0"] exI[of _ s1]) (auto simp: s1_def upd_bh_def)
    qed
  qed
qed

text \<open>The addresses of the heads are distinct.\<close>

abbreviation (input) head_at :: "nat \<Rightarrow> u32" where "head_at i \<equiv> 0x100000 + 36 * of_nat i"

lemma unat_head_at: "i < 16000 \<Longrightarrow> unat (head_at i) = 0x100000 + 36 * i"
  by (simp add: unat_word_ariths unat_of_nat)

lemma head_at_eq:
  assumes "i < 16000" and "j < 16000"
  shows "head_at i = head_at j \<longleftrightarrow> i = j"
proof
  assume "head_at i = head_at j"
  then have "unat (head_at i) = unat (head_at j)" by simp
  then show "i = j" using unat_head_at assms by simp
qed simp

text \<open>The heads after the first and the last have been linked to a ring.\<close>

lemma closed_heads:
  fixes H :: "u32 \<Rightarrow> buffer_head"
  assumes f: "fresh_head 0x100000 e i (H (head_at i))" and i: "i < n" and n: "2 \<le> n" "n < 16000"
  defines "l \<equiv> head_at (n - 1)"
  defines "H5 \<equiv> H(0x100000 := (H 0x100000)\<lparr>b_prev_free := l\<rparr>, l := (H(0x100000 := (H 0x100000)\<lparr>b_prev_free := l\<rparr>)) l\<lparr>b_next_free := 0x100000\<rparr>)"
  shows "b_dev (H5 (head_at i)) = 0 \<and> b_next (H5 (head_at i)) = 0 \<and> b_prev (H5 (head_at i)) = 0 \<and> b_count (H5 (head_at i)) = 0
    \<and> b_lock (H5 (head_at i)) = 0 \<and> unat (b_data (H5 (head_at i))) = unat e - 1024 * Suc i
    \<and> b_prev_free (H5 (head_at i)) = (if i = 0 then l else head_at (i - 1)) \<and> b_next_free (H5 (head_at i)) = (if Suc i = n then 0x100000 else head_at (Suc i))"
proof -
  have a: "(head_at i = 0x100000) = (i = 0)" "(head_at i = l) = (Suc i = n)" using head_at_eq[of i 0] head_at_eq[of i "n - 1"] i n by (auto simp: l_def)
  define x where "x = (if i = 0 then (H (head_at i))\<lparr>b_prev_free := l\<rparr> else H (head_at i))"
  have h0: "head_at 0 = 0x100000" by simp
  have x: "(H(0x100000 := (H 0x100000)\<lparr>b_prev_free := l\<rparr>)) (head_at i) = x"
    unfolding x_def fun_upd_apply a(1) using h0 by (cases "i = 0") (simp_all only: if_True if_False)
  have e: "H5 (head_at i) = (if Suc i = n then x\<lparr>b_next_free := 0x100000\<rparr> else x)"
  proof (cases "Suc i = n")
    case True
    then have "l = head_at i" by (auto simp: l_def)
    then show ?thesis using True x unfolding H5_def by (simp only: fun_upd_same if_True simp_thms)
  next
    case False
    then show ?thesis unfolding H5_def fun_upd_apply[of _ l] a(2) using x by (simp only: if_False)
  qed
  have p: "head_at i - 36 = head_at (i - 1)" if "i \<noteq> 0" using that by (cases i) (simp_all add: algebra_simps)
  have q: "head_at i + 36 = head_at (Suc i)" by (simp add: algebra_simps)
  show ?thesis using f p q unfolding e fresh_head_def x_def by (cases "i = 0"; cases "Suc i = n") simp_all
qed

text \<open>\<open>buffer_init\<close> ends and sets up a consistent empty cache for every buffer memory between a few
  kilobytes and 15 megabytes: as many buffers as heads and blocks fit, all on the free list in the
  order of their addresses, none hashed, each unused, with blocks that
  neither overlap each other nor the heads.\<close>

lemma buffer_init_rep:
  fixes s :: "'a bio_scheme"
  assumes "0x100000 + 2120 \<le> unat buffer_end" and "unat buffer_end \<le> 0x1000000" and "\<forall>i \<ge> NR_HASH. hash_table s i = 0"
  shows "\<exists>s' n. buffer_init buffer_end s = Some s' \<and> n = (unat buffer_end - 0x100000) div 1060
    \<and> cache_rep (map (\<lambda>i. 0x100000 + 36 * of_nat i) [0..<n]) (\<lambda>_. []) s'
    \<and> (\<forall>i < n. b_count (heads s' (0x100000 + 36 * of_nat i)) = 0 \<and> b_lock (heads s' (0x100000 + 36 * of_nat i)) = 0
        \<and> unat (b_data (heads s' (0x100000 + 36 * of_nat i))) = unat buffer_end - 1024 * Suc i)
    \<and> 0x100000 + 36 * n \<le> unat buffer_end - 1024 * n"
proof -
  let ?h = "\<lambda>i. (0x100000 :: u32) + 36 * of_nat i"
  obtain n s1 where n: "init_loop 0x100000 buffer_end s = Some (?h n, s1)" "\<forall>i < n. fresh_head 0x100000 buffer_end i (heads s1 (?h i))"
    "hash_table s1 = hash_table s" "0x100000 + 1060 * n \<le> unat buffer_end" "unat buffer_end < 0x100000 + 1060 * Suc n"
    using init_loop_heads[of "0x100000" buffer_end s] assms(1,2) by auto
  have n_eq: "n = (unat buffer_end - 0x100000) div 1060"
  proof -
    have "unat buffer_end - 0x100000 < 1060 * Suc n" "1060 * n \<le> unat buffer_end - 0x100000" using n(4,5) by linarith+
    then show ?thesis by (simp add: div_nat_eqI)
  qed
  have n2: "2 \<le> n" using n(5) assms(1) by simp
  have nb: "n < 16000" using n(4) assms(2) by simp
  let ?l = "?h (n - 1)"
  have l: "?h n - 36 = ?l" using n2 by (cases n) (simp_all add: algebra_simps)
  let ?s2 = "s1\<lparr>free_list := 0x100000\<rparr>"
  let ?s3 = "upd_bh 0x100000 (\<lambda>x. x\<lparr>b_prev_free := ?l\<rparr>) ?s2"
  let ?s4 = "upd_bh ?l (\<lambda>x. x\<lparr>b_next_free := 0x100000\<rparr>) ?s3"
  define s5 where "s5 = ?s4\<lparr>hash_table := (\<lambda>i. if i < NR_HASH then 0 else hash_table ?s4 i)\<rparr>"
  have "buffer_init buffer_end s = Some s5"
  proof -
    have fl: "free_list (upd_bh p f t) = free_list t" "free_list (s1\<lparr>free_list := v\<rparr>) = v" for p f v and t :: "'a bio_scheme"
      by (simp_all add: upd_bh_def)
    show ?thesis unfolding s5_def buffer_init_def n(1) option.case prod.case Let_def l fl by (rule refl)
  qed
  moreover have hd5: "heads s5 = (heads s1)(0x100000 := (heads s1 0x100000)\<lparr>b_prev_free := ?l\<rparr>,
      ?l := ((heads s1)(0x100000 := (heads s1 0x100000)\<lparr>b_prev_free := ?l\<rparr>)) ?l\<lparr>b_next_free := 0x100000\<rparr>)"
    by (simp add: s5_def)
  have h5: "b_dev (heads s5 (?h i)) = 0 \<and> b_next (heads s5 (?h i)) = 0 \<and> b_prev (heads s5 (?h i)) = 0 \<and> b_count (heads s5 (?h i)) = 0
      \<and> b_lock (heads s5 (?h i)) = 0 \<and> unat (b_data (heads s5 (?h i))) = unat buffer_end - 1024 * Suc i
      \<and> b_prev_free (heads s5 (?h i)) = (if i = 0 then ?l else ?h (i - 1)) \<and> b_next_free (heads s5 (?h i)) = (if Suc i = n then 0x100000 else ?h (Suc i))"
    if i: "i < n" for i
    unfolding hd5 by (rule closed_heads[where H = "heads s1", OF n(2)[rule_format, OF i] i n2 nb])
  have ne: "map ?h [0..<n] \<noteq> []" "hd (map ?h [0..<n]) = 0x100000" "last (map ?h [0..<n]) = ?l"
    using n2 by (simp_all add: hd_map last_map)
  have "ring (NXF s5) (PVF s5) (map ?h [0..<n])"
    unfolding ring_def ne(2,3) using ne(1) dl_map[of n "PVF s5" ?h ?l "NXF s5" "0x100000"] h5 by blast
  moreover have "hash_table s5 i = 0" for i using assms(3) n(3) by (simp add: s5_def upd_bh_def)
  moreover have "0 \<notin> set (map ?h [0..<n])" using unat_head_at nb by (auto simp: word_unat_eq_iff)
  moreover have "distinct (map ?h [0..<n])" using head_at_eq nb by (auto simp: distinct_map inj_on_def)
  moreover have "free_list s5 = hd (map ?h [0..<n])" unfolding ne(2) by (simp add: s5_def upd_bh_def)
  moreover have "b_dev (heads s5 p) = 0 \<and> b_next (heads s5 p) = 0 \<and> b_prev (heads s5 p) = 0" if "p \<in> set (map ?h [0..<n])" for p
  proof -
    from that obtain i where "i < n" "p = ?h i" by auto
    with h5[of i] show ?thesis by simp
  qed
  ultimately have "cache_rep (map ?h [0..<n]) (\<lambda>_. []) s5"
    unfolding cache_rep_def by simp
  then show ?thesis using \<open>buffer_init buffer_end s = Some s5\<close> n_eq h5 n(4) by (intro exI[of _ s5] exI[of _ n]) simp
qed

end
