(* ===== verification/Hd.thy ===== *)
theory Hd
  imports Buffer
begin

text \<open>
  The hard disk driver, drivers/block/hardisk/hd.c, on top of the request queue. The controller is seen
  through its ports: the bytes that \<open>inb\<close> will deliver and the words that \<open>rep insw\<close> will deliver are
  streams of the state, what is written to ports is logged. Messages are left out; \<open>panic\<close> stops.
  The function pointer \<open>do_hd\<close> is a value of a datatype. \<open>goto repeat\<close> in \<open>do_hd_request\<close> has fuel.
\<close>

section \<open>State and ports\<close>

record hd_i_struct =
  hdi_head :: u32
  hdi_sect :: u32
  hdi_cyl :: u32
  hdi_wpcom :: u32
  hdi_lzone :: u32
  hdi_ctl :: u32

record hd_struct =
  start_sect :: u32
  nr_sects :: u32

datatype hd_handler = No_intr | Recal_intr | Write_intr | Read_intr

record hdst = bio +
  hd_part :: "nat \<Rightarrow> hd_struct"
  hd_info :: "nat \<Rightarrow> hd_i_struct"
  NR_HD :: u32
  recalibrate :: bool
  hd_reset :: bool
  do_hd :: hd_handler
  callable :: bool
  port_in :: "nat \<Rightarrow> u8"
  ports_read :: nat
  data_in :: "nat \<Rightarrow> u8"
  data_read :: nat
  port_out :: "(u16 \<times> u8) list"
  data_out :: "u8 list"

abbreviation (input) HD_MAJOR :: nat where "HD_MAJOR \<equiv> 3"
abbreviation (input) HD_DATA :: u16 where "HD_DATA \<equiv> 0x1f0"
abbreviation (input) HD_CMD :: u16 where "HD_CMD \<equiv> 0x3f6"
abbreviation (input) MAX_ERRORS :: u32 where "MAX_ERRORS \<equiv> 7"
abbreviation (input) WIN_RESTORE :: u32 where "WIN_RESTORE \<equiv> 0x10"
abbreviation (input) WIN_READ :: u32 where "WIN_READ \<equiv> 0x20"
abbreviation (input) WIN_WRITE :: u32 where "WIN_WRITE \<equiv> 0x30"
abbreviation (input) WIN_SPECIFY :: u32 where "WIN_SPECIFY \<equiv> 0x91"

definition inb :: "'a hdst_scheme \<Rightarrow> u8 \<times> 'a hdst_scheme" where
  "inb s = (port_in s (ports_read s), s\<lparr>ports_read := Suc (ports_read s)\<rparr>)"

definition outb :: "u32 \<Rightarrow> u16 \<Rightarrow> 'a hdst_scheme \<Rightarrow> 'a hdst_scheme" where
  "outb v p s = s\<lparr>port_out := port_out s @ [(p, ucast v)]\<rparr>"

primrec insb_loop :: "nat \<Rightarrow> u32 \<Rightarrow> 'a hdst_scheme \<Rightarrow> 'a hdst_scheme" where
  "insb_loop 0 a s = s"
| "insb_loop (Suc n) a s =
     insb_loop n (a + 1) (s\<lparr>bdata := (bdata s)(a := data_in s (data_read s)), data_read := Suc (data_read s)\<rparr>)"

text \<open>\<open>port_read\<close> and \<open>port_write\<close> of \<open>nr\<close> words, low byte first.\<close>

definition port_read :: "u32 \<Rightarrow> nat \<Rightarrow> 'a hdst_scheme \<Rightarrow> 'a hdst_scheme" where
  "port_read buf nr s = insb_loop (2 * nr) buf s"

definition port_write :: "u32 \<Rightarrow> nat \<Rightarrow> 'a hdst_scheme \<Rightarrow> 'a hdst_scheme" where
  "port_write buf nr s = s\<lparr>data_out := data_out s @ map (\<lambda>i. bdata s (buf + of_nat i)) [0..<2 * nr]\<rparr>"

section \<open>The controller\<close>

primrec busy_loop :: "nat \<Rightarrow> 'a hdst_scheme \<Rightarrow> 'a hdst_scheme" where
  "busy_loop 0 s = s"
| "busy_loop (Suc n) s = (case inb s of (v, s) \<Rightarrow> if v AND 0xc0 = 0x40 then s else busy_loop n s)"

definition drive_busy :: "'a hdst_scheme \<Rightarrow> bool \<times> 'a hdst_scheme" where
  "drive_busy s = (case inb (busy_loop 10000 s) of (v, s) \<Rightarrow> (v AND 0xd0 \<noteq> 0x50, s))"

definition reset_controller :: "'a hdst_scheme \<Rightarrow> 'a hdst_scheme" where
  "reset_controller s =
     (case drive_busy (outb (hdi_ctl (hd_info s 0) AND 0x0f) HD_CMD (outb 4 HD_CMD s)) of
        (b, s) \<Rightarrow> snd (inb s))"

definition win_result :: "'a hdst_scheme \<Rightarrow> bool \<times> 'a hdst_scheme" where
  "win_result s =
     (case inb s of (v, s) \<Rightarrow>
        if v AND 0xf1 = 0x50 then (False, s) else (True, if v AND 1 \<noteq> 0 then snd (inb s) else s))"

text \<open>\<open>CURRENT\<close> is evaluated again for each access; after \<open>end_request\<close> it is the next request or null.\<close>

definition bad_rw_intr :: "'a hdst_scheme \<Rightarrow> 'a hdst_scheme kres" where
  "bad_rw_intr s =
     (case current_request s HD_MAJOR of
        None \<Rightarrow> Inl Fault
      | Some cur \<Rightarrow>
          (let s1 = upd_req cur (\<lambda>r. r\<lparr>r_errors := r_errors r + 1\<rparr>) s
           in kbind (if MAX_ERRORS <=s r_errors (request s1 cur) then end_request HD_MAJOR 0 s1 else Inr s1) (\<lambda>s.
                case current_request s HD_MAJOR of
                  None \<Rightarrow> Inl Fault
                | Some c \<Rightarrow> Inr (if 3 <s r_errors (request s c) then s\<lparr>hd_reset := True\<rparr> else s))))"

text \<open>\<open>while (--retries && (inb_p(HD_STATUS)&0x80));\<close>\<close>

primrec ready_loop :: "nat \<Rightarrow> 'a hdst_scheme \<Rightarrow> nat \<times> 'a hdst_scheme" where
  "ready_loop 0 s = (0, s)"
| "ready_loop (Suc retries) s =
     (if retries = 0 then (0, s)
      else case inb s of (v, s) \<Rightarrow> if v AND 0x80 \<noteq> 0 then ready_loop retries s else (retries, s))"

definition controller_ready :: "'a hdst_scheme \<Rightarrow> nat \<times> 'a hdst_scheme" where
  "controller_ready s = ready_loop 100000 s"

definition hd_out :: "u32 \<Rightarrow> u32 \<Rightarrow> u32 \<Rightarrow> u32 \<Rightarrow> u32 \<Rightarrow> u32 \<Rightarrow> hd_handler \<Rightarrow> 'a hdst_scheme \<Rightarrow> 'a hdst_scheme kres" where
  "hd_out drive nsect sect head cyl cmd intr_addr s =
     (if 1 < drive \<or> 15 < head then Inl (Panic ''Trying to write bad sector'')
      else case controller_ready s of (r, s) \<Rightarrow>
        if r = 0 then Inl (Panic ''HD controller not ready'')
        else
         (let s = s\<lparr>do_hd := intr_addr\<rparr>;
              s = outb (hdi_ctl (hd_info s (unat drive))) HD_CMD s;
              s = outb (drop_bit 2 (hdi_wpcom (hd_info s (unat drive)))) (HD_DATA + 1) s;
              s = outb nsect (HD_DATA + 2) s;
              s = outb sect (HD_DATA + 3) s;
              s = outb cyl (HD_DATA + 4) s;
              s = outb (drop_bit 8 cyl) (HD_DATA + 5) s;
              s = outb (0xa0 OR push_bit 4 drive OR head) (HD_DATA + 6) s
          in Inr (outb cmd (HD_DATA + 7) s)))"

definition reset_hd :: "u32 \<Rightarrow> 'a hdst_scheme \<Rightarrow> 'a hdst_scheme kres" where
  "reset_hd nr s0 =
     (let s = reset_controller s0; i = hd_info s (unat nr)
      in hd_out nr (hdi_sect i) (hdi_sect i) (hdi_head i - 1) (hdi_cyl i) WIN_SPECIFY Recal_intr s)"

section \<open>Requests\<close>

text \<open>\<open>divl\<close> of a 32 bit number, which faults on a zero divisor.\<close>

definition divl :: "u32 \<Rightarrow> u32 \<Rightarrow> (u32 \<times> u32) kres" where
  "divl n d = (if d = 0 then Inl Fault else Inr (n div d, n mod d))"

text \<open>\<open>for (i=0; i<3000 && !(r=inb_p(HD_STATUS)&DRQ_STAT); i++);\<close>\<close>

primrec drq_loop :: "nat \<Rightarrow> 'a hdst_scheme \<Rightarrow> bool \<times> 'a hdst_scheme" where
  "drq_loop 0 s = (False, s)"
| "drq_loop (Suc n) s = (case inb s of (v, s) \<Rightarrow> if v AND 8 \<noteq> 0 then (True, s) else drq_loop n s)"

primrec do_hd_request :: "nat \<Rightarrow> 'a hdst_scheme \<Rightarrow> 'a hdst_scheme kres" where
  "do_hd_request 0 s = Inl Hang"
| "do_hd_request (Suc fuel) s =
     (case current_request s HD_MAJOR of
        None \<Rightarrow> Inr s
      | Some cur \<Rightarrow>
          (let r = request s cur;
               minor = MINOR (r_dev r);
               block = r_sector r
           in if 5 * NR_HD s \<le> minor \<or> nr_sects (hd_part s (unat minor)) < block + 2
              then kbind (end_request HD_MAJOR 0 s) (do_hd_request fuel)
              else
               (let dev = minor div 5; info = hd_info s (unat dev)
                in kbind (divl (block + start_sect (hd_part s (unat minor))) (hdi_sect info)) (\<lambda>(track, sec0).
                   kbind (divl track (hdi_head info)) (\<lambda>(cyl, head).
                     if hd_reset s then reset_hd (MINOR (r_dev r) div 5) (s\<lparr>hd_reset := False, recalibrate := True\<rparr>)
                     else if recalibrate s then
                       hd_out dev (hdi_sect (hd_info s (unat (MINOR (r_dev r) div 5)))) 0 0 0 WIN_RESTORE Recal_intr
                         (s\<lparr>recalibrate := False\<rparr>)
                     else if r_cmd r = WRITE then
                       kbind (hd_out dev (r_nr_sectors r) (sec0 + 1) head cyl WIN_WRITE Write_intr s) (\<lambda>s.
                         case drq_loop 3000 s of (ok, s) \<Rightarrow>
                           if \<not> ok then kbind (bad_rw_intr s) (do_hd_request fuel)
                           else Inr (port_write (r_buffer r) 256 s))
                     else if r_cmd r = READ then hd_out dev (r_nr_sectors r) (sec0 + 1) head cyl WIN_READ Read_intr s
                     else Inl (Panic ''unknown hd-command''))))))"

section \<open>Interrupts\<close>

definition recal_intr :: "nat \<Rightarrow> 'a hdst_scheme \<Rightarrow> 'a hdst_scheme kres" where
  "recal_intr fuel s =
     (case win_result s of (bad, s) \<Rightarrow> kbind (if bad then bad_rw_intr s else Inr s) (do_hd_request fuel))"

definition write_intr :: "nat \<Rightarrow> 'a hdst_scheme \<Rightarrow> 'a hdst_scheme kres" where
  "write_intr fuel s =
     (case win_result s of (bad, s) \<Rightarrow>
        if bad then kbind (bad_rw_intr s) (do_hd_request fuel)
        else case current_request s HD_MAJOR of
          None \<Rightarrow> Inl Fault
        | Some cur \<Rightarrow>
            (let s = upd_req cur (\<lambda>r. r\<lparr>r_nr_sectors := r_nr_sectors r - 1\<rparr>) s
             in if r_nr_sectors (request s cur) \<noteq> 0 then
                  (let s = upd_req cur (\<lambda>r. r\<lparr>r_sector := r_sector r + 1, r_buffer := r_buffer r + 512\<rparr>) s;
                       s = s\<lparr>do_hd := Write_intr\<rparr>
                   in Inr (port_write (r_buffer (request s cur)) 256 s))
                else kbind (end_request HD_MAJOR 1 s) (do_hd_request fuel)))"

definition read_intr :: "nat \<Rightarrow> 'a hdst_scheme \<Rightarrow> 'a hdst_scheme kres" where
  "read_intr fuel s =
     (case win_result s of (bad, s) \<Rightarrow>
        if bad then kbind (bad_rw_intr s) (do_hd_request fuel)
        else case current_request s HD_MAJOR of
          None \<Rightarrow> Inl Fault
        | Some cur \<Rightarrow>
            (let s = port_read (r_buffer (request s cur)) 256 s;
                 s = upd_req cur (\<lambda>r. r\<lparr>r_errors := 0, r_buffer := r_buffer r + 512, r_sector := r_sector r + 1,
                                       r_nr_sectors := r_nr_sectors r - 1\<rparr>) s
             in if r_nr_sectors (request s cur) \<noteq> 0 then Inr (s\<lparr>do_hd := Read_intr\<rparr>)
                else kbind (end_request HD_MAJOR 1 s) (do_hd_request fuel)))"

text \<open>The interrupt entry of system_call.S takes the handler out of \<open>do_hd\<close> and calls it; without a handler
  \<open>unexpected_hd_interrupt\<close> prints a message.\<close>

definition hd_interrupt :: "nat \<Rightarrow> 'a hdst_scheme \<Rightarrow> 'a hdst_scheme kres" where
  "hd_interrupt fuel s =
     (let s1 = s\<lparr>do_hd := No_intr\<rparr>
      in case do_hd s of
           No_intr \<Rightarrow> Inr s1
         | Recal_intr \<Rightarrow> recal_intr fuel s1
         | Write_intr \<Rightarrow> write_intr fuel s1
         | Read_intr \<Rightarrow> read_intr fuel s1)"

section \<open>Set-up\<close>

text \<open>\<open>hd_init\<close>; the argument is the address of \<open>hd_interrupt\<close>. The mask registers of the interrupt controllers are read twice.\<close>

definition hd_init :: "u32 \<Rightarrow> 'a hdst_scheme \<Rightarrow> 'a hdst_scheme" where
  "hd_init hd_interrupt_addr s =
     (let s = s\<lparr>has_request_fn := (has_request_fn s)(HD_MAJOR := True)\<rparr>;
          s = reset_controller s;
          s = s\<lparr>bio_sched := (bio_sched s)\<lparr>idt := (idt (bio_sched s))(0x2e := set_intr_gate hd_interrupt_addr)\<rparr>\<rparr>;
          (m1, s) = inb s;
          s = outb (ucast (m1 AND 0xfb)) 0x21 s;
          (m2, s) = inb s
      in outb (ucast (m2 AND 0xbf)) 0xa1 s)"

text \<open>The pieces of \<open>sys_setup\<close>: the parameters the BIOS left, the partition table of one drive.\<close>

definition bios_drive :: "mem \<Rightarrow> u32 \<Rightarrow> hd_i_struct" where
  "bios_drive m p = \<lparr>hdi_head = ucast (m (p + 2)), hdi_sect = ucast (m (p + 14)), hdi_cyl = ucast (ld16 m p),
     hdi_wpcom = ucast (ld16 m (p + 5)), hdi_lzone = ucast (ld16 m (p + 12)), hdi_ctl = ucast (m (p + 8))\<rparr>"

definition partition_at :: "mem \<Rightarrow> u32 \<Rightarrow> hd_struct" where
  "partition_at m p = \<lparr>start_sect = ld32 m (p + 8), nr_sects = ld32 m (p + 12)\<rparr>"

definition read_partitions :: "u32 \<Rightarrow> nat \<Rightarrow> 'a hdst_scheme \<Rightarrow> 'a hdst_scheme" where
  "read_partitions b drive s =
     s\<lparr>hd_part := (\<lambda>k. if 5 * drive < k \<and> k < 5 * drive + 5
                       then partition_at (bdata s) (b + 0x1be + 16 * of_nat (k - 5 * drive - 1)) else hd_part s k)\<rparr>"

primrec setup_drives :: "nat \<Rightarrow> (chan \<Rightarrow> 'a hdst_scheme \<Rightarrow> 'a hdst_scheme kres) \<Rightarrow> nat \<Rightarrow> nat \<Rightarrow> 'a hdst_scheme \<Rightarrow> 'a hdst_scheme kres" where
  "setup_drives fuel zz 0 drive s = Inr s"
| "setup_drives fuel zz (Suc n) drive s =
     kbind (bread fuel zz (\<lambda>_. do_hd_request fuel) (0x300 + of_nat drive * 5) 0 s) (\<lambda>(bh, s).
       if bh = 0 then Inl (Panic ''Unable to read partition table'')
       else let b = b_data (heads s bh) in
         if bdata s (b + 510) \<noteq> 0x55 \<or> bdata s (b + 511) \<noteq> 0xaa then Inl (Panic ''Bad partition table'')
         else kbind (brelse fuel zz bh (read_partitions b drive s)) (setup_drives fuel zz n (Suc drive)))"

text \<open>\<open>CMOS_READ(0x12)\<close> selects the register and reads it. \<open>mount_root\<close> (fs/super.c) is a parameter.\<close>

definition sys_setup :: "nat \<Rightarrow> (chan \<Rightarrow> 'a hdst_scheme \<Rightarrow> 'a hdst_scheme kres) \<Rightarrow> ('a hdst_scheme \<Rightarrow> 'a hdst_scheme kres)
    \<Rightarrow> u32 \<Rightarrow> 'a hdst_scheme \<Rightarrow> (int \<times> 'a hdst_scheme) kres" where
  "sys_setup fuel zz mount_root BIOS s0 =
     (if \<not> callable s0 then Inr (-1, s0)
      else
       (let s1 = s0\<lparr>callable := False,
                    hd_info := (hd_info s0)(0 := bios_drive (bdata s0) BIOS, 1 := bios_drive (bdata s0) (BIOS + 16))\<rparr>;
            n1 = (if hdi_cyl (hd_info s1 1) \<noteq> 0 then 2 else 1) :: nat;
            whole = (\<lambda>i. \<lparr>start_sect = 0, nr_sects = hdi_head (hd_info s1 i) * hdi_cyl (hd_info s1 i) * hdi_sect (hd_info s1 i)\<rparr>);
            s2 = s1\<lparr>hd_part := (\<lambda>k. if k = 0 \<or> k = 5 \<and> n1 = 2 then whole (k div 5) else hd_part s1 k)\<rparr>;
            (cmos, s3) = inb (outb 0x92 0x70 s2);
            n = (if cmos AND 0xf0 \<noteq> 0 then (if cmos AND 0x0f \<noteq> 0 then 2 else 1) else 0) :: nat;
            s4 = s3\<lparr>NR_HD := of_nat n,
                    hd_part := (\<lambda>k. if (k = 0 \<and> n = 0) \<or> (k = 5 \<and> n < 2) then \<lparr>start_sect = 0, nr_sects = 0\<rparr> else hd_part s3 k)\<rparr>
        in kbind (setup_drives fuel zz n 0 s4) (\<lambda>s.
             kbind (mount_root s) (\<lambda>s. Inr (0, s)))))"

section \<open>The driver leaves the cache's lists alone\<close>

lemma same_links_more:
  fixes s :: "'a hdst_scheme"
  shows "same_links s (s\<lparr>ports_read := a\<rparr>)" "same_links s (s\<lparr>port_out := po\<rparr>)" "same_links s (s\<lparr>do_hd := h\<rparr>)"
    "same_links s (s\<lparr>data_out := d\<rparr>)" "same_links s (s\<lparr>hd_reset := r\<rparr>)" "same_links s (s\<lparr>recalibrate := c\<rparr>)"
    "same_links s (s\<lparr>bdata := m\<rparr>)" "same_links s (s\<lparr>data_read := n\<rparr>)"
  by (simp_all add: same_links_def)

lemma inb_links: "same_links s (snd (inb s))"
  by (simp add: inb_def same_links_more)

lemma outb_links: "same_links s (outb v p s)"
  by (simp add: outb_def same_links_more)

lemma inb_step: "(case inb s of (v, t) \<Rightarrow> f v t) = f (fst (inb s)) (snd (inb s))"
  by (simp add: case_prod_beta)

lemma loops_links:
  "same_links s (busy_loop n s)" "same_links s (snd (ready_loop n s))" "same_links s (snd (drq_loop n s))"
proof -
  show "same_links s (busy_loop n s)"
    by (induction n arbitrary: s) (auto simp: inb_step intro: inb_links same_links_trans)
  show "same_links s (snd (ready_loop n s))"
    by (induction n arbitrary: s) (auto simp: inb_step intro: inb_links same_links_trans)
  show "same_links s (snd (drq_loop n s))"
    by (induction n arbitrary: s) (auto simp: inb_step intro: inb_links same_links_trans)
qed

lemma reset_controller_links: "same_links s (reset_controller s)"
  unfolding reset_controller_def drive_busy_def case_prod_beta snd_conv
  by (rule same_links_trans[OF same_links_trans[OF outb_links outb_links]])
    (rule same_links_trans[OF same_links_trans[OF loops_links(1) inb_links] inb_links])

lemma hd_out_links:
  assumes "hd_out drive nsect sect head cyl cmd h s = Inr s'"
  shows "same_links s s'"
proof -
  define s1 where "s1 = (snd (controller_ready s))\<lparr>do_hd := h\<rparr>"
  have "same_links s (snd (controller_ready s))" unfolding controller_ready_def by (rule loops_links(2))
  then have "same_links s s1" using same_links_trans[OF _ same_links_more(3)] unfolding s1_def by blast
  moreover have "same_links s1 s'"
    using assms by (auto simp: hd_out_def Let_def case_prod_beta s1_def[symmetric] intro!: same_links_trans[OF _ outb_links] outb_links split: if_splits)
  ultimately show ?thesis by (rule same_links_trans)
qed

lemma bad_rw_intr_links:
  assumes "bad_rw_intr s = Inr s'"
  shows "same_links s s'"
proof -
  obtain cur where c: "current_request s HD_MAJOR = Some cur" using assms by (cases "current_request s HD_MAJOR") (auto simp: bad_rw_intr_def)
  let ?s1 = "upd_req cur (\<lambda>r. r\<lparr>r_errors := r_errors r + 1\<rparr>) s"
  have 1: "same_links s ?s1" by (simp add: same_links_def upd_req_def)
  obtain s2 where s2: "(if MAX_ERRORS <=s r_errors (request ?s1 cur) then end_request HD_MAJOR 0 ?s1 else Inr ?s1) = Inr s2"
    and e: "s' = s2 \<or> s' = s2\<lparr>hd_reset := True\<rparr>"
    using assms by (auto simp: bad_rw_intr_def c Let_def kres_simps split: option.splits if_splits)
  have "same_links ?s1 s2" using s2 end_request_links by (auto split: if_splits)
  then show ?thesis using same_links_trans[OF 1] same_links_trans[OF _ same_links_more(5)] e by blast
qed

lemma do_hd_request_links: "do_hd_request fuel s = Inr s' \<Longrightarrow> same_links s s'"
proof (induction fuel arbitrary: s)
  case (Suc fuel)
  show ?case
  proof (cases "current_request s HD_MAJOR")
    case None
    then show ?thesis using Suc.prems by simp
  next
    case (Some cur)
    have rec: "same_links t s'" if "kbind m (do_hd_request fuel) = Inr s'" "\<And>t'. m = Inr t' \<Longrightarrow> same_links t t'" for m t
      using that Suc.IH same_links_trans by (auto simp: kres_simps) blast
    have er: "same_links s s'" if "kbind (end_request HD_MAJOR 0 s) (do_hd_request fuel) = Inr s'"
      by (rule rec[OF that end_request_links])
    have rs: "same_links s s'" if "reset_hd d (s\<lparr>hd_reset := False, recalibrate := True\<rparr>) = Inr s'" for d
    proof -
      have "same_links s (s\<lparr>hd_reset := False, recalibrate := True\<rparr>)" by (simp add: same_links_def)
      moreover have "same_links (reset_controller (s\<lparr>hd_reset := False, recalibrate := True\<rparr>)) s'"
        using that unfolding reset_hd_def Let_def by (rule hd_out_links)
      ultimately show ?thesis using same_links_trans reset_controller_links by blast
    qed
    have rc: "same_links s s'" if "hd_out a b c d e f g (s\<lparr>recalibrate := False\<rparr>) = Inr s'" for a b c d e f g
      using same_links_trans[OF same_links_more(6)] hd_out_links[OF that] by blast
    have wr: "same_links s s'"
      if w: "kbind (hd_out a b c d e f g s) (\<lambda>s. case drq_loop 3000 s of (ok, s) \<Rightarrow>
          if \<not> ok then kbind (bad_rw_intr s) (do_hd_request fuel) else Inr (port_write u 256 s)) = Inr s'" for a b c d e f g u
    proof -
      obtain s1 where s1: "hd_out a b c d e f g s = Inr s1" using w by (rule kbind_eq_InrE)
      define s2 where "s2 = snd (drq_loop 3000 s1)"
      have l2: "same_links s s2" unfolding s2_def using same_links_trans[OF hd_out_links[OF s1] loops_links(3)] .
      have "same_links s2 s'"
      proof (cases "fst (drq_loop 3000 s1)")
        case True
        then have "s' = port_write u 256 s2" using w s1 by (simp add: case_prod_beta s2_def del: drq_loop.simps)
        then show ?thesis by (simp add: port_write_def same_links_more)
      next
        case False
        then have "kbind (bad_rw_intr s2) (do_hd_request fuel) = Inr s'" using w s1 by (simp add: case_prod_beta s2_def del: drq_loop.simps)
        then show ?thesis by (rule rec) (rule bad_rw_intr_links)
      qed
      with l2 show ?thesis by (rule same_links_trans)
    qed
    let ?r = "request s cur" and ?minor = "MINOR (r_dev (request s cur))"
    let ?info = "hd_info s (unat (?minor div 5))"
    show ?thesis
    proof (cases "5 * NR_HD s \<le> ?minor \<or> nr_sects (hd_part s (unat ?minor)) < r_sector ?r + 2")
      case True
      then show ?thesis using Suc.prems Some by (intro er) (simp add: Let_def)
    next
      case False
      then obtain track sec cyl head where
        "divl (r_sector ?r + start_sect (hd_part s (unat ?minor))) (hdi_sect ?info) = Inr (track, sec)"
        "divl track (hdi_head ?info) = Inr (cyl, head)"
        using Suc.prems Some by (auto simp: Let_def elim!: kbind_eq_InrE)
      note pr = Suc.prems[unfolded do_hd_request.simps Some option.case Let_def if_not_P[OF False] this kbind_Inr prod.case]
      show ?thesis
        by (insert pr, elim if_InrE; (erule rs rc wr hd_out_links | simp))
    qed
  qed
qed simp

lemma insb_loop_links: "same_links s (insb_loop n a s)"
  by (induction n arbitrary: a s) (auto simp: same_links_def)

lemma win_result_links: "same_links s (snd (win_result s))"
  by (auto simp: win_result_def case_prod_beta intro: inb_links same_links_trans)

lemma bad_then_request_links:
  assumes "kbind (bad_rw_intr s) (do_hd_request fuel) = Inr s'"
  shows "same_links s s'"
  using assms bad_rw_intr_links do_hd_request_links same_links_trans by (elim kbind_eq_InrE) blast

lemma done_then_request_links:
  assumes "kbind (end_request HD_MAJOR u s) (do_hd_request fuel) = Inr s'"
  shows "same_links s s'"
  using assms end_request_links do_hd_request_links same_links_trans by (elim kbind_eq_InrE) blast

lemma recal_intr_links:
  assumes "recal_intr fuel s = Inr s'"
  shows "same_links s s'"
proof -
  have "same_links (snd (win_result s)) s'"
    using assms bad_then_request_links do_hd_request_links by (auto simp: recal_intr_def case_prod_beta split: if_splits)
  with win_result_links show ?thesis by (rule same_links_trans)
qed

lemma write_intr_links:
  assumes "write_intr fuel s = Inr s'"
  shows "same_links s s'"
proof -
  define s1 where "s1 = snd (win_result s)"
  have "same_links s1 s'"
  proof (cases "fst (win_result s)")
    case True
    then show ?thesis using assms bad_then_request_links by (auto simp: write_intr_def case_prod_beta s1_def)
  next
    case False
    then obtain cur where c: "current_request s1 HD_MAJOR = Some cur"
      using assms by (auto simp: write_intr_def case_prod_beta s1_def split: option.splits)
    define s2 where "s2 = upd_req cur (\<lambda>r. r\<lparr>r_nr_sectors := r_nr_sectors r - 1\<rparr>) s1"
    have l: "same_links s1 s2" by (simp add: s2_def same_links_def upd_req_def)
    show ?thesis
    proof (cases "r_nr_sectors (request s2 cur) \<noteq> 0")
      case True
      then show ?thesis using assms False c
        by (auto simp: write_intr_def case_prod_beta s1_def[symmetric] s2_def[symmetric] Let_def port_write_def)
          (simp add: same_links_def upd_req_def s2_def)
    next
      case no: False
      then have "kbind (end_request HD_MAJOR 1 s2) (do_hd_request fuel) = Inr s'"
        using assms False c by (simp add: write_intr_def case_prod_beta s1_def[symmetric] s2_def[symmetric] Let_def)
      with l show ?thesis using done_then_request_links same_links_trans by blast
    qed
  qed
  then show ?thesis using win_result_links same_links_trans unfolding s1_def by blast
qed

lemma read_intr_links:
  assumes "read_intr fuel s = Inr s'"
  shows "same_links s s'"
proof -
  define s1 where "s1 = snd (win_result s)"
  have "same_links s1 s'"
  proof (cases "fst (win_result s)")
    case True
    then show ?thesis using assms bad_then_request_links by (auto simp: read_intr_def case_prod_beta s1_def)
  next
    case False
    then obtain cur where c: "current_request s1 HD_MAJOR = Some cur"
      using assms by (auto simp: read_intr_def case_prod_beta s1_def split: option.splits)
    define s2 where "s2 = upd_req cur (\<lambda>r. r\<lparr>r_errors := 0, r_buffer := r_buffer r + 512, r_sector := r_sector r + 1,
                                       r_nr_sectors := r_nr_sectors r - 1\<rparr>) (port_read (r_buffer (request s1 cur)) 256 s1)"
    have "same_links (port_read (r_buffer (request s1 cur)) 256 s1) s2" by (simp add: s2_def same_links_def upd_req_def)
    then have l: "same_links s1 s2" unfolding port_read_def using insb_loop_links same_links_trans by blast
    note e = assms[unfolded read_intr_def case_prod_beta s1_def[symmetric] if_not_P[OF False] c option.case Let_def s2_def[symmetric]]
    show ?thesis
    proof (cases "r_nr_sectors (request s2 cur) \<noteq> 0")
      case True
      then have "s' = s2\<lparr>do_hd := Read_intr\<rparr>" using e by simp
      then show ?thesis using same_links_trans[OF l same_links_more(3)] by simp
    next
      case no: False
      then have "kbind (end_request HD_MAJOR 1 s2) (do_hd_request fuel) = Inr s'"
        using e by simp
      with l show ?thesis using done_then_request_links same_links_trans by blast
    qed
  qed
  then show ?thesis using win_result_links same_links_trans unfolding s1_def by blast
qed

lemma hd_interrupt_links:
  assumes "hd_interrupt fuel s = Inr s'"
  shows "same_links s s'"
proof -
  have "same_links s (s\<lparr>do_hd := No_intr\<rparr>)" by (rule same_links_more)
  moreover have "same_links (s\<lparr>do_hd := No_intr\<rparr>) s'"
    using assms recal_intr_links write_intr_links read_intr_links
    by (auto simp: hd_interrupt_def Let_def split: hd_handler.splits)
  ultimately show ?thesis by (rule same_links_trans)
qed

section \<open>Sleeping while the disk works\<close>

text \<open>The environment of a sleeping task, which is no code of the kernel's: while it sleeps on a wait channel, a list of events given for that channel
  happens, each a cache operation of another task or an interrupt of the disk, and in each of them tasks may sleep in turn. Interrupts that arrive
  while the task itself runs are not part of it.\<close>

datatype hd_event = Task bop | Disk_irq

primrec run_event :: "nat \<Rightarrow> (chan \<Rightarrow> 'a hdst_scheme \<Rightarrow> 'a hdst_scheme kres) \<Rightarrow> hd_event \<Rightarrow> 'a hdst_scheme \<Rightarrow> 'a hdst_scheme kres" where
  "run_event n zz (Task p) s = run_bop n zz p s"
| "run_event n zz Disk_irq s = hd_interrupt n s"

primrec run_events :: "nat \<Rightarrow> (chan \<Rightarrow> 'a hdst_scheme \<Rightarrow> 'a hdst_scheme kres) \<Rightarrow> hd_event list \<Rightarrow> 'a hdst_scheme \<Rightarrow> 'a hdst_scheme kres" where
  "run_events n zz [] s = Inr s"
| "run_events n zz (e # evl) s = kbind (run_event n zz e s) (run_events n zz evl)"

primrec hd_sleep :: "nat \<Rightarrow> (chan \<Rightarrow> hd_event list) \<Rightarrow> chan \<Rightarrow> 'a hdst_scheme \<Rightarrow> 'a hdst_scheme kres" where
  "hd_sleep 0 evs c s = Inr s"
| "hd_sleep (Suc n) evs c s = run_events n (hd_sleep n evs) (evs c) s"

lemma run_events_inv:
  fixes s s' :: "'a hdst_scheme"
  assumes "sleeper zz B"
  shows "cache_inv B s \<Longrightarrow> run_events n zz evl s = Inr s' \<Longrightarrow> cache_inv B s'"
proof (induction evl arbitrary: s)
  case (Cons e evl)
  then obtain s1 where s1: "run_event n zz e s = Inr s1" "run_events n zz evl s1 = Inr s'" by (auto simp: kres_simps)
  have "cache_inv B s1"
    using s1(1) sleeper.run_bop_inv[OF assms Cons.prems(1)] same_links_inv[OF hd_interrupt_links Cons.prems(1)]
    by (cases e) auto
  from Cons.IH[OF this s1(2)] show ?case .
qed simp

lemma hd_sleep_inv:
  fixes s s' :: "'a hdst_scheme"
  shows "cache_inv B s \<Longrightarrow> hd_sleep n evs c s = Inr s' \<Longrightarrow> cache_inv B s'"
proof (induction n arbitrary: c s s')
  case (Suc n)
  have "sleeper (hd_sleep n evs :: chan \<Rightarrow> 'a hdst_scheme \<Rightarrow> 'a hdst_scheme kres) B" by unfold_locales (rule Suc.IH)
  from run_events_inv[OF this Suc.prems(1)] Suc.prems(2) show ?case by simp
qed simp

interpretation hdc: bio_client "hd_sleep n evs" B "\<lambda>_. do_hd_request fuel" for n evs B fuel
proof unfold_locales
  fix s s' :: "'a hdst_scheme" and c
  assume "cache_inv B s" "hd_sleep n evs c s = Inr s'"
  then show "cache_inv B s'" by (rule hd_sleep_inv)
next
  fix s s' :: "'a hdst_scheme"
  assume "cache_inv B s" "do_hd_request fuel s = Inr s'"
  then show "cache_inv B s'" using same_links_inv do_hd_request_links by blast
qed

text \<open>\<open>bread\<close> on the hard disk keeps the lists of the buffer cache intact when, at each of its sleeps, other tasks run the given
  cache operations and the disk interrupts; a buffer it then returns is one of the cache, up to date and not locked.\<close>

lemma bread_coherent:
  fixes d :: u16
  assumes "cache_inv B s" and "bread n (hd_sleep k evs) (\<lambda>_. do_hd_request fuel) (ucast d) block s = Inr (bh, s')"
  shows "cache_inv B s' \<and> (bh \<noteq> 0 \<longrightarrow> bh \<in> B \<and> b_uptodate (heads s' bh) \<noteq> 0 \<and> b_lock (heads s' bh) = 0)"
  using assms by (rule hdc.bread_inv)

section \<open>Commands to the controller\<close>

text \<open>The eight register writes of a command, and the disk address, drive and command a controller with the
  given geometry reads off its registers.\<close>

definition taskfile :: "hd_i_struct \<Rightarrow> u32 \<Rightarrow> u32 \<Rightarrow> u32 \<Rightarrow> u32 \<Rightarrow> u32 \<Rightarrow> u32 \<Rightarrow> (u16 \<times> u8) list" where
  "taskfile info drive nsect sect head cyl cmd =
     [(HD_CMD, ucast (hdi_ctl info)), (HD_DATA + 1, ucast (drop_bit 2 (hdi_wpcom info))), (HD_DATA + 2, ucast nsect),
      (HD_DATA + 3, ucast sect), (HD_DATA + 4, ucast cyl), (HD_DATA + 5, ucast (drop_bit 8 cyl)),
      (HD_DATA + 6, ucast (0xa0 OR push_bit 4 drive OR head)), (HD_DATA + 7, ucast cmd)]"

definition reg :: "(u16 \<times> u8) list \<Rightarrow> u16 \<Rightarrow> nat" where
  "reg log p = (case map_of (rev log) p of None \<Rightarrow> 0 | Some v \<Rightarrow> unat v)"

definition reg_lba :: "hd_i_struct \<Rightarrow> (u16 \<times> u8) list \<Rightarrow> nat" where
  "reg_lba info log = ((reg log (HD_DATA + 5) * 256 + reg log (HD_DATA + 4)) * unat (hdi_head info) + reg log (HD_DATA + 6) mod 16)
     * unat (hdi_sect info) + (reg log (HD_DATA + 3) - 1)"

lemma ready_loop_ready:
  assumes "1 < n" and "port_in s (ports_read s) AND 0x80 = 0"
  shows "ready_loop n s = (n - 1, s\<lparr>ports_read := Suc (ports_read s)\<rparr>)"
  using assms by (cases n) (simp_all add: inb_def)

lemma hd_out_ready:
  assumes "drive \<le> 1" and "head \<le> 15" and "port_in s (ports_read s) AND 0x80 = 0"
  shows "hd_out drive nsect sect head cyl cmd h s =
    Inr (s\<lparr>ports_read := Suc (ports_read s), do_hd := h,
           port_out := port_out s @ taskfile (hd_info s (unat drive)) drive nsect sect head cyl cmd\<rparr>)"
  using assms ready_loop_ready[of 100000 s]
  by (simp add: hd_out_def controller_ready_def outb_def taskfile_def Let_def linorder_not_less del: ready_loop.simps)

lemma drive_head_bits:
  fixes head drive :: u32
  assumes "unat head < 16" and "drive = 0 \<or> drive = 1"
  shows "unat (ucast (0xa0 OR push_bit 4 drive OR head) :: u8) mod 16 = unat head"
    and "unat (ucast (0xa0 OR push_bit 4 drive OR head) :: u8) div 16 mod 2 = unat drive"
proof -
  have "head \<in> set (map of_nat [0..<16])" using assms(1) by (auto intro!: image_eqI[of _ _ "unat head"])
  then have h: "head \<in> {0,1,2,3,4,5,6,7,8,9,10,11,12,13,14,15}" by (simp add: upt_rec)
  show "unat (ucast (0xa0 OR push_bit 4 drive OR head) :: u8) mod 16 = unat head" using h assms(2) by auto
  show "unat (ucast (0xa0 OR push_bit 4 drive OR head) :: u8) div 16 mod 2 = unat drive" using h assms(2) by auto
qed

lemma reg_taskfile:
  "reg (log @ taskfile info drive nsect sect head cyl cmd) (HD_DATA + 3) = unat (ucast sect :: u8)"
  "reg (log @ taskfile info drive nsect sect head cyl cmd) (HD_DATA + 4) = unat (ucast cyl :: u8)"
  "reg (log @ taskfile info drive nsect sect head cyl cmd) (HD_DATA + 5) = unat (ucast (drop_bit 8 cyl) :: u8)"
  "reg (log @ taskfile info drive nsect sect head cyl cmd) (HD_DATA + 6) = unat (ucast (0xa0 OR push_bit 4 drive OR head) :: u8)"
  "reg (log @ taskfile info drive nsect sect head cyl cmd) (HD_DATA + 2) = unat (ucast nsect :: u8)"
  "reg (log @ taskfile info drive nsect sect head cyl cmd) (HD_DATA + 7) = unat (ucast cmd :: u8)"
  by (simp_all add: reg_def taskfile_def)

lemma unat_ucast8: "unat (ucast (w :: u32) :: u8) = unat w mod 256"
  by (simp add: unsigned_ucast_eq take_bit_eq_mod)

lemma reg_lba_taskfile:
  assumes "drive = 0 \<or> drive = 1" and "unat head < 16" and "unat cyl < 65536" and "1 \<le> unat sect" and "unat sect < 256"
  shows "reg_lba info (log @ taskfile info drive nsect sect head cyl cmd)
    = (unat cyl * unat (hdi_head info) + unat head) * unat (hdi_sect info) + (unat sect - 1)"
proof -
  have "unat (drop_bit 8 cyl) = unat cyl div 256" by (simp add: unat_drop_bit_eq drop_bit_eq_div unat_div)
  then have "unat (ucast (drop_bit 8 cyl) :: u8) * 256 + unat (ucast cyl :: u8) = unat cyl"
    using assms(3) by (simp add: unat_ucast8)
  then show ?thesis unfolding reg_lba_def reg_taskfile drive_head_bits(1)[OF assms(2,1)] using assms(5) by (simp add: unat_ucast8)
qed

text \<open>The geometry of a drive of this controller: up to 16 heads and 255 sectors, cylinders in 16 bits.\<close>

definition geometry_ok :: "hd_i_struct \<Rightarrow> bool" where
  "geometry_ok i \<longleftrightarrow> 1 \<le> unat (hdi_head i) \<and> unat (hdi_head i) \<le> 16 \<and> 1 \<le> unat (hdi_sect i) \<and> unat (hdi_sect i) < 256"

text \<open>A request that the driver accepts: a sector pair inside its partition, the partition inside the drive.\<close>

definition on_disk :: "'a hdst_scheme \<Rightarrow> u32 \<Rightarrow> u32 \<Rightarrow> bool" where
  "on_disk s minor sector \<longleftrightarrow>
     (let p = hd_part s (unat minor); i = hd_info s (unat (minor div 5))
      in minor < 5 * NR_HD s \<and> NR_HD s \<le> 2 \<and> unat sector + 2 \<le> unat (nr_sects p) \<and> geometry_ok i
       \<and> unat (start_sect p) + unat (nr_sects p) \<le> unat (hdi_cyl i) * unat (hdi_head i) * unat (hdi_sect i)
       \<and> unat (hdi_cyl i) < 65536)"

lemma chs_split:
  fixes b :: u32
  assumes "geometry_ok i" and "unat b < unat (hdi_cyl i) * unat (hdi_head i) * unat (hdi_sect i)"
  obtains track sec cyl head where "divl b (hdi_sect i) = Inr (track, sec)" "divl track (hdi_head i) = Inr (cyl, head)"
    "unat sec < unat (hdi_sect i)" "unat head < unat (hdi_head i)" "unat cyl < unat (hdi_cyl i)" "unat (sec + 1) = unat sec + 1"
    "(unat cyl * unat (hdi_head i) + unat head) * unat (hdi_sect i) + unat sec = unat b"
proof -
  let ?S = "unat (hdi_sect i)" and ?H = "unat (hdi_head i)"
  have nz: "0 < ?S" "0 < ?H" "?S < 256" "hdi_sect i \<noteq> 0" "hdi_head i \<noteq> 0" using assms(1) by (auto simp: geometry_ok_def)
  let ?t = "b div hdi_sect i" and ?s = "b mod hdi_sect i"
  let ?c = "?t div hdi_head i" and ?h = "?t mod hdi_head i"
  have u: "unat ?t = unat b div ?S" "unat ?s = unat b mod ?S" "unat ?c = unat b div ?S div ?H" "unat ?h = unat b div ?S mod ?H"
    by (simp_all add: unat_div unat_mod)
  have "unat ?s < ?S" using nz by (simp add: u)
  moreover from this have "unat (?s + 1) = unat ?s + 1" using nz by (simp add: unat_word_ariths)
  moreover have "unat ?h < ?H" using nz by (simp add: u)
  moreover have "unat ?c < unat (hdi_cyl i)" using assms(2) nz by (simp add: u less_mult_imp_div_less mult.commute mult.left_commute)
  moreover have "(unat ?c * ?H + unat ?h) * ?S + unat ?s = unat b" by (simp add: u)
  ultimately show thesis using nz by (intro that[of ?t ?s ?c ?h]) (simp_all add: divl_def)
qed

lemma on_disk_addr:
  assumes "on_disk s minor sector" and "b = sector + start_sect (hd_part s (unat minor))" and "i = hd_info s (unat (minor div 5))"
  shows "unat b = unat sector + unat (start_sect (hd_part s (unat minor)))" "geometry_ok i"
    "unat b < unat (hdi_cyl i) * unat (hdi_head i) * unat (hdi_sect i)" "unat (hdi_cyl i) < 65536"
    "minor div 5 = 0 \<or> minor div 5 = 1" "\<not> (5 * NR_HD s \<le> minor \<or> nr_sects (hd_part s (unat minor)) < sector + 2)"
proof -
  note d = assms(1)[unfolded on_disk_def Let_def, folded assms(3)]
  have g: "1 \<le> unat (hdi_head i)" "unat (hdi_head i) \<le> 16" "1 \<le> unat (hdi_sect i)" "unat (hdi_sect i) < 256" "geometry_ok i"
    using d by (auto simp: geometry_ok_def)
  have "unat (hdi_head i) * unat (hdi_sect i) \<le> 16 * 256" using g by (intro mult_mono) auto
  note hs = this
  have "unat (hdi_cyl i) * (unat (hdi_head i) * unat (hdi_sect i)) \<le> 65535 * (16 * 256)"
    using mult_le_mono[OF _ hs, of "unat (hdi_cyl i)" 65535] d by simp
  then have le: "unat (hdi_cyl i) * unat (hdi_head i) * unat (hdi_sect i) \<le> 268431360" by (simp add: mult.assoc)
  let ?p = "hd_part s (unat minor)"
  have sm: "unat (start_sect ?p) + unat (nr_sects ?p) \<le> unat (hdi_cyl i) * unat (hdi_head i) * unat (hdi_sect i)" "unat sector + 2 \<le> unat (nr_sects ?p)"
    using d by auto
  show ub: "unat b = unat sector + unat (start_sect (hd_part s (unat minor)))"
    unfolding assms(2) using le sm by (simp add: unat_word_ariths)
  show "geometry_ok i" "unat (hdi_cyl i) < 65536" using d by auto
  show "unat b < unat (hdi_cyl i) * unat (hdi_head i) * unat (hdi_sect i)" using ub sm by simp
  have n: "NR_HD s \<in> {0, 1, 2}" using d by (auto simp: word_le_nat_alt unat_arith_simps)
  then have m: "minor < 10" using d by (auto intro: less_le_trans)
  then have "unat (minor div 5) < 2" by (simp add: unat_div word_less_nat_alt)
  then show "minor div 5 = 0 \<or> minor div 5 = 1" by (auto simp: less_2_cases_iff word_unat_eq_iff)
  have "unat (sector + 2) = unat sector + 2" using le sm by (simp add: unat_word_ariths)
  then show "\<not> (5 * NR_HD s \<le> minor \<or> nr_sects (hd_part s (unat minor)) < sector + 2)"
    using d by (auto simp: word_less_nat_alt word_le_nat_alt)
qed

lemma do_hd_request_read:
  assumes "current_request s HD_MAJOR = Some cur" and "r_cmd (request s cur) = READ" and "\<not> hd_reset s" and "\<not> recalibrate s"
    and "on_disk s (MINOR (r_dev (request s cur))) (r_sector (request s cur))" and "port_in s (ports_read s) AND 0x80 = 0"
  shows "\<exists>log. do_hd_request (Suc n) s = Inr (s\<lparr>ports_read := Suc (ports_read s), do_hd := Read_intr, port_out := port_out s @ log\<rparr>)
    \<and> reg_lba (hd_info s (unat (MINOR (r_dev (request s cur)) div 5))) (port_out s @ log)
        = unat (r_sector (request s cur)) + unat (start_sect (hd_part s (unat (MINOR (r_dev (request s cur))))))
    \<and> reg (port_out s @ log) (HD_DATA + 6) div 16 mod 2 = unat (MINOR (r_dev (request s cur)) div 5)
    \<and> reg (port_out s @ log) (HD_DATA + 2) = unat (r_nr_sectors (request s cur)) mod 256
    \<and> reg (port_out s @ log) (HD_DATA + 7) = unat WIN_READ"
proof -
  let ?r = "request s cur" and ?m = "MINOR (r_dev (request s cur))"
  define i where "i = hd_info s (unat (?m div 5))"
  define b where "b = r_sector ?r + start_sect (hd_part s (unat ?m))"
  note D = on_disk_addr[OF assms(5) b_def i_def]
  obtain track sec cyl head where C: "divl b (hdi_sect i) = Inr (track, sec)" "divl track (hdi_head i) = Inr (cyl, head)"
    "unat sec < unat (hdi_sect i)" "unat head < unat (hdi_head i)" "unat cyl < unat (hdi_cyl i)" "unat (sec + 1) = unat sec + 1"
    "(unat cyl * unat (hdi_head i) + unat head) * unat (hdi_sect i) + unat sec = unat b"
    by (rule chs_split[OF D(2,3)])
  have g: "unat (hdi_head i) \<le> 16" "unat (hdi_sect i) < 256" using D(2) by (auto simp: geometry_ok_def)
  let ?log = "taskfile i (?m div 5) (r_nr_sectors ?r) (sec + 1) head cyl WIN_READ"
  have dh: "?m div 5 \<le> 1" "head \<le> 15" using D(5) g(1) C(4) by (auto simp: word_le_nat_alt)
  have "do_hd_request (Suc n) s = hd_out (?m div 5) (r_nr_sectors ?r) (sec + 1) head cyl WIN_READ Read_intr s"
    unfolding do_hd_request.simps assms(1) option.case Let_def if_not_P[OF D(6)] b_def[symmetric] i_def[symmetric] C(1,2) kbind_Inr prod.case
    using assms(2-4) by simp
  also have "\<dots> = Inr (s\<lparr>ports_read := Suc (ports_read s), do_hd := Read_intr, port_out := port_out s @ ?log\<rparr>)"
    unfolding i_def by (rule hd_out_ready[OF dh assms(6)])
  finally have "do_hd_request (Suc n) s = \<dots>" .
  moreover have "reg_lba i (port_out s @ ?log) = unat b"
    using reg_lba_taskfile[of "?m div 5" head cyl "sec + 1"] C g D by simp
  moreover have "reg (port_out s @ ?log) (HD_DATA + 6) div 16 mod 2 = unat (?m div 5)"
    unfolding reg_taskfile by (rule drive_head_bits(2)) (use C(4) g(1) D(5) in auto)
  ultimately show ?thesis using D(1) by (intro exI[of _ ?log]) (simp add: i_def[symmetric] reg_taskfile[simplified] unat_ucast8 del: do_hd_request.simps)
qed

section \<open>Transfers\<close>

text \<open>\<open>insw\<close> copies the next bytes of the controller to memory.\<close>

definition dma_in :: "u32 \<Rightarrow> nat \<Rightarrow> 'a hdst_scheme \<Rightarrow> mem" where
  "dma_in a n s = (\<lambda>x. if unat (x - a) < n then data_in s (data_read s + unat (x - a)) else bdata s x)"

lemma insb_loop_eq:
  "n \<le> 2 ^ 32 \<Longrightarrow> insb_loop n a s = s\<lparr>bdata := dma_in a n s, data_read := data_read s + n\<rparr>"
proof (induction n arbitrary: a s)
  case 0
  then show ?case by (simp add: dma_in_def)
next
  case (Suc n)
  let ?s = "s\<lparr>bdata := (bdata s)(a := data_in s (data_read s)), data_read := Suc (data_read s)\<rparr>"
  have "dma_in (a + 1) n ?s x = dma_in a (Suc n) s x" for x
  proof (cases "x = a")
    case True
    have "unat (a - (a + 1)) = 2 ^ 32 - 1" by (simp add: unsigned_minus_1_eq_mask mask_eq_exp_minus_1)
    with Suc.prems True show ?thesis by (simp add: dma_in_def)
  next
    case False
    have "x - (a + 1) = x - a - 1" by simp
    then have "unat (x - (a + 1)) = unat (x - a) - 1" using False by (simp only:) (simp add: unat_minus_one)
    moreover have "0 < unat (x - a)" using False by (simp add: unat_gt_0)
    ultimately show ?thesis using False by (simp add: dma_in_def less_Suc_eq_0_disj) (auto simp: Suc_diff_1)
  qed
  then have "dma_in (a + 1) n ?s = dma_in a (Suc n) s" by (rule ext)
  with Suc show ?case by simp
qed

lemma dma_in_ports [simp]: "dma_in a n (s\<lparr>ports_read := k\<rparr>) = dma_in a n s"
  by (auto simp: dma_in_def fun_eq_iff)

lemma win_result_good: "port_in s (ports_read s) AND 0xf1 = 0x50 \<Longrightarrow> win_result s = (False, s\<lparr>ports_read := Suc (ports_read s)\<rparr>)"
  by (simp add: win_result_def inb_def)

lemma read_intr_good:
  assumes "port_in s (ports_read s) AND 0xf1 = 0x50" and "current_request s HD_MAJOR = Some cur"
    and "s1 = upd_req cur (\<lambda>r. r\<lparr>r_errors := 0, r_buffer := r_buffer r + 512, r_sector := r_sector r + 1, r_nr_sectors := r_nr_sectors r - 1\<rparr>)
      (s\<lparr>ports_read := Suc (ports_read s), bdata := dma_in (r_buffer (request s cur)) 512 s, data_read := data_read s + 512\<rparr>)"
  shows "read_intr n s = (if r_nr_sectors (request s cur) \<noteq> 1 then Inr (s1\<lparr>do_hd := Read_intr\<rparr>)
    else kbind (end_request HD_MAJOR 1 s1) (do_hd_request n))"
proof -
  have "port_read (r_buffer (request s cur)) 256 (s\<lparr>ports_read := Suc (ports_read s)\<rparr>)
    = s\<lparr>ports_read := Suc (ports_read s), bdata := dma_in (r_buffer (request s cur)) 512 s, data_read := data_read s + 512\<rparr>"
    by (simp add: port_read_def insb_loop_eq)
  then show ?thesis using assms by (simp add: read_intr_def win_result_good Let_def)
qed

section \<open>A block read from the disk\<close>

lemma end_request_last:
  fixes s :: "'a hdst_scheme"
  assumes "current_request s HD_MAJOR = Some cur" and "r_bh (request s cur) = x" and "x \<noteq> 0" and "r_next (request s cur) = None"
  shows "\<exists>s'. end_request HD_MAJOR 1 s = Inr s' \<and> current_request s' HD_MAJOR = None \<and> bdata s' = bdata s \<and> port_out s' = port_out s
    \<and> b_lock (heads s' x) = 0 \<and> b_uptodate (heads s' x) = 1 \<and> b_data (heads s' x) = b_data (heads s x)
    \<and> b_dev (heads s' x) = b_dev (heads s x) \<and> b_blocknr (heads s' x) = b_blocknr (heads s x)"
  using assms by (simp add: end_request_def unlock_buffer_def upd_bh_def upd_req_def Let_def split: prod.split)

lemma two_irqs:
  fixes s :: "'a hdst_scheme"
  assumes "do_hd s = Read_intr" and "current_request s HD_MAJOR = Some cur" and "r_nr_sectors (request s cur) = 2"
    and "r_bh (request s cur) = x" and "x \<noteq> 0" and "r_next (request s cur) = None" and "r_buffer (request s cur) = a"
    and "\<forall>k. port_in s k AND 0xf1 = 0x50"
  shows "\<exists>s'. run_events (Suc n) zz [Disk_irq, Disk_irq] s = Inr s' \<and> current_request s' HD_MAJOR = None
    \<and> (\<forall>i < 1024. bdata s' (a + of_nat i) = data_in s (data_read s + i)) \<and> port_out s' = port_out s
    \<and> b_lock (heads s' x) = 0 \<and> b_uptodate (heads s' x) = 1 \<and> b_data (heads s' x) = b_data (heads s x)
    \<and> b_dev (heads s' x) = b_dev (heads s x) \<and> b_blocknr (heads s' x) = b_blocknr (heads s x)"
proof -
  let ?next = "\<lambda>(s :: 'a hdst_scheme). upd_req cur (\<lambda>r. r\<lparr>r_errors := 0, r_buffer := r_buffer r + 512, r_sector := r_sector r + 1, r_nr_sectors := r_nr_sectors r - 1\<rparr>)
      (s\<lparr>do_hd := No_intr, ports_read := Suc (ports_read s), bdata := dma_in (r_buffer (request s cur)) 512 s, data_read := data_read s + 512\<rparr>)"
  define s1 where "s1 = (?next s)\<lparr>do_hd := Read_intr\<rparr>"
  define s2 where "s2 = ?next s1"
  have dm: "dma_in b m (t\<lparr>do_hd := h\<rparr>) = dma_in b m t" for b m h and t :: "'a hdst_scheme" by (auto simp: dma_in_def fun_eq_iff)
  have 1: "hd_interrupt (Suc n) s = Inr s1"
    using assms(1-3,8) by (simp add: hd_interrupt_def read_intr_good[OF _ _ refl] Let_def dm s1_def)
  have f1: "do_hd s1 = Read_intr" "current_request s1 HD_MAJOR = Some cur" "r_nr_sectors (request s1 cur) = 1" "\<forall>k. port_in s1 k AND 0xf1 = 0x50"
    "r_buffer (request s1 cur) = a + 512" "r_bh (request s1 cur) = x" "r_next (request s1 cur) = None" "heads s1 = heads s" "port_out s1 = port_out s"
    "data_in s1 = data_in s" "data_read s1 = data_read s + 512" "bdata s1 = dma_in a 512 s"
    using assms by (simp_all add: s1_def upd_req_def)
  have 2: "hd_interrupt (Suc n) s1 = kbind (end_request HD_MAJOR 1 s2) (do_hd_request (Suc n))"
    using f1(1-4) by (simp add: hd_interrupt_def read_intr_good[OF _ _ refl] Let_def dm s2_def del: do_hd_request.simps)
  have f2: "current_request s2 HD_MAJOR = Some cur" "r_bh (request s2 cur) = x" "r_next (request s2 cur) = None" "heads s2 = heads s"
    "port_out s2 = port_out s" "bdata s2 = dma_in (a + 512) 512 s1"
    using f1 by (simp_all add: s2_def upd_req_def)
  obtain s3 where s3: "end_request HD_MAJOR 1 s2 = Inr s3" "current_request s3 HD_MAJOR = None" "bdata s3 = bdata s2" "port_out s3 = port_out s"
    "b_lock (heads s3 x) = 0 \<and> b_uptodate (heads s3 x) = 1 \<and> b_data (heads s3 x) = b_data (heads s x)
    \<and> b_dev (heads s3 x) = b_dev (heads s x) \<and> b_blocknr (heads s3 x) = b_blocknr (heads s x)"
    using end_request_last[OF f2(1,2) assms(5) f2(3)] f2(4,5) by auto
  have "run_events (Suc n) zz [Disk_irq, Disk_irq] s = Inr s3" using 1 2 s3(1,2) by simp
  moreover have "bdata s3 (a + of_nat i) = data_in s (data_read s + i)" if i: "i < 1024" for i
  proof -
    have u: "unat (of_nat i :: u32) = i" using i by (simp add: unat_of_nat)
    show ?thesis
    proof (cases "i < 512")
      case True
      have "unat (of_nat i - (512 :: u32)) \<ge> 512" using True by (simp add: unat_sub_if' u)
      with True u show ?thesis by (simp add: s3(3) f2(6) f1 dma_in_def)
    next
      case False
      then have "unat (of_nat i - (512 :: u32)) = i - 512" using i by (simp add: unat_sub_if' u)
      with False i show ?thesis by (auto simp: s3(3) f2(6) f1 dma_in_def)
    qed
  qed
  ultimately show ?thesis using s3(2,4,5) by blast
qed

text \<open>What stays when \<open>getblk\<close> renames a buffer.\<close>

definition cache_frame :: "'a bio_scheme \<Rightarrow> 'a bio_scheme \<Rightarrow> bool" where
  "cache_frame s s' \<longleftrightarrow> (\<exists>h t f. s' = s\<lparr>heads := h, hash_table := t, free_list := f\<rparr>)"

lemma cache_frame_trans: "cache_frame s t \<Longrightarrow> cache_frame t u \<Longrightarrow> cache_frame s u"
proof -
  assume "cache_frame s t" "cache_frame t u"
  then obtain h a f h' a' f' where "t = s\<lparr>heads := h, hash_table := a, free_list := f\<rparr>" "u = t\<lparr>heads := h', hash_table := a', free_list := f'\<rparr>"
    unfolding cache_frame_def by blast
  then have "u = s\<lparr>heads := h', hash_table := a', free_list := f'\<rparr>" by simp
  then show ?thesis unfolding cache_frame_def by blast
qed

lemma cache_frame_upd:
  "cache_frame s (upd_bh p f s)" "cache_frame s (s\<lparr>hash_table := t\<rparr>)" "cache_frame s (s\<lparr>free_list := q\<rparr>)" "cache_frame s s"
proof -
  have 1: "s = s\<lparr>heads := heads s, hash_table := hash_table s, free_list := free_list s\<rparr>" by simp
  show "cache_frame s (upd_bh p f s)" unfolding cache_frame_def upd_bh_def
    by (intro exI[of _ "(heads s)(p := f (heads s p))"] exI[of _ "hash_table s"] exI[of _ "free_list s"]) simp
  show "cache_frame s (s\<lparr>hash_table := t\<rparr>)" unfolding cache_frame_def
    by (intro exI[of _ "heads s"] exI[of _ t] exI[of _ "free_list s"]) simp
  show "cache_frame s (s\<lparr>free_list := q\<rparr>)" unfolding cache_frame_def
    by (intro exI[of _ "heads s"] exI[of _ "hash_table s"] exI[of _ q]) simp
  show "cache_frame s s" unfolding cache_frame_def using 1 by blast
qed

lemma cache_frame_let:
  "cache_frame s a \<Longrightarrow> (\<And>t. cache_frame s t \<Longrightarrow> cache_frame s (f t)) \<Longrightarrow> cache_frame s (let t = a in f t)"
  "cache_frame s a \<Longrightarrow> (\<And>t. cache_frame s t \<Longrightarrow> g t = Inr s' \<longrightarrow> cache_frame s s') \<Longrightarrow> (let t = a in g t) = Inr s' \<longrightarrow> cache_frame s s'"
  by (simp_all add: Let_def)

lemma cache_frame_val:
  "(\<And>t. cache_frame s (f' t)) \<Longrightarrow> cache_frame s (let t = a' in f' t)"
  "(\<And>t. g' t = Inr s' \<longrightarrow> cache_frame s s') \<Longrightarrow> (let t = a' in g' t) = Inr s' \<longrightarrow> cache_frame s s'"
  by (simp_all add: Let_def)

lemma cache_frame_if:
  "cache_frame s a \<Longrightarrow> cache_frame s b \<Longrightarrow> cache_frame s (if P then a else b)"
  "(m = Inr s' \<longrightarrow> cache_frame s s') \<Longrightarrow> (m' = Inr s' \<longrightarrow> cache_frame s s') \<Longrightarrow> (if P then m else m') = Inr s' \<longrightarrow> cache_frame s s'"
  "cache_frame s a \<Longrightarrow> Inr a = Inr s' \<longrightarrow> cache_frame s s'" "Inl e = Inr s' \<longrightarrow> cache_frame s s'"
  by auto

lemmas cache_frame_step = cache_frame_trans[OF _ cache_frame_upd(1)] cache_frame_trans[OF _ cache_frame_upd(2)]
  cache_frame_trans[OF _ cache_frame_upd(3)]

lemma remove_from_queues_frame:
  assumes "remove_from_queues x s = Inr s'"
  shows "cache_frame s s'"
proof -
  have "remove_from_queues x s = Inr s' \<longrightarrow> cache_frame s s'"
    unfolding remove_from_queues_def
    by (intro cache_frame_let cache_frame_val cache_frame_if; (assumption | rule cache_frame_upd(4) cache_frame_upd | (rule cache_frame_step, assumption)))
  with assms show ?thesis by blast
qed

lemma insert_into_queues_frame: "cache_frame s (insert_into_queues x s)"
  unfolding insert_into_queues_def
  by (intro cache_frame_let cache_frame_val cache_frame_if; (assumption | rule cache_frame_upd | (rule cache_frame_step, assumption)))

lemma take_buffer_frame:
  assumes "take_buffer d b x s = Inr (y, s')"
  shows "cache_frame s s'"
proof -
  obtain t where t: "remove_from_queues x (upd_bh x (\<lambda>h. h\<lparr>b_count := 1, b_dirt := 0, b_uptodate := 0\<rparr>) s) = Inr t"
    "s' = insert_into_queues x (upd_bh x (\<lambda>h. h\<lparr>b_dev := ucast d, b_blocknr := b\<rparr>) t)"
    using assms by (auto simp: take_buffer_def kres_simps)
  have "cache_frame s t" using cache_frame_trans[OF cache_frame_upd(1) remove_from_queues_frame[OF t(1)]] .
  moreover have "cache_frame t s'" unfolding t(2) using cache_frame_trans[OF cache_frame_upd(1) insert_into_queues_frame] .
  ultimately show ?thesis by (rule cache_frame_trans)
qed

lemma find_request_free:
  assumes "\<exists>i < n. r_dev (rq i) <s 0"
  shows "\<exists>i. find_request rq n = Some i"
  using assms by (induction n) (auto simp: less_Suc_eq)

text \<open>An idle queue: the request made is the one in progress, and the driver is called.\<close>

lemma ll_rw_block_idle:
  assumes "MAJOR (ucast (b_dev (heads s x))) = 3" and "has_request_fn s 3" and "current_request s 3 = None"
    and "b_lock (heads s x) = 0" and "b_uptodate (heads s x) = 0" and "x \<noteq> 0"
    and "\<exists>i < NR_REQUEST. r_dev (request s i) <s 0"
  shows "\<exists>i h. ll_rw_block (Suc n) zz fn READ x s = fn 3 (s\<lparr>request := (request s)(i := new_request READ x s (request s i)), heads := (heads s)(x := h),
      current_request := (current_request s)(3 := Some i)\<rparr>)
    \<and> h = (heads s x)\<lparr>b_lock := 1, b_dirt := 0\<rparr>"
proof -
  obtain i where i: "find_request (request s) NR_REQUEST = Some i" using find_request_free[OF assms(7)] by blast
  define s1 where "s1 = upd_bh x (\<lambda>h. h\<lparr>b_lock := 1\<rparr>) s"
  have f: "request s1 = request s" "current_request s1 = current_request s" "b_uptodate (heads s1 x) = 0"
    "heads s1 = (heads s)(x := (heads s x)\<lparr>b_lock := 1\<rparr>)" using assms(5) by (simp_all add: s1_def upd_bh_def)
  have l: "lock_buffer (Suc n) zz x s = Inr s1" using assms(4) by (simp add: lock_buffer_def s1_def)
  have nr: "new_request READ x s1 = new_request READ x s" by (rule ext) (simp add: new_request_def f(4))
  have "ll_rw_block (Suc n) zz fn READ x s = add_request fn 3 i (upd_req i (new_request READ x s) s1)"
    using assms(1,2) l i f(1,3) nr by (simp add: ll_rw_block_def make_request_def Let_def slot_limit_def)
  also have "\<dots> = fn 3 (s\<lparr>request := (request s)(i := new_request READ x s (request s i)), heads := (heads s)(x := (heads s x)\<lparr>b_lock := 1, b_dirt := 0\<rparr>),
      current_request := (current_request s)(3 := Some i)\<rparr>)"
    using assms(3,6) by (simp add: add_request_def Let_def s1_def upd_req_def upd_bh_def new_request_def)
  finally show ?thesis by blast
qed

lemma pick_clean:
  assumes "0 \<notin> set fl" and "q \<in> set fl \<and> b_count (h q) = 0 \<and> BADNESS (h q) = 0"
  shows "pick h 0 fl \<noteq> 0 \<and> pick h 0 fl \<in> set fl \<and> b_lock (h (pick h 0 fl)) = 0"
proof -
  obtain as bs where "fl = as @ pick h 0 fl # bs" and b: "BADNESS (h (pick h 0 fl)) = 0"
    using pick_first[of fl q h 0] assms by auto
  then have "pick h 0 fl \<in> set fl" by (metis in_set_conv_decomp)
  with assms(1) b show ?thesis by (auto simp: BADNESS_def unat_eq_0)
qed

text \<open>The driver has started the read: two sectors to come into the buffer.\<close>

definition reading :: "'a hdst_scheme \<Rightarrow> nat \<Rightarrow> u32 \<Rightarrow> bool" where
  "reading s cur x \<longleftrightarrow> do_hd s = Read_intr \<and> current_request s HD_MAJOR = Some cur \<and> r_nr_sectors (request s cur) = 2
    \<and> r_bh (request s cur) = x \<and> r_next (request s cur) = None \<and> r_buffer (request s cur) = b_data (heads s x)"

lemma ll_rw_block_starts:
  fixes s :: "'a hdst_scheme"
  assumes "b_dev (heads s x) = d" and "b_blocknr (heads s x) = block" and "MAJOR (ucast d) = 3"
    and "has_request_fn s 3" and "current_request s 3 = None"
    and "b_lock (heads s x) = 0" and "b_uptodate (heads s x) = 0" and "x \<noteq> 0" and "\<exists>i < NR_REQUEST. r_dev (request s i) <s 0"
    and "on_disk s (MINOR (ucast d)) (push_bit 1 block)" and "\<not> hd_reset s" and "\<not> recalibrate s"
    and "\<forall>k. port_in s k AND 0xf1 = 0x50"
  shows "\<exists>s' cur. ll_rw_block (Suc n) zz (\<lambda>_. do_hd_request (Suc n)) READ x s = Inr s' \<and> reading s' cur x
    \<and> port_in s' = port_in s \<and> data_in s' = data_in s \<and> data_read s' = data_read s
    \<and> heads s' x = (heads s x)\<lparr>b_lock := 1, b_dirt := 0\<rparr>
    \<and> reg_lba (hd_info s (unat (MINOR (ucast d) div 5))) (port_out s')
        = unat (push_bit 1 block) + unat (start_sect (hd_part s (unat (MINOR (ucast d)))))"
proof -
  let ?fn = "\<lambda>_. do_hd_request (Suc n)"
  obtain i where i: "ll_rw_block (Suc n) zz ?fn READ x s = do_hd_request (Suc n) (s\<lparr>request := (request s)(i := new_request READ x s (request s i)),
      heads := (heads s)(x := (heads s x)\<lparr>b_lock := 1, b_dirt := 0\<rparr>), current_request := (current_request s)(3 := Some i)\<rparr>)"
    using ll_rw_block_idle[of s x n zz ?fn] assms by auto
  define s2 where "s2 = s\<lparr>request := (request s)(i := new_request READ x s (request s i)),
      heads := (heads s)(x := (heads s x)\<lparr>b_lock := 1, b_dirt := 0\<rparr>), current_request := (current_request s)(3 := Some i)\<rparr>"
  have f2: "current_request s2 3 = Some i" "r_cmd (request s2 i) = READ" "r_dev (request s2 i) = ucast d" "r_sector (request s2 i) = push_bit 1 block"
    "r_nr_sectors (request s2 i) = 2" "r_bh (request s2 i) = x" "r_next (request s2 i) = None" "r_buffer (request s2 i) = b_data (heads s x)"
    "hd_reset s2 = hd_reset s" "recalibrate s2 = recalibrate s" "port_in s2 = port_in s" "hd_info s2 = hd_info s" "hd_part s2 = hd_part s"
    "data_in s2 = data_in s" "data_read s2 = data_read s" "heads s2 = (heads s)(x := (heads s x)\<lparr>b_lock := 1, b_dirt := 0\<rparr>)" "NR_HD s2 = NR_HD s"
    by (simp_all add: s2_def new_request_def assms(1,2))
  have od: "on_disk s2 (MINOR (r_dev (request s2 i))) (r_sector (request s2 i))"
    using assms(10) unfolding on_disk_def f2 by simp
  have "port_in s2 (ports_read s2) AND 0x80 = (port_in s2 (ports_read s2) AND 0xf1) AND 0x80" by (simp add: and.assoc)
  then have rdy: "port_in s2 (ports_read s2) AND 0x80 = 0" using assms(13) f2(11) by simp
  obtain log where log: "do_hd_request (Suc n) s2 = Inr (s2\<lparr>ports_read := Suc (ports_read s2), do_hd := Read_intr, port_out := port_out s2 @ log\<rparr>)"
    "reg_lba (hd_info s (unat (MINOR (ucast d) div 5))) (port_out s2 @ log) = unat (push_bit 1 block) + unat (start_sect (hd_part s (unat (MINOR (ucast d)))))"
    using do_hd_request_read[OF f2(1,2) _ _ od rdy, of n] assms(11,12) unfolding f2 by blast
  let ?s3 = "s2\<lparr>ports_read := Suc (ports_read s2), do_hd := Read_intr, port_out := port_out s2 @ log\<rparr>"
  have "ll_rw_block (Suc n) zz ?fn READ x s = Inr ?s3" using i log(1) unfolding s2_def[symmetric] by simp
  moreover have "reading ?s3 i x" by (simp add: reading_def f2)
  ultimately show ?thesis using log(2) f2 by (intro exI[of _ ?s3] exI[of _ i]) simp
qed

text \<open>C12: a block that is not in the cache is read from the disk. The queue is idle, a clean unused buffer and a
  request slot exist, the block lies in its partition and the controller answers ready and without error.
  \<open>bread\<close> then returns a buffer renamed to that block, marked up to date and unlocked, that holds the 1024
  bytes the controller delivered, and the address in the controller's registers is the block's first sector
  counted from the start of the drive.\<close>

theorem bread_reads_disk:
  fixes d :: u16 and s :: "'a hdst_scheme"
  assumes "cache_rep fl ch s" and "2 \<le> length fl" and "MAJOR (ucast d) = 3"
    and "\<forall>p \<in> set fl. \<not> (b_dev (heads s p) = d \<and> b_blocknr (heads s p) = block)"
    and "q \<in> set fl \<and> b_count (heads s q) = 0 \<and> BADNESS (heads s q) = 0"
    and "has_request_fn s 3" and "current_request s 3 = None" and "\<exists>i < NR_REQUEST. r_dev (request s i) <s 0"
    and "on_disk s (MINOR (ucast d)) (push_bit 1 block)" and "\<not> hd_reset s" and "\<not> recalibrate s"
    and "\<forall>k. port_in s k AND 0xf1 = 0x50" and "\<forall>p. evs (B_wait p) = [Disk_irq, Disk_irq]"
  shows "\<exists>x s'. bread (Suc n) (hd_sleep (Suc (Suc k)) evs) (\<lambda>_. do_hd_request (Suc n)) (ucast d) block s = Inr (x, s')
    \<and> x \<in> set fl \<and> b_dev (heads s' x) = d \<and> b_blocknr (heads s' x) = block \<and> b_uptodate (heads s' x) = 1 \<and> b_lock (heads s' x) = 0
    \<and> (\<forall>i < 1024. bdata s' (b_data (heads s' x) + of_nat i) = data_in s (data_read s + i))
    \<and> reg_lba (hd_info s (unat (MINOR (ucast d) div 5))) (port_out s')
        = unat (push_bit 1 block) + unat (start_sect (hd_part s (unat (MINOR (ucast d)))))"
proof -
  define x where "x = pick (heads s) 0 fl"
  have d: "d \<noteq> 0" using assms(3) by (auto simp: MAJOR_def)
  have x: "x \<noteq> 0" "x \<in> set fl" "b_lock (heads s x) = 0"
    using pick_clean[OF cache_repD(2)[OF assms(1)]] assms(5) unfolding x_def by blast+
  let ?zz = "hd_sleep (Suc (Suc k)) evs" and ?fn = "\<lambda>_. do_hd_request (Suc n)"
  obtain s1 where s1: "getblk (Suc n) ?zz (ucast d) block s = Inr (x, s1)"
    "core (heads s1 x) = core ((heads s x)\<lparr>b_dev := d, b_blocknr := block, b_count := 1, b_dirt := 0, b_uptodate := 0\<rparr>)"
    using getblk_miss[OF assms(1,2) d assms(4) x_def x(1,3), of n ?zz] by blast
  have "cache_frame s s1" using s1(1) unfolding getblk_takes[OF assms(1) d assms(4) x_def x(1,3)] by (rule take_buffer_frame)
  then have f1: "request s1 = request s" "current_request s1 = current_request s" "has_request_fn s1 = has_request_fn s"
    "hd_reset s1 = hd_reset s" "recalibrate s1 = recalibrate s" "port_in s1 = port_in s" "hd_info s1 = hd_info s" "hd_part s1 = hd_part s"
    "data_in s1 = data_in s" "data_read s1 = data_read s" "NR_HD s1 = NR_HD s"
    by (auto simp: cache_frame_def)
  have h1: "b_dev (heads s1 x) = d" "b_blocknr (heads s1 x) = block" "b_lock (heads s1 x) = 0" "b_uptodate (heads s1 x) = 0"
    using s1(2) x(3) by (simp_all add: core_def)
  have od: "on_disk s1 (MINOR (ucast d)) (push_bit 1 block)" using assms(9) unfolding on_disk_def f1 .
  obtain s3 cur where s3: "ll_rw_block (Suc n) ?zz ?fn READ x s1 = Inr s3" "reading s3 cur x"
    "port_in s3 = port_in s" "data_in s3 = data_in s" "data_read s3 = data_read s" "heads s3 x = (heads s1 x)\<lparr>b_lock := 1, b_dirt := 0\<rparr>"
    "reg_lba (hd_info s (unat (MINOR (ucast d) div 5))) (port_out s3)
        = unat (push_bit 1 block) + unat (start_sect (hd_part s (unat (MINOR (ucast d)))))"
    using ll_rw_block_starts[OF h1(1,2) assms(3) _ _ h1(3,4) x(1) _ od, of n ?zz] assms(6-8,10-12) unfolding f1 by blast
  obtain s' where s': "?zz (B_wait x) s3 = Inr s'" "\<forall>j < 1024. bdata s' (b_data (heads s1 x) + of_nat j) = data_in s (data_read s + j)"
    "port_out s' = port_out s3" "b_lock (heads s' x) = 0" "b_uptodate (heads s' x) = 1" "b_data (heads s' x) = b_data (heads s1 x)"
    "b_dev (heads s' x) = d" "b_blocknr (heads s' x) = block"
    using two_irqs[of s3 cur x "b_data (heads s1 x)" k "hd_sleep (Suc k) evs"] s3(2-6) assms(12,13) h1 x(1) by (auto simp: reading_def)
  have "b_lock (heads s3 x) \<noteq> 0" by (simp add: s3(6))
  then have w: "wait_on_buffer (Suc n) ?zz x s3 = Inr s'" using s'(1,4) by (cases n) (simp_all del: hd_sleep.simps)
  have "bread (Suc n) ?zz ?fn (ucast d) block s = Inr (x, s')"
    using s1(1) s3(1) x(1) h1(4) w s'(5) by (simp add: bread_def del: getblk.simps wait_on_buffer.simps hd_sleep.simps do_hd_request.simps)
  then show ?thesis using s' s3(7) x(2) by (intro exI[of _ x] exI[of _ s']) simp
qed

text \<open>A drive of 100 cylinders, 16 heads and 63 sectors with one partition, and a controller that is ready.\<close>

definition demo_hd :: "bio \<Rightarrow> hdst" where
  "demo_hd b = bio.extend b (hdst.fields (\<lambda>k. if k = 1 then \<lparr>start_sect = 63, nr_sects = 1000\<rparr> else \<lparr>start_sect = 0, nr_sects = 0\<rparr>)
     (\<lambda>_. \<lparr>hdi_head = 16, hdi_sect = 63, hdi_cyl = 100, hdi_wpcom = 0, hdi_lzone = 0, hdi_ctl = 8\<rparr>)
     1 False False No_intr False (\<lambda>_. 0x50) 0 of_nat 0 [] [])"

definition demo_idle :: bio where
  "demo_idle = (demo_cache 0 0)\<lparr>current_request := (\<lambda>_. None)\<rparr>"

lemma demo_hd_simps:
  "heads (demo_hd b) = heads b" "request (demo_hd b) = request b" "current_request (demo_hd b) = current_request b"
  "has_request_fn (demo_hd b) = has_request_fn b" "hash_table (demo_hd b) = hash_table b" "free_list (demo_hd b) = free_list b"
  "nr_buffers (demo_hd b) = nr_buffers b" "hd_reset (demo_hd b) = False" "recalibrate (demo_hd b) = False" "port_in (demo_hd b) = (\<lambda>_. 0x50)"
  "ports_read (demo_hd b) = 0" "port_out (demo_hd b) = []" "do_hd (demo_hd b) = No_intr" "bio_sched (demo_hd b) = bio_sched b"
  "wait_for_request (demo_hd b) = wait_for_request b" "data_read (demo_hd b) = 0" "data_in (demo_hd b) = of_nat"
  by (simp_all add: demo_hd_def bio.defs hdst.defs)

lemma demo_hd_rep: "cache_rep fl ch b \<Longrightarrow> cache_rep fl ch (demo_hd b)"
  unfolding cache_rep_def demo_hd_simps .

lemma demo_idle_rep: "cache_rep [0x1000, 0x2000] (\<lambda>_. []) (demo_hd demo_idle)"
  by (rule demo_hd_rep) (simp add: cache_rep_def demo_idle_def demo_cache_def demo_bio_def ring_def)

lemma demo_on_disk: "on_disk (demo_hd b) 1 14"
  by (simp add: on_disk_def geometry_ok_def demo_hd_def bio.defs hdst.defs)

theorem bread_reads_disk_witness:
  "\<exists>x s'. bread 1 (hd_sleep 2 (\<lambda>_. [Disk_irq, Disk_irq])) (\<lambda>_. do_hd_request 1) (ucast (0x301 :: u16)) 7 (demo_hd demo_idle) = Inr (x, s')
    \<and> b_uptodate (heads s' x) = 1 \<and> bdata s' (b_data (heads s' x) + of_nat 513) = 1"
proof -
  have d: "MAJOR (ucast (0x301 :: u16)) = 3" "MINOR (ucast (0x301 :: u16)) = 1" "push_bit 1 (7 :: u32) = 14" by (simp_all add: MAJOR_def MINOR_def)
  have miss: "\<forall>p \<in> set [0x1000, 0x2000 :: u32]. \<not> (b_dev (heads (demo_hd demo_idle) p) = 0x301 \<and> b_blocknr (heads (demo_hd demo_idle) p) = 7)"
    by (simp add: demo_hd_simps demo_idle_def demo_cache_def demo_bio_def)
  have q: "0x1000 \<in> set [0x1000, 0x2000 :: u32] \<and> b_count (heads (demo_hd demo_idle) 0x1000) = 0 \<and> BADNESS (heads (demo_hd demo_idle) 0x1000) = 0"
    by (simp add: demo_hd_simps demo_idle_def demo_cache_def demo_bio_def BADNESS_def)
  have r: "\<exists>i < 32. r_dev (request (demo_hd demo_idle) i) <s 0"
    by (intro exI[of _ 0]) (simp add: demo_hd_simps demo_idle_def demo_cache_def demo_bio_def word_sless_alt)
  have i: "has_request_fn (demo_hd demo_idle) 3" "current_request (demo_hd demo_idle) 3 = None"
    by (simp_all add: demo_hd_simps demo_idle_def demo_cache_def demo_bio_def)
  have "\<exists>x s'. bread (Suc 0) (hd_sleep (Suc (Suc 0)) (\<lambda>_. [Disk_irq, Disk_irq])) (\<lambda>_. do_hd_request (Suc 0)) (ucast (0x301 :: u16)) 7 (demo_hd demo_idle) = Inr (x, s')
    \<and> x \<in> set [0x1000, 0x2000] \<and> b_dev (heads s' x) = 0x301 \<and> b_blocknr (heads s' x) = 7 \<and> b_uptodate (heads s' x) = 1 \<and> b_lock (heads s' x) = 0
    \<and> (\<forall>i < 1024. bdata s' (b_data (heads s' x) + of_nat i) = data_in (demo_hd demo_idle) (data_read (demo_hd demo_idle) + i))
    \<and> reg_lba (hd_info (demo_hd demo_idle) (unat (MINOR (ucast (0x301 :: u16)) div 5))) (port_out s')
        = unat (push_bit 1 (7 :: u32)) + unat (start_sect (hd_part (demo_hd demo_idle) (unat (MINOR (ucast (0x301 :: u16))))))"
    by (rule bread_reads_disk[OF demo_idle_rep _ d(1) miss q i r]) (simp_all only: d demo_on_disk demo_hd_simps, simp_all)
  then obtain x s' where b: "bread (Suc 0) (hd_sleep (Suc (Suc 0)) (\<lambda>_. [Disk_irq, Disk_irq])) (\<lambda>_. do_hd_request (Suc 0)) (ucast (0x301 :: u16)) 7 (demo_hd demo_idle) = Inr (x, s')"
    "b_uptodate (heads s' x) = 1" "\<forall>i < 1024. bdata s' (b_data (heads s' x) + of_nat i) = data_in (demo_hd demo_idle) (data_read (demo_hd demo_idle) + i)"
    by (elim exE conjE)
  have "bdata s' (b_data (heads s' x) + of_nat 513) = of_nat 513" using b(3)[rule_format, of 513] by (simp add: demo_hd_simps)
  also have "\<dots> = (1 :: u8)" by simp
  finally show ?thesis using b(1,2) unfolding One_nat_def numeral_2_eq_2 by blast
qed

text \<open>The seventh error of a request that is the last of the queue ends it; the driver then reads the error
  count of the request in progress although there is none, a null pointer.\<close>

theorem bad_rw_intr_null:
  assumes "current_request s HD_MAJOR = Some cur" and "r_errors (request s cur) = 6" and "r_bh (request s cur) \<noteq> 0"
    and "r_next (request s cur) = None"
  shows "bad_rw_intr s = Inl Fault"
proof -
  let ?s1 = "upd_req cur (\<lambda>r. r\<lparr>r_errors := r_errors r + 1\<rparr>) s"
  have "7 <=s r_errors (request ?s1 cur)" using assms(2) by (simp add: word_sle_eq)
  moreover have "\<exists>s'. end_request HD_MAJOR 0 ?s1 = Inr s' \<and> current_request s' HD_MAJOR = None"
    using assms(1,3,4) by (simp add: end_request_def unlock_buffer_def upd_bh_def upd_req_def Let_def split: prod.split)
  ultimately show ?thesis using assms(1) by (auto simp: bad_rw_intr_def Let_def)
qed

theorem bad_rw_intr_null_witness:
  "bad_rw_intr (demo_hd (demo_bio\<lparr>request := (\<lambda>i. (request demo_bio i)\<lparr>r_errors := 6\<rparr>)\<rparr>)) = Inl Fault"
  by (rule bad_rw_intr_null[of _ 31]) (simp_all add: demo_hd_simps demo_bio_def)

end
