(* ===== verification/Super.thy ===== *)
theory Super
  imports Memory Hd
begin

text \<open>
  The file system's tables (include/fs/fs.h) and the super blocks, fs/super.c up to \<open>read_super\<close>. An inode,
  super block or file pointer is an index in its table, \<open>None\<close> the null pointer; a buffer pointer is the
  address of its head, 0 the null pointer. The blocks are those of the buffer cache on the hard disk.
\<close>

section \<open>State\<close>

record m_inode =
  i_mode :: u16
  i_uid :: u16
  i_size :: u32
  i_mtime :: u32
  i_gid :: u8
  i_nlinks :: u8
  i_zone :: "nat \<Rightarrow> u16"
  i_wait :: u32
  i_atime :: u32
  i_ctime :: u32
  i_dev :: u16
  i_num :: u16
  i_count :: u16
  i_lock :: u8
  i_dirt :: u8
  i_pipe :: u8
  i_mount :: u8
  i_seek :: u8
  i_update :: u8

record file_struct =
  f_mode :: u16
  f_flags :: u16
  f_count :: u16
  f_inode :: "nat option"
  f_pos :: u32

record super_block =
  s_ninodes :: u16
  s_nzones :: u16
  s_imap_blocks :: u16
  s_zmap_blocks :: u16
  s_firstdatazone :: u16
  s_log_zone_size :: u16
  s_max_size :: u32
  s_magic :: u16
  s_imap :: "nat \<Rightarrow> u32"
  s_zmap :: "nat \<Rightarrow> u32"
  s_dev :: u16
  s_isup :: "nat option"
  s_imount :: "nat option"
  s_time :: u32
  s_wait :: u32
  s_lock :: u8
  s_rd_only :: u8
  s_dirt :: u8

record fsst = hdst +
  inode_table :: "nat \<Rightarrow> m_inode"
  last_inode :: nat
  super_block :: "nat \<Rightarrow> super_block"
  file_table :: "nat \<Rightarrow> file_struct"
  ROOT_DEV :: u32
  fs_mm :: mm_state
  fs_seg :: mem

abbreviation (input) NR_INODE :: nat where "NR_INODE \<equiv> 32"
abbreviation (input) NR_FILE :: nat where "NR_FILE \<equiv> 64"
abbreviation (input) NR_SUPER :: nat where "NR_SUPER \<equiv> 8"
abbreviation (input) NR_OPEN :: nat where "NR_OPEN \<equiv> 20"
abbreviation (input) SUPER_MAGIC :: u16 where "SUPER_MAGIC \<equiv> 0x137f"
abbreviation (input) I_MAP_SLOTS :: nat where "I_MAP_SLOTS \<equiv> 8"

type_synonym fs_sleep = "chan \<Rightarrow> fsst \<Rightarrow> fsst kres"

definition upd_super :: "nat \<Rightarrow> (super_block \<Rightarrow> super_block) \<Rightarrow> fsst \<Rightarrow> fsst" where
  "upd_super i f s = s\<lparr>super_block := (super_block s)(i := f (super_block s i))\<rparr>"

text \<open>Block reads go to the hard disk driver, the only one there is.\<close>

abbreviation fbread :: "nat \<Rightarrow> fs_sleep \<Rightarrow> u32 \<Rightarrow> u32 \<Rightarrow> fsst \<Rightarrow> (u32 \<times> fsst) kres" where
  "fbread n zz dev block s \<equiv> bread n zz (\<lambda>_. do_hd_request n) dev block s"

section \<open>Locks\<close>

primrec wait_on_super :: "nat \<Rightarrow> fs_sleep \<Rightarrow> nat \<Rightarrow> fsst \<Rightarrow> fsst kres" where
  "wait_on_super 0 zz i s = (if s_lock (super_block s i) \<noteq> 0 then Inl Hang else Inr s)"
| "wait_on_super (Suc n) zz i s =
     (if s_lock (super_block s i) \<noteq> 0 then kbind (zz (S_wait i) s) (wait_on_super n zz i) else Inr s)"

definition lock_super :: "nat \<Rightarrow> fs_sleep \<Rightarrow> nat \<Rightarrow> fsst \<Rightarrow> fsst kres" where
  "lock_super n zz i s = kbind (wait_on_super n zz i s) (\<lambda>s. Inr (upd_super i (\<lambda>b. b\<lparr>s_lock := 1\<rparr>) s))"

definition free_super :: "nat \<Rightarrow> fsst \<Rightarrow> fsst" where
  "free_super i s =
     (let s1 = upd_super i (\<lambda>b. b\<lparr>s_lock := 0\<rparr>) s
      in case wake_up (s_wait (super_block s1 i)) (bio_sched s1) of
           (p, k) \<Rightarrow> upd_super i (\<lambda>b. b\<lparr>s_wait := p\<rparr>) (s1\<lparr>bio_sched := k\<rparr>))"

section \<open>Looking up\<close>

definition find_super :: "u32 \<Rightarrow> fsst \<Rightarrow> nat option" where
  "find_super dev s = List.find (\<lambda>i. ucast (s_dev (super_block s i)) = dev) [0..<NR_SUPER]"

text \<open>The search starts again when the slot has changed its device during a wait.\<close>

primrec get_super_loop :: "nat \<Rightarrow> fs_sleep \<Rightarrow> u32 \<Rightarrow> fsst \<Rightarrow> (nat option \<times> fsst) kres" where
  "get_super_loop 0 zz dev s = Inl Hang"
| "get_super_loop (Suc n) zz dev s =
     (case find_super dev s of
        None \<Rightarrow> Inr (None, s)
      | Some i \<Rightarrow> kbind (wait_on_super n zz i s) (\<lambda>s.
          if ucast (s_dev (super_block s i)) = dev then Inr (Some i, s) else get_super_loop n zz dev s))"

definition get_super :: "nat \<Rightarrow> fs_sleep \<Rightarrow> u32 \<Rightarrow> fsst \<Rightarrow> (nat option \<times> fsst) kres" where
  "get_super n zz dev s = (if dev = 0 then Inr (None, s) else get_super_loop n zz dev s)"

section \<open>Reading a super block\<close>

text \<open>The assignment of the first fields from \<open>struct d_super_block\<close> in the block.\<close>

definition get_d_super :: "mem \<Rightarrow> u32 \<Rightarrow> super_block \<Rightarrow> super_block" where
  "get_d_super m a b = b\<lparr>s_ninodes := ld16 m a, s_nzones := ld16 m (a + 2), s_imap_blocks := ld16 m (a + 4),
     s_zmap_blocks := ld16 m (a + 6), s_firstdatazone := ld16 m (a + 8), s_log_zone_size := ld16 m (a + 10),
     s_max_size := ld32 m (a + 12), s_magic := ld16 m (a + 16)\<rparr>"

text \<open>One of the two loops that read a bitmap: \<open>put\<close> stores the buffer in the slot. An index past the array is a fault.\<close>

primrec load_map :: "nat \<Rightarrow> fs_sleep \<Rightarrow> (nat \<Rightarrow> u32 \<Rightarrow> fsst \<Rightarrow> fsst) \<Rightarrow> u32 \<Rightarrow> nat \<Rightarrow> nat \<Rightarrow> u32 \<Rightarrow> fsst \<Rightarrow> (u32 \<times> fsst) kres" where
  "load_map n zz put dev 0 i block s = Inr (block, s)"
| "load_map n zz put dev (Suc k) i block s =
     (if I_MAP_SLOTS \<le> i then Inl Fault
      else kbind (fbread n zz dev block s) (\<lambda>(bh, s).
        if bh \<noteq> 0 then load_map n zz put dev k (Suc i) (block + 1) (put i bh s) else Inr (block, put i bh s)))"

primrec brelse_all :: "nat \<Rightarrow> fs_sleep \<Rightarrow> u32 list \<Rightarrow> fsst \<Rightarrow> fsst kres" where
  "brelse_all n zz [] s = Inr s"
| "brelse_all n zz (bh # bhs) s = kbind (brelse n zz bh s) (brelse_all n zz bhs)"

definition drop_super :: "nat \<Rightarrow> fsst \<Rightarrow> (nat option \<times> fsst) kres" where
  "drop_super i s = Inr (None, free_super i (upd_super i (\<lambda>b. b\<lparr>s_dev := 0\<rparr>) s))"

text \<open>The bitmaps of a super block that has been read, up to the end of \<open>read_super\<close>.\<close>

definition read_maps :: "nat \<Rightarrow> fs_sleep \<Rightarrow> u32 \<Rightarrow> nat \<Rightarrow> fsst \<Rightarrow> (nat option \<times> fsst) kres" where
  "read_maps n zz dev i s0 =
     (let s = upd_super i (\<lambda>b. b\<lparr>s_imap := (\<lambda>k. if k < I_MAP_SLOTS then 0 else s_imap b k),
                               s_zmap := (\<lambda>k. if k < I_MAP_SLOTS then 0 else s_zmap b k)\<rparr>) s0;
          b = super_block s i
      in kbind (load_map n zz (\<lambda>k bh. upd_super i (\<lambda>b. b\<lparr>s_imap := (s_imap b)(k := bh)\<rparr>)) dev (unat (s_imap_blocks b)) 0 2 s) (\<lambda>(block, s).
         kbind (load_map n zz (\<lambda>k bh. upd_super i (\<lambda>b. b\<lparr>s_zmap := (s_zmap b)(k := bh)\<rparr>)) dev (unat (s_zmap_blocks b)) 0 block s) (\<lambda>(block, s).
           if block \<noteq> 2 + ucast (s_imap_blocks b) + ucast (s_zmap_blocks b)
           then kbind (brelse_all n zz (map (s_imap (super_block s i)) [0..<8]) s) (\<lambda>s.
             kbind (brelse_all n zz (map (s_zmap (super_block s i)) [0..<8]) s) (drop_super i))
           else
            (let im = s_imap (super_block s i) 0; zm = s_zmap (super_block s i) 0
             in if im = 0 \<or> zm = 0 then Inl Fault
                else
                 (let ia = b_data (heads s im); za = b_data (heads s zm);
                      s = s\<lparr>bdata := (bdata s)(ia := bdata s ia OR 1)\<rparr>;
                      s = s\<lparr>bdata := (bdata s)(za := bdata s za OR 1)\<rparr>
                  in Inr (Some i, free_super i s))))))"

definition read_super :: "nat \<Rightarrow> fs_sleep \<Rightarrow> u32 \<Rightarrow> fsst \<Rightarrow> (nat option \<times> fsst) kres" where
  "read_super n zz dev s0 =
     (if dev = 0 then Inr (None, s0)
      else kbind (get_super n zz dev s0) (\<lambda>(found, s).
        if found \<noteq> None then Inr (found, s)
        else case List.find (\<lambda>i. s_dev (super_block s i) = 0) [0..<NR_SUPER] of
          None \<Rightarrow> Inr (None, s)
        | Some i \<Rightarrow>
            kbind (lock_super n zz i (upd_super i (\<lambda>b. b\<lparr>s_dev := ucast dev, s_isup := None, s_imount := None, s_time := 0,
                     s_rd_only := 0, s_dirt := 0\<rparr>) s)) (\<lambda>s.
              kbind (fbread n zz dev 1 s) (\<lambda>(bh, s).
                if bh = 0 then drop_super i s
                else kbind (brelse n zz bh (upd_super i (get_d_super (bdata s) (b_data (heads s bh))) s)) (\<lambda>s.
                  if s_magic (super_block s i) \<noteq> SUPER_MAGIC then drop_super i s else read_maps n zz dev i s)))))"

end
