(* ===== verification/Bitmap.thy ===== *)
theory Bitmap
  imports Super
begin

text \<open>
  The bitmaps of blocks and inodes, fs/bitmap.c, except \<open>new_inode\<close>, which needs the inode table.
  The bit instructions work on 32 bit words in memory.
\<close>

section \<open>Bit instructions\<close>

definition clear_bit_op :: "nat \<Rightarrow> u32 \<Rightarrow> mem \<Rightarrow> bool \<times> mem" where
  "clear_bit_op nr addr m =
     (let a = addr + 4 * of_nat (nr div 32); w = ld32 m a
      in (\<not> bit w (nr mod 32), st32 m a (w AND NOT (push_bit (nr mod 32) 1))))"

definition set_bit_op :: "nat \<Rightarrow> u32 \<Rightarrow> mem \<Rightarrow> bool \<times> mem" where
  "set_bit_op nr addr m =
     (let a = addr + 4 * of_nat (nr div 32); w = ld32 m a
      in (bit w (nr mod 32), st32 m a (w OR push_bit (nr mod 32) 1)))"

text \<open>\<open>rep stosl\<close> of 256 zero words.\<close>

definition clear_block :: "u32 \<Rightarrow> mem \<Rightarrow> mem" where
  "clear_block addr m = stosb 1024 m addr 0"

text \<open>\<open>bsfl\<close> of a word that is not zero: its lowest bit.\<close>

primrec bsf_from :: "nat \<Rightarrow> nat \<Rightarrow> u32 \<Rightarrow> nat" where
  "bsf_from 0 i w = i"
| "bsf_from (Suc n) i w = (if bit w i then i else bsf_from n (Suc i) w)"

primrec ffz_loop :: "nat \<Rightarrow> u32 \<Rightarrow> mem \<Rightarrow> nat \<Rightarrow> nat" where
  "ffz_loop 0 a m cnt = cnt"
| "ffz_loop (Suc n) a m cnt =
     (let w = NOT (ld32 m a) in if w \<noteq> 0 then cnt + bsf_from 32 0 w else ffz_loop n (a + 4) m (cnt + 32))"

definition find_first_zero :: "u32 \<Rightarrow> mem \<Rightarrow> nat" where
  "find_first_zero addr m = ffz_loop 256 addr m 0"

section \<open>Inodes and blocks\<close>

definition upd_inode :: "nat \<Rightarrow> (m_inode \<Rightarrow> m_inode) \<Rightarrow> fsst \<Rightarrow> fsst" where
  "upd_inode i f s = s\<lparr>inode_table := (inode_table s)(i := f (inode_table s i))\<rparr>"

text \<open>What \<open>memset(inode,0,sizeof(*inode))\<close> leaves.\<close>

definition zero_inode :: m_inode where
  "zero_inode = \<lparr>i_mode = 0, i_uid = 0, i_size = 0, i_mtime = 0, i_gid = 0, i_nlinks = 0, i_zone = (\<lambda>_. 0), i_wait = 0,
     i_atime = 0, i_ctime = 0, i_dev = 0, i_num = 0, i_count = 0, i_lock = 0, i_dirt = 0, i_pipe = 0, i_mount = 0,
     i_seek = 0, i_update = 0\<rparr>"

definition free_inode :: "nat \<Rightarrow> fs_sleep \<Rightarrow> nat option \<Rightarrow> fsst \<Rightarrow> fsst kres" where
  "free_inode n zz inode s =
     (case inode of
        None \<Rightarrow> Inr s
      | Some ip \<Rightarrow>
          (let i = inode_table s ip
           in if i_dev i = 0 then Inr (upd_inode ip (\<lambda>_. zero_inode) s)
              else if 1 < i_count i then Inl (Panic ''free_inode'')
              else if i_nlinks i \<noteq> 0 then Inl (Panic ''trying to free inode with links'')
              else kbind (get_super n zz (ucast (i_dev i)) s) (\<lambda>(sb, s).
                case sb of
                  None \<Rightarrow> Inl (Panic ''trying to free inode on nonexistent device'')
                | Some b \<Rightarrow>
                    (let i = inode_table s ip
                     in if i_num i < 1 \<or> s_ninodes (super_block s b) < i_num i
                        then Inl (Panic ''trying to free inode 0 or nonexistant inode'')
                        else
                         (let bh = s_imap (super_block s b) (unat (i_num i) div 8192)
                          in if bh = 0 then Inl (Panic ''nonexistent imap in superblock'')
                             else
                              (let s = s\<lparr>bdata := snd (clear_bit_op (unat (i_num i) mod 8192) (b_data (heads s bh)) (bdata s))\<rparr>
                               in Inr (upd_inode ip (\<lambda>_. zero_inode) (upd_bh bh (\<lambda>h. h\<lparr>b_dirt := 1\<rparr>) s))))))))"

text \<open>The end of \<open>free_block\<close>, with the block's number in the bitmap.\<close>

definition clear_zone :: "nat \<Rightarrow> u32 \<Rightarrow> fsst \<Rightarrow> fsst kres" where
  "clear_zone b block s =
     (let bh = s_zmap (super_block s b) (unat block div 8192)
      in if bh = 0 then Inl Fault
         else case clear_bit_op (unat block mod 8192) (b_data (heads s bh)) (bdata s) of
           (clr, m) \<Rightarrow> if clr then Inl (Panic ''free_block: bit already cleared'')
                       else Inr (upd_bh bh (\<lambda>h. h\<lparr>b_dirt := 1\<rparr>) (s\<lparr>bdata := m\<rparr>)))"

definition free_block :: "nat \<Rightarrow> fs_sleep \<Rightarrow> u32 \<Rightarrow> u32 \<Rightarrow> fsst \<Rightarrow> fsst kres" where
  "free_block n zz dev block s =
     kbind (get_super n zz dev s) (\<lambda>(sb, s).
       case sb of
         None \<Rightarrow> Inl (Panic ''trying to free block on nonexistent device'')
       | Some b \<Rightarrow>
           if block <s ucast (s_firstdatazone (super_block s b)) \<or> ucast (s_nzones (super_block s b)) <=s block
           then Inl (Panic ''trying to free block not in datazone'')
           else kbind (get_hash_table n zz dev block s) (\<lambda>(bh, s).
             if bh \<noteq> 0 \<and> b_count (heads s bh) \<noteq> 1 then Inr s
             else kbind (if bh \<noteq> 0 then brelse n zz bh (upd_bh bh (\<lambda>h. h\<lparr>b_dirt := 0, b_uptodate := 0\<rparr>) s) else Inr s) (\<lambda>s.
               clear_zone b (block - (ucast (s_firstdatazone (super_block s b)) - 1)) s)))"

text \<open>The loop over the eight bitmap blocks: the first one with a zero bit, and the bit.\<close>

definition scan_maps :: "(nat \<Rightarrow> u32) \<Rightarrow> fsst \<Rightarrow> (nat \<times> nat) option" where
  "scan_maps maps s =
     map_option (\<lambda>i. (i, find_first_zero (b_data (heads s (maps i))) (bdata s)))
       (List.find (\<lambda>i. maps i \<noteq> 0 \<and> find_first_zero (b_data (heads s (maps i))) (bdata s) < 8192) [0..<8])"

definition new_block :: "nat \<Rightarrow> fs_sleep \<Rightarrow> u32 \<Rightarrow> fsst \<Rightarrow> (u32 \<times> fsst) kres" where
  "new_block n zz dev s =
     kbind (get_super n zz dev s) (\<lambda>(sb, s).
       case sb of
         None \<Rightarrow> Inl (Panic ''trying to get new block from nonexistant device'')
       | Some b \<Rightarrow>
          (case scan_maps (s_zmap (super_block s b)) s of
             None \<Rightarrow> Inr (0, s)
           | Some (i, j) \<Rightarrow>
              (let bh = s_zmap (super_block s b) i
               in case set_bit_op j (b_data (heads s bh)) (bdata s) of (old, m) \<Rightarrow>
                 if old then Inl (Panic ''new_block: bit already set'')
                 else
                  (let s = upd_bh bh (\<lambda>h. h\<lparr>b_dirt := 1\<rparr>) (s\<lparr>bdata := m\<rparr>);
                       k = of_nat j + (of_nat i * 8192 + ucast (s_firstdatazone (super_block s b)) - 1)
                   in if ucast (s_nzones (super_block s b)) <=s k then Inr (0, s)
                      else kbind (getblk n zz dev k s) (\<lambda>(bh, s).
                        if bh = 0 then Inl (Panic ''new_block: cannot get block'')
                        else if b_count (heads s bh) \<noteq> 1 then Inl (Panic ''new block: count is != 1'')
                        else
                         (let s = s\<lparr>bdata := clear_block (b_data (heads s bh)) (bdata s)\<rparr>;
                              s = upd_bh bh (\<lambda>h. h\<lparr>b_uptodate := 1, b_dirt := 1\<rparr>) s
                          in kbind (brelse n zz bh s) (\<lambda>s. Inr (k, s))))))))"

section \<open>Bitmaps as sets\<close>

text \<open>The numbers whose bit is one in the 8192 bits from an address on.\<close>

definition used_bits :: "u32 \<Rightarrow> mem \<Rightarrow> nat set" where
  "used_bits a m = {k. k < 8192 \<and> bit (m (a + of_nat (k div 8))) (k mod 8)}"

lemma bit_byte: "bit (ucast (w :: u32) :: u8) r \<longleftrightarrow> r < 8 \<and> bit w r"
  by (auto simp: bit_simps)

lemma bit_ld32:
  assumes "i < 32"
  shows "bit (ld32 m b) i = bit (m (b + of_nat (i div 8))) (i mod 8)"
proof -
  have "bit (ucast (drop_bit (8 * (i div 8)) (ld32 m b)) :: u8) (i mod 8) = bit (ld32 m b) i"
    by (simp add: bit_byte bit_drop_bit_eq)
  moreover have "ucast (drop_bit (8 * (i div 8)) (ld32 m b)) = m (b + of_nat (i div 8))"
    using assms by (intro byte_of_ld32) simp
  ultimately show ?thesis by simp
qed

lemma div8_split: "k div 8 = 4 * (k div 32) + k mod 32 div (8 :: nat)"
proof -
  have "(8 * (4 * (k div 32)) + k mod 32) div 8 = 4 * (k div 32) + k mod 32 div 8" by (rule div_mult_self4) simp
  moreover have "8 * (4 * (k div 32)) + k mod 32 = k" by simp
  ultimately show ?thesis by simp
qed

lemma mod8_split: "k mod 32 mod 8 = k mod (8 :: nat)" "8 * (k mod 32 div 8) + k mod 8 = k mod (32 :: nat)"
proof -
  show 1: "k mod 32 mod 8 = k mod 8" by (rule mod_mod_cancel) simp
  show "8 * (k mod 32 div 8) + k mod 8 = k mod 32" using mult_div_mod_eq[of 8 "k mod 32"] unfolding 1 .
qed

lemma word_of_bit:
  assumes "k < 8192"
  shows "a + 4 * of_nat (k div 32) + of_nat (k mod 32 div 8) = (a + of_nat (k div 8) :: u32)"
proof -
  have "(of_nat (k div 8) :: u32) = 4 * of_nat (k div 32) + of_nat (k mod 32 div 8)"
    unfolding div8_split[of k] by (simp only: of_nat_add of_nat_mult of_nat_numeral)
  then show ?thesis by simp
qed

lemma used_bits_word:
  assumes "k < 8192"
  shows "k \<in> used_bits a m \<longleftrightarrow> bit (ld32 m (a + 4 * of_nat (k div 32))) (k mod 32)"
  using assms by (simp add: used_bits_def bit_ld32 word_of_bit mod8_split)

lemma unat_nat_diff:
  assumes "x < 4096" and "y < 4096"
  shows "unat (of_nat x - of_nat y :: u32) = (if y \<le> x then x - y else x + 2 ^ 32 - y)"
proof -
  have "unat (of_nat x :: u32) = x" "unat (of_nat y :: u32) = y" using assms by (simp_all add: unat_of_nat)
  then show ?thesis by (auto simp: unat_minus_eq word_le_nat_alt)
qed

lemma used_bits_st32:
  assumes "q < 256"
  shows "k \<in> used_bits a (st32 m (a + 4 * of_nat q) v) \<longleftrightarrow> k < 8192 \<and> (if k div 32 = q then bit v (k mod 32) else k \<in> used_bits a m)"
proof (cases "k < 8192")
  case True
  have d: "unat (of_nat (k div 8) - 4 * of_nat q :: u32) = (if 4 * q \<le> k div 8 then k div 8 - 4 * q else k div 8 + 2 ^ 32 - 4 * q)"
    using unat_nat_diff[of "k div 8" "4 * q"] True assms by simp
  show ?thesis
  proof (cases "k div 32 = q")
    case q: True
    then have "4 * q \<le> k div 8" "k div 8 - 4 * q = k mod 32 div 8" using div8_split[of k] by simp_all
    moreover have "k mod 32 div 8 < 4" by (rule less_mult_imp_div_less) simp
    ultimately show ?thesis using True q mod8_split[of k] by (simp add: used_bits_def st32_apply d bit_byte bit_drop_bit_eq)
  next
    case q: False
    have "\<not> unat (of_nat (k div 8) - 4 * of_nat q :: u32) < 4"
    proof (cases "4 * q \<le> k div 8")
      case True
      moreover have "k mod 32 div 8 < 4" by (rule less_mult_imp_div_less) simp
      then have "4 \<le> k div 8 - 4 * q" using True q div8_split[of k] by linarith
      ultimately show ?thesis by (simp add: d)
    next
      case False
      then show ?thesis using assms by (simp add: d)
    qed
    with True q show ?thesis by (simp add: used_bits_def st32_apply)
  qed
qed (simp add: used_bits_def)

lemma set_bit_op_spec:
  assumes "nr < 8192"
  shows "fst (set_bit_op nr a m) \<longleftrightarrow> nr \<in> used_bits a m" "used_bits a (snd (set_bit_op nr a m)) = insert nr (used_bits a m)"
proof -
  show "fst (set_bit_op nr a m) \<longleftrightarrow> nr \<in> used_bits a m" using used_bits_word[OF assms] by (simp add: set_bit_op_def Let_def)
  show "used_bits a (snd (set_bit_op nr a m)) = insert nr (used_bits a m)"
  proof (rule set_eqI)
    fix k
    let ?v = "ld32 m (a + 4 * of_nat (nr div 32)) OR push_bit (nr mod 32) 1"
    have b: "bit ?v (k mod 32) \<longleftrightarrow> k \<in> used_bits a m \<or> k = nr" if "k < 8192" "k div 32 = nr div 32"
    proof -
      have "k mod 32 = nr mod 32 \<longleftrightarrow> k = nr" using that(2) by (metis div_mult_mod_eq)
      moreover have "bit (push_bit (nr mod 32) 1 :: u32) (k mod 32) \<longleftrightarrow> k mod 32 = nr mod 32" by (auto simp: bit_simps)
      ultimately show ?thesis using used_bits_word[OF that(1), of a m] that(2) by (simp add: bit_or_iff)
    qed
    have "k \<in> used_bits a (snd (set_bit_op nr a m)) \<longleftrightarrow> k < 8192 \<and> (if k div 32 = nr div 32 then bit ?v (k mod 32) else k \<in> used_bits a m)"
      using assms by (simp add: set_bit_op_def Let_def used_bits_st32)
    then show "k \<in> used_bits a (snd (set_bit_op nr a m)) \<longleftrightarrow> k \<in> insert nr (used_bits a m)"
      using b assms by (auto simp: used_bits_def)
  qed
qed

lemma clear_bit_op_spec:
  assumes "nr < 8192"
  shows "fst (clear_bit_op nr a m) \<longleftrightarrow> nr \<notin> used_bits a m" "used_bits a (snd (clear_bit_op nr a m)) = used_bits a m - {nr}"
proof -
  show "fst (clear_bit_op nr a m) \<longleftrightarrow> nr \<notin> used_bits a m" using used_bits_word[OF assms] by (simp add: clear_bit_op_def Let_def)
  show "used_bits a (snd (clear_bit_op nr a m)) = used_bits a m - {nr}"
  proof (rule set_eqI)
    fix k
    let ?v = "ld32 m (a + 4 * of_nat (nr div 32)) AND NOT (push_bit (nr mod 32) 1)"
    have b: "bit ?v (k mod 32) \<longleftrightarrow> k \<in> used_bits a m \<and> k \<noteq> nr" if "k < 8192" "k div 32 = nr div 32"
    proof -
      have "k mod 32 = nr mod 32 \<longleftrightarrow> k = nr" using that(2) by (metis div_mult_mod_eq)
      moreover have "bit (NOT (push_bit (nr mod 32) 1) :: u32) (k mod 32) \<longleftrightarrow> k mod 32 \<noteq> nr mod 32" by (auto simp: bit_simps)
      ultimately show ?thesis using used_bits_word[OF that(1), of a m] that(2) by (simp add: bit_and_iff)
    qed
    have "k \<in> used_bits a (snd (clear_bit_op nr a m)) \<longleftrightarrow> k < 8192 \<and> (if k div 32 = nr div 32 then bit ?v (k mod 32) else k \<in> used_bits a m)"
      using assms by (simp add: clear_bit_op_def Let_def used_bits_st32)
    then show "k \<in> used_bits a (snd (clear_bit_op nr a m)) \<longleftrightarrow> k \<in> used_bits a m - {nr}"
      using b assms by (auto simp: used_bits_def)
  qed
qed

lemma bsf_from_least:
  assumes "\<exists>j. i \<le> j \<and> j < i + n \<and> bit w j"
  shows "i \<le> bsf_from n i w \<and> bsf_from n i w < i + n \<and> bit w (bsf_from n i w) \<and> (\<forall>j. i \<le> j \<and> j < bsf_from n i w \<longrightarrow> \<not> bit w j)"
  using assms
proof (induction n arbitrary: i)
  case (Suc n)
  show ?case
  proof (cases "bit w i")
    case False
    with Suc.prems have "\<exists>j. Suc i \<le> j \<and> j < Suc i + n \<and> bit w j" by (metis add_Suc_shift le_neq_implies_less Suc_leI)
    note Suc.IH[OF this]
    then show ?thesis using False by (auto simp: Suc_le_eq) (metis le_neq_implies_less)
  qed auto
qed auto

lemma ffz_loop_spec:
  assumes "4 * n + q * 4 = 1024"
  shows "(\<forall>k. 32 * q \<le> k \<and> k < ffz_loop n (a + 4 * of_nat q) m (32 * q) \<longrightarrow> k \<in> used_bits a m)
    \<and> ffz_loop n (a + 4 * of_nat q) m (32 * q) \<le> 8192 \<and> ffz_loop n (a + 4 * of_nat q) m (32 * q) \<notin> used_bits a m"
  using assms
proof (induction n arbitrary: q)
  case 0
  then show ?case by (auto simp: used_bits_def)
next
  case (Suc n)
  let ?w = "NOT (ld32 m (a + 4 * of_nat q))"
  have q: "q < 256" using Suc.prems by simp
  have b: "k \<in> used_bits a m \<longleftrightarrow> \<not> bit ?w (k mod 32)" if "k div 32 = q" for k
    using that q used_bits_word[of k a m] by (auto simp: bit_not_iff)
  show ?case
  proof (cases "?w = 0")
    case True
    have "k \<in> used_bits a m" if "32 * q \<le> k" "k < 32 * Suc q" for k
    proof -
      have "k div 32 = q" using that by (intro div_nat_eqI) simp_all
      then show ?thesis using b True by simp
    qed
    moreover have "ffz_loop (Suc n) (a + 4 * of_nat q) m (32 * q) = ffz_loop n (a + 4 * of_nat (Suc q)) m (32 * Suc q)"
      using True by (simp add: Let_def ac_simps)
    moreover have "4 * n + Suc q * 4 = 1024" using Suc.prems by simp
    note Suc.IH[OF this]
    ultimately show ?thesis by (simp only:) (meson linorder_not_less)
  next
    case False
    then obtain j where "bit ?w j" by (metis bit_eqI bit_0_eq bot_apply bot_bool_def)
    then have "\<exists>j. 0 \<le> j \<and> j < 0 + 32 \<and> bit ?w j" using bit_imp_le_length by fastforce
    note B = bsf_from_least[OF this]
    let ?j = "bsf_from 32 0 ?w"
    have v: "ffz_loop (Suc n) (a + 4 * of_nat q) m (32 * q) = 32 * q + ?j" using False by (simp add: Let_def)
    have "(32 * q + ?j) div 32 = q" "(32 * q + ?j) mod 32 = ?j" using B by simp_all
    then have "32 * q + ?j \<notin> used_bits a m" using b B by simp
    moreover have "k \<in> used_bits a m" if "32 * q \<le> k" "k < 32 * q + ?j" for k
    proof -
      have d: "k div 32 = q" using that B by (intro div_nat_eqI) simp_all
      then have "k mod 32 = k - 32 * q" by (simp add: modulo_nat_def mult.commute)
      then have "k mod 32 < ?j" using that by simp
      then show ?thesis using b[OF d] B by blast
    qed
    moreover have "32 * q + ?j \<le> 8192" using B q by simp
    ultimately show ?thesis unfolding v by blast
  qed
qed

lemma find_first_zero_free: "find_first_zero a m \<notin> used_bits a m"
  using ffz_loop_spec[of 256 0 a m] by (simp add: find_first_zero_def)

lemma find_first_zero_is: "find_first_zero a m = (LEAST k. k \<notin> used_bits a m)"
proof -
  note F = ffz_loop_spec[of 256 0 a m, simplified, folded find_first_zero_def]
  have "(LEAST k. k \<notin> used_bits a m) = find_first_zero a m"
    by (rule Least_equality) (use F linorder_not_less in blast)+
  then show ?thesis by simp
qed

text \<open>C26: scanning a bitmap block word by word for a word that is not all ones, and that word for its lowest zero, finds the
  least number that is not in use, 8192 when all are.\<close>

theorem find_first_zero_least: "find_first_zero a m = (LEAST k. k \<notin> used_bits a m) \<and> find_first_zero a m \<le> 8192"
  using ffz_loop_spec[of 256 0 a m] by (simp add: find_first_zero_is[symmetric]) (simp add: find_first_zero_def)

section \<open>Allocation of numbers\<close>

text \<open>What the callers rely on: a map of numbers below a bound from which the least unused one can be taken and to
  which it can be given back.\<close>

locale number_map =
  fixes bits :: "'m \<Rightarrow> nat set" and first :: "'m \<Rightarrow> nat" and put :: "nat \<Rightarrow> 'm \<Rightarrow> 'm" and drop_nr :: "nat \<Rightarrow> 'm \<Rightarrow> 'm" and cap :: nat
  assumes first_least: "first m = (LEAST k. k \<notin> bits m)"
    and first_free: "first m \<notin> bits m"
    and bits_put: "k < cap \<Longrightarrow> bits (put k m) = insert k (bits m)"
    and bits_drop: "k < cap \<Longrightarrow> bits (drop_nr k m) = bits m - {k}"
begin

primrec take_many :: "nat \<Rightarrow> 'm \<Rightarrow> nat list \<times> 'm" where
  "take_many 0 m = ([], m)"
| "take_many (Suc n) m = (case take_many n (put (first m) m) of (ks, m') \<Rightarrow> (first m # ks, m'))"

lemma take_then_drop: "first m < cap \<Longrightarrow> bits (drop_nr (first m) (put (first m) m)) = bits m"
  using first_free[of m] by (simp add: bits_put bits_drop)

lemma drop_then_take: "k \<in> bits m \<Longrightarrow> k < first m \<Longrightarrow> k < cap \<Longrightarrow> first (drop_nr k m) = k"
  unfolding first_least bits_drop
  by (rule Least_equality) (auto dest: Least_le[of "\<lambda>k. k \<notin> bits m"])

lemma take_many_fresh:
  assumes "\<forall>k \<in> set (fst (take_many n m)). k < cap"
  shows "distinct (fst (take_many n m)) \<and> set (fst (take_many n m)) \<inter> bits m = {} \<and> bits (snd (take_many n m)) = bits m \<union> set (fst (take_many n m))"
  using assms
proof (induction n arbitrary: m)
  case (Suc n)
  obtain ks m' where k: "take_many n (put (first m) m) = (ks, m')" by fastforce
  with Suc.IH[of "put (first m) m"] Suc.prems show ?case using first_free[of m] by (auto simp: bits_put)
qed simp

end

interpretation zmap: number_map "used_bits a" "find_first_zero a" "\<lambda>k m. snd (set_bit_op k a m)" "\<lambda>k m. snd (clear_bit_op k a m)" 8192 for a
proof unfold_locales
  show "find_first_zero a m \<notin> used_bits a m" for m using find_first_zero_free .
qed (simp_all add: find_first_zero_is set_bit_op_spec clear_bit_op_spec)

section \<open>Allocating and freeing a block\<close>

text \<open>Data blocks of different buffers do not overlap; \<open>buffer_init\<close> sets them up this way.\<close>

definition data_apart :: "u32 set \<Rightarrow> 'a bio_scheme \<Rightarrow> bool" where
  "data_apart B s \<longleftrightarrow> (\<forall>p \<in> B. \<forall>q \<in> B. p \<noteq> q \<longrightarrow> 1024 \<le> unat (b_data (heads s p) - b_data (heads s q)))"

lemma apart_byte:
  fixes a b :: u32
  assumes "1024 \<le> unat (a - b)" and "1024 \<le> unat (b - a)" and "i < 1024"
  shows "\<not> unat (a + of_nat i - b) < 1024"
proof -
  have e: "a + of_nat i - b = (a - b) + of_nat i" by simp
  have "unat (b - a) = 2 ^ 32 - unat (a - b)" using assms(1,2) by (simp add: unat_minus_eq word_le_nat_alt split: if_splits)
  then have "unat (a - b) + i < 2 ^ 32" using assms(2,3) by linarith
  moreover have "unat (of_nat i :: u32) = i" using assms(3) by (simp add: unat_of_nat)
  ultimately have "unat (a - b + of_nat i) = unat (a - b) + i" by (simp add: unat_word_ariths)
  then show ?thesis unfolding e using assms(1) by simp
qed

lemma used_bits_cong: "(\<And>i. i < 1024 \<Longrightarrow> m (a + of_nat i) = m' (a + of_nat i)) \<Longrightarrow> used_bits a m = used_bits a m'"
  by (auto simp: used_bits_def less_mult_imp_div_less)

lemma used_bits_clear_block:
  assumes "1024 \<le> unat (a - b)" and "1024 \<le> unat (b - a)"
  shows "used_bits a (clear_block b m) = used_bits a m"
  using apart_byte[OF assms] by (intro used_bits_cong) (simp add: clear_block_def stosb_apply)

lemma bit_op_apart:
  fixes a b :: u32
  assumes "j < 8192" and "1024 \<le> unat (a - b)" and "1024 \<le> unat (b - a)" and "t < 1024"
  shows "snd (set_bit_op j b m) (a + of_nat t) = m (a + of_nat t)" "snd (clear_bit_op j b m) (a + of_nat t) = m (a + of_nat t)"
proof -
  have "\<not> unat (a + of_nat t - b) < 1024" by (rule apart_byte[OF assms(2-4)])
  moreover have "unat (4 * of_nat (j div 32) :: u32) = 4 * (j div 32)" using assms(1) by (simp add: unat_word_ariths unat_of_nat)
  moreover have "j div 32 < 256" using assms(1) by (intro less_mult_imp_div_less) simp
  ultimately have "\<not> unat (a + of_nat t - b - 4 * of_nat (j div 32)) < 4"
    by (subst unat_minus_eq) (auto simp: word_le_nat_alt)
  then show "snd (set_bit_op j b m) (a + of_nat t) = m (a + of_nat t)" "snd (clear_bit_op j b m) (a + of_nat t) = m (a + of_nat t)"
    by (simp_all add: set_bit_op_def clear_bit_op_def Let_def st32_apply diff_diff_add)
qed

lemma get_super_now:
  assumes "find_super dev s = Some b" and "s_lock (super_block s b) = 0" and "dev \<noteq> 0"
  shows "get_super (Suc n) zz dev s = Inr (Some b, s)"
proof -
  have "ucast (s_dev (super_block s b)) = dev" using assms(1) by (auto simp: find_super_def find_Some_iff)
  moreover have "wait_on_super n zz b s = Inr s" using assms(2) by (cases n) simp_all
  ultimately show ?thesis using assms by (simp add: get_super_def)
qed

lemma brelse_now:
  assumes "b_lock (heads s x) = 0" and "b_count (heads s x) \<noteq> 0" and "x \<noteq> 0"
  shows "\<exists>w k. brelse n zz x s = Inr ((upd_bh x (\<lambda>h. h\<lparr>b_count := b_count h - 1\<rparr>) s)\<lparr>buffer_wait := w, bio_sched := k\<rparr>)"
  using assms by (cases "wake_up (buffer_wait s) (bio_sched s)") (auto simp: brelse_def wait_on_unlocked)

lemma scan_maps_Some:
  assumes "scan_maps maps s = Some (i, j)"
  shows "i < 8" "maps i \<noteq> 0" "j = find_first_zero (b_data (heads s (maps i))) (bdata s)" "j < 8192" "j \<notin> used_bits (b_data (heads s (maps i))) (bdata s)"
  using assms find_first_zero_free by (auto simp: scan_maps_def find_Some_iff)

lemma unat_lt_16: "unat (w :: u16) < 65536"
  using unsigned_less[of w] by simp

lemma unat_ucast_16: "unat (ucast (w :: u16) :: u32) = unat w"
  using unat_lt_16[of w] by (simp add: unsigned_ucast_eq take_bit_eq_mod)

lemma sless_not_sle: "(a :: u32) <s b \<longleftrightarrow> \<not> b <=s a"
  by (simp add: word_sless_alt word_sle_eq linorder_not_le)

lemma sle_nat_16:
  assumes "k < 65536"
  shows "(ucast (w :: u16) :: u32) <=s of_nat k \<longleftrightarrow> unat w \<le> k"
proof -
  have "sint (of_nat k :: u32) = int k" using assms by (subst sint_small32) (simp_all add: unat_of_nat)
  moreover have "sint (ucast w :: u32) = int (unat w)" using unat_lt_16[of w] by (subst sint_small32) (simp_all add: unat_ucast_16)
  ultimately show ?thesis by (simp only: word_sle_eq of_nat_le_iff)
qed

lemma pick_cong:
  assumes "\<And>p. p \<in> set fl \<Longrightarrow> b_count (h' p) = b_count (h p)" and "\<And>p. p \<in> set fl \<Longrightarrow> b_count (h p) = 0 \<Longrightarrow> BADNESS (h' p) = BADNESS (h p)"
  shows "q \<in> set fl \<and> b_count (h q) = 0 \<and> BADNESS (h q) = 0 \<longleftrightarrow> q \<in> set fl \<and> b_count (h' q) = 0 \<and> BADNESS (h' q) = 0"
  using assms by metis

text \<open>The second half of \<open>new_block\<close>: a cleared buffer for the block.\<close>

lemma getblk_clean:
  fixes d :: u16 and s :: "'a bio_scheme"
  assumes "cache_rep fl ch s" and "2 \<le> length fl" and "d \<noteq> 0"
    and "\<forall>p \<in> set fl. \<not> (b_dev (heads s p) = d \<and> b_blocknr (heads s p) = blk)"
    and "q \<in> set fl \<and> b_count (heads s q) = 0 \<and> BADNESS (heads s q) = 0"
  shows "\<exists>x s'. getblk (Suc n) zz (ucast d) blk s = Inr (x, s') \<and> x \<in> set fl \<and> x \<noteq> 0 \<and> b_count (heads s x) = 0
    \<and> cache_inv (set fl) s' \<and> cache_frame s s' \<and> (\<forall>p. b_data (heads s' p) = b_data (heads s p))
    \<and> (\<forall>p. p \<noteq> x \<longrightarrow> core (heads s' p) = core (heads s p))
    \<and> b_dev (heads s' x) = d \<and> b_blocknr (heads s' x) = blk \<and> b_count (heads s' x) = 1 \<and> b_lock (heads s' x) = 0"
proof -
  define x where "x = pick (heads s) 0 fl"
  have x: "x \<noteq> 0" "x \<in> set fl" "b_lock (heads s x) = 0"
    using pick_clean[of fl q "heads s"] cache_repD(2)[OF assms(1)] assms(5) unfolding x_def by blast+
  have c: "b_count (heads s x) = 0" using pick_in[of "heads s" 0 fl] x(1) unfolding x_def by auto
  obtain s' ch' where g: "getblk (Suc n) zz (ucast d) blk s = Inr (x, s')" "cache_rep (remove1 x fl @ [x]) ch' s'"
    "core (heads s' x) = core ((heads s x)\<lparr>b_dev := d, b_blocknr := blk, b_count := 1, b_dirt := 0, b_uptodate := 0\<rparr>)"
    "\<forall>p. p \<noteq> x \<longrightarrow> core (heads s' p) = core (heads s p)"
    using getblk_miss[OF assms(1-4) x_def x(1,3), of n zz] by blast
  have "cache_frame s s'" using g(1) unfolding getblk_takes[OF assms(1,3,4) x_def x(1,3)] by (rule take_buffer_frame)
  moreover have "cache_inv (set fl) s'"
    unfolding cache_inv_def using g(2) x(2) assms(2) cache_repD(1)[OF assms(1)]
    by (intro exI[of _ "remove1 x fl @ [x]"] exI[of _ ch']) (auto simp: set_remove1_eq length_remove1)
  moreover have "b_data (heads s' p) = b_data (heads s p)" for p using g(3,4) by (cases "p = x") (auto simp: core_def)
  moreover have "b_dev (heads s' x) = d \<and> b_blocknr (heads s' x) = blk \<and> b_count (heads s' x) = 1 \<and> b_lock (heads s' x) = 0"
    using g(3) x(3) by (auto simp: core_def)
  ultimately show ?thesis using g(1,4) x c by blast
qed

lemma zero_release:
  fixes s :: fsst
  assumes "b_lock (heads s x) = 0" and "b_count (heads s x) = 1" and "x \<noteq> 0"
  shows "\<exists>s'. brelse n zz x (upd_bh x (\<lambda>h. h\<lparr>b_uptodate := 1, b_dirt := 1\<rparr>) (s\<lparr>bdata := clear_block (b_data (heads s x)) (bdata s)\<rparr>)) = Inr s'
    \<and> heads s' = (heads s)(x := (heads s x)\<lparr>b_uptodate := 1, b_dirt := 1, b_count := 0\<rparr>)
    \<and> bdata s' = clear_block (b_data (heads s x)) (bdata s) \<and> super_block s' = super_block s \<and> same_links s s'"
proof -
  let ?s3 = "upd_bh x (\<lambda>h. h\<lparr>b_uptodate := 1, b_dirt := 1\<rparr>) (s\<lparr>bdata := clear_block (b_data (heads s x)) (bdata s)\<rparr>)"
  obtain w k where r: "brelse n zz x ?s3 = Inr ((upd_bh x (\<lambda>h. h\<lparr>b_count := b_count h - 1\<rparr>) ?s3)\<lparr>buffer_wait := w, bio_sched := k\<rparr>)"
    using brelse_now[of ?s3 x n zz] assms by (auto simp: upd_bh_def)
  show ?thesis unfolding r using assms(2) by (simp add: upd_bh_def same_links_def)
qed

lemma new_block_ok:
  fixes d :: u16 and s :: fsst
  assumes "cache_rep fl ch s" and "2 \<le> length fl" and "data_apart (set fl) s" and "d \<noteq> 0"
    and "find_super (ucast d) s = Some b" and "s_lock (super_block s b) = 0"
    and "scan_maps (s_zmap (super_block s b)) s = Some (i, j)" and "zm = s_zmap (super_block s b) i" and "zm \<in> set fl" and "b_count (heads s zm) \<noteq> 0"
    and "1 \<le> unat (s_firstdatazone (super_block s b))" and "k = j + i * 8192 + unat (s_firstdatazone (super_block s b)) - 1"
    and "k < unat (s_nzones (super_block s b))"
    and "\<forall>p \<in> set fl. \<not> (b_dev (heads s p) = d \<and> b_blocknr (heads s p) = of_nat k)"
    and "q \<in> set fl \<and> b_count (heads s q) = 0 \<and> BADNESS (heads s q) = 0"
  shows "\<exists>x s'. new_block (Suc n) zz (ucast d) s = Inr (of_nat k, s')
    \<and> j \<notin> used_bits (b_data (heads s zm)) (bdata s)
    \<and> used_bits (b_data (heads s zm)) (bdata s') = insert j (used_bits (b_data (heads s zm)) (bdata s))
    \<and> (\<forall>p \<in> set fl. p \<noteq> zm \<and> p \<noteq> x \<longrightarrow> (\<forall>t < 1024. bdata s' (b_data (heads s p) + of_nat t) = bdata s (b_data (heads s p) + of_nat t)))
    \<and> x \<in> set fl \<and> x \<noteq> zm \<and> b_dev (heads s' x) = d \<and> b_blocknr (heads s' x) = of_nat k \<and> b_data (heads s' x) = b_data (heads s x)
    \<and> b_uptodate (heads s' x) = 1 \<and> b_dirt (heads s' x) = 1 \<and> b_count (heads s' x) = 0 \<and> b_lock (heads s' x) = 0
    \<and> (\<forall>t < 1024. bdata s' (b_data (heads s x) + of_nat t) = 0) \<and> cache_inv (set fl) s' \<and> super_block s' = super_block s \<and> (\<forall>p. b_data (heads s' p) = b_data (heads s p)) \<and> b_count (heads s x) = 0"
proof -
  let ?a = "b_data (heads s zm)"
  note S = scan_maps_Some[OF assms(7), folded assms(8)]
  define s1 where "s1 = upd_bh zm (\<lambda>h. h\<lparr>b_dirt := 1\<rparr>) (s\<lparr>bdata := snd (set_bit_op j ?a (bdata s))\<rparr>)"
  have sl: "same_links s s1" by (simp add: s1_def same_links_def upd_bh_def)
  have rep1: "cache_rep fl ch s1" using same_links_rep[OF sl assms(1)] .
  have h1: "heads s1 p = (if p = zm then (heads s zm)\<lparr>b_dirt := 1\<rparr> else heads s p)" for p by (simp add: s1_def upd_bh_def)
  have sb1: "super_block s1 = super_block s" "bdata s1 = snd (set_bit_op j ?a (bdata s))" by (simp_all add: s1_def upd_bh_def)
  have "\<forall>p \<in> set fl. \<not> (b_dev (heads s1 p) = d \<and> b_blocknr (heads s1 p) = of_nat k)" using assms(14) by (simp add: h1)
  moreover have "q \<in> set fl \<and> b_count (heads s1 q) = 0 \<and> BADNESS (heads s1 q) = 0" using assms(10,15) by (auto simp: h1)
  ultimately obtain x s2 where g: "getblk (Suc n) zz (ucast d) (of_nat k) s1 = Inr (x, s2)" "x \<in> set fl" "x \<noteq> 0" "b_count (heads s1 x) = 0"
    "cache_inv (set fl) s2" "cache_frame s1 s2" "\<forall>p. b_data (heads s2 p) = b_data (heads s1 p)"
    "b_dev (heads s2 x) = d" "b_blocknr (heads s2 x) = of_nat k" "b_count (heads s2 x) = 1" "b_lock (heads s2 x) = 0"
    using getblk_clean[OF rep1 assms(2,4)] by blast
  have xz: "x \<noteq> zm" using g(4) assms(10) by (auto simp: h1)
  have f2: "super_block s2 = super_block s" "bdata s2 = bdata s1" using g(6) sb1 by (auto simp: cache_frame_def)
  have d2: "b_data (heads s2 p) = b_data (heads s p)" for p using g(7) by (simp add: h1)
  obtain s4 where r: "brelse (Suc n) zz x (upd_bh x (\<lambda>h. h\<lparr>b_uptodate := 1, b_dirt := 1\<rparr>) (s2\<lparr>bdata := clear_block (b_data (heads s2 x)) (bdata s2)\<rparr>)) = Inr s4"
    and h4: "heads s4 = (heads s2)(x := (heads s2 x)\<lparr>b_uptodate := 1, b_dirt := 1, b_count := 0\<rparr>)"
    and f4: "bdata s4 = clear_block (b_data (heads s x)) (bdata s1)" "super_block s4 = super_block s" and l4: "same_links s2 s4"
    using zero_release[OF g(11,10,3), of "Suc n" zz] by (auto simp: f2 d2)
  have k64: "k < 65536" using assms(13) unat_lt_16[of "s_nzones (super_block s b)"] by linarith
  have kw: "of_nat j + (of_nat i * 8192 + ucast (s_firstdatazone (super_block s b)) - 1) = (of_nat k :: u32)"
  proof -
    have "(of_nat (k + 1) :: u32) = of_nat (j + i * 8192 + unat (s_firstdatazone (super_block s b)))" using assms(11,12) by simp
    then show ?thesis by (simp add: algebra_simps)
  qed
  have nb: "new_block (Suc n) zz (ucast d) s = Inr (of_nat k, s4)"
  proof -
    have "(ucast d :: u32) \<noteq> 0" using assms(4) by (simp add: ucast_16_inj[of d 0, simplified])
    note get = get_super_now[OF assms(5,6) this, of n zz]
    have set: "set_bit_op j ?a (bdata s) = (False, bdata s1)" using set_bit_op_spec(1)[OF S(4), of ?a "bdata s"] S(5) by (simp add: sb1 prod_eq_iff)
    have fold1: "upd_bh zm (\<lambda>h. h\<lparr>b_dirt := 1\<rparr>) (s\<lparr>bdata := bdata s1\<rparr>) = s1" by (simp only: sb1(2)) (simp only: s1_def)
    have "\<not> (ucast (s_nzones (super_block s b)) :: u32) <=s of_nat k" using sle_nat_16[OF k64] assms(13) by simp
    then show ?thesis
      using get assms(7) set g(1,3,10) r kw
      by (simp add: new_block_def Let_def assms(8)[symmetric] sb1(1) fold1 del: getblk.simps)
  qed
  have ap: "1024 \<le> unat (b_data (heads s p) - b_data (heads s p'))" if "p \<in> set fl" "p' \<in> set fl" "p \<noteq> p'" for p p'
    using assms(3) that by (simp add: data_apart_def)
  have "used_bits ?a (bdata s4) = insert j (used_bits ?a (bdata s))"
    unfolding f4 using used_bits_clear_block[OF ap ap] set_bit_op_spec(2)[OF S(4)] assms(9) g(2) xz by (simp add: sb1)
  moreover have "bdata s4 (b_data (heads s p) + of_nat t) = bdata s (b_data (heads s p) + of_nat t)"
    if "p \<in> set fl" "p \<noteq> zm" "p \<noteq> x" "t < 1024" for p t
    using apart_byte[OF ap ap that(4), of p x] that g(2) bit_op_apart(1)[OF S(4) ap ap that(4), of p zm] assms(9) by (simp add: f4 sb1 clear_block_def stosb_apply)
  moreover have "bdata s4 (b_data (heads s x) + of_nat t) = 0" if "t < 1024" for t
    using that by (simp add: f4 clear_block_def stosb_apply unat_of_nat)
  moreover have "cache_inv (set fl) s4" using same_links_inv[OF l4 g(5)] .
  moreover have "b_count (heads s x) = 0" using g(4) xz by (simp add: h1)
  ultimately show ?thesis using nb S(5) g xz h4 f4(2) d2 by (intro exI[of _ x] exI[of _ s4]) simp
qed

lemma free_block_ok:
  fixes d :: u16 and s :: fsst
  assumes "cache_rep fl ch s" and "d \<noteq> 0" and "find_super (ucast d) s = Some b" and "s_lock (super_block s b) = 0"
    and "1 \<le> unat (s_firstdatazone (super_block s b))" and "unat (s_firstdatazone (super_block s b)) \<le> k" and "k < unat (s_nzones (super_block s b))"
    and "jj = k - (unat (s_firstdatazone (super_block s b)) - 1)" and "zm = s_zmap (super_block s b) (jj div 8192)" and "zm \<noteq> 0"
    and "jj mod 8192 \<in> used_bits (b_data (heads s zm)) (bdata s)"
    and "x \<in> set fl" and "b_dev (heads s x) = d \<and> b_blocknr (heads s x) = of_nat k \<and> b_lock (heads s x) = 0" and "b_count (heads s x) = 0" and "x \<noteq> zm"
  shows "\<exists>s'. free_block (Suc n) zz (ucast d) (of_nat k) s = Inr s' \<and> same_links s s'
    \<and> used_bits (b_data (heads s zm)) (bdata s') = used_bits (b_data (heads s zm)) (bdata s) - {jj mod 8192}
    \<and> bdata s' = snd (clear_bit_op (jj mod 8192) (b_data (heads s zm)) (bdata s)) \<and> (\<forall>p. b_data (heads s' p) = b_data (heads s p))
    \<and> b_count (heads s' x) = 0 \<and> b_dirt (heads s' x) = 0 \<and> b_uptodate (heads s' x) = 0"
proof -
  let ?fdz = "s_firstdatazone (super_block s b)"
  have k64: "k < 65536" using assms(7) unat_lt_16[of "s_nzones (super_block s b)"] by linarith
  have zone: "\<not> (of_nat k <s (ucast ?fdz :: u32) \<or> (ucast (s_nzones (super_block s b)) :: u32) <=s of_nat k)"
    using sle_nat_16[OF k64] assms(6,7) by (simp add: sless_not_sle)
  have "of_nat k - (ucast ?fdz - 1) = (of_nat jj :: u32)"
  proof -
    have "(of_nat (jj + unat ?fdz) :: u32) = of_nat (k + 1)" using assms(5,6,8) by simp
    then show ?thesis by (simp add: algebra_simps)
  qed
  moreover have "unat (of_nat jj :: u32) = jj" using assms(8) k64 by (simp add: unat_of_nat)
  ultimately have jw: "unat (of_nat k - (ucast ?fdz - 1) :: u32) = jj" by simp
  define s1 where "s1 = upd_bh x (\<lambda>h. h\<lparr>b_dirt := 0, b_uptodate := 0\<rparr>) (upd_bh x (\<lambda>h. h\<lparr>b_count := b_count h + 1\<rparr>) s)"
  have "x \<noteq> 0" using assms(12) cache_repD(2)[OF assms(1)] by auto
  moreover have "b_lock (heads s1 x) = 0" "b_count (heads s1 x) \<noteq> 0" using assms(13,14) by (simp_all add: s1_def upd_bh_def)
  ultimately obtain w kk where r: "brelse (Suc n) zz x s1 = Inr ((upd_bh x (\<lambda>h. h\<lparr>b_count := b_count h - 1\<rparr>) s1)\<lparr>buffer_wait := w, bio_sched := kk\<rparr>)"
    using brelse_now[of s1 x "Suc n" zz] by blast
  define s2 where "s2 = (upd_bh x (\<lambda>h. h\<lparr>b_count := b_count h - 1\<rparr>) s1)\<lparr>buffer_wait := w, bio_sched := kk\<rparr>"
  have f2: "super_block s2 = super_block s" "bdata s2 = bdata s" "heads s2 zm = heads s zm" "same_links s s2"
    "b_count (heads s2 x) = 0" "b_dirt (heads s2 x) = 0" "b_uptodate (heads s2 x) = 0"
    using assms(14,15) by (simp_all add: s2_def s1_def upd_bh_def same_links_def)
  have "jj mod 8192 < 8192" by simp
  note C = clear_bit_op_spec[OF this, of "b_data (heads s zm)" "bdata s"]
  let ?s3 = "upd_bh zm (\<lambda>h. h\<lparr>b_dirt := 1\<rparr>) (s2\<lparr>bdata := snd (clear_bit_op (jj mod 8192) (b_data (heads s zm)) (bdata s))\<rparr>)"
  have "clear_zone b (of_nat k - (ucast ?fdz - 1)) s2 = Inr ?s3"
    using C(1) assms(10,11) by (simp add: clear_zone_def Let_def jw f2 case_prod_beta assms(9)[symmetric])
  moreover have "get_super (Suc n) zz (ucast d) s = Inr (Some b, s)"
    by (rule get_super_now[OF assms(3,4)]) (use assms(2) ucast_16_inj[of d 0] in simp)
  moreover have "b_count (heads (upd_bh x (\<lambda>h. h\<lparr>b_count := b_count h + 1\<rparr>) s) x) = 1" using assms(14) by (simp add: upd_bh_def)
  moreover note r[folded s2_def]
  ultimately have "free_block (Suc n) zz (ucast d) (of_nat k) s = Inr ?s3"
    using get_hash_table_hit[OF assms(1,2,12,13), of n zz] zone \<open>x \<noteq> 0\<close>
    by (simp add: free_block_def s1_def[symmetric] f2(1) del: get_hash_table.simps)
  moreover have "same_links s ?s3" using f2(4) by (simp add: same_links_def upd_bh_def)
  moreover have "b_data (heads ?s3 p) = b_data (heads s p)" for p by (simp add: upd_bh_def s2_def s1_def)
  ultimately show ?thesis using C(2) f2 assms(15) by (intro exI[of _ ?s3]) (simp add: upd_bh_def)
qed

text \<open>The zone bitmap as a whole: eight blocks of 8192 bits in the order of their slots, of which those that are loaded count.\<close>

definition map_bits :: "(nat \<Rightarrow> u32) \<Rightarrow> nat set" where
  "map_bits maps = {z. z < 8 * 8192 \<and> maps (z div 8192) \<noteq> 0}"

definition used_in_maps :: "(nat \<Rightarrow> u32) \<Rightarrow> fsst \<Rightarrow> nat set" where
  "used_in_maps maps s = {z \<in> map_bits maps. z mod 8192 \<in> used_bits (b_data (heads s (maps (z div 8192)))) (bdata s)}"

lemma map_bit_split: "i < 8 \<Longrightarrow> j < 8192 \<Longrightarrow> (8192 * i + j) div 8192 = i \<and> (8192 * i + j) mod 8192 = j \<and> 8192 * i + j < 8 * (8192 :: nat)"
  by simp

lemma div_mod_eq_iff: "i = z div 8192 \<Longrightarrow> j = z mod 8192 \<Longrightarrow> z' div 8192 = i \<and> z' mod 8192 = j \<longleftrightarrow> z' = (z :: nat)"
  by (metis div_mult_mod_eq)

text \<open>The scan of the blocks finds the least unused bit of the whole bitmap.\<close>

lemma scan_maps_least:
  assumes "z \<in> map_bits maps" and "z \<notin> used_in_maps maps s" and "\<forall>z' < z. z' \<in> map_bits maps \<longrightarrow> z' \<in> used_in_maps maps s"
  shows "scan_maps maps s = Some (z div 8192, z mod 8192)"
proof -
  define i j where "i = z div 8192" and "j = z mod 8192"
  have z: "z = 8192 * i + j" "i < 8" "j < 8192" "maps i \<noteq> 0" using assms(1) by (auto simp: map_bits_def i_def j_def)
  let ?B = "\<lambda>i. used_bits (b_data (heads s (maps i))) (bdata s)" and ?f = "\<lambda>i. find_first_zero (b_data (heads s (maps i))) (bdata s)"
  have jf: "j \<notin> ?B i" using assms(1,2) by (simp add: used_in_maps_def i_def j_def)
  have jl: "j' \<in> ?B i" if "j' < j" for j'
    using assms(3)[rule_format, of "8192 * i + j'"] that z map_bit_split[OF z(2), of j'] by (simp add: map_bits_def used_in_maps_def)
  have fi: "?f i = j" unfolding find_first_zero_is by (rule Least_equality) (use jf jl linorder_not_less in blast)+
  have fl: "\<not> ?f i' < 8192" if "i' < i" "maps i' \<noteq> 0" for i'
  proof
    assume l: "?f i' < 8192"
    have "8192 * i' + ?f i' < z" using that(1) l z(1) by simp
    then have "8192 * i' + ?f i' \<in> used_in_maps maps s" using assms(3) that z(2) l map_bit_split[of i' "?f i'"] by (simp add: map_bits_def)
    then show False using find_first_zero_free map_bit_split[of i' "?f i'"] that z(2) l by (simp add: used_in_maps_def)
  qed
  have "List.find (\<lambda>i. maps i \<noteq> 0 \<and> ?f i < 8192) [0..<8] = Some i"
    unfolding find_Some_iff using z fi fl by (intro exI[of _ i]) auto
  then show ?thesis by (simp add: scan_maps_def fi i_def[symmetric] j_def[symmetric])
qed

text \<open>One bit of one block changes, and no byte of the other blocks.\<close>

lemma used_in_maps_change:
  assumes "z \<in> map_bits maps" and "\<forall>i<8. \<forall>j<8. maps i \<noteq> 0 \<and> maps i = maps j \<longrightarrow> i = j"
    and "\<And>p. b_data (heads s' p) = b_data (heads s p)"
    and "used_bits (b_data (heads s (maps (z div 8192)))) (bdata s') = F (used_bits (b_data (heads s (maps (z div 8192)))) (bdata s)) {z mod 8192}"
    and "\<And>i t. i < 8 \<Longrightarrow> maps i \<noteq> 0 \<Longrightarrow> maps i \<noteq> maps (z div 8192) \<Longrightarrow> t < 1024
      \<Longrightarrow> bdata s' (b_data (heads s (maps i)) + of_nat t) = bdata s (b_data (heads s (maps i)) + of_nat t)"
    and "F = (\<union>) \<or> F = (-)"
  shows "used_in_maps maps s' = F (used_in_maps maps s) {z}"
proof (rule set_eqI)
  fix y
  have same: "used_bits (b_data (heads s (maps i))) (bdata s') = used_bits (b_data (heads s (maps i))) (bdata s)"
    if "i < 8" "maps i \<noteq> 0" "maps i \<noteq> maps (z div 8192)" for i
    by (rule used_bits_cong) (use assms(5)[OF that] in simp)
  have zb: "z div 8192 < 8" "maps (z div 8192) \<noteq> 0" using assms(1) by (auto simp: map_bits_def)
  show "y \<in> used_in_maps maps s' \<longleftrightarrow> y \<in> F (used_in_maps maps s) {z}"
  proof (cases "y \<in> map_bits maps")
    case y: True
    then have yb: "y div 8192 < 8" "maps (y div 8192) \<noteq> 0" by (auto simp: map_bits_def)
    have zy: "y div 8192 = z div 8192 \<and> y mod 8192 = z mod 8192 \<longleftrightarrow> y = z" by (rule div_mod_eq_iff[OF refl refl])
    show ?thesis
    proof (cases "maps (y div 8192) = maps (z div 8192)")
      case True
      then have d: "y div 8192 = z div 8192" using assms(2) yb zb by blast
      have m: "y mod 8192 = z mod 8192 \<longleftrightarrow> y = z" using zy d by simp
      have e: "y \<in> used_in_maps maps s' \<longleftrightarrow> y mod 8192 \<in> F (used_bits (b_data (heads s (maps (z div 8192)))) (bdata s)) {z mod 8192}"
        "y \<in> used_in_maps maps s \<longleftrightarrow> y mod 8192 \<in> used_bits (b_data (heads s (maps (z div 8192)))) (bdata s)"
        using y by (simp_all only: used_in_maps_def mem_Collect_eq assms(3) d assms(4) simp_thms)
      show ?thesis using assms(6) unfolding e(1) by (elim disjE) (simp_all only: Un_iff Diff_iff singleton_iff e(2) m)
    next
      case False
      then have "y \<noteq> z" by auto
      then show ?thesis using assms(6) same[OF yb False] y by (auto simp: used_in_maps_def assms(3))
    qed
  next
    case False
    then show ?thesis using assms(1,6) by (auto simp: used_in_maps_def)
  qed
qed

text \<open>C20: \<open>new_block\<close> takes the first unused number of the zone bitmap: the number returned is that of the data block that belongs to the
  least unused bit of the whole bitmap, all eight map blocks counted in order, that bit and no other of any of them changes,
  and a buffer of the cache holds the block, zeroed, up to date and dirty. \<open>free_block\<close> of this block clears the bit again, and no other,
  and makes the buffer's contents invalid. The cache stays coherent throughout. The map blocks are in buffers of their own that are in use.\<close>

theorem new_then_free_block:
  fixes d :: u16 and s :: fsst
  assumes "cache_rep fl ch s" and "2 \<le> length fl" and "data_apart (set fl) s" and "d \<noteq> 0"
    and "find_super (ucast d) s = Some b" and "s_lock (super_block s b) = 0" and "maps = s_zmap (super_block s b)"
    and "\<forall>i<8. maps i \<noteq> 0 \<longrightarrow> maps i \<in> set fl \<and> b_count (heads s (maps i)) \<noteq> 0"
    and "\<forall>i<8. \<forall>j<8. maps i \<noteq> 0 \<and> maps i = maps j \<longrightarrow> i = j"
    and "z \<in> map_bits maps - used_in_maps maps s" and "\<forall>z' < z. z' \<in> map_bits maps \<longrightarrow> z' \<in> used_in_maps maps s" and "0 < z"
    and "1 \<le> unat (s_firstdatazone (super_block s b))" and "k = z + unat (s_firstdatazone (super_block s b)) - 1"
    and "k < unat (s_nzones (super_block s b))"
    and "\<forall>p \<in> set fl. \<not> (b_dev (heads s p) = d \<and> b_blocknr (heads s p) = of_nat k)"
    and "q \<in> set fl \<and> b_count (heads s q) = 0 \<and> BADNESS (heads s q) = 0"
  shows "\<exists>x s' s''. new_block (Suc n) zz (ucast d) s = Inr (of_nat k, s')
    \<and> used_in_maps maps s' = insert z (used_in_maps maps s)
    \<and> b_dev (heads s' x) = d \<and> b_blocknr (heads s' x) = of_nat k \<and> b_uptodate (heads s' x) = 1 \<and> b_dirt (heads s' x) = 1
    \<and> (\<forall>t < 1024. bdata s' (b_data (heads s' x) + of_nat t) = 0) \<and> cache_inv (set fl) s' \<and> super_block s' = super_block s
    \<and> free_block (Suc n) zz (ucast d) (of_nat k) s' = Inr s'' \<and> cache_inv (set fl) s''
    \<and> used_in_maps maps s'' = used_in_maps maps s
    \<and> b_dirt (heads s'' x) = 0 \<and> b_uptodate (heads s'' x) = 0"
proof -
  define i j zm where "i = z div 8192" and "j = z mod 8192" and "zm = maps (z div 8192)"
  have zb: "z \<in> map_bits maps" "z \<notin> used_in_maps maps s" "i < 8" "zm \<noteq> 0" "z = j + i * 8192" "j < 8192"
    using assms(10) by (auto simp: map_bits_def i_def j_def zm_def)
  have sc: "scan_maps (s_zmap (super_block s b)) s = Some (i, j)"
    using scan_maps_least[OF zb(1,2) assms(11)] by (simp add: assms(7)[symmetric] i_def j_def)
  have zm: "zm = s_zmap (super_block s b) i" "zm \<in> set fl" "b_count (heads s zm) \<noteq> 0" using assms(7,8) zb(3,4) by (simp_all add: zm_def i_def)
  have kz: "k = j + i * 8192 + unat (s_firstdatazone (super_block s b)) - 1" using assms(14) zb(5) by simp
  obtain x s' where N: "new_block (Suc n) zz (ucast d) s = Inr (of_nat k, s')"
    "used_bits (b_data (heads s zm)) (bdata s') = insert j (used_bits (b_data (heads s zm)) (bdata s))"
    "\<forall>p \<in> set fl. p \<noteq> zm \<and> p \<noteq> x \<longrightarrow> (\<forall>t < 1024. bdata s' (b_data (heads s p) + of_nat t) = bdata s (b_data (heads s p) + of_nat t))"
    "x \<in> set fl" "x \<noteq> zm" "b_dev (heads s' x) = d" "b_blocknr (heads s' x) = of_nat k" "b_uptodate (heads s' x) = 1" "b_dirt (heads s' x) = 1"
    "b_count (heads s' x) = 0" "b_lock (heads s' x) = 0" "\<forall>t < 1024. bdata s' (b_data (heads s x) + of_nat t) = 0" "cache_inv (set fl) s'"
    "super_block s' = super_block s" "\<forall>p. b_data (heads s' p) = b_data (heads s p)" "b_count (heads s x) = 0"
    using new_block_ok[OF assms(1-6) sc zm assms(13) kz assms(15-17), of n zz] by (elim exE conjE) (rule that; assumption)
  have nx: "maps i' \<noteq> x" if "i' < 8" "maps i' \<noteq> 0" for i' using assms(8) that N(16) by metis
  have ins: "used_in_maps maps s' = used_in_maps maps s \<union> {z}"
    by (rule used_in_maps_change[OF zb(1) assms(9)]) (use N(2,3,15) nx assms(8) in \<open>auto simp: zm_def[symmetric] j_def[symmetric]\<close>)
  obtain fl' ch' where R: "cache_rep fl' ch' s'" "set fl' = set fl" using N(13) by (auto simp: cache_inv_def)
  have jj: "z = k - (unat (s_firstdatazone (super_block s' b)) - 1)" using assms(13,14) N(14) by simp
  have sup: "find_super (ucast d) s' = Some b" using assms(5) by (simp add: find_super_def N(14))
  have sb: "s_lock (super_block s' b) = 0" "1 \<le> unat (s_firstdatazone (super_block s' b))" "unat (s_firstdatazone (super_block s' b)) \<le> k"
    "k < unat (s_nzones (super_block s' b))" unfolding N(14) using assms(6,12-15) by linarith+
  have zm': "zm = s_zmap (super_block s' b) (z div 8192)" unfolding N(14) using assms(7) by (simp add: zm_def)
  have u: "z mod 8192 \<in> used_bits (b_data (heads s' zm)) (bdata s')" using N(2,15) by (simp add: j_def)
  have xf: "x \<in> set fl'" using N(4) R(2) by simp
  obtain s'' where F: "free_block (Suc n) zz (ucast d) (of_nat k) s' = Inr s''" "same_links s' s''"
    "used_bits (b_data (heads s' zm)) (bdata s'') = used_bits (b_data (heads s' zm)) (bdata s') - {z mod 8192}"
    "bdata s'' = snd (clear_bit_op (z mod 8192) (b_data (heads s' zm)) (bdata s'))" "\<forall>p. b_data (heads s'' p) = b_data (heads s' p)"
    "b_dirt (heads s'' x) = 0" "b_uptodate (heads s'' x) = 0"
    using free_block_ok[OF R(1) assms(4) sup sb jj zm' zb(4) u xf _ N(10,5), of n zz] N(6,7,11) by blast
  have ap: "1024 \<le> unat (b_data (heads s p) - b_data (heads s p'))" if "p \<in> set fl" "p' \<in> set fl" "p \<noteq> p'" for p p'
    using assms(3) that by (simp add: data_apart_def)
  have "used_in_maps maps s'' = used_in_maps maps s' - {z}"
  proof (rule used_in_maps_change[OF zb(1) assms(9)])
    show "bdata s'' (b_data (heads s' (maps i)) + of_nat t) = bdata s' (b_data (heads s' (maps i)) + of_nat t)"
      if "i < 8" "maps i \<noteq> 0" "maps i \<noteq> maps (z div 8192)" "t < 1024" for i t
      unfolding F(4) N(15)[rule_format] by (rule bit_op_apart(2)) (use that assms(8) zm(2) ap in \<open>auto simp: zm_def\<close>)
  qed (use F(3,5) in \<open>auto simp: zm_def[symmetric]\<close>)
  then have "used_in_maps maps s'' = used_in_maps maps s" using ins zb(2) by auto
  then show ?thesis using N F ins same_links_inv[OF F(2) N(13)] by (intro exI[of _ x] exI[of _ s'] exI[of _ s'']) simp
qed

text \<open>A file system with one bitmap block, in use, and one free buffer.\<close>

definition demo_zcache :: bio where
  "demo_zcache = demo_idle\<lparr>
     heads := (\<lambda>p. if p = 0x1000 then (heads demo_idle p)\<lparr>b_dev := 0x301, b_blocknr := 3, b_count := 1, b_uptodate := 1, b_data := 0x8000\<rparr>
                   else (heads demo_idle p)\<lparr>b_data := 0x9000\<rparr>),
     hash_table := (\<lambda>i. if i = 156 then 0x1000 else 0), bdata := (\<lambda>_. 0)(0x8000 := 1)\<rparr>"

definition demo_super :: "u16 \<Rightarrow> super_block" where
  "demo_super nz = \<lparr>s_ninodes = 64, s_nzones = nz, s_imap_blocks = 1, s_zmap_blocks = 1, s_firstdatazone = 10, s_log_zone_size = 0,
     s_max_size = 0, s_magic = SUPER_MAGIC, s_imap = (\<lambda>_. 0), s_zmap = (\<lambda>i. if i = 0 then 0x1000 else 0), s_dev = 0x301, s_isup = None,
     s_imount = None, s_time = 0, s_wait = 0, s_lock = 0, s_rd_only = 0, s_dirt = 0\<rparr>"

definition demo_fs :: "bio \<Rightarrow> u16 \<Rightarrow> fsst" where
  "demo_fs c nz = hdst.extend (demo_hd c) (fsst.fields (\<lambda>_. zero_inode) 0 (\<lambda>i. if i = 0 then demo_super nz else (demo_super nz)\<lparr>s_dev := 0\<rparr>)
     (\<lambda>_. \<lparr>f_mode = 0, f_flags = 0, f_count = 0, f_inode = None, f_pos = 0\<rparr>) 0x301 demo_mm (\<lambda>_. 0))"

lemma demo_fs_simps:
  "heads (demo_fs c nz) = heads c" "bdata (demo_fs c nz) = bdata c" "hash_table (demo_fs c nz) = hash_table c" "free_list (demo_fs c nz) = free_list c"
  "super_block (demo_fs c nz) = (\<lambda>i. if i = 0 then demo_super nz else (demo_super nz)\<lparr>s_dev := 0\<rparr>)" "inode_table (demo_fs c nz) = (\<lambda>_. zero_inode)"
  "bio_sched (demo_fs c nz) = bio_sched c" "last_inode (demo_fs c nz) = 0" "fs_seg (demo_fs c nz) = (\<lambda>_. 0)"
  by (simp_all add: demo_fs_def hdst.defs fsst.defs demo_hd_def bio.defs)

lemma demo_fs_rep:
  "cache_rep [0x1000, 0x2000] (\<lambda>i. if i = 156 then [0x1000] else []) (demo_fs demo_zcache nz)"
  by (auto simp: cache_rep_def demo_fs_simps demo_zcache_def demo_idle_def demo_cache_def demo_bio_def ring_def bh_hash_def hashfn_def)

lemma demo_fs_facts:
  "data_apart {0x1000, 0x2000} (demo_fs demo_zcache nz)" "find_super (ucast (0x301 :: u16)) (demo_fs demo_zcache nz) = Some 0"
  "b_count (heads (demo_fs demo_zcache nz) 0x1000) = 1" "b_data (heads (demo_fs demo_zcache nz) 0x1000) = 0x8000"
  "BADNESS (heads (demo_fs demo_zcache nz) 0x2000) = 0" "b_count (heads (demo_fs demo_zcache nz) 0x2000) = 0"
  by (simp_all add: data_apart_def demo_fs_simps demo_zcache_def find_super_def upt_rec demo_super_def demo_idle_def demo_cache_def demo_bio_def BADNESS_def)

lemma demo_first_zero: "find_first_zero 0x8000 ((\<lambda>_. 0)(0x8000 := 1)) = 1"
proof -
  have l: "ld32 ((\<lambda>_. 0)(0x8000 := 1)) 0x8000 = 1" by (simp add: ld32_def)
  have "bsf_from 32 0 (NOT 1 :: u32) = 1" using bsf_from.simps(2)[of 31 0 "NOT 1"] bsf_from.simps(2)[of 30 1 "NOT 1"] by (simp add: bit_not_iff bit_0 bit_1_iff)
  then show ?thesis using ffz_loop.simps(2)[of 255 "0x8000" "(\<lambda>_. 0)(0x8000 := 1)" 0] unfolding l by (simp add: find_first_zero_def Let_def)
qed

lemma demo_zscan: "scan_maps (s_zmap (super_block (demo_fs demo_zcache nz) 0)) (demo_fs demo_zcache nz) = Some (0, 1)"
proof -
  have "bdata demo_zcache = (\<lambda>_. 0)(0x8000 := 1)" by (simp add: demo_zcache_def)
  then show ?thesis using demo_fs_facts(4)[of nz] by (simp add: scan_maps_def demo_fs_simps upt_rec demo_super_def demo_first_zero)
qed

theorem new_then_free_block_witness:
  "\<exists>s' s''. new_block 1 (\<lambda>_. Inr) (ucast (0x301 :: u16)) (demo_fs demo_zcache 100) = Inr (of_nat 10, s')
    \<and> used_in_maps (s_zmap (demo_super 100)) s' = insert 1 (used_in_maps (s_zmap (demo_super 100)) (demo_fs demo_zcache 100))
    \<and> free_block 1 (\<lambda>_. Inr) (ucast (0x301 :: u16)) (of_nat 10) s' = Inr s''
    \<and> used_in_maps (s_zmap (demo_super 100)) s'' = used_in_maps (s_zmap (demo_super 100)) (demo_fs demo_zcache 100)"
proof -
  let ?s = "demo_fs demo_zcache 100" let ?m = "s_zmap (demo_super 100)"
  have sb: "s_lock (super_block ?s 0) = 0" "?m = s_zmap (super_block ?s 0)" "1 \<le> unat (s_firstdatazone (super_block ?s 0))"
    "10 = 1 + unat (s_firstdatazone (super_block ?s 0)) - 1" "10 < unat (s_nzones (super_block ?s 0))"
    by (simp_all add: demo_fs_simps demo_super_def)
  have miss: "\<forall>p \<in> set [0x1000, 0x2000 :: u32]. \<not> (b_dev (heads ?s p) = 0x301 \<and> b_blocknr (heads ?s p) = of_nat 10)"
    by (simp add: demo_fs_simps demo_zcache_def demo_idle_def demo_cache_def demo_bio_def)
  have q: "0x2000 \<in> set [0x1000, 0x2000 :: u32] \<and> b_count (heads ?s 0x2000) = 0 \<and> BADNESS (heads ?s 0x2000) = 0" by (simp add: demo_fs_facts)
  have l: "2 \<le> length [0x1000, 0x2000 :: u32]" "data_apart (set [0x1000, 0x2000]) ?s" "(0x301 :: u16) \<noteq> 0" using demo_fs_facts(1)[of 100] by simp_all
  have maps: "\<forall>i<8. ?m i \<noteq> 0 \<longrightarrow> ?m i \<in> set [0x1000, 0x2000] \<and> b_count (heads ?s (?m i)) \<noteq> 0" "\<forall>i<8. \<forall>j<8. ?m i \<noteq> 0 \<and> ?m i = ?m j \<longrightarrow> i = j"
    using demo_fs_facts(3)[of 100] by (auto simp: demo_super_def)
  have u: "z \<in> used_in_maps ?m ?s \<longleftrightarrow> z = 0" if "z < 2" for z :: nat
  proof -
    have "z = 0 \<or> z = 1" using that by linarith
    then show ?thesis using demo_fs_facts(4)[of 100] by (auto simp: used_in_maps_def map_bits_def used_bits_def demo_super_def demo_fs_simps demo_zcache_def)
  qed
  have least: "1 \<in> map_bits ?m - used_in_maps ?m ?s" "\<forall>z' < 1. z' \<in> map_bits ?m \<longrightarrow> z' \<in> used_in_maps ?m ?s"
    using u[of 1] u[of 0] by (simp_all add: map_bits_def demo_super_def)
  from new_then_free_block[OF demo_fs_rep l demo_fs_facts(2) sb(1,2) maps least _ sb(3-5) miss q, of 0 "\<lambda>_. Inr"]
  show ?thesis unfolding One_nat_def by blast
qed

text \<open>When the bitmap's least unused number lies behind the last block of the device, \<open>new_block\<close> reports that there is
  no space but has already set the bit.\<close>

theorem new_block_leaks_bit:
  fixes d :: u16 and s :: fsst
  assumes "d \<noteq> 0" and "find_super (ucast d) s = Some b" and "s_lock (super_block s b) = 0"
    and "scan_maps (s_zmap (super_block s b)) s = Some (i, j)"
    and "1 \<le> unat (s_firstdatazone (super_block s b))"
    and "unat (s_nzones (super_block s b)) \<le> j + i * 8192 + unat (s_firstdatazone (super_block s b)) - 1"
  shows "\<exists>s'. new_block (Suc n) zz (ucast d) s = Inr (0, s')
    \<and> used_bits (b_data (heads s (s_zmap (super_block s b) i))) (bdata s')
      = insert j (used_bits (b_data (heads s (s_zmap (super_block s b) i))) (bdata s))"
proof -
  note S = scan_maps_Some[OF assms(4)]
  let ?zm = "s_zmap (super_block s b) i" let ?a = "b_data (heads s ?zm)"
  define m where "m = snd (set_bit_op j ?a (bdata s))"
  define k where "k = j + i * 8192 + unat (s_firstdatazone (super_block s b)) - 1"
  have set: "set_bit_op j ?a (bdata s) = (False, m)" using set_bit_op_spec(1)[OF S(4), of ?a "bdata s"] S(5) by (simp add: m_def prod_eq_iff)
  have kw: "of_nat j + (of_nat i * 8192 + ucast (s_firstdatazone (super_block s b)) - 1) = (of_nat k :: u32)"
  proof -
    have "(of_nat (k + 1) :: u32) = of_nat (j + i * 8192 + unat (s_firstdatazone (super_block s b)))" using assms(5) by (simp add: k_def)
    then show ?thesis by (simp add: algebra_simps)
  qed
  have "k < 2147483648" using S(1,4) unat_lt_16[of "s_firstdatazone (super_block s b)"] by (simp add: k_def)
  then have "sint (of_nat k :: u32) = int k" by (subst sint_small32) (simp_all add: unat_of_nat)
  moreover have "sint (ucast (s_nzones (super_block s b)) :: u32) = int (unat (s_nzones (super_block s b)))"
    using unat_lt_16[of "s_nzones (super_block s b)"] by (subst sint_small32) (simp_all add: unat_ucast_16)
  ultimately have "(ucast (s_nzones (super_block s b)) :: u32) <=s of_nat k" using assms(6)[folded k_def] by (simp only: word_sle_eq of_nat_le_iff)
  moreover have "get_super (Suc n) zz (ucast d) s = Inr (Some b, s)"
    by (rule get_super_now[OF assms(2,3)]) (use assms(1) ucast_16_inj[of d 0] in simp)
  ultimately have "new_block (Suc n) zz (ucast d) s = Inr (0, upd_bh ?zm (\<lambda>h. h\<lparr>b_dirt := 1\<rparr>) (s\<lparr>bdata := m\<rparr>))"
    using assms(4) set kw by (simp add: new_block_def Let_def upd_bh_def)
  then show ?thesis using set_bit_op_spec(2)[OF S(4), of ?a "bdata s"] by (simp add: m_def upd_bh_def)
qed

theorem new_block_leaks_bit_witness:
  "\<exists>s'. new_block 1 (\<lambda>_. Inr) (ucast (0x301 :: u16)) (demo_fs demo_zcache 10) = Inr (0, s') \<and> 1 \<in> used_bits 0x8000 (bdata s')"
proof -
  let ?s = "demo_fs demo_zcache 10"
  have sb: "s_lock (super_block ?s 0) = 0" "1 \<le> unat (s_firstdatazone (super_block ?s 0))" "s_zmap (super_block ?s 0) 0 = 0x1000"
    "unat (s_nzones (super_block ?s 0)) \<le> 1 + 0 * 8192 + unat (s_firstdatazone (super_block ?s 0)) - 1"
    by (simp_all add: demo_fs_simps demo_super_def)
  from new_block_leaks_bit[OF _ demo_fs_facts(2) sb(1) demo_zscan sb(2,4), of 0 "\<lambda>_. Inr"]
  show ?thesis unfolding sb(3) demo_fs_facts(4) One_nat_def by auto
qed

end
