(* ===== verification/Inode.thy ===== *)
theory Inode
  imports Bitmap
begin

text \<open>
  The inode table, fs/inode.c, and what else needs it: \<open>new_inode\<close> (fs/bitmap.c) and \<open>mount_root\<close> (fs/super.c).
  Waiting loops and the loops that start again after a sleep have fuel.
\<close>

section \<open>Modes and locks\<close>

definition S_IS :: "u16 \<Rightarrow> u16 \<Rightarrow> bool" where "S_IS fmt m \<longleftrightarrow> m AND 0xf000 = fmt"

abbreviation (input) S_IFREG :: u16 where "S_IFREG \<equiv> 0x8000"
abbreviation (input) S_IFBLK :: u16 where "S_IFBLK \<equiv> 0x6000"
abbreviation (input) S_IFDIR :: u16 where "S_IFDIR \<equiv> 0x4000"
abbreviation (input) S_IFCHR :: u16 where "S_IFCHR \<equiv> 0x2000"
abbreviation (input) ROOT_INO :: u32 where "ROOT_INO \<equiv> 1"
abbreviation (input) CURRENT_TIME :: u32 where "CURRENT_TIME \<equiv> 0"

primrec wait_on_inode :: "nat \<Rightarrow> fs_sleep \<Rightarrow> nat \<Rightarrow> fsst \<Rightarrow> fsst kres" where
  "wait_on_inode 0 zz ip s = (if i_lock (inode_table s ip) \<noteq> 0 then Inl Hang else Inr s)"
| "wait_on_inode (Suc n) zz ip s =
     (if i_lock (inode_table s ip) \<noteq> 0 then kbind (zz (I_wait ip) s) (wait_on_inode n zz ip) else Inr s)"

definition lock_inode :: "nat \<Rightarrow> fs_sleep \<Rightarrow> nat \<Rightarrow> fsst \<Rightarrow> fsst kres" where
  "lock_inode n zz ip s = kbind (wait_on_inode n zz ip s) (\<lambda>s. Inr (upd_inode ip (\<lambda>i. i\<lparr>i_lock := 1\<rparr>) s))"

definition wake_inode :: "nat \<Rightarrow> fsst \<Rightarrow> fsst" where
  "wake_inode ip s =
     (case wake_up (i_wait (inode_table s ip)) (bio_sched s) of
        (p, k) \<Rightarrow> upd_inode ip (\<lambda>i. i\<lparr>i_wait := p\<rparr>) (s\<lparr>bio_sched := k\<rparr>))"

definition unlock_inode :: "nat \<Rightarrow> fsst \<Rightarrow> fsst" where
  "unlock_inode ip s = wake_inode ip (upd_inode ip (\<lambda>i. i\<lparr>i_lock := 0\<rparr>) s)"

section \<open>Inodes on disk\<close>

text \<open>The 32 bytes of \<open>struct d_inode\<close>, assigned from and to the head of \<open>struct m_inode\<close>.\<close>

definition get_d_inode :: "mem \<Rightarrow> u32 \<Rightarrow> m_inode \<Rightarrow> m_inode" where
  "get_d_inode m a i = i\<lparr>i_mode := ld16 m a, i_uid := ld16 m (a + 2), i_size := ld32 m (a + 4), i_mtime := ld32 m (a + 8),
     i_gid := m (a + 12), i_nlinks := m (a + 13),
     i_zone := (\<lambda>k. if k < 9 then ld16 m (a + 14 + 2 * of_nat k) else i_zone i k)\<rparr>"

primrec put_zones :: "nat \<Rightarrow> (nat \<Rightarrow> u16) \<Rightarrow> u32 \<Rightarrow> mem \<Rightarrow> mem" where
  "put_zones 0 z a m = m"
| "put_zones (Suc k) z a m = st16 (put_zones k z a m) (a + 2 * of_nat k) (z k)"

definition put_d_inode :: "m_inode \<Rightarrow> u32 \<Rightarrow> mem \<Rightarrow> mem" where
  "put_d_inode i a m =
     (let m = st16 m a (i_mode i); m = st16 m (a + 2) (i_uid i); m = st32 m (a + 4) (i_size i); m = st32 m (a + 8) (i_mtime i);
          m = m(a + 12 := i_gid i, a + 13 := i_nlinks i)
      in put_zones 9 (i_zone i) (a + 14) m)"

text \<open>The block of an inode and its place there; \<open>INODES_PER_BLOCK\<close> is unsigned, so the arithmetic is too.\<close>

definition inode_block :: "super_block \<Rightarrow> u16 \<Rightarrow> u32" where
  "inode_block b num = 2 + ucast (s_imap_blocks b) + ucast (s_zmap_blocks b) + (ucast num - 1) div 32"

definition inode_offset :: "u16 \<Rightarrow> u32" where
  "inode_offset num = 32 * ((ucast num - 1) mod 32)"

definition read_inode :: "nat \<Rightarrow> fs_sleep \<Rightarrow> nat \<Rightarrow> fsst \<Rightarrow> fsst kres" where
  "read_inode n zz ip s =
     kbind (lock_inode n zz ip s) (\<lambda>s.
     kbind (get_super n zz (ucast (i_dev (inode_table s ip))) s) (\<lambda>(sb, s).
       case sb of
         None \<Rightarrow> Inl (Panic ''trying to read inode without dev'')
       | Some b \<Rightarrow>
           kbind (fbread n zz (ucast (i_dev (inode_table s ip))) (inode_block (super_block s b) (i_num (inode_table s ip))) s) (\<lambda>(bh, s).
             if bh = 0 then Inl (Panic ''unable to read i-node block'')
             else
              (let s = upd_inode ip (get_d_inode (bdata s) (b_data (heads s bh) + inode_offset (i_num (inode_table s ip)))) s
               in kbind (brelse n zz bh s) (\<lambda>s. Inr (unlock_inode ip s))))))"

definition write_inode :: "nat \<Rightarrow> fs_sleep \<Rightarrow> nat \<Rightarrow> fsst \<Rightarrow> fsst kres" where
  "write_inode n zz ip s =
     kbind (lock_inode n zz ip s) (\<lambda>s.
       if i_dirt (inode_table s ip) = 0 \<or> i_dev (inode_table s ip) = 0 then Inr (unlock_inode ip s)
       else kbind (get_super n zz (ucast (i_dev (inode_table s ip))) s) (\<lambda>(sb, s).
         case sb of
           None \<Rightarrow> Inl (Panic ''trying to write inode without device'')
         | Some b \<Rightarrow>
             kbind (fbread n zz (ucast (i_dev (inode_table s ip))) (inode_block (super_block s b) (i_num (inode_table s ip))) s) (\<lambda>(bh, s).
               if bh = 0 then Inl (Panic ''unable to read i-node block'')
               else
                (let i = inode_table s ip;
                     s = s\<lparr>bdata := put_d_inode i (b_data (heads s bh) + inode_offset (i_num i)) (bdata s)\<rparr>;
                     s = upd_inode ip (\<lambda>i. i\<lparr>i_dirt := 0\<rparr>) (upd_bh bh (\<lambda>h. h\<lparr>b_dirt := 1\<rparr>) s)
                 in kbind (brelse n zz bh s) (\<lambda>s. Inr (unlock_inode ip s))))))"

section \<open>Releasing and getting inodes\<close>

text \<open>From the label \<open>repeat\<close> on.\<close>

primrec iput_loop :: "nat \<Rightarrow> fs_sleep \<Rightarrow> nat \<Rightarrow> fsst \<Rightarrow> fsst kres" where
  "iput_loop 0 zz ip s = Inl Hang"
| "iput_loop (Suc n) zz ip s =
     (let i = inode_table s ip
      in if 1 < i_count i then Inr (upd_inode ip (\<lambda>i. i\<lparr>i_count := i_count i - 1\<rparr>) s)
         else if i_nlinks i = 0 then free_inode n zz (Some ip) s
         else if i_dirt i \<noteq> 0 then
           kbind (write_inode n zz ip s) (\<lambda>s. kbind (wait_on_inode n zz ip s) (iput_loop n zz ip))
         else Inr (upd_inode ip (\<lambda>i. i\<lparr>i_count := i_count i - 1\<rparr>) s))"

definition iput :: "nat \<Rightarrow> fs_sleep \<Rightarrow> nat option \<Rightarrow> fsst \<Rightarrow> fsst kres" where
  "iput n zz inode s0 =
     (case inode of
        None \<Rightarrow> Inr s0
      | Some ip \<Rightarrow>
          kbind (wait_on_inode n zz ip s0) (\<lambda>s.
            if i_count (inode_table s ip) = 0 then Inl (Panic ''iput: trying to free free inode'')
            else if i_pipe (inode_table s ip) \<noteq> 0 then
             (let s = upd_inode ip (\<lambda>i. i\<lparr>i_count := i_count i - 1\<rparr>) (wake_inode ip s)
              in if i_count (inode_table s ip) \<noteq> 0 then Inr s
                 else kbind (free_page (i_size (inode_table s ip)) (fs_mm s)) (\<lambda>mm.
                   Inr (upd_inode ip (\<lambda>i. i\<lparr>i_count := 0, i_dirt := 0, i_pipe := 0\<rparr>) (s\<lparr>fs_mm := mm\<rparr>))))
            else if i_dev (inode_table s ip) = 0 then Inr (upd_inode ip (\<lambda>i. i\<lparr>i_count := i_count i - 1\<rparr>) s)
            else kbind (if S_IS S_IFBLK (i_mode (inode_table s ip)) then wait_on_inode n zz ip s else Inr s) (iput_loop n zz ip)))"

text \<open>The \<open>for\<close> loop of \<open>get_empty_inode\<close>: the pointer \<open>last_inode\<close> goes round the table; an unused inode is
  remembered, and the loop ends at one that is also clean and unlocked.\<close>

primrec scan_inodes :: "nat \<Rightarrow> (nat \<Rightarrow> m_inode) \<Rightarrow> nat \<Rightarrow> nat option \<Rightarrow> nat \<times> nat option" where
  "scan_inodes 0 tab lst cand = (lst, cand)"
| "scan_inodes (Suc k) tab lst cand =
     (let l = (if NR_INODE \<le> Suc lst then 0 else Suc lst)
      in if i_count (tab l) = 0
         then if i_dirt (tab l) = 0 \<and> i_lock (tab l) = 0 then (l, Some l) else scan_inodes k tab l (Some l)
         else scan_inodes k tab l cand)"

primrec flush_inode :: "nat \<Rightarrow> fs_sleep \<Rightarrow> nat \<Rightarrow> fsst \<Rightarrow> fsst kres" where
  "flush_inode 0 zz ip s = (if i_dirt (inode_table s ip) \<noteq> 0 then Inl Hang else Inr s)"
| "flush_inode (Suc n) zz ip s =
     (if i_dirt (inode_table s ip) \<noteq> 0
      then kbind (write_inode n zz ip s) (\<lambda>s. kbind (wait_on_inode n zz ip s) (flush_inode n zz ip))
      else Inr s)"

primrec get_empty_inode :: "nat \<Rightarrow> fs_sleep \<Rightarrow> fsst \<Rightarrow> (nat \<times> fsst) kres" where
  "get_empty_inode 0 zz s = Inl Hang"
| "get_empty_inode (Suc n) zz s =
     (case scan_inodes NR_INODE (inode_table s) (last_inode s) None of
        (l, None) \<Rightarrow> Inl (Panic ''No free inodes in mem'')
      | (l, Some ip) \<Rightarrow>
          kbind (wait_on_inode n zz ip (s\<lparr>last_inode := l\<rparr>)) (\<lambda>s.
          kbind (flush_inode n zz ip s) (\<lambda>s.
            if i_count (inode_table s ip) \<noteq> 0 then get_empty_inode n zz s
            else Inr (ip, upd_inode ip (\<lambda>_. zero_inode\<lparr>i_count := 1\<rparr>) s))))"

definition find_inode :: "u32 \<Rightarrow> u32 \<Rightarrow> fsst \<Rightarrow> nat option" where
  "find_inode dev nr s =
     List.find (\<lambda>ip. ucast (i_dev (inode_table s ip)) = dev \<and> ucast (i_num (inode_table s ip)) = nr) [0..<NR_INODE]"

text \<open>The search of \<open>iget\<close>; it starts again at the head of the table after every wait that changed the inode
  and after crossing a mount point. \<open>empty\<close> is the inode got for the case that nothing is found.\<close>

primrec iget_loop :: "nat \<Rightarrow> fs_sleep \<Rightarrow> nat \<Rightarrow> u32 \<Rightarrow> u32 \<Rightarrow> fsst \<Rightarrow> (nat \<times> fsst) kres" where
  "iget_loop 0 zz empt dev nr s = Inl Hang"
| "iget_loop (Suc n) zz empt dev nr s =
     (case find_inode dev nr s of
        None \<Rightarrow> kbind (read_inode n zz empt (upd_inode empt (\<lambda>i. i\<lparr>i_dev := ucast dev, i_num := ucast nr\<rparr>) s)) (\<lambda>s. Inr (empt, s))
      | Some ip \<Rightarrow>
          kbind (wait_on_inode n zz ip s) (\<lambda>s.
            if ucast (i_dev (inode_table s ip)) \<noteq> dev \<or> ucast (i_num (inode_table s ip)) \<noteq> nr then iget_loop n zz empt dev nr s
            else
             (let s = upd_inode ip (\<lambda>i. i\<lparr>i_count := i_count i + 1\<rparr>) s
              in if i_mount (inode_table s ip) \<noteq> 0 then
                  (case List.find (\<lambda>b. s_imount (super_block s b) = Some ip) [0..<NR_SUPER] of
                     None \<Rightarrow> kbind (iput n zz (Some empt) s) (\<lambda>s. Inr (ip, s))
                   | Some b \<Rightarrow> kbind (iput n zz (Some ip) s) (\<lambda>s.
                       iget_loop n zz empt (ucast (s_dev (super_block s b))) ROOT_INO s))
                 else kbind (iput n zz (Some empt) s) (\<lambda>s. Inr (ip, s)))))"

definition iget :: "nat \<Rightarrow> fs_sleep \<Rightarrow> u32 \<Rightarrow> u32 \<Rightarrow> fsst \<Rightarrow> (nat option \<times> fsst) kres" where
  "iget n zz dev nr s =
     (if dev = 0 then Inl (Panic ''iget with dev==0'')
      else kbind (get_empty_inode n zz s) (\<lambda>(empt, s).
        kbind (iget_loop n zz empt dev nr s) (\<lambda>(ip, s). Inr (Some ip, s))))"

section \<open>The block map of an inode\<close>

text \<open>\<open>if (create && !zone) if ((zone = new_block(dev))) { ctime; dirt }\<close> on an entry of \<open>i_zone\<close>.\<close>

definition zone_entry :: "nat \<Rightarrow> fs_sleep \<Rightarrow> bool \<Rightarrow> nat \<Rightarrow> nat \<Rightarrow> fsst \<Rightarrow> fsst kres" where
  "zone_entry n zz create ip k s =
     (if create \<and> i_zone (inode_table s ip) k = 0 then
        kbind (new_block n zz (ucast (i_dev (inode_table s ip))) s) (\<lambda>(b, s).
          let s = upd_inode ip (\<lambda>i. i\<lparr>i_zone := (i_zone i)(k := ucast b)\<rparr>) s
          in Inr (if i_zone (inode_table s ip) k \<noteq> 0 then upd_inode ip (\<lambda>i. i\<lparr>i_ctime := CURRENT_TIME, i_dirt := 1\<rparr>) s else s))
      else Inr s)"

text \<open>One level of indirection: entry \<open>k\<close> of the block \<open>blk\<close> of block numbers, made when it is zero.
  The result is 0 when the block cannot be read.\<close>

definition ind_entry :: "nat \<Rightarrow> fs_sleep \<Rightarrow> bool \<Rightarrow> nat \<Rightarrow> u32 \<Rightarrow> u32 \<Rightarrow> fsst \<Rightarrow> (u32 \<times> fsst) kres" where
  "ind_entry n zz create ip blk k s =
     kbind (fbread n zz (ucast (i_dev (inode_table s ip))) blk s) (\<lambda>(bh, s).
       if bh = 0 then Inr (0, s)
       else
        (let a = b_data (heads s bh) + 2 * k; i = ucast (ld16 (bdata s) a)
         in kbind (if create \<and> i = 0 then
                     kbind (new_block n zz (ucast (i_dev (inode_table s ip))) s) (\<lambda>(b, s).
                       Inr (b, if b \<noteq> 0 then upd_bh bh (\<lambda>h. h\<lparr>b_dirt := 1\<rparr>) (s\<lparr>bdata := st16 (bdata s) a (ucast b)\<rparr>) else s))
                   else Inr (i, s)) (\<lambda>(i, s).
              kbind (brelse n zz bh s) (\<lambda>s. Inr (i, s)))))"

definition bmap_c :: "nat \<Rightarrow> fs_sleep \<Rightarrow> nat \<Rightarrow> u32 \<Rightarrow> bool \<Rightarrow> fsst \<Rightarrow> (u32 \<times> fsst) kres" where
  "bmap_c n zz ip block create s =
     (if block <s 0 then Inl (Panic ''_bmap: block<0'')
      else if 262663 <=s block then Inl (Panic ''_bmap: block>big'')
      else if block < 7 then
        kbind (zone_entry n zz create ip (unat block) s) (\<lambda>s. Inr (ucast (i_zone (inode_table s ip) (unat block)), s))
      else if block - 7 < 512 then
        kbind (zone_entry n zz create ip 7 s) (\<lambda>s.
          if i_zone (inode_table s ip) 7 = 0 then Inr (0, s)
          else ind_entry n zz create ip (ucast (i_zone (inode_table s ip) 7)) (block - 7) s)
      else
        kbind (zone_entry n zz create ip 8 s) (\<lambda>s.
          if i_zone (inode_table s ip) 8 = 0 then Inr (0, s)
          else kbind (ind_entry n zz create ip (ucast (i_zone (inode_table s ip) 8))
                        (drop_bit 9 (block - 519)) s) (\<lambda>(i, s).
            if i = 0 then Inr (0, s)
            else ind_entry n zz create ip i ((block - 519) AND 511) s)))"

definition bmap :: "nat \<Rightarrow> fs_sleep \<Rightarrow> nat \<Rightarrow> u32 \<Rightarrow> fsst \<Rightarrow> (u32 \<times> fsst) kres" where
  "bmap n zz ip block s = bmap_c n zz ip block False s"

definition create_block :: "nat \<Rightarrow> fs_sleep \<Rightarrow> nat \<Rightarrow> u32 \<Rightarrow> fsst \<Rightarrow> (u32 \<times> fsst) kres" where
  "create_block n zz ip block s = bmap_c n zz ip block True s"

section \<open>New inodes and the root\<close>

abbreviation cur_task :: "fsst \<Rightarrow> task_struct" where
  "cur_task s \<equiv> tasks (bio_sched s) (current (bio_sched s))"

definition new_inode :: "nat \<Rightarrow> fs_sleep \<Rightarrow> u32 \<Rightarrow> fsst \<Rightarrow> (nat option \<times> fsst) kres" where
  "new_inode n zz dev s =
     kbind (get_empty_inode n zz s) (\<lambda>(ip, s).
     kbind (get_super n zz dev s) (\<lambda>(sb, s).
       case sb of
         None \<Rightarrow> Inl (Panic ''new_inode with unknown device'')
       | Some b \<Rightarrow>
          (case scan_maps (s_imap (super_block s b)) s of
             None \<Rightarrow> kbind (iput n zz (Some ip) s) (\<lambda>s. Inr (None, s))
           | Some (i, j) \<Rightarrow>
              if unat (s_ninodes (super_block s b)) < j + i * 8192 then kbind (iput n zz (Some ip) s) (\<lambda>s. Inr (None, s))
              else
               (let bh = s_imap (super_block s b) i
                in case set_bit_op j (b_data (heads s bh)) (bdata s) of (old, m) \<Rightarrow>
                  if old then Inl (Panic ''new_inode: bit already set'')
                  else
                   (let s = upd_bh bh (\<lambda>h. h\<lparr>b_dirt := 1\<rparr>) (s\<lparr>bdata := m\<rparr>)
                    in Inr (Some ip, upd_inode ip (\<lambda>x. x\<lparr>i_count := 1, i_nlinks := 1, i_dev := ucast dev, i_uid := t_euid (cur_task s),
                              i_gid := ucast (t_egid (cur_task s)), i_dirt := 1, i_num := of_nat (j + i * 8192),
                              i_mtime := CURRENT_TIME, i_atime := CURRENT_TIME, i_ctime := CURRENT_TIME\<rparr>) s))))))"

text \<open>\<open>mount_root\<close>. The two loops that count free blocks and inodes change nothing, but read through the bitmap
  pointers, so every bitmap block they meet has to be there.\<close>

definition maps_present :: "(nat \<Rightarrow> u32) \<Rightarrow> nat \<Rightarrow> bool" where
  "maps_present maps k = list_all (\<lambda>i. i < 8 \<and> maps i \<noteq> 0) (map (\<lambda>i. i div 8192) [0..<k])"

definition mount_root :: "nat \<Rightarrow> fs_sleep \<Rightarrow> fsst \<Rightarrow> fsst kres" where
  "mount_root n zz s0 =
     (if MAJOR (ROOT_DEV s0) = 2 then Inl (Panic ''floppy doesn't support now!'')
      else
       (let s = s0\<lparr>file_table := (\<lambda>i. if i < NR_FILE then (file_table s0 i)\<lparr>f_count := 0\<rparr> else file_table s0 i),
                  super_block := (\<lambda>i. if i < NR_SUPER then (super_block s0 i)\<lparr>s_dev := 0, s_lock := 0, s_wait := 0\<rparr> else super_block s0 i)\<rparr>
        in kbind (read_super n zz (ROOT_DEV s) s) (\<lambda>(p, s).
             case p of
               None \<Rightarrow> Inl (Panic ''Unable to mount root'')
             | Some b \<Rightarrow> kbind (iget n zz (ROOT_DEV s) ROOT_INO s) (\<lambda>(mi, s).
                 case mi of
                   None \<Rightarrow> Inl (Panic ''Unable to read root i-node'')
                 | Some ip \<Rightarrow>
                    (let s = upd_inode ip (\<lambda>i. i\<lparr>i_count := i_count i + 3\<rparr>) s;
                         s = upd_super b (\<lambda>x. x\<lparr>s_isup := Some ip, s_imount := Some ip\<rparr>) s;
                         s = s\<lparr>bio_sched := upd_task (current (bio_sched s)) (\<lambda>t. t\<lparr>t_pwd := Some ip, t_root := Some ip\<rparr>) (bio_sched s)\<rparr>
                     in if maps_present (s_zmap (super_block s b)) (unat (s_nzones (super_block s b)))
                           \<and> maps_present (s_imap (super_block s b)) (unat (s_ninodes (super_block s b)) + 1)
                        then Inr s else Inl Fault)))))"

section \<open>Inodes on disk and in memory\<close>

lemma ld16_cong: "m b = m' b \<Longrightarrow> m (b + 1) = m' (b + 1) \<Longrightarrow> ld16 m b = ld16 m' b"
  by (simp add: ld16_def)

lemma st16_off: "unat (x - a) \<ge> 2 \<Longrightarrow> st16 m a v x = m x"
  by (auto simp: st16_def)

lemma put_zones_off:
  assumes "k \<le> 9" and "18 \<le> unat (x - a)"
  shows "put_zones k z a m x = m x"
  using assms(1)
proof (induction k)
  case (Suc k)
  have "unat (2 * of_nat k :: u32) = 2 * k" using Suc.prems by (simp add: unat_word_ariths unat_of_nat)
  moreover have "x - (a + 2 * of_nat k) = x - a - 2 * of_nat k" by simp
  ultimately have "2 \<le> unat (x - (a + 2 * of_nat k))"
    using assms(2) Suc.prems by (simp only: unat_minus_eq[of "x - a"] word_le_nat_alt) simp
  then show ?case using Suc by (simp add: st16_off)
qed simp

lemma ld16_put_zones:
  assumes "j < k" and "k \<le> 9"
  shows "ld16 (put_zones k z a m) (a + 2 * of_nat j) = z j"
  using assms
proof (induction k)
  case (Suc k)
  show ?case
  proof (cases "j = k")
    case False
    have u: "unat (2 * of_nat j - 2 * of_nat k :: u32) = 2 * j + 2 ^ 32 - 2 * k" "unat (2 * of_nat j + 1 - 2 * of_nat k :: u32) = 2 * j + 1 + 2 ^ 32 - 2 * k"
      using unat_nat_diff[of "2 * j" "2 * k"] unat_nat_diff[of "2 * j + 1" "2 * k"] False Suc.prems by (simp_all add: add.commute)
    have "2 \<le> unat (a + 2 * of_nat j - (a + 2 * of_nat k))" "2 \<le> unat (a + 2 * of_nat j + 1 - (a + 2 * of_nat k))"
      using u Suc.prems by (simp_all add: algebra_simps)
    then have "ld16 (put_zones (Suc k) z a m) (a + 2 * of_nat j) = ld16 (put_zones k z a m) (a + 2 * of_nat j)"
      by (intro ld16_cong) (simp_all add: st16_off)
    then show ?thesis using Suc False by simp
  qed simp
qed simp

definition d_head :: "m_inode \<Rightarrow> u32 \<Rightarrow> mem \<Rightarrow> mem" where
  "d_head i a m = (st32 (st32 (st16 (st16 m a (i_mode i)) (a + 2) (i_uid i)) (a + 4) (i_size i)) (a + 8) (i_mtime i))
     (a + 12 := i_gid i, a + 13 := i_nlinks i)"

lemma put_d_inode_eq: "put_d_inode i a m = put_zones 9 (i_zone i) (a + 14) (d_head i a m)"
  by (simp add: put_d_inode_def d_head_def Let_def)

lemma put_head_byte:
  assumes "t < 14"
  shows "put_d_inode i a m (a + of_nat t) = d_head i a m (a + of_nat t)"
  unfolding put_d_inode_eq
proof (rule put_zones_off)
  have "a + of_nat t - (a + 14) = (of_nat t - of_nat 14 :: u32)" by simp
  then show "18 \<le> unat (a + of_nat t - (a + 14))" using assms by (simp only: unat_nat_diff[of t 14]) simp
qed simp

lemma d_head_reads:
  "ld16 (d_head i a m) a = i_mode i" "ld16 (d_head i a m) (a + 2) = i_uid i" "ld32 (d_head i a m) (a + 4) = i_size i"
  "ld32 (d_head i a m) (a + 8) = i_mtime i" "d_head i a m (a + 12) = i_gid i" "d_head i a m (a + 13) = i_nlinks i"
proof -
  have "ld16 (d_head i a m) a = ld16 (st16 m a (i_mode i)) a" by (rule ld16_cong) (simp_all add: d_head_def st16_def st32_def add.assoc)
  then show "ld16 (d_head i a m) a = i_mode i" by simp
  have "ld16 (d_head i a m) (a + 2) = ld16 (st16 (st16 m a (i_mode i)) (a + 2) (i_uid i)) (a + 2)" by (rule ld16_cong) (simp_all add: d_head_def st16_def st32_def add.assoc)
  then show "ld16 (d_head i a m) (a + 2) = i_uid i" by simp
  have "ld32 (d_head i a m) (a + 4) = ld32 (st32 (st16 (st16 m a (i_mode i)) (a + 2) (i_uid i)) (a + 4) (i_size i)) (a + 4)"
    by (rule ld32_cong) (simp_all add: d_head_def st16_def st32_def add.assoc)
  then show "ld32 (d_head i a m) (a + 4) = i_size i" by simp
  have "ld32 (d_head i a m) (a + 8) = ld32 (st32 (st32 (st16 (st16 m a (i_mode i)) (a + 2) (i_uid i)) (a + 4) (i_size i)) (a + 8) (i_mtime i)) (a + 8)"
    by (rule ld32_cong) (simp_all add: d_head_def st16_def st32_def add.assoc)
  then show "ld32 (d_head i a m) (a + 8) = i_mtime i" by simp
  show "d_head i a m (a + 12) = i_gid i" "d_head i a m (a + 13) = i_nlinks i" by (simp_all add: d_head_def)
qed

text \<open>The fields of an inode that are on disk.\<close>

definition disk_part :: "m_inode \<Rightarrow> m_inode \<Rightarrow> m_inode" where
  "disk_part i j = j\<lparr>i_mode := i_mode i, i_uid := i_uid i, i_size := i_size i, i_mtime := i_mtime i, i_gid := i_gid i,
     i_nlinks := i_nlinks i, i_zone := (\<lambda>k. if k < 9 then i_zone i k else i_zone j k)\<rparr>"

lemma get_put_d_inode: "get_d_inode (put_d_inode i a m) a j = disk_part i j"
proof -
  let ?m = "put_d_inode i a m"
  have h: "?m a = d_head i a m a" "?m (a + 1) = d_head i a m (a + 1)" "?m (a + 2) = d_head i a m (a + 2)" "?m (a + 3) = d_head i a m (a + 3)"
    "?m (a + 4) = d_head i a m (a + 4)" "?m (a + 5) = d_head i a m (a + 5)" "?m (a + 6) = d_head i a m (a + 6)" "?m (a + 7) = d_head i a m (a + 7)"
    "?m (a + 8) = d_head i a m (a + 8)" "?m (a + 9) = d_head i a m (a + 9)" "?m (a + 10) = d_head i a m (a + 10)" "?m (a + 11) = d_head i a m (a + 11)"
    "?m (a + 12) = d_head i a m (a + 12)" "?m (a + 13) = d_head i a m (a + 13)"
    using put_head_byte[of 0 i a m] put_head_byte[of 1 i a m] put_head_byte[of 2 i a m] put_head_byte[of 3 i a m] put_head_byte[of 4 i a m]
      put_head_byte[of 5 i a m] put_head_byte[of 6 i a m] put_head_byte[of 7 i a m] put_head_byte[of 8 i a m] put_head_byte[of 9 i a m]
      put_head_byte[of 10 i a m] put_head_byte[of 11 i a m] put_head_byte[of 12 i a m] put_head_byte[of 13 i a m] by simp_all
  have r: "ld16 ?m a = i_mode i" "ld16 ?m (a + 2) = i_uid i" "ld32 ?m (a + 4) = i_size i" "ld32 ?m (a + 8) = i_mtime i"
    unfolding d_head_reads(1-4)[of i a m, symmetric] by (intro ld16_cong ld32_cong; simp add: h add.assoc)+
  have z: "ld16 ?m (a + 14 + 2 * of_nat k) = i_zone i k" if "k < 9" for k
    unfolding put_d_inode_eq using that by (intro ld16_put_zones) simp_all
  have "(\<lambda>k. if k < 9 then ld16 ?m (a + 14 + 2 * of_nat k) else i_zone j k) = (\<lambda>k. if k < 9 then i_zone i k else i_zone j k)"
    by (rule ext) (simp add: z)
  then show ?thesis by (simp add: get_d_inode_def disk_part_def r h(13,14) d_head_reads(5,6))
qed

lemma put_d_inode_off:
  assumes "32 \<le> unat (x - a)"
  shows "put_d_inode i a m x = m x"
proof -
  have u: "unat (x - (a + c)) = unat (x - a) - unat c" if "unat c \<le> 32" for c
    using assms that by (simp only: word_diff_add unat_minus_eq[of "x - a"] word_le_nat_alt) simp
  have "put_d_inode i a m x = d_head i a m x"
    unfolding put_d_inode_eq by (rule put_zones_off) (use u[of 14] assms in simp_all)
  moreover have "x \<noteq> a + 12" "x \<noteq> a + 13" using assms by auto
  moreover have "\<not> unat (x - (a + 8)) < 4" "\<not> unat (x - (a + 4)) < 4" "2 \<le> unat (x - (a + 2))" "2 \<le> unat (x - a)"
    using u[of 2] u[of 4] u[of 8] assms by simp_all
  ultimately show ?thesis by (simp add: d_head_def st32_apply st16_off)
qed

section \<open>Operations on cached blocks\<close>

text \<open>A block in the cache that can be used without waiting, in a system where nobody waits for a buffer.\<close>

definition cached :: "u32 list \<Rightarrow> u16 \<Rightarrow> u32 \<Rightarrow> u32 \<Rightarrow> 'a bio_scheme \<Rightarrow> bool" where
  "cached fl d blk p s \<longleftrightarrow> d \<noteq> 0 \<and> p \<in> set fl \<and> b_dev (heads s p) = d \<and> b_blocknr (heads s p) = blk \<and> b_lock (heads s p) = 0
     \<and> b_uptodate (heads s p) \<noteq> 0 \<and> b_count (heads s p) + 1 \<noteq> 0 \<and> buffer_wait s = 0"

abbreviation hold :: "u32 \<Rightarrow> 'a bio_scheme \<Rightarrow> 'a bio_scheme" where
  "hold p s \<equiv> upd_bh p (\<lambda>h. h\<lparr>b_count := b_count h + 1\<rparr>) s"

lemma fbread_hit:
  assumes "cache_rep fl ch s" and "cached fl d blk p s"
  shows "fbread (Suc n) zz (ucast d) blk s = Inr (p, hold p s)" and "p \<noteq> 0"
proof -
  show p: "p \<noteq> 0" using assms cache_repD(2)[OF assms(1)] by (auto simp: cached_def)
  have "getblk (Suc n) zz (ucast d) blk s = Inr (p, hold p s)"
    by (rule getblk_hit[OF assms(1)]) (use assms(2) in \<open>simp_all add: cached_def\<close>)
  then show "fbread (Suc n) zz (ucast d) blk s = Inr (p, hold p s)"
    using assms(2) p by (simp add: bread_def cached_def upd_bh_def del: getblk.simps)
qed

lemma brelse_quiet:
  assumes "b_lock (heads s p) = 0" and "b_count (heads s p) \<noteq> 0" and "p \<noteq> 0" and "buffer_wait s = 0"
  shows "brelse n zz p s = Inr (upd_bh p (\<lambda>h. h\<lparr>b_count := b_count h - 1\<rparr>) s)"
  using assms by (simp add: brelse_def wait_on_unlocked wake_up_def upd_bh_def)

lemma hold_release: "upd_bh p (\<lambda>h. h\<lparr>b_count := b_count h - 1\<rparr>) (hold p s) = s"
  by (simp add: upd_bh_def)

lemma lock_inode_now: "i_lock (inode_table s ip) = 0 \<Longrightarrow> lock_inode n zz ip s = Inr (upd_inode ip (\<lambda>i. i\<lparr>i_lock := 1\<rparr>) s)"
  by (cases n) (simp_all add: lock_inode_def)

lemma unlock_inode_quiet:
  "i_wait (inode_table s ip) = 0 \<Longrightarrow> unlock_inode ip s = upd_inode ip (\<lambda>i. i\<lparr>i_lock := 0\<rparr>) s"
proof -
  assume w: "i_wait (inode_table s ip) = 0"
  then have e: "(inode_table s ip)\<lparr>i_lock := 0, i_wait := 0\<rparr> = (inode_table s ip)\<lparr>i_lock := 0\<rparr>" by (intro m_inode.equality) simp_all
  have "unlock_inode ip s = s\<lparr>inode_table := (inode_table s)(ip := (inode_table s ip)\<lparr>i_lock := 0, i_wait := 0\<rparr>)\<rparr>"
    using w by (simp add: unlock_inode_def wake_inode_def wake_up_def upd_inode_def)
  then show ?thesis by (simp only: e upd_inode_def)
qed

lemma put_d_inode_lock [simp]: "put_d_inode (i\<lparr>i_lock := l\<rparr>) a m = put_d_inode i a m"
  by (simp add: put_d_inode_def)

lemma lock_back:
  assumes "i_lock i = 0"
  shows "i\<lparr>i_dirt := 0, i_lock := 0\<rparr> = i\<lparr>i_dirt := 0\<rparr>" "(get_d_inode m a (i\<lparr>i_lock := 1\<rparr>))\<lparr>i_lock := 0\<rparr> = get_d_inode m a i"
  using assms by (intro m_inode.equality; simp add: get_d_inode_def cong: if_cong)+

text \<open>An inode at rest whose block is in the cache, with the address of its 32 bytes.\<close>

definition inode_cached :: "u32 list \<Rightarrow> nat \<Rightarrow> nat \<Rightarrow> u32 \<Rightarrow> fsst \<Rightarrow> bool" where
  "inode_cached fl ip b p s \<longleftrightarrow> i_lock (inode_table s ip) = 0 \<and> i_wait (inode_table s ip) = 0
     \<and> find_super (ucast (i_dev (inode_table s ip))) s = Some b \<and> s_lock (super_block s b) = 0
     \<and> cached fl (i_dev (inode_table s ip)) (inode_block (super_block s b) (i_num (inode_table s ip))) p s"

definition inode_addr :: "u32 \<Rightarrow> nat \<Rightarrow> fsst \<Rightarrow> u32" where
  "inode_addr p ip s = b_data (heads s p) + inode_offset (i_num (inode_table s ip))"

lemma inode_cached_block:
  assumes "cache_rep fl ch s" and "inode_cached fl ip b p s"
  defines "s1 \<equiv> upd_inode ip (\<lambda>i. i\<lparr>i_lock := 1\<rparr>) s"
  shows "lock_inode (Suc n) zz ip s = Inr s1" "get_super (Suc n) zz (ucast (i_dev (inode_table s ip))) s1 = Inr (Some b, s1)"
    "fbread (Suc n) zz (ucast (i_dev (inode_table s ip))) (inode_block (super_block s b) (i_num (inode_table s ip))) s1 = Inr (p, hold p s1)" "p \<noteq> 0"
proof -
  note c = assms(2)[unfolded inode_cached_def]
  have dz: "i_dev (inode_table s ip) \<noteq> 0" using c by (simp add: cached_def)
  show "lock_inode (Suc n) zz ip s = Inr s1" unfolding s1_def using c by (intro lock_inode_now) simp
  have sb: "super_block s1 = super_block s" by (simp add: s1_def upd_inode_def)
  show "get_super (Suc n) zz (ucast (i_dev (inode_table s ip))) s1 = Inr (Some b, s1)"
    by (rule get_super_now) (use c dz ucast_16_inj[of "i_dev (inode_table s ip)" 0] in \<open>auto simp: find_super_def sb\<close>)
  have "same_links s s1" by (simp add: s1_def same_links_def upd_inode_def)
  then have r: "cache_rep fl ch s1" using same_links_rep assms(1) by blast
  have "cached fl (i_dev (inode_table s ip)) (inode_block (super_block s b) (i_num (inode_table s ip))) p s1"
    using c by (simp add: cached_def s1_def upd_inode_def)
  from fbread_hit[OF r this] show "fbread (Suc n) zz (ucast (i_dev (inode_table s ip))) (inode_block (super_block s b) (i_num (inode_table s ip))) s1 = Inr (p, hold p s1)" "p \<noteq> 0"
    by blast+
qed

lemma write_inode_cached:
  assumes "cache_rep fl ch s" and "inode_cached fl ip b p s" and "i_dirt (inode_table s ip) \<noteq> 0"
  shows "write_inode (Suc n) zz ip s = Inr (upd_inode ip (\<lambda>i. i\<lparr>i_dirt := 0\<rparr>) (upd_bh p (\<lambda>h. h\<lparr>b_dirt := 1\<rparr>)
    (s\<lparr>bdata := put_d_inode (inode_table s ip) (inode_addr p ip s) (bdata s)\<rparr>)))"
proof -
  note B = inode_cached_block(1-3)[OF assms(1,2), of n zz] inode_cached_block(4)[OF assms(1,2)]
  note c = assms(2)[unfolded inode_cached_def cached_def]
  define s1 where "s1 = upd_inode ip (\<lambda>i. i\<lparr>i_lock := 1\<rparr>) s"
  define s2 where "s2 = (hold p s1)\<lparr>bdata := put_d_inode (inode_table (hold p s1) ip) (b_data (heads (hold p s1) p) + inode_offset (i_num (inode_table (hold p s1) ip))) (bdata (hold p s1))\<rparr>"
  define s3 where "s3 = upd_inode ip (\<lambda>i. i\<lparr>i_dirt := 0\<rparr>) (upd_bh p (\<lambda>h. h\<lparr>b_dirt := 1\<rparr>) s2)"
  have i1: "inode_table s1 ip = (inode_table s ip)\<lparr>i_lock := 1\<rparr>" "super_block s1 = super_block s" by (simp_all add: s1_def upd_inode_def)
  have hb: "inode_table (hold p s1) = inode_table s1" "super_block (hold p s1) = super_block s1" by (simp_all add: upd_bh_def)
  have "brelse (Suc n) zz p s3 = Inr (upd_bh p (\<lambda>h. h\<lparr>b_count := b_count h - 1\<rparr>) s3)"
    by (rule brelse_quiet) (use c B(4) in \<open>simp_all add: s3_def s2_def s1_def upd_inode_def upd_bh_def\<close>)
  then have "write_inode (Suc n) zz ip s = Inr (unlock_inode ip (upd_bh p (\<lambda>h. h\<lparr>b_count := b_count h - 1\<rparr>) s3))"
    using B(2-4) assms(3) c unfolding write_inode_def B(1) kbind_Inr
    by (simp add: s1_def[symmetric] i1 Let_def hb s3_def s2_def)
  also have "unlock_inode ip (upd_bh p (\<lambda>h. h\<lparr>b_count := b_count h - 1\<rparr>) s3) = upd_inode ip (\<lambda>i. i\<lparr>i_dirt := 0\<rparr>) (upd_bh p (\<lambda>h. h\<lparr>b_dirt := 1\<rparr>)
    (s\<lparr>bdata := put_d_inode (inode_table s ip) (inode_addr p ip s) (bdata s)\<rparr>))"
    by (subst unlock_inode_quiet, use c in \<open>simp add: s3_def s2_def s1_def upd_inode_def upd_bh_def\<close>, rule fsst.equality)
      (use c in \<open>simp_all add: s3_def s2_def s1_def upd_inode_def upd_bh_def inode_addr_def lock_back\<close>)
  finally show ?thesis .
qed

lemma read_inode_cached:
  assumes "cache_rep fl ch s" and "inode_cached fl ip b p s"
  shows "read_inode (Suc n) zz ip s = Inr (upd_inode ip (get_d_inode (bdata s) (inode_addr p ip s)) s)"
proof -
  note B = inode_cached_block(1-3)[OF assms(1,2), of n zz] inode_cached_block(4)[OF assms(1,2)]
  note c = assms(2)[unfolded inode_cached_def cached_def]
  define s1 where "s1 = upd_inode ip (\<lambda>i. i\<lparr>i_lock := 1\<rparr>) s"
  define s2 where "s2 = upd_inode ip (get_d_inode (bdata (hold p s1)) (b_data (heads (hold p s1) p) + inode_offset (i_num (inode_table (hold p s1) ip)))) (hold p s1)"
  have i1: "inode_table s1 ip = (inode_table s ip)\<lparr>i_lock := 1\<rparr>" "super_block s1 = super_block s" by (simp_all add: s1_def upd_inode_def)
  have hb: "inode_table (hold p s1) = inode_table s1" "super_block (hold p s1) = super_block s1" by (simp_all add: upd_bh_def)
  have "brelse (Suc n) zz p s2 = Inr (upd_bh p (\<lambda>h. h\<lparr>b_count := b_count h - 1\<rparr>) s2)"
    by (rule brelse_quiet) (use c B(4) in \<open>simp_all add: s2_def s1_def upd_inode_def upd_bh_def\<close>)
  then have "read_inode (Suc n) zz ip s = Inr (unlock_inode ip (upd_bh p (\<lambda>h. h\<lparr>b_count := b_count h - 1\<rparr>) s2))"
    using B(2-4) c unfolding read_inode_def B(1) kbind_Inr
    by (simp add: s1_def[symmetric] i1 Let_def hb s2_def)
  also have "unlock_inode ip (upd_bh p (\<lambda>h. h\<lparr>b_count := b_count h - 1\<rparr>) s2) = upd_inode ip (get_d_inode (bdata s) (inode_addr p ip s)) s"
    by (subst unlock_inode_quiet, use c in \<open>simp add: s2_def s1_def upd_inode_def upd_bh_def get_d_inode_def\<close>, rule fsst.equality)
      (use c in \<open>simp_all add: s2_def s1_def upd_inode_def upd_bh_def inode_addr_def lock_back\<close>)
  finally show ?thesis .
qed

text \<open>C21: what \<open>write_inode\<close> stores, \<open>read_inode\<close> reads back: after a dirty inode has been written and its slot in the
  table reused for the same inode number, reading gives every field that is on disk. The write changes only the 32 bytes
  of this inode in its block, marks the block dirty and the inode clean.\<close>

theorem write_then_read_inode:
  assumes "cache_rep fl ch s" and "inode_cached fl ip b p s" and "i_dirt (inode_table s ip) \<noteq> 0"
    and "fresh = zero_inode\<lparr>i_dev := i_dev (inode_table s ip), i_num := i_num (inode_table s ip)\<rparr>"
  shows "\<exists>s' s''. write_inode (Suc n) zz ip s = Inr s' \<and> read_inode (Suc n) zz ip (upd_inode ip (\<lambda>_. fresh) s') = Inr s''
    \<and> inode_table s'' ip = disk_part (inode_table s ip) fresh \<and> i_dirt (inode_table s' ip) = 0 \<and> b_dirt (heads s' p) = 1
    \<and> (\<forall>x. 32 \<le> unat (x - inode_addr p ip s) \<longrightarrow> bdata s' x = bdata s x)"
proof -
  define s' where "s' = upd_inode ip (\<lambda>i. i\<lparr>i_dirt := 0\<rparr>) (upd_bh p (\<lambda>h. h\<lparr>b_dirt := 1\<rparr>)
    (s\<lparr>bdata := put_d_inode (inode_table s ip) (inode_addr p ip s) (bdata s)\<rparr>))"
  define t where "t = upd_inode ip (\<lambda>_. fresh) s'"
  have ft: "inode_table t ip = fresh" "super_block t = super_block s" "bdata t = put_d_inode (inode_table s ip) (inode_addr p ip s) (bdata s)"
    "buffer_wait t = buffer_wait s" "heads t = (heads s)(p := (heads s p)\<lparr>b_dirt := 1\<rparr>)"
    by (simp_all add: t_def s'_def upd_inode_def upd_bh_def)
  have "same_links s t" by (simp add: same_links_def t_def s'_def upd_inode_def upd_bh_def)
  then have rt: "cache_rep fl ch t" using same_links_rep assms(1) by blast
  have ct: "inode_cached fl ip b p t"
    using assms(2) by (simp add: inode_cached_def cached_def ft assms(4) zero_inode_def find_super_def)
  have "inode_addr p ip t = inode_addr p ip s" by (simp add: inode_addr_def ft assms(4))
  moreover have "get_d_inode (put_d_inode (inode_table s ip) a (bdata s)) a = disk_part (inode_table s ip)" for a
    by (rule ext) (rule get_put_d_inode)
  ultimately have "read_inode (Suc n) zz ip t = Inr (upd_inode ip (disk_part (inode_table s ip)) t)"
    using read_inode_cached[OF rt ct, of n zz] by (simp add: ft)
  moreover have "write_inode (Suc n) zz ip s = Inr s'" unfolding s'_def by (rule write_inode_cached[OF assms(1-3)])
  ultimately show ?thesis unfolding t_def using put_d_inode_off
    by (intro exI conjI) (auto simp: s'_def upd_inode_def upd_bh_def)
qed

section \<open>The block map\<close>

text \<open>A file's blocks as a function: \<open>z\<close> are the zones of the inode, \<open>D\<close> the entries of the blocks of block numbers.\<close>

definition file_map :: "(nat \<Rightarrow> u16) \<Rightarrow> (u16 \<Rightarrow> nat \<Rightarrow> u16) \<Rightarrow> nat \<Rightarrow> u16" where
  "file_map z D b =
     (if b < 7 then z b
      else if b < 519 then (if z 7 = 0 then 0 else D (z 7) (b - 7))
      else if z 8 = 0 then 0
      else let i = D (z 8) ((b - 519) div 512) in if i = 0 then 0 else D i ((b - 519) mod 512))"

text \<open>The blocks of block numbers that the map of block \<open>b\<close> goes through.\<close>

definition map_blocks :: "(nat \<Rightarrow> u16) \<Rightarrow> (u16 \<Rightarrow> nat \<Rightarrow> u16) \<Rightarrow> nat \<Rightarrow> u16 set" where
  "map_blocks z D b = (if b < 7 then {} else if b < 519 then {z 7} else {z 8, D (z 8) ((b - 519) div 512)}) - {0}"

definition map_cached :: "u32 list \<Rightarrow> nat \<Rightarrow> (u16 \<Rightarrow> nat \<Rightarrow> u16) \<Rightarrow> nat \<Rightarrow> fsst \<Rightarrow> bool" where
  "map_cached fl ip D b s \<longleftrightarrow> (\<forall>blk \<in> map_blocks (i_zone (inode_table s ip)) D b. \<exists>p. cached fl (i_dev (inode_table s ip)) (ucast blk) p s
     \<and> (\<forall>k < 512. ld16 (bdata s) (b_data (heads s p) + 2 * of_nat k) = D blk k))"

lemma ind_entry_cached:
  assumes "cache_rep fl ch s" and "cached fl (i_dev (inode_table s ip)) blk p s" and "ld16 (bdata s) (b_data (heads s p) + 2 * k) = v"
    and "create \<longrightarrow> v \<noteq> 0"
  shows "ind_entry (Suc n) zz create ip blk k s = Inr (ucast v, s)"
proof -
  note R = fbread_hit[OF assms(1,2)]
  have "brelse (Suc n) zz p (hold p s) = Inr (upd_bh p (\<lambda>h. h\<lparr>b_count := b_count h - 1\<rparr>) (hold p s))"
    by (rule brelse_quiet) (use assms(2) R(2) in \<open>simp_all add: cached_def upd_bh_def\<close>)
  moreover have "ld16 (bdata (hold p s)) (b_data (heads (hold p s) p) + 2 * k) = v" using assms(3) by (simp add: upd_bh_def)
  moreover have "\<not> (create \<and> (ucast v :: u32) = 0)" using assms(4) ucast_16_inj[of v 0] by auto
  ultimately show ?thesis using R by (cases create) (simp_all add: ind_entry_def Let_def hold_release)
qed

lemma map_cached_entry:
  assumes "cache_rep fl ch s" and "map_cached fl ip D b s" and "blk \<in> map_blocks (i_zone (inode_table s ip)) D b" and "k < 512"
    and "create \<longrightarrow> D blk k \<noteq> 0"
  shows "ind_entry (Suc n) zz create ip (ucast blk) (of_nat k) s = Inr (ucast (D blk k), s)"
proof -
  obtain p where "cached fl (i_dev (inode_table s ip)) (ucast blk) p s" "ld16 (bdata s) (b_data (heads s p) + 2 * of_nat k) = D blk k"
    using assms(2-4) unfolding map_cached_def by blast
  then show ?thesis using assms(5) by (intro ind_entry_cached[OF assms(1)])
qed

lemma sint_numeral_32: "sint (0 :: u32) = 0" "sint (262663 :: u32) = 262663"
  by (simp_all add: sint_small32)

lemma drop_bit_9_of_nat:
  assumes "b < 2 ^ 32"
  shows "drop_bit 9 (of_nat b :: u32) = of_nat (b div 512)"
proof -
  have "unat (of_nat b :: u32) = b" "unat (of_nat (b div 512) :: u32) = b div 512" using assms by (simp_all add: unat_of_nat)
  moreover have "unat (drop_bit 9 (of_nat b :: u32)) = unat (of_nat b :: u32) div 512" by (simp add: unat_drop_bit_eq drop_bit_eq_div unat_div)
  ultimately show ?thesis by (simp add: word_unat_eq_iff)
qed

lemma and_511_of_nat: "b < 2 ^ 32 \<Longrightarrow> (of_nat b :: u32) AND 511 = of_nat (b mod 512)"
proof -
  assume b: "b < 2 ^ 32"
  have "(of_nat b :: u32) AND 511 = take_bit 9 (of_nat b)" by (simp add: take_bit_eq_mask mask_eq_exp_minus_1)
  also have "\<dots> = of_nat (take_bit 9 b)" by (simp add: take_bit_of_nat)
  finally show ?thesis by (simp add: take_bit_eq_mod)
qed

lemma word_block_facts:
  assumes "b < 262663"
  shows "\<not> (of_nat b :: u32) <s 0" "\<not> 262663 <=s (of_nat b :: u32)" "unat (of_nat b :: u32) = b"
    "(of_nat b :: u32) < 7 \<longleftrightarrow> b < 7" "7 \<le> b \<Longrightarrow> (of_nat b :: u32) - 7 = of_nat (b - 7)" "519 \<le> b \<Longrightarrow> (of_nat b :: u32) - 519 = of_nat (b - 519)"
    "7 \<le> b \<Longrightarrow> (of_nat b :: u32) - 7 < 512 \<longleftrightarrow> b < 519"
proof -
  show u: "unat (of_nat b :: u32) = b" using assms by (simp add: unat_of_nat)
  then have si: "sint (of_nat b :: u32) = int b" using assms by (subst sint_small32) simp_all
  show "\<not> (of_nat b :: u32) <s 0" "\<not> 262663 <=s (of_nat b :: u32)" using si assms by (simp_all add: word_sless_alt word_sle_eq sint_numeral_32)
  show "(of_nat b :: u32) < 7 \<longleftrightarrow> b < 7" using u by (simp add: word_less_nat_alt)
  show s7: "7 \<le> b \<Longrightarrow> (of_nat b :: u32) - 7 = of_nat (b - 7)" by (simp add: of_nat_diff)
  show "519 \<le> b \<Longrightarrow> (of_nat b :: u32) - 519 = of_nat (b - 519)" by (simp add: of_nat_diff)
  have "unat (of_nat (b - 7) :: u32) = b - 7" using assms by (simp add: unat_of_nat)
  then have "(of_nat (b - 7) :: u32) < 512 \<longleftrightarrow> b - 7 < 512" by (simp only: word_less_nat_alt) simp
  then show "(of_nat b :: u32) - 7 < 512 \<longleftrightarrow> b < 519" if "7 \<le> b" unfolding s7[OF that] using that by linarith
qed

lemma bmap_c_panics:
  assumes "\<not> (0 \<le> sint block \<and> unat block < 262663)"
  shows "bmap_c n zz ip block create s = (if sint block < 0 then Inl (Panic ''_bmap: block<0'') else Inl (Panic ''_bmap: block>big''))"
proof -
  have "sint block = int (unat block)" if "\<not> sint block < 0" using that sint_cases32[of block] unat_less32[of block] by (auto split: if_splits)
  then have "\<not> sint block < 0 \<Longrightarrow> 262663 \<le> sint block" using assms by linarith
  then show ?thesis by (cases "sint block < 0") (simp_all add: bmap_c_def word_sless_alt word_sle_eq sint_numeral_32)
qed

text \<open>With \<open>create\<close> nothing is allocated when the block is there already.\<close>

lemma bmap_c_file_map:
  assumes "cache_rep fl ch s" and "map_cached fl ip D b s" and "b < 262663" and c: "create \<longrightarrow> file_map (i_zone (inode_table s ip)) D b \<noteq> 0"
  shows "bmap_c (Suc n) zz ip (of_nat b) create s = Inr (ucast (file_map (i_zone (inode_table s ip)) D b), s)"
proof -
  let ?z = "i_zone (inode_table s ip)"
  note W = word_block_facts[OF assms(3)] and ent = map_cached_entry[OF assms(1,2)]
  have z0: "zone_entry (Suc n) zz create ip k s = Inr s" if "create \<longrightarrow> ?z k \<noteq> 0" for k using that by (cases create) (simp_all add: zone_entry_def)
  have nz: "(ucast (v :: u16) :: u32) = 0 \<longleftrightarrow> v = 0" for v using ucast_16_inj[of v 0] by simp
  consider "b < 7" | "7 \<le> b" "b < 519" | "519 \<le> b" by linarith
  then show ?thesis
  proof cases
    case 1
    then show ?thesis using W c by (simp add: bmap_c_def z0 file_map_def)
  next
    case 2
    have "?z 7 \<noteq> 0 \<Longrightarrow> ind_entry (Suc n) zz create ip (ucast (?z 7)) (of_nat b - 7) s = Inr (ucast (D (?z 7) (b - 7)), s)"
      unfolding W(5)[OF 2(1)] using 2 c by (intro ent) (simp_all add: map_blocks_def file_map_def)
    then show ?thesis using W(1-4) W(7)[OF 2(1)] 2 c z0[of 7] by (simp add: bmap_c_def file_map_def split: if_splits)
  next
    case 3
    let ?k = "(b - 519) div 512" and ?l = "(b - 519) mod 512" and ?b = "of_nat b - 519 :: u32"
    have g: "7 \<le> b" "?k < 512" using 3 assms(3) by (simp_all add: less_mult_imp_div_less)
    have k: "drop_bit 9 ?b = of_nat ?k" "?b AND 511 = of_nat ?l"
      unfolding W(6)[OF 3] using assms(3) by (simp_all add: drop_bit_9_of_nat and_511_of_nat del: of_nat_diff)
    have c': "create \<longrightarrow> ?z 8 \<noteq> 0 \<and> D (?z 8) ?k \<noteq> 0 \<and> D (D (?z 8) ?k) ?l \<noteq> 0" using 3 c by (auto simp: file_map_def Let_def split: if_splits)
    have 1: "?z 8 \<noteq> 0 \<Longrightarrow> ind_entry (Suc n) zz create ip (ucast (?z 8)) (drop_bit 9 ?b) s = Inr (ucast (D (?z 8) ?k), s)"
      unfolding k using 3 g(2) c' by (intro ent) (simp_all add: map_blocks_def)
    have 2: "D (?z 8) ?k \<noteq> 0 \<Longrightarrow> ind_entry (Suc n) zz create ip (ucast (D (?z 8) ?k)) (?b AND 511) s = Inr (ucast (D (D (?z 8) ?k) ?l), s)"
      unfolding k using 3 c' by (intro ent) (simp_all add: map_blocks_def)
    show ?thesis using W(1-4) W(7)[OF g(1)] 3 1 2 z0[of 8] c' by (simp add: bmap_c_def file_map_def Let_def nz)
  qed
qed

text \<open>C19: \<open>bmap\<close> refines the file's block map. For a block below 7+512+512*512 it returns, without changing anything, the
  number the map gives, 0 for a hole; any other block number, negative ones too, is a panic. The blocks of block numbers
  it goes through are in the cache.\<close>

theorem bmap_refines_file_map:
  assumes "cache_rep fl ch s" and "map_cached fl ip D (unat block) s"
  shows "bmap (Suc n) zz ip block s =
    (if sint block < 0 then Inl (Panic ''_bmap: block<0'')
     else if 262663 \<le> unat block then Inl (Panic ''_bmap: block>big'')
     else Inr (ucast (file_map (i_zone (inode_table s ip)) D (unat block)), s))"
  using bmap_c_panics[of block] bmap_c_file_map[OF assms, of False] unfolding bmap_def
  by (cases "0 \<le> sint block \<and> unat block < 262663") auto

text \<open>A file system whose inode table has inode 5 of the device in slot 3, changed, and whose block of inodes and of block
  numbers are in the cache.\<close>

definition demo_icache :: bio where
  "demo_icache = demo_zcache\<lparr>
     heads := (\<lambda>p. if p = 0x1000 then (heads demo_zcache p)\<lparr>b_blocknr := 4\<rparr> else (heads demo_zcache p)),
     hash_table := (\<lambda>i. if i = 159 then 0x1000 else 0), bdata := (\<lambda>_. 0)(0x8000 := 9)\<rparr>"

definition demo_ifs :: fsst where
  "demo_ifs = (demo_fs demo_icache 100)\<lparr>inode_table := (\<lambda>_. zero_inode)(3 := zero_inode\<lparr>i_dev := 0x301, i_num := 5, i_size := 700, i_dirt := 1,
     i_zone := (\<lambda>k. if k = 7 then 4 else 0)\<rparr>)\<rparr>"

lemma demo_ifs_rep: "cache_rep [0x1000, 0x2000] (\<lambda>i. if i = 159 then [0x1000] else []) demo_ifs"
  by (auto simp: cache_rep_def demo_ifs_def demo_fs_simps demo_icache_def demo_zcache_def demo_idle_def demo_cache_def demo_bio_def ring_def bh_hash_def hashfn_def)

lemma demo_ifs_simps:
  "heads demo_ifs = heads demo_icache" "bdata demo_ifs = (\<lambda>_. 0)(0x8000 := 9)" "buffer_wait demo_ifs = 0"
  "super_block demo_ifs = super_block (demo_fs demo_icache 100)"
  by (simp_all add: demo_ifs_def demo_fs_simps demo_fs_def hdst.defs fsst.defs demo_hd_def bio.defs demo_icache_def demo_zcache_def demo_idle_def demo_cache_def demo_bio_def)

lemma demo_ifs_cached: "cached [0x1000, 0x2000] 0x301 4 0x1000 demo_ifs"
  by (simp add: cached_def demo_ifs_simps demo_icache_def demo_zcache_def demo_idle_def demo_cache_def demo_bio_def)

lemma demo_ifs_inode: "inode_cached [0x1000, 0x2000] 3 0 0x1000 demo_ifs" "i_dirt (inode_table demo_ifs 3) \<noteq> 0"
  using demo_ifs_cached
  by (simp_all add: inode_cached_def demo_ifs_simps demo_fs_simps demo_super_def inode_block_def find_super_def upt_rec zero_inode_def) (simp_all add: demo_ifs_def zero_inode_def)

theorem write_then_read_inode_witness:
  "\<exists>s' s''. write_inode 1 (\<lambda>_. Inr) 3 demo_ifs = Inr s'
    \<and> read_inode 1 (\<lambda>_. Inr) 3 (upd_inode 3 (\<lambda>_. zero_inode\<lparr>i_dev := 0x301, i_num := 5\<rparr>) s') = Inr s'' \<and> i_size (inode_table s'' 3) = 700"
proof -
  have f: "zero_inode\<lparr>i_dev := 0x301, i_num := 5\<rparr> = zero_inode\<lparr>i_dev := i_dev (inode_table demo_ifs 3), i_num := i_num (inode_table demo_ifs 3)\<rparr>"
    "i_size (disk_part (inode_table demo_ifs 3) g) = 700" for g
    by (simp_all add: demo_ifs_def disk_part_def)
  from write_then_read_inode[OF demo_ifs_rep demo_ifs_inode f(1), of 0 "\<lambda>_. Inr"] show ?thesis
    unfolding One_nat_def using f(2) by metis
qed

theorem bmap_refines_file_map_witness:
  "bmap 1 (\<lambda>_. Inr) 3 7 demo_ifs = Inr (9, demo_ifs) \<and> bmap 1 (\<lambda>_. Inr) 3 (- 1) demo_ifs = Inl (Panic ''_bmap: block<0'')"
proof -
  let ?z = "\<lambda>k. if k = (7 :: nat) then 4 else 0 :: u16" and ?D = "\<lambda>blk k. if blk = 0 then 0 else ld16 (bdata demo_ifs) (0x8000 + 2 * of_nat k)"
  have z: "i_zone (inode_table demo_ifs 3) = ?z" "i_dev (inode_table demo_ifs 3) = 0x301" "b_data (heads demo_ifs 0x1000) = 0x8000"
    by (simp_all add: demo_ifs_def demo_fs_simps demo_icache_def demo_zcache_def demo_idle_def)
  have D: "map_cached [0x1000, 0x2000] 3 ?D b demo_ifs" for b
    using demo_ifs_cached z(3) unfolding map_cached_def z(1,2) by (intro ballI exI[of _ "0x1000"]) (auto simp: map_blocks_def split: if_splits)
  have "bmap 1 (\<lambda>_. Inr) 3 7 demo_ifs = Inr (9, demo_ifs)"
    using bmap_refines_file_map[OF demo_ifs_rep D, where block = 7 and n = 0 and zz = "\<lambda>_. Inr"] unfolding z(1) One_nat_def
    by (simp add: file_map_def ld16_def demo_ifs_simps sint_numeral_32 sint_small32)
  moreover have "bmap 1 (\<lambda>_. Inr) 3 (- 1) demo_ifs = Inl (Panic ''_bmap: block<0'')"
    using bmap_refines_file_map[OF demo_ifs_rep D, where block = "- 1" and n = 0 and zz = "\<lambda>_. Inr"] unfolding One_nat_def by simp
  ultimately show ?thesis ..
qed

end
