(* ===== verification/Demand.thy ===== *)
theory Demand
  imports Inode
begin

text \<open>
  Loading pages on demand: \<open>share_page\<close> and \<open>do_no_page\<close> of mm/memory.c, where memory management meets the file
  system. There is one physical memory: \<open>bdata\<close>, which the buffer cache sees, is what the page tables and
  pages are in, so the paging operations run on it.
\<close>

section \<open>Paging operations on the system's memory\<close>

definition run_mm :: "(mm_state \<Rightarrow> ('a \<times> mm_state) kres) \<Rightarrow> fsst \<Rightarrow> ('a \<times> fsst) kres" where
  "run_mm f s = kbind (f ((fs_mm s)\<lparr>pmem := bdata s\<rparr>)) (\<lambda>(r, mm). Inr (r, s\<lparr>fs_mm := mm, bdata := pmem mm\<rparr>))"

definition run_mm_unit :: "(mm_state \<Rightarrow> mm_state kres) \<Rightarrow> fsst \<Rightarrow> fsst kres" where
  "run_mm_unit f s = kbind (f ((fs_mm s)\<lparr>pmem := bdata s\<rparr>)) (\<lambda>mm. Inr (s\<lparr>fs_mm := mm, bdata := pmem mm\<rparr>))"

section \<open>Sharing\<close>

text \<open>The loop over the tasks from the last slot down to the second.\<close>

primrec share_loop :: "u32 \<Rightarrow> nat list \<Rightarrow> fsst \<Rightarrow> (bool \<times> fsst) kres" where
  "share_loop address [] s = Inr (False, s)"
| "share_loop address (k # ks) s =
     (let p = task (bio_sched s) k
      in if p = 0 \<or> p = current (bio_sched s) \<or> t_executable (tasks (bio_sched s) p) \<noteq> t_executable (cur_task s)
         then share_loop address ks s
         else kbind (run_mm (try_to_share address (t_start_code (tasks (bio_sched s) p)) (t_start_code (cur_task s))) s) (\<lambda>(r, s).
           if r \<noteq> 0 then Inr (True, s) else share_loop address ks s))"

definition share_page :: "u32 \<Rightarrow> fsst \<Rightarrow> (bool \<times> fsst) kres" where
  "share_page address s =
     (case t_executable (cur_task s) of
        None \<Rightarrow> Inr (False, s)
      | Some ip \<Rightarrow> if i_count (inode_table s ip) < 2 then Inr (False, s) else share_loop address (rev [1..<NR_TASKS]) s)"

section \<open>A page that is not there\<close>

primrec bmap4 :: "nat \<Rightarrow> nat \<Rightarrow> fs_sleep \<Rightarrow> nat \<Rightarrow> u32 \<Rightarrow> fsst \<Rightarrow> (u32 list \<times> fsst) kres" where
  "bmap4 0 n zz ip block s = Inr ([], s)"
| "bmap4 (Suc k) n zz ip block s =
     kbind (bmap n zz ip block s) (\<lambda>(b, s). kbind (bmap4 k n zz ip (block + 1) s) (\<lambda>(bs, s). Inr (b # bs, s)))"

text \<open>\<open>while (i-- > 0) { image_offset--; *(char *)image_offset = 0; }\<close>\<close>

primrec zero_tail :: "nat \<Rightarrow> u32 \<Rightarrow> mem \<Rightarrow> mem" where
  "zero_tail 0 p m = m"
| "zero_tail (Suc i) p m = zero_tail i (p - 1) (m(p - 1 := 0))"

text \<open>The end of \<open>do_no_page\<close>: the page is filled from the executable and mapped.\<close>

definition load_page :: "nat \<Rightarrow> fs_sleep \<Rightarrow> nat \<Rightarrow> u32 \<Rightarrow> u32 \<Rightarrow> u32 \<Rightarrow> fsst \<Rightarrow> fsst kres" where
  "load_page n zz ip image_offset page address s =
     kbind (bmap4 4 n zz ip (1 + image_offset div BLOCK_SIZE) s) (\<lambda>(nr, s).
     kbind (bread_page n zz (\<lambda>_. do_hd_request n) page (ucast (i_dev (inode_table s ip))) nr s) (\<lambda>s.
       let i = image_offset + 4096 - t_end_data (cur_task s);
           s = s\<lparr>bdata := zero_tail (nat (sint i)) (page + 4096) (bdata s)\<rparr>
       in kbind (run_mm (put_page page address) s) (\<lambda>(r, s).
            if r \<noteq> 0 then Inr s else run_mm_unit (free_page page) s)))"

definition do_no_page :: "nat \<Rightarrow> fs_sleep \<Rightarrow> u32 \<Rightarrow> u32 \<Rightarrow> fsst \<Rightarrow> fsst kres" where
  "do_no_page n zz error_code address0 s =
     (let address = address0 AND 0xfffff000;
          image_offset = address - t_start_code (cur_task s)
      in case t_executable (cur_task s) of
           None \<Rightarrow> run_mm_unit (get_empty_page address) s
         | Some ip \<Rightarrow>
             if t_end_data (cur_task s) \<le> image_offset then run_mm_unit (get_empty_page address) s
             else kbind (share_page image_offset s) (\<lambda>(shared, s).
               if shared then Inr s
               else kbind (run_mm get_free_page s) (\<lambda>(page, s).
                 if page = 0 then Inl (Panic ''do_no_page: out of memory!'')
                 else load_page n zz ip image_offset page address s)))"

section \<open>A fault outside the executable\<close>

lemma idx_mask [simp]: "page_idx (a AND 0xfffff000) = page_idx a" "pgdir_idx (a AND 0xfffff000) = pgdir_idx a"
proof -
  have e: "(0xfffff000 :: u32) = push_bit 12 (mask 20)" "(0x3ff :: u32) = mask 10" by (simp_all add: mask_eq_exp_minus_1 push_bit_eq_mult)
  show "page_idx (a AND 0xfffff000) = page_idx a" "pgdir_idx (a AND 0xfffff000) = pgdir_idx a"
    unfolding page_idx_def pgdir_idx_def e
    by (rule bit_word_eqI; auto simp: bit_and_iff bit_drop_bit_eq bit_push_bit_iff bit_mask_iff dest: bit_imp_le_length)+
qed

lemma ld32_other_page:
  assumes "aligned4 x" and "page_of x \<noteq> f" and "\<And>y. page_of y \<noteq> f \<Longrightarrow> m' y = m y"
  shows "ld32 m' x = ld32 m x"
proof -
  have "m' (x + of_nat k) = m (x + of_nat k)" if "k < 4" for k using assms(2,3) page_of_aligned_off[OF assms(1) that] by simp
  from this[of 0] this[of 1] this[of 2] this[of 3] show ?thesis by (intro ld32_cong) simp_all
qed

lemma table_entry:
  assumes "page_of t = t" and "unat k < 1024"
  shows "page_of (t + 4 * k) = t" "aligned4 (t + 4 * k)"
proof -
  define i where "i = unat k"
  have k: "k = of_nat i" "i < 1024" using assms(2) by (simp_all add: i_def)
  show "page_of (t + 4 * k) = t" unfolding k(1) using assms(1) k(2) by (simp add: in_page_iff[symmetric] unat_4_times)
  show "aligned4 (t + 4 * k)" unfolding k(1) using assms(1) k(2) by (intro aligned4_entry aligned4_page) simp_all
qed

lemma idx_less: "unat (page_idx a) < 1024" "unat (pgdir_idx a) < 1024"
proof -
  have "unat (x AND 0x3ff) < 1024" for x :: u32
  proof -
    have "x AND 0x3ff = take_bit 10 x" by (simp add: take_bit_eq_mask mask_eq_exp_minus_1)
    then show ?thesis by (simp add: take_bit_eq_mod unat_mod)
  qed
  then show "unat (page_idx a) < 1024" "unat (pgdir_idx a) < 1024" by (simp_all add: page_idx_def pgdir_idx_def)
qed

text \<open>The page directory, and the page table for the address if it has one, are not in unused frames.\<close>

definition has_table :: "mm_state \<Rightarrow> u32 \<Rightarrow> bool" where
  "has_table s a \<longleftrightarrow> ld32 (pmem s) (pde s a) AND PDE_PRESENT \<noteq> 0"

definition tables_ok :: "mm_state \<Rightarrow> u32 \<Rightarrow> bool" where
  "tables_ok s a \<longleftrightarrow> page_of (pg_dir s) = pg_dir s \<and> (\<forall>p<MM_PAGES. \<not> page_used s p \<longrightarrow> pg_dir s \<noteq> frame_addr p)
     \<and> (has_table s a \<longrightarrow> page_table_from s (pde s a) \<noteq> pg_dir s
          \<and> (\<forall>p<MM_PAGES. \<not> page_used s p \<longrightarrow> page_table_from s (pde s a) \<noteq> frame_addr p))"

lemma page_of_alloc_frame: "p < MM_PAGES \<Longrightarrow> pmem (alloc_frame p s) x = (if page_of x = frame_addr p then 0 else pmem s x)"
  using in_page_iff[OF page_of_frame, of p x] by (simp add: alloc_frame_pmem)

lemma alloc_frame_tables [simp]: "pg_dir (alloc_frame p s) = pg_dir s" "pde (alloc_frame p s) a = pde s a"
  by (simp_all add: pde_def alloc_frame_def)

lemma pde_page: "page_of (pg_dir s) = pg_dir s \<Longrightarrow> page_of (pde s a) = pg_dir s" "page_of (pg_dir s) = pg_dir s \<Longrightarrow> aligned4 (pde s a)"
  unfolding pde_def using table_entry[OF _ idx_less(2)] by auto

lemma pte_page: "page_of (pte s a) = page_table_from s (pde s a)" "aligned4 (pte s a)"
  unfolding pte_def by (rule table_entry[OF _ idx_less(1)]; simp add: page_table_from_def page_of_def and.assoc)+

lemma table_of_frame:
  assumes "p < MM_PAGES"
  shows "(frame_addr p OR PDE_UWP) AND 0xfffff000 = frame_addr p" "(frame_addr p OR PDE_UWP) AND PDE_PRESENT \<noteq> 0"
proof -
  have "page_of (frame_addr p OR PDE_UWP) = page_of (frame_addr p) OR page_of PDE_UWP" by (simp add: page_of_def bit.conj_disj_distrib2)
  then show "(frame_addr p OR PDE_UWP) AND 0xfffff000 = frame_addr p" using page_of_frame[OF assms] by (simp add: page_of_def)
  have "bit ((frame_addr p OR PDE_UWP) AND PDE_PRESENT) 0" by (simp add: bit_and_iff bit_or_iff)
  then show "(frame_addr p OR PDE_UWP) AND PDE_PRESENT \<noteq> 0" by (metis bit_0_eq bot_apply bot_bool_def)
qed

lemma st32_far:
  assumes "aligned4 e" and "page_of x \<noteq> page_of e"
  shows "st32 m e v x = m x"
proof -
  have "4 \<le> unat (x - e)"
  proof (rule ccontr)
    assume "\<not> 4 \<le> unat (x - e)"
    then have "x = e + of_nat (unat (x - e))" "unat (x - e) < 4" by simp_all
    then show False using page_of_aligned_off[OF assms(1), of "unat (x - e)"] assms(2) by metis
  qed
  then show ?thesis by (simp add: st32_apply)
qed

text \<open>The entry goes into the table that is there.\<close>

lemma get_empty_page_maps:
  assumes "q < MM_PAGES" and "\<not> page_used s q" and t: "tables_ok s a" and h: "has_table s a"
  obtains p where "p < MM_PAGES" "\<not> page_used s p"
    "get_empty_page a s = Inr ((alloc_frame p s)\<lparr>pmem := st32 (pmem (alloc_frame p s)) (pte s a) (frame_addr p OR PTE_UWP)\<rparr>)"
    "page_of (pte s a) \<noteq> frame_addr p"
    "ld32 (st32 (pmem (alloc_frame p s)) (pte s a) (frame_addr p OR PTE_UWP)) (pde s a) = ld32 (pmem s) (pde s a)"
proof -
  obtain p where p: "p < MM_PAGES" "\<not> page_used s p" "get_free_page s = Inr (frame_addr p, alloc_frame p s)"
    by (rule get_free_page_alloc[OF assms(1,2)])
  have nf: "pg_dir s \<noteq> frame_addr p" "page_table_from s (pde s a) \<noteq> frame_addr p" using t h p(1,2) by (auto simp: tables_ok_def)
  have d: "page_of (pde s a) = pg_dir s" "aligned4 (pde s a)" using t by (auto simp: tables_ok_def pde_page)
  have l: "ld32 (pmem (alloc_frame p s)) (pde s a) = ld32 (pmem s) (pde s a)"
    by (rule ld32_other_page[OF d(2)]) (use nf(1) d(1) page_of_alloc_frame[OF p(1)] in auto)
  have "get_empty_page a s = Inr ((alloc_frame p s)\<lparr>pmem := st32 (pmem (alloc_frame p s)) (pte s a) (frame_addr p OR PTE_UWP)\<rparr>)"
    using h p frame_addr_nonzero[OF p(1)] l by (simp add: get_empty_page_def put_page_def has_table_def page_table_from_def pte_def)
  moreover have "pte s a \<noteq> pde s a" using d(1) pte_page(1)[of s a] t h by (auto simp: tables_ok_def)
  then have "ld32 (st32 (pmem (alloc_frame p s)) (pte s a) v) (pde s a) = ld32 (pmem s) (pde s a)" for v
    using l d(2) pte_page(2) by (simp add: ld32_st32_other)
  ultimately show ?thesis using that p(1,2) nf pte_page(1) by metis
qed

text \<open>The address has no table: a second frame becomes one.\<close>

lemma get_empty_page_makes_table:
  assumes q: "q < MM_PAGES" "\<not> page_used s q" and r: "r < MM_PAGES" "\<not> page_used s r" "r \<noteq> q" and t: "tables_ok s a" and h: "\<not> has_table s a"
  obtains p u where "p < MM_PAGES" "\<not> page_used s p" "u < MM_PAGES" "\<not> page_used s u" "u \<noteq> p"
    "get_empty_page a s = Inr ((alloc_frame u (alloc_frame p s))\<lparr>pmem := st32 (st32 (pmem (alloc_frame u (alloc_frame p s))) (pde s a) (frame_addr u OR PDE_UWP))
       (frame_addr u + 4 * page_idx a) (frame_addr p OR PTE_UWP)\<rparr>)"
proof -
  obtain p where p: "p < MM_PAGES" "\<not> page_used s p" "get_free_page s = Inr (frame_addr p, alloc_frame p s)"
    by (rule get_free_page_alloc[OF q])
  obtain q' where q': "q' < MM_PAGES" "\<not> page_used (alloc_frame p s) q'" using q r by (metis page_used_alloc)
  obtain u where u: "u < MM_PAGES" "\<not> page_used (alloc_frame p s) u"
    "get_free_page (alloc_frame p s) = Inr (frame_addr u, alloc_frame u (alloc_frame p s))" by (rule get_free_page_alloc[OF q'])
  have nf: "pg_dir s \<noteq> frame_addr p" using t p(1,2) by (auto simp: tables_ok_def)
  have d: "page_of (pde s a) = pg_dir s" "aligned4 (pde s a)" using t by (auto simp: tables_ok_def pde_page)
  have l: "ld32 (pmem (alloc_frame p s)) (pde s a) = ld32 (pmem s) (pde s a)"
    by (rule ld32_other_page[OF d(2)]) (use nf d(1) page_of_alloc_frame[OF p(1)] in auto)
  have "get_empty_page a s = Inr ((alloc_frame u (alloc_frame p s))\<lparr>pmem := st32 (st32 (pmem (alloc_frame u (alloc_frame p s))) (pde s a) (frame_addr u OR PDE_UWP))
       (frame_addr u + 4 * page_idx a) (frame_addr p OR PTE_UWP)\<rparr>)"
    using h p u l frame_addr_nonzero[OF p(1)] frame_addr_nonzero[OF u(1)] by (simp add: get_empty_page_def put_page_def has_table_def)
  then show ?thesis using that p(1,2) u(1,2) by (metis page_used_alloc)
qed

text \<open>What a state looks like after a zeroed frame has been mapped at an address that had a table, and at one that had none.\<close>

lemma mapped_in_table:
  fixes s :: mm_state
  assumes "mm_inv s" and t: "tables_ok s a" "has_table s a" and p: "p < MM_PAGES" "\<not> page_used s p" "page_of (pte s a) \<noteq> frame_addr p"
    "ld32 (st32 (pmem (alloc_frame p s)) (pte s a) (frame_addr p OR PTE_UWP)) (pde s a) = ld32 (pmem s) (pde s a)"
  defines "s' \<equiv> (alloc_frame p s)\<lparr>pmem := st32 (pmem (alloc_frame p s)) (pte s a) (frame_addr p OR PTE_UWP)\<rparr>"
  shows "mm_inv s'" "pg_dir s' = pg_dir s" "refcount s' = (refcount s)(p := 1)" "has_table s' a" "pte s' a = pte s a"
    "ld32 (pmem s') (pte s a) = frame_addr p OR PTE_UWP" "page_of x = frame_addr p \<Longrightarrow> pmem s' x = 0"
    "page_of x \<noteq> frame_addr p \<Longrightarrow> 4 \<le> unat (x - pte s a) \<Longrightarrow> pmem s' x = pmem s x"
proof -
  note A = mm_inv_alloc[OF assms(1) p(1,2)]
  show "mm_inv s'" "refcount s' = (refcount s)(p := 1)" "pg_dir s' = pg_dir s" using A by (simp_all add: s'_def mm_inv_def page_used_def)
  have d: "pde s' a = pde s a" by (simp add: s'_def pde_def)
  have l: "ld32 (pmem s') (pde s a) = ld32 (pmem s) (pde s a)" using p(4) by (simp add: s'_def)
  show "pte s' a = pte s a" "has_table s' a" using t(2) by (simp_all add: pte_def page_table_from_def has_table_def d l)
  show "ld32 (pmem s') (pte s a) = frame_addr p OR PTE_UWP" by (simp add: s'_def)
  show "pmem s' x = 0" if "page_of x = frame_addr p"
    using st32_far[OF pte_page(2), of x] that p(3) by (simp add: s'_def page_of_alloc_frame[OF p(1)])
  show "pmem s' x = pmem s x" if "page_of x \<noteq> frame_addr p" "4 \<le> unat (x - pte s a)"
    using that by (simp add: s'_def st32_apply page_of_alloc_frame[OF p(1)])
qed

lemma mapped_in_new_table:
  fixes s :: mm_state
  assumes "mm_inv s" and t: "tables_ok s a" and p: "p < MM_PAGES" "\<not> page_used s p" and u: "u < MM_PAGES" "\<not> page_used s u" "u \<noteq> p"
  defines "e \<equiv> frame_addr u + 4 * page_idx a"
  defines "s' \<equiv> (alloc_frame u (alloc_frame p s))\<lparr>pmem := st32 (st32 (pmem (alloc_frame u (alloc_frame p s))) (pde s a) (frame_addr u OR PDE_UWP)) e (frame_addr p OR PTE_UWP)\<rparr>"
  shows "mm_inv s'" "pg_dir s' = pg_dir s" "refcount s' = (refcount s)(p := 1, u := 1)" "has_table s' a" "pte s' a = e"
    "ld32 (pmem s') (pde s a) = frame_addr u OR PDE_UWP" "ld32 (pmem s') e = frame_addr p OR PTE_UWP"
    "page_of x = frame_addr p \<Longrightarrow> pmem s' x = 0"
    "page_of x = frame_addr u \<Longrightarrow> 4 \<le> unat (x - e) \<Longrightarrow> pmem s' x = 0"
    "page_of x \<noteq> frame_addr p \<Longrightarrow> page_of x \<noteq> frame_addr u \<Longrightarrow> 4 \<le> unat (x - pde s a) \<Longrightarrow> pmem s' x = pmem s x"
proof -
  note A = mm_inv_alloc[OF assms(1) p]
  have u': "\<not> page_used (alloc_frame p s) u" using u by (simp add: page_used_alloc)
  note B = mm_inv_alloc[OF A(1) u(1) u']
  show "mm_inv s'" "refcount s' = (refcount s)(p := 1, u := 1)" "pg_dir s' = pg_dir s" using A(2) B by (simp_all add: s'_def mm_inv_def page_used_def)
  have nf: "pg_dir s \<noteq> frame_addr p" "pg_dir s \<noteq> frame_addr u" "frame_addr u \<noteq> frame_addr p" using t p u frame_addr_inj[OF u(1) p(1)] by (auto simp: tables_ok_def)
  have d: "page_of (pde s a) = pg_dir s" "aligned4 (pde s a)" using t by (auto simp: tables_ok_def pde_page)
  have e: "page_of e = frame_addr u" "aligned4 e" unfolding e_def by (rule table_entry[OF page_of_frame[OF u(1)] idx_less(1)])+
  have ne: "e \<noteq> pde s a" using d(1) e(1) nf by auto
  show l: "ld32 (pmem s') (pde s a) = frame_addr u OR PDE_UWP" using ne d(2) e(2) by (simp add: s'_def ld32_st32_other)
  have d': "pde s' a = pde s a" by (simp add: s'_def pde_def)
  show "pte s' a = e" "has_table s' a" using l table_of_frame[OF u(1)] by (simp_all add: pte_def page_table_from_def has_table_def d' e_def)
  show "ld32 (pmem s') e = frame_addr p OR PTE_UWP" by (simp add: s'_def)
  show "pmem s' x = 0" if "page_of x = frame_addr p"
    using st32_far[OF d(2), of x] st32_far[OF e(2), of x] that d(1) e(1) nf by (simp add: s'_def page_of_alloc_frame[OF p(1)] page_of_alloc_frame[OF u(1)])
  show "pmem s' x = 0" if "page_of x = frame_addr u" "4 \<le> unat (x - e)"
    using st32_far[OF d(2), of x] that d(1) e(1) nf by (simp add: s'_def st32_apply page_of_alloc_frame[OF u(1)])
  show "pmem s' x = pmem s x" if "page_of x \<noteq> frame_addr p" "page_of x \<noteq> frame_addr u" "4 \<le> unat (x - pde s a)"
    using st32_far[OF e(2), of x] that e(1) by (simp add: s'_def st32_apply[of _ "pde s a"] page_of_alloc_frame[OF p(1)] page_of_alloc_frame[OF u(1)])
qed

lemma do_no_page_empty:
  assumes "t_executable (cur_task s) = None \<or> t_end_data (cur_task s) \<le> (a AND 0xfffff000) - t_start_code (cur_task s)"
    and "get_empty_page (a AND 0xfffff000) ((fs_mm s)\<lparr>pmem := bdata s\<rparr>) = Inr mm'"
  shows "do_no_page n zz err a s = Inr (s\<lparr>fs_mm := mm', bdata := pmem mm'\<rparr>)"
  using assms by (auto simp: do_no_page_def Let_def run_mm_unit_def split: option.split)

lemma masked_tables: "pde s (a AND 0xfffff000) = pde s a" "pte s (a AND 0xfffff000) = pte s a"
  "tables_ok s (a AND 0xfffff000) = tables_ok s a" "has_table s (a AND 0xfffff000) = has_table s a"
  by (simp_all add: tables_ok_def has_table_def pde_def pte_def)

text \<open>C5: a fault on a page that does not come from the executable, for a task without one or an address behind its data,
  maps a page of zeros: \<open>do_no_page\<close> returns, the entry of the address points to a frame that was unused, present and
  writable for the user, and all bytes of the frame are zero. When the address has a page table, that entry is the one in it,
  and every byte outside the frame and the entry, and every other reference count, is as before. When it has none (and a second
  frame is unused), the second frame becomes its page table: the entry of the page directory points to it, the other entries of the table are zero, and every byte outside the two frames and the entry of the
  directory, and every other reference count, is as before. The rest of the system's state is not touched.\<close>

theorem do_no_page_zero_page:
  fixes s :: fsst and a :: u32
  defines "mm \<equiv> (fs_mm s)\<lparr>pmem := bdata s\<rparr>"
  assumes "mm_inv mm" and "q < MM_PAGES" and "\<not> page_used mm q" and "tables_ok mm a"
    and "has_table mm a \<or> r < MM_PAGES \<and> \<not> page_used mm r \<and> r \<noteq> q"
    and "t_executable (cur_task s) = None \<or> t_end_data (cur_task s) \<le> (a AND 0xfffff000) - t_start_code (cur_task s)"
  shows "\<exists>p mm'. p < MM_PAGES \<and> \<not> page_used mm p \<and> do_no_page n zz err a s = Inr (s\<lparr>fs_mm := mm', bdata := pmem mm'\<rparr>)
    \<and> mm_inv mm' \<and> pg_dir mm' = pg_dir mm \<and> has_table mm' a
    \<and> ld32 (pmem mm') (pte mm' a) = frame_addr p OR PTE_UWP \<and> (\<forall>x. page_of x = frame_addr p \<longrightarrow> pmem mm' x = 0)
    \<and> (if has_table mm a
       then pte mm' a = pte mm a \<and> refcount mm' = (refcount mm)(p := 1)
         \<and> (\<forall>x. page_of x \<noteq> frame_addr p \<and> 4 \<le> unat (x - pte mm a) \<longrightarrow> pmem mm' x = bdata s x)
       else \<exists>u. u < MM_PAGES \<and> \<not> page_used mm u \<and> u \<noteq> p \<and> refcount mm' = (refcount mm)(p := 1, u := 1)
         \<and> ld32 (pmem mm') (pde mm a) = frame_addr u OR PDE_UWP \<and> pte mm' a = frame_addr u + 4 * page_idx a
         \<and> (\<forall>x. page_of x = frame_addr u \<and> 4 \<le> unat (x - pte mm' a) \<longrightarrow> pmem mm' x = 0)
         \<and> (\<forall>x. page_of x \<noteq> frame_addr p \<and> page_of x \<noteq> frame_addr u \<and> 4 \<le> unat (x - pde mm a) \<longrightarrow> pmem mm' x = bdata s x))"
proof (cases "has_table mm a")
  case True
  note T = assms(5)[folded masked_tables(3)[of mm a]] True[folded masked_tables(4)[of mm a]]
  obtain p where p: "p < MM_PAGES" "\<not> page_used mm p"
    "get_empty_page (a AND 0xfffff000) mm = Inr ((alloc_frame p mm)\<lparr>pmem := st32 (pmem (alloc_frame p mm)) (pte mm a) (frame_addr p OR PTE_UWP)\<rparr>)"
    "page_of (pte mm a) \<noteq> frame_addr p"
    "ld32 (st32 (pmem (alloc_frame p mm)) (pte mm a) (frame_addr p OR PTE_UWP)) (pde mm a) = ld32 (pmem mm) (pde mm a)"
    by (rule get_empty_page_maps[OF assms(3,4) T, unfolded masked_tables])
  note R = mapped_in_table[OF assms(2,5) True p(1,2,4,5)]
  have m: "pmem mm = bdata s" by (simp add: mm_def)
  show ?thesis
    by (rule exI[of _ p], rule exI, intro conjI, rule p(1), rule p(2), rule do_no_page_empty[OF assms(7) p(3)[unfolded mm_def], folded mm_def])
      (use True R m in simp_all)
next
  case False
  note T = assms(5)[folded masked_tables(3)[of mm a]] False[folded masked_tables(4)[of mm a]]
  have r: "r < MM_PAGES" "\<not> page_used mm r" "r \<noteq> q" using assms(6) False by auto
  obtain p u where p: "p < MM_PAGES" "\<not> page_used mm p" and u: "u < MM_PAGES" "\<not> page_used mm u" "u \<noteq> p"
    and g: "get_empty_page (a AND 0xfffff000) mm = Inr ((alloc_frame u (alloc_frame p mm))\<lparr>pmem := st32 (st32 (pmem (alloc_frame u (alloc_frame p mm))) (pde mm a) (frame_addr u OR PDE_UWP))
       (frame_addr u + 4 * page_idx a) (frame_addr p OR PTE_UWP)\<rparr>)"
    by (rule get_empty_page_makes_table[OF assms(3,4) r T, unfolded masked_tables idx_mask])
  note R = mapped_in_new_table[OF assms(2,5) p u]
  have m: "pmem mm = bdata s" by (simp add: mm_def)
  show ?thesis
    by (rule exI[of _ p], rule exI, intro conjI, rule p(1), rule p(2), rule do_no_page_empty[OF assms(7) g[unfolded mm_def], folded mm_def])
      (use False u R m in \<open>simp_all, auto\<close>)
qed

text \<open>A page directory at address 0 whose first entry is a page table at 0x2000; the second entry, for the addresses from
  0x400000 on, is empty.\<close>

definition demo_paged :: fsst where
  "demo_paged = (demo_fs demo_zcache 100)\<lparr>fs_mm := demo_mm\<lparr>pg_dir := 0\<rparr>, bdata := st32 (\<lambda>_. 0) 0 0x2007\<rparr>"

theorem do_no_page_zero_page_witness:
  "(\<exists>p mm'. p < MM_PAGES \<and> do_no_page 0 (\<lambda>_. Inr) 0 0x1234 demo_paged = Inr (demo_paged\<lparr>fs_mm := mm', bdata := pmem mm'\<rparr>)
      \<and> ld32 (pmem mm') 0x2004 = frame_addr p OR PTE_UWP \<and> (\<forall>x. page_of x = frame_addr p \<longrightarrow> pmem mm' x = 0))
   \<and> (\<exists>p u mm'. p < MM_PAGES \<and> u < MM_PAGES \<and> u \<noteq> p
      \<and> do_no_page 0 (\<lambda>_. Inr) 0 0x401234 demo_paged = Inr (demo_paged\<lparr>fs_mm := mm', bdata := pmem mm'\<rparr>)
      \<and> ld32 (pmem mm') 4 = frame_addr u OR PDE_UWP \<and> ld32 (pmem mm') (frame_addr u + 4) = frame_addr p OR PTE_UWP
      \<and> ld32 (pmem mm') 0 = 0x2007)"
proof -
  let ?m = "(fs_mm demo_paged)\<lparr>pmem := bdata demo_paged\<rparr>"
  have l: "ld32 (st32 (\<lambda>_. 0) 0 0x2007) 0 = 0x2007" by (rule ld32_st32_same)
  have l4: "ld32 (st32 (\<lambda>_. 0) 0 0x2007) 4 = 0" by (simp add: ld32_st32_other aligned4_def) (simp add: ld32_def)
  have d: "pde ?m 0x1234 = 0" "page_table_from ?m 0 = 0x2000" "pte ?m 0x1234 = 0x2004" "pg_dir ?m = 0" "pmem ?m = st32 (\<lambda>_. 0) 0 0x2007"
    "pde ?m 0x401234 = 4" "page_idx 0x401234 = 1"
    by (simp_all add: pde_def pte_def page_table_from_def demo_paged_def pgdir_idx_def page_idx_def l)
  have f: "frame_addr p \<noteq> 0" "frame_addr p \<noteq> 0x2000" if "p < MM_PAGES" for p using unat_frame_addr[OF that] by auto
  have t: "tables_ok ?m 0x1234" "tables_ok ?m 0x401234" "has_table ?m 0x1234" "\<not> has_table ?m 0x401234"
    using f by (auto simp: tables_ok_def has_table_def d l l4 page_of_def)
  have i: "mm_inv ?m" "\<not> page_used ?m 0" "\<not> page_used ?m 1" using demo_mm_inv demo_mm_free[of 0] demo_mm_free[of 1] by (simp_all add: demo_paged_def mm_inv_def page_used_def)
  have x: "t_executable (cur_task demo_paged) = None"
    by (simp add: demo_paged_def demo_fs_simps demo_zcache_def demo_idle_def demo_cache_def demo_bio_def demo_sched_def demo_task_def INIT_TASK_def)
  obtain p1 mm1 where one: "p1 < MM_PAGES" "do_no_page 0 (\<lambda>_. Inr) 0 0x1234 demo_paged = Inr (demo_paged\<lparr>fs_mm := mm1, bdata := pmem mm1\<rparr>)"
      "ld32 (pmem mm1) 0x2004 = frame_addr p1 OR PTE_UWP" "\<forall>x. page_of x = frame_addr p1 \<longrightarrow> pmem mm1 x = 0"
    using do_no_page_zero_page[OF i(1) _ i(2) t(1) disjI1[OF t(3)] disjI1[OF x], of 0 "\<lambda>_. Inr" 0] t(3) d(3) by auto
  obtain p u mm' where r: "p < MM_PAGES" "u < MM_PAGES" "u \<noteq> p" "do_no_page 0 (\<lambda>_. Inr) 0 0x401234 demo_paged = Inr (demo_paged\<lparr>fs_mm := mm', bdata := pmem mm'\<rparr>)"
      "ld32 (pmem mm') 4 = frame_addr u OR PDE_UWP" "ld32 (pmem mm') (frame_addr u + 4) = frame_addr p OR PTE_UWP"
      and o: "\<forall>x. page_of x \<noteq> frame_addr p \<and> page_of x \<noteq> frame_addr u \<and> 4 \<le> unat (x - 4) \<longrightarrow> pmem mm' x = bdata demo_paged x"
    using do_no_page_zero_page[OF i(1) _ i(2) t(2) disjI2 disjI1[OF x], of 1 0 "\<lambda>_. Inr" 0] t(4) i(3) unfolding d by auto
  have "ld32 (pmem mm') 0 = ld32 (bdata demo_paged) 0" by (rule ld32_cong) (use o f[OF r(1)] f[OF r(2)] in \<open>simp_all add: page_of_def unsigned_minus_1_eq_mask mask_eq_exp_minus_1\<close>)
  then have "ld32 (pmem mm') 0 = 0x2007" by (simp add: demo_paged_def)
  with one r show ?thesis by blast
qed

end
