(* ===== verification/Boot.thy ===== *)
theory Boot
  imports Inode
begin

text \<open>
  The boot loader's C part: bootloader/x86/hdisk/main.c and hd.c, bootloader/x86/fs. It reads the super block, walks the
  path of the kernel image and loads its blocks to 8 MiB. It has one physical memory and no cache; every block is
  read to a fixed buffer. The theorem at the end says that the file found is in memory afterwards.
\<close>

section \<open>Reading the disk\<close>

text \<open>\<open>read_blocks\<close> of hdloader.S, for the drive's contents by sector: \<open>sectors\<close>; what the data port gives when the drive
  has no more data is \<open>idle\<close>. The drive is told to read twice as many sectors as blocks are asked for, from a 28 bit
  sector number on; the loop copies \<open>256 << counts\<close> words.\<close>

abbreviation (input) base_sector :: u32 where "base_sector \<equiv> 0x800"

definition read_words :: "u32 \<Rightarrow> nat" where
  "read_words counts = (let n = unat (push_bit (unat (counts AND 31)) 256 :: u32) in if n = 0 then 2 ^ 32 else n)"

definition read_sectors :: "u32 \<Rightarrow> nat" where
  "read_sectors counts = (let n = unat (ucast (push_bit 1 counts) :: u8) in if n = 0 then 256 else n)"

definition read_blocks_asm :: "(u32 \<Rightarrow> nat \<Rightarrow> u8) \<Rightarrow> (nat \<Rightarrow> u8) \<Rightarrow> u32 \<Rightarrow> u32 \<Rightarrow> u32 \<Rightarrow> mem \<Rightarrow> mem" where
  "read_blocks_asm sectors idle block_no counts buffer m =
     (let lba = (push_bit 1 block_no + base_sector) AND 0x0fffffff
      in (\<lambda>x. (let i = unat (x - buffer)
                in if 2 * read_words counts \<le> i then m x
                   else if i < 512 * read_sectors counts then sectors (lba + of_nat (i div 512)) (i mod 512)
                   else idle i)))"

text \<open>Every call asks for one block. Then the drive is the function from block number and offset to byte.\<close>

type_synonym disk = "u32 \<Rightarrow> nat \<Rightarrow> u8"

definition block_view :: "(u32 \<Rightarrow> nat \<Rightarrow> u8) \<Rightarrow> disk" where
  "block_view sectors b i = sectors (((2 * b + base_sector) AND 0x0fffffff) + of_nat (i div 512)) (i mod 512)"

definition read_blocks :: "disk \<Rightarrow> u32 \<Rightarrow> u32 \<Rightarrow> mem \<Rightarrow> mem" where
  "read_blocks d block buf m = (\<lambda>x. if unat (x - buf) < 1024 then d block (unat (x - buf)) else m x)"

lemma read_blocks_one: "read_blocks_asm sectors idle b 1 buf m = read_blocks (block_view sectors) b buf m"
  by (simp add: read_blocks_asm_def read_blocks_def block_view_def read_words_def read_sectors_def push_bit_eq_mult Let_def mult.commute fun_eq_iff)

section \<open>The super block and inodes\<close>

abbreviation (input) SUPER_BUF :: u32 where "SUPER_BUF \<equiv> 0x100000"
abbreviation (input) INODE_BUF :: u32 where "INODE_BUF \<equiv> 0x200000"
abbreviation (input) ENTRY_BUF :: u32 where "ENTRY_BUF \<equiv> 0x300000"
abbreviation (input) DATA_ZONE :: u32 where "DATA_ZONE \<equiv> 0x400000"
abbreviation (input) DATA_ZONE2 :: u32 where "DATA_ZONE2 \<equiv> 0x400400"
abbreviation (input) KERNEL_START_ADDRESS :: u32 where "KERNEL_START_ADDRESS \<equiv> 0x800000"

definition boot_get_super :: "disk \<Rightarrow> mem \<Rightarrow> u32 \<times> mem" where
  "boot_get_super d m = (SUPER_BUF, read_blocks d 1 SUPER_BUF m)"

text \<open>The result is the address of the inode. The number is divided before 1 is taken off.\<close>

definition get_inode :: "disk \<Rightarrow> u32 \<Rightarrow> u32 \<Rightarrow> mem \<Rightarrow> u32 \<times> mem" where
  "get_inode d super ino m =
     (let block_idx = ino div 32;
          ino = ino mod 32;
          block = 2 + ucast (ld16 m (super + 4)) + ucast (ld16 m (super + 6)) + block_idx
      in (INODE_BUF + 32 * (ino - 1), read_blocks d block INODE_BUF m))"

section \<open>Paths\<close>

text \<open>\<open>strncmp\<close> of string.h; characters are signed. The count is that of the characters still to compare.\<close>

primrec strncmp :: "nat \<Rightarrow> u32 \<Rightarrow> u32 \<Rightarrow> mem \<Rightarrow> int" where
  "strncmp 0 src dest m = 0"
| "strncmp (Suc len) src dest m =
     (if m src \<noteq> 0 \<and> m dest \<noteq> 0 \<and> m src = m dest then strncmp len (src + 1) (dest + 1) m
      else if m src = 0 \<and> m dest \<noteq> 0 then -1
      else if m src \<noteq> 0 \<and> m dest = 0 then 1
      else if m dest <s m src then 1
      else if m src <s m dest then -1
      else 0)"

partial_function (option) skip_slashes :: "mem \<Rightarrow> u32 \<Rightarrow> u32 option" where
  "skip_slashes m path = (if m path = 0x2f then skip_slashes m (path + 1) else Some path)"

partial_function (option) scan_part :: "mem \<Rightarrow> u32 \<Rightarrow> nat \<Rightarrow> (u32 \<times> nat) option" where
  "scan_part m path len =
     (if m path \<noteq> 0x2f \<and> m path \<noteq> 0 then scan_part m (path + 1) (Suc len) else Some (path, len))"

text \<open>The loop over the entries of a block: whether the name was found, and where \<open>entry\<close> points then. An entry whose
  inode number is 0 ends the loop.\<close>

primrec scan_items :: "nat \<Rightarrow> u32 \<Rightarrow> nat \<Rightarrow> u32 \<Rightarrow> mem \<Rightarrow> bool \<times> u32" where
  "scan_items 0 part len entry m = (False, entry)"
| "scan_items (Suc k) part len entry m =
     (if ld16 m entry = 0 then (False, entry)
      else if strncmp len part (entry + 2) m = 0 then (True, entry)
      else scan_items k part len (entry + 16) m)"

text \<open>The loop over the zones 0 to 6. A block is read to where \<open>entry\<close> points.\<close>

primrec scan_zones :: "disk \<Rightarrow> nat list \<Rightarrow> u32 \<Rightarrow> u32 \<Rightarrow> nat \<Rightarrow> u32 \<Rightarrow> mem \<Rightarrow> bool \<times> u32 \<times> mem" where
  "scan_zones d [] inode part len entry m = (False, entry, m)"
| "scan_zones d (i # is) inode part len entry m =
     (let zone = ld16 m (inode + 14 + 2 * of_nat i)
      in if zone = 0 then (False, entry, m)
         else
          (let m = read_blocks d (ucast zone) entry m
           in case scan_items 64 part len entry m of
                (found, entry) \<Rightarrow> if found then (True, entry, m) else scan_zones d is inode part len entry m))"

text \<open>The loop over the components, with fuel; \<open>path\<close> is at the start of one, and the result is the entry or 0.\<close>

primrec lookup_loop :: "nat \<Rightarrow> disk \<Rightarrow> u32 \<Rightarrow> u32 \<Rightarrow> u32 \<Rightarrow> u32 \<Rightarrow> mem \<Rightarrow> (u32 \<times> mem) kres" where
  "lookup_loop 0 d super path ino entry m = Inl Hang"
| "lookup_loop (Suc n) d super path ino entry m =
     (if m path = 0 then Inr (entry, m)
      else case scan_part m path 0 of
        None \<Rightarrow> Inl Hang
      | Some (path', len) \<Rightarrow>
         (case get_inode d super ino m of
            (inode, m) \<Rightarrow>
              (case scan_zones d [0..<7] inode path len ENTRY_BUF m of
                 (found, entry, m) \<Rightarrow>
                   if \<not> found then Inr (0, m)
                   else case skip_slashes m path' of
                     None \<Rightarrow> Inl Hang
                   | Some path \<Rightarrow> lookup_loop n d super path (ucast (ld16 m entry)) entry m)))"

definition path_lookup :: "nat \<Rightarrow> disk \<Rightarrow> u32 \<Rightarrow> u32 \<Rightarrow> mem \<Rightarrow> (u32 \<times> mem) kres" where
  "path_lookup n d super path m =
     (if m path \<noteq> 0x2f then Inr (0, m)
      else case skip_slashes m path of
        None \<Rightarrow> Inl Hang
      | Some path \<Rightarrow> lookup_loop n d super path 1 ENTRY_BUF m)"

section \<open>Loading\<close>

primrec memcpy_loop :: "nat \<Rightarrow> u32 \<Rightarrow> u32 \<Rightarrow> mem \<Rightarrow> mem" where
  "memcpy_loop 0 dest src m = m"
| "memcpy_loop (Suc n) dest src m = memcpy_loop n (dest + 1) (src + 1) (m(dest := m src))"

definition memcpy :: "u32 \<Rightarrow> u32 \<Rightarrow> u32 \<Rightarrow> mem \<Rightarrow> mem" where
  "memcpy dest src sz m = memcpy_loop (nat (sint sz)) dest src m"

text \<open>A loop over at most \<open>n\<close> block numbers from address \<open>base\<close> on, up to a 0; each block goes to \<open>kernel_addr\<close>. The
  result is the next address and the memory.\<close>

primrec load_run :: "disk \<Rightarrow> nat \<Rightarrow> u32 \<Rightarrow> u32 \<Rightarrow> mem \<Rightarrow> u32 \<times> mem" where
  "load_run d 0 base kernel_addr m = (kernel_addr, m)"
| "load_run d (Suc n) base kernel_addr m =
     (if ld16 m base = 0 then (kernel_addr, m)
      else load_run d n (base + 2) (kernel_addr + 1024) (read_blocks d (ucast (ld16 m base)) kernel_addr m))"

primrec load_outer :: "disk \<Rightarrow> nat \<Rightarrow> u32 \<Rightarrow> u32 \<Rightarrow> mem \<Rightarrow> u32 \<times> mem" where
  "load_outer d 0 base kernel_addr m = (kernel_addr, m)"
| "load_outer d (Suc n) base kernel_addr m =
     (if ld16 m base = 0 then (kernel_addr, m)
      else case load_run d 512 DATA_ZONE2 kernel_addr (read_blocks d (ucast (ld16 m base)) DATA_ZONE2 m) of
        (kernel_addr, m) \<Rightarrow> load_outer d n (base + 2) kernel_addr m)"

definition load_bin :: "disk \<Rightarrow> u32 \<Rightarrow> u16 \<Rightarrow> mem \<Rightarrow> mem" where
  "load_bin d super ino m =
     (case get_inode d super (ucast ino) m of
        (inode, m) \<Rightarrow>
          if ld32 m (inode + 4) = 0 then m
          else case load_run d 7 (inode + 14) KERNEL_START_ADDRESS m of
            (kernel_addr, m) \<Rightarrow>
              (let z7 = ld16 m (inode + 28)
               in case (if z7 \<noteq> 0 then load_run d 512 DATA_ZONE kernel_addr (read_blocks d (ucast z7) DATA_ZONE m) else (kernel_addr, m)) of
                    (kernel_addr, m) \<Rightarrow>
                      (let z8 = ld16 m (inode + 30)
                       in if z8 \<noteq> 0 then snd (load_outer d 512 DATA_ZONE kernel_addr (read_blocks d (ucast z8) DATA_ZONE m)) else m)))"

text \<open>\<open>main\<close>; \<open>path\<close> is where the string \<open>/kernel.bin\<close> lies.\<close>

definition boot_main :: "nat \<Rightarrow> disk \<Rightarrow> u32 \<Rightarrow> mem \<Rightarrow> mem kres" where
  "boot_main n d path m =
     (case boot_get_super d m of
        (super, m) \<Rightarrow>
          kbind (path_lookup n d super path m) (\<lambda>(entry, m).
            Inr (if entry \<noteq> 0 then load_bin d super (ld16 m entry) m else m)))"

section \<open>Drive parameters\<close>

text \<open>\<open>boot_setup\<close> has the beginning of the kernel's \<open>sys_setup\<close>. The first call runs off the end of the function, so
  its value is whatever the register holds: \<open>None\<close>.\<close>

definition boot_setup :: "u32 \<Rightarrow> 'a hdst_scheme \<Rightarrow> int option \<times> 'a hdst_scheme" where
  "boot_setup BIOS s0 =
     (if \<not> callable s0 then (Some (-1), s0)
      else
       (let s1 = s0\<lparr>callable := False,
                    hd_info := (hd_info s0)(0 := bios_drive (bdata s0) BIOS, 1 := bios_drive (bdata s0) (BIOS + 16))\<rparr>;
            n = (if hdi_cyl (hd_info s1 1) \<noteq> 0 then 2 else 1) :: nat;
            whole = (\<lambda>i. \<lparr>start_sect = 0, nr_sects = hdi_head (hd_info s1 i) * hdi_cyl (hd_info s1 i) * hdi_sect (hd_info s1 i)\<rparr>)
        in (None, s1\<lparr>NR_HD := of_nat n,
                     hd_part := (\<lambda>k. if k = 0 \<or> k = 5 \<and> n = 2 then whole (k div 5) else hd_part s1 k)\<rparr>)))"

text \<open>The loader's \<open>buffer_init\<close> is the kernel's, word for word.\<close>

definition boot_buffer_init :: "u32 \<Rightarrow> 'a bio_scheme \<Rightarrow> 'a bio_scheme option" where
  "boot_buffer_init buffer_end s = buffer_init buffer_end s"

section \<open>Blocks in memory\<close>

text \<open>A 16 bit number in a block of the disk.\<close>

definition blk16 :: "disk \<Rightarrow> u32 \<Rightarrow> nat \<Rightarrow> u16" where
  "blk16 d b i = ucast (d b i) OR push_bit 8 (ucast (d b (Suc i)))"

lemma read_blocks_in: "i < 1024 \<Longrightarrow> read_blocks d b buf m (buf + of_nat i) = d b i"
  by (simp add: read_blocks_def unat_of_nat)

lemma read_blocks_out: "1024 \<le> unat (x - buf) \<Longrightarrow> read_blocks d b buf m x = m x"
  by (simp add: read_blocks_def)

lemma ld16_read_blocks: "Suc i < 1024 \<Longrightarrow> ld16 (read_blocks d b buf m) (buf + of_nat i) = blk16 d b i"
  using read_blocks_in[of i d b buf m] read_blocks_in[of "Suc i" d b buf m] by (simp add: ld16_def blk16_def ac_simps)

lemma unat_apart:
  fixes x a :: u32
  assumes "unat x < unat a \<and> n + unat a \<le> 2 ^ 32 \<or> unat a + n \<le> unat x"
  shows "n \<le> unat (x - a)"
  using assms unfolding unat_minus_eq word_le_nat_alt by auto

lemma unat_far_step:
  fixes x a :: u32
  assumes "1024 * Suc n \<le> unat (x - a)"
  shows "unat (x - (a + 1024)) = unat (x - a) - 1024"
proof -
  have e: "x - (a + 1024) = (x - a) - 1024" by simp
  have l: "(1024 :: u32) \<le> x - a" using assms by (simp add: word_le_nat_alt)
  show ?thesis unfolding e unat_sub[OF l] by simp
qed

text \<open>The state of the buffers of block numbers does not matter; everything else of memory is unchanged but the blocks \<open>L\<close>,
  loaded one behind the other from \<open>addr\<close> on.\<close>

abbreviation (input) in_scratch :: "u32 \<Rightarrow> bool" where "in_scratch x \<equiv> unat (x - DATA_ZONE) < 2048"

definition loads :: "disk \<Rightarrow> u16 list \<Rightarrow> u32 \<Rightarrow> mem \<Rightarrow> mem \<Rightarrow> bool" where
  "loads d L addr m m' \<longleftrightarrow> (\<forall>x. if unat (x - addr) < 1024 * length L
     then m' x = d (ucast (L ! (unat (x - addr) div 1024))) (unat (x - addr) mod 1024)
     else \<not> in_scratch x \<longrightarrow> m' x = m x)"

definition above :: "nat \<Rightarrow> u32 \<Rightarrow> bool" where
  "above n addr \<longleftrightarrow> 0x800000 \<le> unat addr \<and> unat addr + 1024 * n < 2 ^ 32"

lemma above_apart:
  assumes "above n addr" and "unat x < 0x800000"
  shows "1024 * n \<le> unat (x - addr)"
  using assms by (intro unat_apart) (auto simp: above_def)

lemma above_unat: "above n addr \<Longrightarrow> unat (x - addr) < 1024 * n \<Longrightarrow> unat x = unat addr + unat (x - addr)"
  unfolding above_def unat_minus_eq word_le_nat_alt by (auto split: if_splits)

lemma above_scratch:
  assumes "above n addr" and "unat (x - addr) < 1024 * n"
  shows "\<not> in_scratch x"
proof -
  have "2048 \<le> unat (x - DATA_ZONE)" using above_unat[OF assms] assms(1) by (intro unat_apart) (simp add: above_def)
  then show ?thesis by simp
qed

lemma loads_Nil: "loads d [] addr m m' \<longleftrightarrow> (\<forall>x. \<not> in_scratch x \<longrightarrow> m' x = m x)"
  by (simp add: loads_def)

lemma loads_scratch: "(\<And>x. \<not> in_scratch x \<Longrightarrow> m1 x = m x) \<Longrightarrow> loads d L addr m1 m' \<Longrightarrow> loads d L addr m m'"
  by (simp add: loads_def)

lemma above_add: "above (n + k) addr \<Longrightarrow> unat (addr + 1024 * of_nat n) = unat addr + 1024 * n \<and> above k (addr + 1024 * of_nat n)"
proof -
  assume a: "above (n + k) addr"
  then have "unat (of_nat (1024 * n) :: u32) = 1024 * n" by (simp only: unat_of_nat above_def) simp
  then have "unat (addr + of_nat (1024 * n)) = unat addr + 1024 * n" using a by (subst unat_plus_if_size) (simp add: word_size above_def)
  then show ?thesis using a by (simp add: above_def)
qed

lemma loads_append:
  assumes "loads d L addr m m1" and "loads d K (addr + 1024 * of_nat (length L)) m1 m2" and a: "above (length L + length K) addr"
  shows "loads d (L @ K) addr m m2"
  unfolding loads_def
proof
  fix x
  let ?b = "addr + 1024 * of_nat (length L)" and ?o = "unat (x - addr)" and ?l = "length L"
  have b: "unat ?b = unat addr + 1024 * ?l" "above (length K) ?b" using above_add[OF a] by auto
  have o: "unat (x - ?b) = (if 1024 * ?l \<le> ?o then ?o - 1024 * ?l else ?o + 2 ^ 32 - 1024 * ?l)"
  proof -
    have e: "x - ?b = (x - addr) - (?b - addr)" by simp
    have "unat (?b - addr) = 1024 * ?l" using b(1) by (subst unat_minus_eq) (simp add: word_le_nat_alt)
    then show ?thesis unfolding e by (subst unat_minus_eq) (simp add: word_le_nat_alt)
  qed
  have K: "if unat (x - ?b) < 1024 * length K then m2 x = d (ucast (K ! (unat (x - ?b) div 1024))) (unat (x - ?b) mod 1024)
     else \<not> in_scratch x \<longrightarrow> m2 x = m1 x" using assms(2) by (simp add: loads_def)
  have L: "if ?o < 1024 * ?l then m1 x = d (ucast (L ! (?o div 1024))) (?o mod 1024) else \<not> in_scratch x \<longrightarrow> m1 x = m x"
    using assms(1) by (simp add: loads_def)
  show "if ?o < 1024 * length (L @ K) then m2 x = d (ucast ((L @ K) ! (?o div 1024))) (?o mod 1024) else \<not> in_scratch x \<longrightarrow> m2 x = m x"
  proof (cases "?o < 1024 * ?l")
    case True
    have "above ?l addr" using a by (simp add: above_def)
    from above_scratch[OF this True] have s: "\<not> in_scratch x" .
    have "unat addr + 1024 * ?l + 1024 * length K < 2 ^ 32" using a by (simp add: above_def)
    then have "\<not> unat (x - ?b) < 1024 * length K" using True unfolding o by simp
    moreover have "?o div 1024 < ?l" using True by (simp add: less_mult_imp_div_less mult.commute)
    ultimately show ?thesis using True K L s by (simp add: nth_append)
  next
    case False
    then obtain e where e: "?o = 1024 * ?l + e" by (metis not_less le_Suc_ex)
    then have q: "?o div 1024 = ?l + e div 1024" "?o mod 1024 = e mod 1024" "?o - 1024 * ?l = e"
      "?o < 1024 * ?l + 1024 * length K \<longleftrightarrow> e < 1024 * length K" by simp_all
    show ?thesis using False K L unfolding o by (auto simp: nth_append q split: if_splits)
  qed
qed

section \<open>The loops load the blocks up to the first 0\<close>

abbreviation (input) nz :: "u16 list \<Rightarrow> u16 list" where "nz L \<equiv> takeWhile (\<lambda>z. z \<noteq> 0) L"

lemma loads_one: "loads d [z] addr m (read_blocks d (ucast z) addr m)"
  by (simp add: loads_def read_blocks_def)

lemma ld16_same: "m' x = m x \<Longrightarrow> m' (x + 1) = m (x + 1) \<Longrightarrow> ld16 m' x = ld16 m x"
  by (rule ld16_cong)

text \<open>The numbers \<open>L\<close> stand in memory from \<open>base\<close> on, below the kernel's place.\<close>

definition numbers_at :: "mem \<Rightarrow> nat \<Rightarrow> u16 list \<Rightarrow> bool" where
  "numbers_at m base L \<longleftrightarrow> base + 2 * length L \<le> 0x800000 \<and> (\<forall>i<length L. ld16 m (of_nat (base + 2 * i)) = L ! i)"

lemma numbers_at_Cons: "numbers_at m base (z # L) \<Longrightarrow> ld16 m (of_nat base) = z \<and> numbers_at m (base + 2) L"
  by (auto simp: numbers_at_def All_less_Suc2 ac_simps)

lemma numbers_at_other:
  assumes "numbers_at m base L" and "\<And>x. base \<le> unat x \<Longrightarrow> unat x < base + 2 * length L \<Longrightarrow> m' x = m x"
  shows "numbers_at m' base L"
proof -
  have "ld16 m' (of_nat (base + 2 * i)) = L ! i" if i: "i < length L" for i
  proof -
    have b: "base + 2 * length L \<le> 0x800000" using assms(1) by (simp add: numbers_at_def)
    have u: "unat (of_nat (base + 2 * i + k) :: u32) = base + 2 * i + k" if "k < 2" for k
      using that i b by (simp only: unat_of_nat) simp
    have "m' (of_nat (base + 2 * i + k)) = m (of_nat (base + 2 * i + k))" if "k < 2" for k
    proof (rule assms(2))
      show "base \<le> unat (of_nat (base + 2 * i + k) :: u32)" "unat (of_nat (base + 2 * i + k) :: u32) < base + 2 * length L"
        unfolding u[OF that] using that i by simp_all
    qed
    from this[of 0] this[of 1] have "ld16 m' (of_nat (base + 2 * i)) = ld16 m (of_nat (base + 2 * i))"
      by (intro ld16_same) (simp_all add: ac_simps)
    then show ?thesis using assms(1) i by (simp add: numbers_at_def)
  qed
  then show ?thesis using assms(1) by (simp add: numbers_at_def)
qed

lemma load_run_loads:
  assumes "numbers_at m base L" and "above (length L) addr"
  shows "\<exists>m'. load_run d (length L) (of_nat base) addr m = (addr + 1024 * of_nat (length (nz L)), m') \<and> loads d (nz L) addr m m'
    \<and> (\<forall>x. unat x < 0x800000 \<longrightarrow> m' x = m x)"
  using assms
proof (induction L arbitrary: base addr m)
  case Nil
  then show ?case by (auto simp: loads_def)
next
  case (Cons z L)
  note z = numbers_at_Cons[OF Cons.prems(1)]
  show ?case
  proof (cases "z = 0")
    case True
    then show ?thesis using z by (auto simp: loads_def)
  next
    case False
    let ?m = "read_blocks d (ucast z) addr m"
    have low: "?m x = m x" if "unat x < 0x800000" for x
      using above_apart[OF Cons.prems(2) that] by (intro read_blocks_out) simp
    have "numbers_at ?m (base + 2) L" by (rule numbers_at_other[OF conjunct2[OF z]]) (use Cons.prems(1) low in \<open>simp add: numbers_at_def\<close>)
    moreover have "above (length L) (addr + 1024)" using above_add[of 1 "length L" addr] Cons.prems(2) by simp
    ultimately obtain m' where m': "load_run d (length L) (of_nat (base + 2)) (addr + 1024) ?m = (addr + 1024 + 1024 * of_nat (length (nz L)), m')"
      "loads d (nz L) (addr + 1024) ?m m'" "\<forall>x. unat x < 0x800000 \<longrightarrow> m' x = ?m x" using Cons.IH by blast
    have "above (length [z] + length (nz L)) addr" using Cons.prems(2) length_takeWhile_le[of "\<lambda>z. z \<noteq> 0" L] by (simp add: above_def)
    then have "loads d ([z] @ nz L) addr m m'" using m'(2) by (intro loads_append[OF loads_one]) simp_all
    then show ?thesis using m' z False low by (auto simp: algebra_simps)
  qed
qed

text \<open>The doubly indirect blocks: \<open>E z\<close> are the numbers in block \<open>z\<close>.\<close>

lemma load_outer_loads:
  assumes "numbers_at m base L" and "base + 2 * length L \<le> 0x400400" and "0x400000 \<le> base" and "above (512 * length L) addr"
    and E: "\<And>z. length (E z) = 512" "\<And>z i. i < 512 \<Longrightarrow> blk16 d (ucast z) (2 * i) = E z ! i"
  shows "\<exists>a' m'. load_outer d (length L) (of_nat base) addr m = (a', m') \<and> loads d (concat (map (\<lambda>z. nz (E z)) (nz L))) addr m m'"
  using assms(1-4)
proof (induction L arbitrary: base addr m)
  case Nil
  then show ?case by (auto simp: loads_def)
next
  case (Cons z L)
  note z = numbers_at_Cons[OF Cons.prems(1)]
  show ?case
  proof (cases "z = 0")
    case True
    then show ?thesis using z by (auto simp: loads_def)
  next
    case False
    let ?m = "read_blocks d (ucast z) DATA_ZONE2 m" and ?K = "nz (E z)"
    have sc: "?m x = m x" if "\<not> in_scratch x" for x
    proof (rule read_blocks_out)
      have "x - DATA_ZONE2 = (x - DATA_ZONE) - 1024" by simp
      then show "1024 \<le> unat (x - DATA_ZONE2)" using that by (auto simp: unat_minus_eq word_le_nat_alt split: if_splits)
    qed
    have low: "?m x = m x" if "unat x < 0x400400" for x using that by (intro read_blocks_out unat_apart) simp
    have "ld16 ?m (of_nat (0x400400 + 2 * i)) = E z ! i" if "i < 512" for i
      using ld16_read_blocks[of "2 * i" d "ucast z" DATA_ZONE2 m] E(2)[OF that] that by simp
    then have n2: "numbers_at ?m 0x400400 (E z)" by (simp add: numbers_at_def E(1))
    have ab: "above (512 + 512 * length L) addr" "above 512 addr" using Cons.prems(4) by (auto simp: above_def)
    obtain m1 where m1: "load_run d 512 DATA_ZONE2 addr ?m = (addr + 1024 * of_nat (length ?K), m1)" "loads d ?K addr ?m m1"
      "\<forall>x. unat x < 0x800000 \<longrightarrow> m1 x = ?m x" using load_run_loads[OF n2, of addr d] ab(2) E(1) by auto
    have lk: "length ?K \<le> 512" using length_takeWhile_le[of _ "E z"] E(1) by simp
    let ?a = "addr + 1024 * of_nat (length ?K)"
    have "numbers_at m1 (base + 2) L" by (rule numbers_at_other[OF conjunct2[OF z]]) (use Cons.prems(2,3) low m1(3) in \<open>simp add: numbers_at_def\<close>)
    moreover have aa: "above (length ?K + 512 * length L) addr" using ab(1) lk by (simp add: above_def)
    then have "above (512 * length L) ?a" using above_add by blast
    ultimately obtain a' m' where m': "load_outer d (length L) (of_nat (base + 2)) ?a m1 = (a', m')" "loads d (concat (map (\<lambda>z. nz (E z)) (nz L))) ?a m1 m'"
      using Cons.IH[of m1 "base + 2" ?a] Cons.prems(2,3) by auto
    have le: "length (concat (map (\<lambda>z. nz (E z)) (nz L))) \<le> 512 * length L"
    proof -
      have "length (nz (E z)) \<le> 512" for z using length_takeWhile_le[of _ "E z"] E(1) by simp
      then have "length (concat (map (\<lambda>z. nz (E z)) K)) \<le> 512 * length K" for K by (induction K) (simp_all add: add_mono)
      from this[of "nz L"] show ?thesis using length_takeWhile_le[of "\<lambda>z. z \<noteq> 0" L] by linarith
    qed
    have "above (length ?K + length (concat (map (\<lambda>z. nz (E z)) (nz L)))) addr" using aa le by (simp add: above_def)
    then have "loads d (?K @ concat (map (\<lambda>z. nz (E z)) (nz L))) addr ?m m'" using loads_append m1(2) m'(2) by blast
    then have "loads d (?K @ concat (map (\<lambda>z. nz (E z)) (nz L))) addr m m'" by (rule loads_scratch[rotated]) (rule sc)
    then show ?thesis using m' m1(1) z False by (auto simp: add.commute)
  qed
qed

section \<open>The image is the file\<close>

definition file_list :: "(nat \<Rightarrow> u16) \<Rightarrow> (u16 \<Rightarrow> nat \<Rightarrow> u16) \<Rightarrow> u16 list" where
  "file_list z D = nz (map z [0..<7]) @ (if z 7 = 0 then [] else nz (map (D (z 7)) [0..<512]))
     @ (if z 8 = 0 then [] else concat (map (\<lambda>b. nz (map (D b) [0..<512])) (nz (map (D (z 8)) [0..<512]))))"

text \<open>A file without holes: exactly its first \<open>n\<close> blocks are there.\<close>

definition no_holes :: "(nat \<Rightarrow> u16) \<Rightarrow> (u16 \<Rightarrow> nat \<Rightarrow> u16) \<Rightarrow> nat \<Rightarrow> bool" where
  "no_holes z D n \<longleftrightarrow> n \<le> 262663 \<and> (\<forall>k<262663. file_map z D k \<noteq> 0 \<longleftrightarrow> k < n)"

lemma upt_join: "i \<le> j \<Longrightarrow> j \<le> k \<Longrightarrow> [i..<j] @ [j..<k] = [i..<k]"
  using upt_add_eq_append[of i j "k - j"] by simp

lemma nz_snoc: "nz (map f [0..<Suc b]) = (if \<forall>k<b. f k \<noteq> 0 then map f [0..<b] @ nz [f b] else nz (map f [0..<b]))"
proof (cases "\<forall>k<b. f k \<noteq> 0")
  case True
  have "nz (map f [0..<b] @ [f b]) = map f [0..<b] @ nz [f b]" by (rule takeWhile_append2) (use True in auto)
  then show ?thesis using True by simp
next
  case False
  then obtain k where "k < b" "f k = 0" by auto
  then have "nz (map f [0..<b] @ [f b]) = nz (map f [0..<b])" by (intro takeWhile_append1[of "f k"]) auto
  then show ?thesis using False by (auto simp del: takeWhile_append)
qed

lemma nz_upt:
  assumes "\<And>k. k < b \<Longrightarrow> f k = g (a + k)" and "\<And>k. k < a + b \<Longrightarrow> g k \<noteq> 0 \<longleftrightarrow> k < n"
  shows "nz (map f [0..<b]) = map g [a..<min (a + b) n]"
  using assms
proof (induction b)
  case (Suc b)
  then have IH: "nz (map f [0..<b]) = map g [a..<min (a + b) n]" by simp
  have all: "(\<forall>k<b. f k \<noteq> 0) \<Longrightarrow> map f [0..<b] = map g [a..<min (a + b) n]"
    using IH takeWhile_eq_all_conv[of "\<lambda>z. z \<noteq> 0" "map f [0..<b]"] by simp
  have g: "f b \<noteq> 0 \<longleftrightarrow> a + b < n" "f b = g (a + b)" using Suc.prems(1)[of b] Suc.prems(2)[of "a + b"] by simp_all
  show ?case
  proof (cases "\<forall>k<b. f k \<noteq> 0")
    case True
    then show ?thesis unfolding nz_snoc using all g by (auto simp: min_def)
  next
    case False
    then obtain k where "k < b" "f k = 0" by auto
    then have "n \<le> a + b" using Suc.prems(1)[of k] Suc.prems(2)[of "a + k"] by simp
    then show ?thesis unfolding nz_snoc if_not_P[OF False] using IH by (simp add: min_def)
  qed
qed simp

lemma concat_segments:
  assumes "\<And>i. i < N \<Longrightarrow> h i \<noteq> 0 \<Longrightarrow> seg (h i) = map g [a + 512 * i..<min (a + 512 * i + 512) n]"
    and "\<And>i. i < N \<Longrightarrow> h i = 0 \<Longrightarrow> n \<le> a + 512 * i"
  shows "concat (map seg (nz (map h [0..<N]))) = map g [a..<min (a + 512 * N) n]"
  using assms
proof (induction N)
  case (Suc N)
  then have IH: "concat (map seg (nz (map h [0..<N]))) = map g [a..<min (a + 512 * N) n]" by simp
  show ?case
  proof (cases "\<forall>i<N. h i \<noteq> 0")
    case True
    then have e: "nz (map h [0..<N]) = map h [0..<N]" by (simp add: takeWhile_eq_all_conv)
    have "concat (map seg (nz (map h [0..<Suc N]))) = map g [a..<min (a + 512 * N) n] @ concat (map seg (nz [h N]))"
      unfolding nz_snoc using IH[unfolded e] True by simp
    moreover have "map g [a..<min (a + 512 * N) n] @ concat (map seg (nz [h N])) = map g [a..<min (a + 512 * Suc N) n]"
    proof (cases "h N = 0")
      case True
      then show ?thesis using Suc.prems(2)[of N] by (simp add: min_def)
    next
      case False
      have "[a..<min (a + 512 * N) n] @ [a + 512 * N..<min (a + 512 * N + 512) n] = [a..<min (a + 512 * Suc N) n]"
        using upt_join[of a "a + 512 * N" "min (a + 512 * N + 512) n"] by (cases "a + 512 * N \<le> n") (auto simp: min_def ac_simps)
      then show ?thesis using False Suc.prems(1)[of N] by (simp flip: map_append)
    qed
    ultimately show ?thesis by simp
  next
    case False
    then obtain i where "i < N" "h i = 0" by auto
    then have "n \<le> a + 512 * N" using Suc.prems(2)[of i] by simp
    then show ?thesis unfolding nz_snoc using IH False by (auto simp: min_def)
  qed
qed simp

lemma file_list_no_holes:
  assumes "no_holes z D n"
  shows "file_list z D = map (file_map z D) [0..<n]"
proof -
  let ?g = "file_map z D"
  have n: "n \<le> 262663" "\<And>k. k < 262663 \<Longrightarrow> ?g k \<noteq> 0 \<longleftrightarrow> k < n" using assms by (auto simp: no_holes_def)
  have 1: "nz (map z [0..<7]) = map ?g [0..<min 7 n]"
    using nz_upt[of 7 z ?g 0 n, OF _ n(2)] by (simp add: file_map_def)
  have z7: "z 7 = 0 \<Longrightarrow> n \<le> 7" using n(2)[of 7] by (simp add: file_map_def)
  have "z 7 \<noteq> 0 \<Longrightarrow> nz (map (D (z 7)) [0..<512]) = map ?g [7..<min 519 n]"
    using nz_upt[of 512 "D (z 7)" ?g 7 n, OF _ n(2)] by (simp add: file_map_def)
  then have 2: "(if z 7 = 0 then [] else nz (map (D (z 7)) [0..<512])) = map ?g [7..<min 519 n]" using z7 by auto
  have z8: "z 8 = 0 \<Longrightarrow> n \<le> 519" using n(2)[of 519] by (simp add: file_map_def)
  have f: "?g (519 + 512 * i + k) = (if z 8 = 0 then 0 else if D (z 8) i = 0 then 0 else D (D (z 8) i) k)" if "k < 512" for i k
  proof -
    have "(512 * i + k) div 512 = i" "(512 * i + k) mod 512 = k" using that by simp_all
    then show ?thesis by (simp add: file_map_def Let_def add.assoc)
  qed
  have s: "nz (map (D (D (z 8) i)) [0..<512]) = map ?g [519 + 512 * i..<min (519 + 512 * i + 512) n]" if "z 8 \<noteq> 0" "i < 512" "D (z 8) i \<noteq> 0" for i
    using nz_upt[of 512 "D (D (z 8) i)" ?g "519 + 512 * i" n, OF _ n(2)] f that by simp
  have o: "n \<le> 519 + 512 * i" if "z 8 \<noteq> 0" "i < 512" "D (z 8) i = 0" for i using n(2)[of "519 + 512 * i"] f[of 0 i] that by simp
  have "z 8 \<noteq> 0 \<Longrightarrow> concat (map (\<lambda>b. nz (map (D b) [0..<512])) (nz (map (D (z 8)) [0..<512]))) = map ?g [519..<min (519 + 512 * 512) n]"
    by (rule concat_segments[where h = "D (z 8)" and seg = "\<lambda>b. nz (map (D b) [0..<512])"]) (use s o in auto)
  then have 3: "(if z 8 = 0 then [] else concat (map (\<lambda>b. nz (map (D b) [0..<512])) (nz (map (D (z 8)) [0..<512])))) = map ?g [519..<n]"
    using z8 n(1) by auto
  have "[0..<min 7 n] @ [7..<min 519 n] @ [519..<n] = [0..<n]"
  proof -
    have "[0..<min 7 n] @ [7..<min 519 n] = [0..<min 519 n]" using upt_join[of 0 7 "min 519 n"] by (cases "7 \<le> n") (auto simp: min_def)
    moreover have "[0..<min 519 n] @ [519..<n] = [0..<n]" using upt_join[of 0 519 n] by (cases "519 \<le> n") (auto simp: min_def)
    ultimately show ?thesis by (metis append_assoc)
  qed
  then show ?thesis unfolding file_list_def 1 2 3 by (simp flip: map_append)
qed

section \<open>The file system on the disk\<close>

text \<open>The inode table as the kernel lays it out: 32 inodes to a block, the first inode is number 1.\<close>

definition itab_block :: "disk \<Rightarrow> nat \<Rightarrow> u32" where
  "itab_block d nr = 2 + ucast (blk16 d 1 4) + ucast (blk16 d 1 6) + of_nat ((nr - 1) div 32)"

definition disk_zone :: "disk \<Rightarrow> nat \<Rightarrow> nat \<Rightarrow> u16" where
  "disk_zone d nr i = blk16 d (itab_block d nr) (32 * ((nr - 1) mod 32) + 14 + 2 * i)"

definition disk_size :: "disk \<Rightarrow> nat \<Rightarrow> u32" where
  "disk_size d nr = ld32 (\<lambda>x. d (itab_block d nr) (unat x)) (of_nat (32 * ((nr - 1) mod 32) + 4))"

definition disk_numbers :: "disk \<Rightarrow> u16 \<Rightarrow> nat \<Rightarrow> u16" where
  "disk_numbers d z i = blk16 d (ucast z) (2 * i)"

text \<open>The super block is in its buffer.\<close>

definition super_in :: "disk \<Rightarrow> mem \<Rightarrow> bool" where
  "super_in d m \<longleftrightarrow> ld16 m (SUPER_BUF + 4) = blk16 d 1 4 \<and> ld16 m (SUPER_BUF + 6) = blk16 d 1 6"

lemma get_inode_is:
  assumes "super_in d m" and "nr mod 32 \<noteq> 0" and "nr < 65536"
  shows "get_inode d SUPER_BUF (of_nat nr) m = (of_nat (0x200000 + 32 * ((nr - 1) mod 32)), read_blocks d (itab_block d nr) INODE_BUF m)"
proof -
  obtain q k where nr: "nr = 32 * q + Suc k" "Suc k < 32"
    using assms(2) by (metis mult_div_mod_eq mod_less_divisor zero_less_numeral not0_implies_Suc)
  have u: "unat (of_nat nr :: u32) = nr" using assms(3) by (simp only: unat_of_nat) simp
  have "(of_nat nr :: u32) div 32 = of_nat q" by (rule word_unat_eq_iff[THEN iffD2]) (use nr assms(3) u in \<open>simp add: unat_div unat_of_nat\<close>)
  moreover have "(of_nat nr :: u32) mod 32 = of_nat (Suc k)"
    by (rule word_unat_eq_iff[THEN iffD2]) (use nr assms(3) u in \<open>simp add: unat_mod unat_of_nat del: of_nat_Suc\<close>)
  moreover have "(nr - 1) div 32 = q" "(nr - 1) mod 32 = k" using nr by simp_all
  ultimately show ?thesis using assms(1) by (simp add: get_inode_def Let_def super_in_def itab_block_def algebra_simps)
qed

lemma unat_buf: "a < 2 ^ 32 \<Longrightarrow> unat (of_nat a :: u32) = a"
  by (simp only: unat_of_nat) simp

lemma read_blocks_low: "unat x < 0x800000 \<Longrightarrow> unat x < unat buf \<or> unat buf + 1024 \<le> unat x \<Longrightarrow> unat buf \<le> 0x800000 \<Longrightarrow> read_blocks d b buf m x = m x"
  by (intro read_blocks_out unat_apart) auto

lemma ld16_at:
  assumes "a + 2 \<le> 0x800000" and "\<And>x. a \<le> unat x \<Longrightarrow> unat x < a + 2 \<Longrightarrow> m' x = m x"
  shows "ld16 m' (of_nat a) = ld16 m (of_nat a)"
proof -
  have "unat (of_nat a :: u32) = a" "unat (of_nat (Suc a) :: u32) = Suc a" using assms(1) by (auto simp: unat_of_nat simp del: of_nat_Suc)
  then show ?thesis using assms(2)[of "of_nat a"] assms(2)[of "of_nat (Suc a)"] by (intro ld16_same) (simp_all add: ac_simps)
qed

lemma ld32_read_blocks:
  assumes "i + 4 \<le> 1024"
  shows "ld32 (read_blocks d b buf m) (buf + of_nat i) = ld32 (\<lambda>x. d b (unat x)) (of_nat i)"
proof -
  have "read_blocks d b buf m (buf + of_nat i + of_nat k) = d b (unat (of_nat i + of_nat k :: u32))" if "k < 4" for k
    using read_blocks_in[of "i + k" d b buf m] that assms by (simp add: unat_of_nat add.assoc flip: of_nat_add)
  from this[of 0] this[of 1] this[of 2] this[of 3] show ?thesis by (simp add: ld32_def)
qed

lemma loads_low:
  assumes "loads d L addr m m'" and "above (length L) addr" and "unat x < 0x400000"
  shows "m' x = m x"
proof -
  have "2048 \<le> unat (x - DATA_ZONE)" using assms(3) by (intro unat_apart) simp
  then show ?thesis using assms(1) above_apart[OF assms(2), of x] assms(3) by (auto simp: loads_def)
qed

lemma read_data_zone:
  "\<not> in_scratch x \<Longrightarrow> read_blocks d b DATA_ZONE m x = m x"
  "numbers_at (read_blocks d (ucast z) DATA_ZONE m) 0x400000 (map (disk_numbers d z) [0..<512])"
proof -
  show "\<not> in_scratch x \<Longrightarrow> read_blocks d b DATA_ZONE m x = m x" by (rule read_blocks_out) simp
  have "ld16 (read_blocks d (ucast z) DATA_ZONE m) (of_nat (0x400000 + 2 * i)) = disk_numbers d z i" if "i < 512" for i
    using ld16_read_blocks[of "2 * i" d "ucast z" DATA_ZONE m] that by (simp add: disk_numbers_def)
  then show "numbers_at (read_blocks d (ucast z) DATA_ZONE m) 0x400000 (map (disk_numbers d z) [0..<512])" by (simp add: numbers_at_def)
qed

lemma above_le: "above n addr \<Longrightarrow> k \<le> n \<Longrightarrow> above k addr"
  by (simp add: above_def)

lemma concat_nz_length: "(\<And>z. length (E z) \<le> n) \<Longrightarrow> length (concat (map (\<lambda>z. nz (E z)) L)) \<le> n * length L"
  by (induction L) (auto intro: add_mono order_trans[OF length_takeWhile_le])

lemma above_kernel: "above n KERNEL_START_ADDRESS \<longleftrightarrow> n < 4186112"
  unfolding above_def by simp

text \<open>The numbers in one block, and in the blocks a block names, behind what is already loaded.\<close>

lemma load_single:
  fixes z :: u16
  assumes "loads d L addr m0 m" and "above (length L + 512) addr"
  defines "K \<equiv> nz (map (disk_numbers d z) [0..<512])"
  shows "\<exists>m'. load_run d 512 DATA_ZONE (addr + 1024 * of_nat (length L)) (read_blocks d (ucast z) DATA_ZONE m) = (addr + 1024 * of_nat (length (L @ K)), m')
    \<and> loads d (L @ K) addr m0 m'"
proof -
  let ?m = "read_blocks d (ucast z) DATA_ZONE m" and ?a = "addr + 1024 * of_nat (length L)"
  have "above 512 ?a" using above_add[OF assms(2)] by simp
  then obtain m' where m': "load_run d 512 DATA_ZONE ?a ?m = (?a + 1024 * of_nat (length K), m')" "loads d K ?a ?m m'"
    using load_run_loads[OF read_data_zone(2)[of d z m], where addr = ?a and d = d] by (auto simp: K_def)
  have "loads d K ?a m m'" using read_data_zone(1) m'(2) by (rule loads_scratch)
  moreover have "length K \<le> 512" using length_takeWhile_le[of _ "map (disk_numbers d z) [0..<512]"] by (simp add: K_def)
  ultimately have "loads d (L @ K) addr m0 m'" using assms(1,2) by (blast intro: loads_append above_le add_left_mono)
  then show ?thesis using m'(1) by (simp add: algebra_simps)
qed

lemma load_double:
  fixes z :: u16
  assumes "loads d L addr m0 m" and a: "above (length L + 512 * 512) addr"
  defines "K \<equiv> concat (map (\<lambda>b. nz (map (disk_numbers d b) [0..<512])) (nz (map (disk_numbers d z) [0..<512])))"
  shows "loads d (L @ K) addr m0 (snd (load_outer d 512 DATA_ZONE (addr + 1024 * of_nat (length L)) (read_blocks d (ucast z) DATA_ZONE m)))"
proof -
  let ?m = "read_blocks d (ucast z) DATA_ZONE m" and ?a = "addr + 1024 * of_nat (length L)" and ?E = "\<lambda>b. map (disk_numbers d b) [0..<512]"
  have "above (512 * 512) ?a" using above_add[OF a] by blast
  then obtain a' m' where m': "load_outer d 512 DATA_ZONE ?a ?m = (a', m')" "loads d K ?a ?m m'"
    using load_outer_loads[OF read_data_zone(2)[of d z m], where addr = ?a and d = d and E = ?E] by (auto simp: K_def disk_numbers_def)
  have "loads d K ?a m m'" using read_data_zone(1) m'(2) by (rule loads_scratch)
  moreover have "length K \<le> 512 * 512" unfolding K_def by (rule order_trans[OF concat_nz_length]) (use length_takeWhile_le[of _ "?E z"] in auto)
  ultimately have "loads d (L @ K) addr m0 m'" using assms(1,2) by (blast intro: loads_append above_le add_left_mono)
  then show ?thesis using m'(1) by simp
qed

text \<open>Loading the file with inode \<open>nr\<close>.\<close>

lemma load_bin_loads:
  assumes s: "super_in d m" and nr: "nr mod 32 \<noteq> 0" "nr < 65536" and sz: "disk_size d nr \<noteq> 0"
  shows "loads d (file_list (disk_zone d nr) (disk_numbers d)) KERNEL_START_ADDRESS (read_blocks d (itab_block d nr) INODE_BUF m)
    (load_bin d SUPER_BUF (of_nat nr) m)"
proof -
  let ?k = "(nr - 1) mod 32" let ?i = "0x200000 + 32 * ?k" and ?m0 = "read_blocks d (itab_block d nr) INODE_BUF m" and ?z = "disk_zone d nr" and ?D = "disk_numbers d"
    and ?L1 = "nz (map (disk_zone d nr) [0..<7])"
  have k: "?k < 32" by simp
  have g: "get_inode d SUPER_BUF (ucast (of_nat nr :: u16)) m = (of_nat ?i, ?m0)"
  proof -
    have "ucast (of_nat nr :: u16) = (of_nat nr :: u32)" using nr(2) by (simp add: unsigned_of_nat take_bit_nat_eq_self)
    then show ?thesis using get_inode_is[OF s nr] by simp
  qed
  have sz': "ld32 ?m0 (of_nat ?i + 4) \<noteq> 0"
    using sz ld32_read_blocks[of "32 * ?k + 4" d "itab_block d nr" INODE_BUF m] k by (simp add: disk_size_def ac_simps)
  have z: "ld16 ?m0 (of_nat (?i + 14 + 2 * i)) = ?z i" if "i < 9" for i
    using ld16_read_blocks[of "32 * ?k + 14 + 2 * i" d "itab_block d nr" INODE_BUF m] that k by (simp add: disk_zone_def ac_simps)
  have "numbers_at ?m0 (?i + 14) (map ?z [0..<7])" unfolding numbers_at_def using z k by auto
  then obtain m1 where m1: "load_run d 7 (of_nat ?i + 14) KERNEL_START_ADDRESS ?m0 = (KERNEL_START_ADDRESS + 1024 * of_nat (length ?L1), m1)"
    "loads d ?L1 KERNEL_START_ADDRESS ?m0 m1"
    using load_run_loads[of ?m0 "?i + 14" "map ?z [0..<7]" KERNEL_START_ADDRESS d] by (auto simp: above_kernel ac_simps)
  have l1: "length ?L1 \<le> 7" using length_takeWhile_le[of _ "map ?z [0..<7]"] by simp
  have a1: "above (length ?L1 + 512) KERNEL_START_ADDRESS" using l1 by (simp add: above_kernel)
  have z7: "ld16 m1 (of_nat ?i + 28) = ?z 7" using ld16_at[of "?i + 28" m1 ?m0] loads_low[OF m1(2)] a1 z[of 7] k by (simp add: above_kernel ac_simps)
  let ?L2 = "?L1 @ (if ?z 7 = 0 then [] else nz (map (?D (?z 7)) [0..<512]))"
  obtain m2 where m2: "(if ?z 7 \<noteq> 0 then load_run d 512 DATA_ZONE (KERNEL_START_ADDRESS + 1024 * of_nat (length ?L1)) (read_blocks d (ucast (?z 7)) DATA_ZONE m1)
      else (KERNEL_START_ADDRESS + 1024 * of_nat (length ?L1), m1)) = (KERNEL_START_ADDRESS + 1024 * of_nat (length ?L2), m2)" "loads d ?L2 KERNEL_START_ADDRESS ?m0 m2"
    using load_single[OF m1(2) a1, of "?z 7"] m1(2) by (cases "?z 7 = 0") auto
  have a2: "above (length ?L2 + 512 * 512) KERNEL_START_ADDRESS" using l1 length_takeWhile_le[of "\<lambda>z. z \<noteq> 0" "map (?D (?z 7)) [0..<512]"] by (auto simp: above_kernel)
  have z8: "ld16 m2 (of_nat ?i + 30) = ?z 8" using ld16_at[of "?i + 30" m2 ?m0] loads_low[OF m2(2)] a2 z[of 8] k by (simp add: above_kernel ac_simps)
  show ?thesis using load_double[OF m2(2) a2, of "?z 8"] m2(2) sz' unfolding load_bin_def g prod.case m1(1) Let_def z7 m2(1) z8
    by (cases "?z 8 = 0") (simp_all add: file_list_def)
qed

section \<open>Finding the file\<close>

definition str_at :: "mem \<Rightarrow> u32 \<Rightarrow> u8 list \<Rightarrow> bool" where
  "str_at m p nm \<longleftrightarrow> (\<forall>i<length nm. m (p + of_nat i) = nm ! i)"

lemma str_at_Nil [simp]: "str_at m p []"
  by (simp add: str_at_def)

lemma str_at_Cons: "str_at m p (c # nm) \<longleftrightarrow> m p = c \<and> str_at m (p + 1) nm"
  by (simp add: str_at_def All_less_Suc2 add.assoc)

text \<open>The comparison is 0 exactly when the other string starts with the characters.\<close>

lemma strncmp_zero: "str_at m src nm \<Longrightarrow> 0 \<notin> set nm \<Longrightarrow> strncmp (length nm) src dest m = 0 \<longleftrightarrow> str_at m dest nm"
proof (induction nm arbitrary: src dest)
  case (Cons c nm)
  have "m dest = c" if "\<not> m dest <s c" "\<not> c <s m dest" using that by (metis signed.linorder_cases)
  then show ?case using Cons by (auto simp: str_at_Cons)
qed simp

text \<open>The entry \<open>j\<close> of the directory block \<open>b\<close> has a name that starts with \<open>nm\<close>.\<close>

definition entry_starts :: "disk \<Rightarrow> u32 \<Rightarrow> nat \<Rightarrow> u8 list \<Rightarrow> bool" where
  "entry_starts d b j nm \<longleftrightarrow> (\<forall>i<length nm. d b (16 * j + 2 + i) = nm ! i)"

definition first_entry :: "disk \<Rightarrow> u32 \<Rightarrow> nat \<Rightarrow> u8 list \<Rightarrow> bool" where
  "first_entry d b j nm \<longleftrightarrow> j < 64 \<and> entry_starts d b j nm \<and> (\<forall>i\<le>j. blk16 d b (16 * i) \<noteq> 0) \<and> (\<forall>i<j. \<not> entry_starts d b i nm)"

lemma entry_in_block:
  assumes "j < 64" and "length nm \<le> 14"
  shows "str_at (read_blocks d b ENTRY_BUF m) (ENTRY_BUF + 16 * of_nat j + 2) nm \<longleftrightarrow> entry_starts d b j nm"
    and "ld16 (read_blocks d b ENTRY_BUF m) (ENTRY_BUF + 16 * of_nat j) = blk16 d b (16 * j)"
proof -
  have "read_blocks d b ENTRY_BUF m (ENTRY_BUF + 16 * of_nat j + 2 + of_nat i) = d b (16 * j + 2 + i)" if "i < length nm" for i
    using read_blocks_in[of "16 * j + 2 + i" d b ENTRY_BUF m] assms that by (simp add: ac_simps)
  then show "str_at (read_blocks d b ENTRY_BUF m) (ENTRY_BUF + 16 * of_nat j + 2) nm \<longleftrightarrow> entry_starts d b j nm"
    by (simp add: str_at_def entry_starts_def)
  show "ld16 (read_blocks d b ENTRY_BUF m) (ENTRY_BUF + 16 * of_nat j) = blk16 d b (16 * j)"
    using ld16_read_blocks[of "16 * j" d b ENTRY_BUF m] assms(1) by simp
qed

lemma scan_items_first:
  assumes f: "first_entry d b j nm" and nm: "length nm \<le> 14" "0 \<notin> set nm" and s: "str_at (read_blocks d b ENTRY_BUF m) part nm"
  shows "i \<le> j \<Longrightarrow> j < i + k \<Longrightarrow> scan_items k part (length nm) (ENTRY_BUF + 16 * of_nat i) (read_blocks d b ENTRY_BUF m) = (True, ENTRY_BUF + 16 * of_nat j)"
proof (induction k arbitrary: i)
  case (Suc k)
  have i: "i < 64" using f Suc.prems by (simp add: first_entry_def)
  note e = entry_in_block[OF i nm(1), of d b m] strncmp_zero[OF s nm(2), of "ENTRY_BUF + 16 * of_nat i + 2"]
  have nz: "blk16 d b (16 * i) \<noteq> 0" using f Suc.prems by (simp add: first_entry_def)
  show ?case
  proof (cases "i = j")
    case True
    then show ?thesis using e nz f by (simp add: first_entry_def)
  next
    case False
    then have "\<not> entry_starts d b i nm" using f Suc.prems by (simp add: first_entry_def)
    moreover have "scan_items k part (length nm) (ENTRY_BUF + 16 * of_nat (Suc i)) (read_blocks d b ENTRY_BUF m) = (True, ENTRY_BUF + 16 * of_nat j)"
      using Suc.IH[of "Suc i"] Suc.prems False by simp
    ultimately show ?thesis using e nz by (simp add: algebra_simps)
  qed
qed simp

lemma scan_part_len: "str_at m p nm \<Longrightarrow> m (p + of_nat (length nm)) = 0 \<Longrightarrow> 0 \<notin> set nm \<Longrightarrow> 0x2f \<notin> set nm \<Longrightarrow>
  scan_part m p k = Some (p + of_nat (length nm), k + length nm)"
proof (induction nm arbitrary: p k)
  case Nil
  then show ?case by (subst scan_part.simps) simp
next
  case (Cons c nm)
  then show ?case by (subst scan_part.simps) (simp add: str_at_Cons add.assoc)
qed

text \<open>The path \<open>/nm\<close> lies below the buffers.\<close>

definition path_at :: "mem \<Rightarrow> u32 \<Rightarrow> u8 list \<Rightarrow> bool" where
  "path_at m p nm \<longleftrightarrow> unat p + length nm + 2 \<le> 0x100000 \<and> str_at m p ([0x2f] @ nm @ [0])"

definition file_name :: "u8 list \<Rightarrow> bool" where
  "file_name nm \<longleftrightarrow> nm \<noteq> [] \<and> length nm \<le> 14 \<and> 0 \<notin> set nm \<and> 0x2f \<notin> set nm"

lemma str_at_append: "str_at m p (a @ b) \<longleftrightarrow> str_at m p a \<and> str_at m (p + of_nat (length a)) b"
  by (induction a arbitrary: p) (simp_all add: str_at_Cons add.assoc)

lemma path_at_cong:
  assumes "path_at m p nm" and "\<And>x. unat x < 0x100000 \<Longrightarrow> m' x = m x"
  shows "path_at m' p nm"
proof -
  have "m' (p + of_nat i) = m (p + of_nat i)" if "i < length nm + 2" for i
  proof (rule assms(2))
    have "unat (of_nat i :: u32) = i" "unat p + i < 2 ^ 32" using assms(1) that by (auto simp: path_at_def intro!: unat_buf)
    then have "unat (p + of_nat i) = unat p + i" by (subst unat_plus_if_size) (simp add: word_size)
    then show "unat (p + of_nat i) < 0x100000" using assms(1) that by (simp add: path_at_def)
  qed
  then show ?thesis using assms(1) by (simp add: path_at_def str_at_def)
qed

lemma path_at_parts:
  assumes "path_at m p nm" and "file_name nm"
  shows "m p = 0x2f" "str_at m (p + 1) nm" "m (p + 1 + of_nat (length nm)) = 0" "skip_slashes m p = Some (p + 1)" "m (p + 1) \<noteq> 0"
proof -
  show p: "m p = 0x2f" "str_at m (p + 1) nm" "m (p + 1 + of_nat (length nm)) = 0" using assms(1) by (auto simp: path_at_def str_at_append str_at_Cons)
  obtain c r where "nm = c # r" using assms(2) by (cases nm) (auto simp: file_name_def)
  then have c: "m (p + 1) \<noteq> 0" "m (p + 1) \<noteq> 0x2f" using p(2) assms(2) by (auto simp: str_at_Cons file_name_def)
  then show "m (p + 1) \<noteq> 0" by simp
  have "skip_slashes m (p + 1) = Some (p + 1)" using c by (subst skip_slashes.simps) simp
  then show "skip_slashes m p = Some (p + 1)" using p(1) by (subst skip_slashes.simps) simp
qed

lemma read_blocks_below: "unat x < unat buf \<Longrightarrow> unat buf \<le> 0x800000 \<Longrightarrow> read_blocks d b buf m x = m x"
  by (intro read_blocks_out unat_apart) auto

text \<open>The lookup of a name of the root directory, in its first block.\<close>

lemma path_lookup_first:
  assumes p: "path_at m p nm" and nm: "file_name nm" and s: "super_in d m"
    and z: "disk_zone d 1 0 \<noteq> 0" and f: "first_entry d (ucast (disk_zone d 1 0)) j nm"
  shows "\<exists>m'. path_lookup (Suc (Suc n)) d SUPER_BUF p m = Inr (ENTRY_BUF + 16 * of_nat j, m')
    \<and> ld16 m' (ENTRY_BUF + 16 * of_nat j) = blk16 d (ucast (disk_zone d 1 0)) (16 * j) \<and> super_in d m'"
proof -
  let ?z = "disk_zone d 1 0" let ?m1 = "read_blocks d (itab_block d 1) INODE_BUF m" let ?m2 = "read_blocks d (ucast ?z) ENTRY_BUF ?m1"
  let ?e = "ENTRY_BUF + 16 * of_nat j :: u32" and ?p = "p + 1" and ?q = "p + 1 + of_nat (length nm)"
  have low: "?m1 x = m x" "?m2 x = m x" if "unat x < 0x200000" for x using that by (simp_all add: read_blocks_below)
  have p2: "path_at ?m2 p nm" by (rule path_at_cong[OF p], rule low(2)) simp
  note P = path_at_parts[OF p nm] and P2 = path_at_parts[OF p2 nm]
  have g: "get_inode d SUPER_BUF 1 m = (INODE_BUF, ?m1)" using get_inode_is[OF s, of 1] by simp
  have z0: "ld16 ?m1 (INODE_BUF + 14) = ?z" using ld16_read_blocks[of 14 d "itab_block d 1" INODE_BUF m] by (simp add: disk_zone_def)
  have it: "scan_items 64 ?p (length nm) ENTRY_BUF ?m2 = (True, ?e)"
    using scan_items_first[OF f _ _ P2(2), of 0 64] nm f by (simp add: file_name_def first_entry_def)
  have "scan_zones d [0..<7] INODE_BUF ?p (length nm) ENTRY_BUF ?m1 = (True, ?e, ?m2)" using z0 z it by (simp add: upt_rec)
  moreover have "scan_part m ?p 0 = Some (?q, length nm)" using scan_part_len[OF P(2,3), of 0] nm by (simp add: file_name_def)
  moreover have "skip_slashes ?m2 ?q = Some ?q" using P2(3) by (subst skip_slashes.simps) simp
  ultimately have "lookup_loop (Suc (Suc n)) d SUPER_BUF ?p 1 ENTRY_BUF m = Inr (?e, ?m2)" using P(5) P2(3) g by simp
  moreover have "ld16 ?m2 ?e = blk16 d (ucast ?z) (16 * j)" using entry_in_block(2)[of j "[]"] f by (simp add: first_entry_def)
  moreover have "super_in d ?m2" using s ld16_at[of "0x100004" ?m2 m] ld16_at[of "0x100006" ?m2 m] low(2) by (simp add: super_in_def)
  ultimately show ?thesis using P(1,4) by (simp add: path_lookup_def)
qed

lemma boot_get_super_in: "super_in d (read_blocks d 1 SUPER_BUF m)"
  using ld16_read_blocks[of 4 d 1 SUPER_BUF m] ld16_read_blocks[of 6 d 1 SUPER_BUF m] by (simp add: super_in_def)

lemma loads_at:
  assumes "loads d L addr m m'" and "above (length L) addr" and "k < length L" and "i < 1024"
  shows "m' (addr + of_nat (1024 * k + i)) = d (ucast (L ! k)) i"
proof -
  have "1024 * k + i < 1024 * length L" using assms(3,4) by linarith
  moreover from this have "unat (of_nat (1024 * k + i) :: u32) = 1024 * k + i" using assms(2) by (intro unat_buf) (simp add: above_def)
  ultimately show ?thesis using assms(1,4) unfolding loads_def by (auto dest!: spec[of _ "addr + of_nat (1024 * k + i)"] simp del: of_nat_add of_nat_mult)
qed

text \<open>C35: the boot loader. When the name is the first of the root directory's first block that starts with the name asked
  for, its inode number is not a multiple of 32, its size is not 0 and the file has no holes, then \<open>main\<close> ends with
  the whole file in memory: byte \<open>i\<close> of the file's block \<open>k\<close>, through the direct, indirect and doubly indirect zones, is at
  8 MiB plus \<open>1024 k + i\<close>. The bound of the file's length is that of the zones. Two rounds of the loop are enough.\<close>

theorem boot_loads_kernel:
  assumes "path_at m p nm" and "file_name nm"
    and z: "disk_zone d 1 0 \<noteq> 0" and f: "first_entry d (ucast (disk_zone d 1 0)) j nm"
    and nr: "nr = unat (blk16 d (ucast (disk_zone d 1 0)) (16 * j))" "nr mod 32 \<noteq> 0" and sz: "disk_size d nr \<noteq> 0"
    and n: "no_holes (disk_zone d nr) (disk_numbers d) n"
  shows "\<exists>m'. boot_main (Suc (Suc fuel)) d p m = Inr m' \<and>
    (\<forall>k<n. \<forall>i<1024. m' (0x800000 + of_nat (1024 * k + i)) = d (ucast (file_map (disk_zone d nr) (disk_numbers d) k)) i)"
proof -
  let ?m = "read_blocks d 1 SUPER_BUF m" and ?L = "map (file_map (disk_zone d nr) (disk_numbers d)) [0..<n]"
  have "path_at ?m p nm" by (rule path_at_cong[OF assms(1)]) (simp add: read_blocks_below)
  then obtain m1 where m1: "path_lookup (Suc (Suc fuel)) d SUPER_BUF p ?m = Inr (ENTRY_BUF + 16 * of_nat j, m1)"
    "ld16 m1 (ENTRY_BUF + 16 * of_nat j) = blk16 d (ucast (disk_zone d 1 0)) (16 * j)" "super_in d m1"
    using path_lookup_first[OF _ assms(2) boot_get_super_in z f] by blast
  let ?m' = "load_bin d SUPER_BUF (of_nat nr) m1"
  have "nr < 65536" using unsigned_less[of "blk16 d (ucast (disk_zone d 1 0)) (16 * j)"] nr(1) by simp
  from load_bin_loads[OF m1(3) nr(2) this sz] have l: "loads d ?L KERNEL_START_ADDRESS (read_blocks d (itab_block d nr) INODE_BUF m1) ?m'"
    unfolding file_list_no_holes[OF n] .
  have a: "above (length ?L) KERNEL_START_ADDRESS" using n by (simp add: no_holes_def above_kernel)
  have "ENTRY_BUF + 16 * of_nat j \<noteq> (0 :: u32)"
  proof -
    have "unat (of_nat (0x300000 + 16 * j) :: u32) = 0x300000 + 16 * j" using f by (intro unat_buf) (simp add: first_entry_def)
    then show ?thesis by (auto simp flip: unat_eq_0)
  qed
  then have "boot_main (Suc (Suc fuel)) d p m = Inr ?m'" using m1 nr(1) by (simp add: boot_main_def boot_get_super_def)
  moreover have "\<forall>k<n. \<forall>i<1024. ?m' (0x800000 + of_nat (1024 * k + i)) = d (ucast (file_map (disk_zone d nr) (disk_numbers d) k)) i"
    using loads_at[OF l a] by simp
  ultimately show ?thesis by blast
qed

text \<open>A small file system: maps of one block, the inodes in block 4, the root directory in block 5 and the file, inode 2, in block 6.\<close>

definition demo_name :: "u8 list" where
  "demo_name = map of_char ''kernel.bin''"

definition demo_disk :: disk where
  "demo_disk b i =
     (if b = 1 then (if i = 4 \<or> i = 6 then 1 else 0)
      else if b = 4 then (if i = 14 then 5 else if i = 36 then 1 else if i = 46 then 6 else 0)
      else if b = 5 then (if i = 0 then 2 else if 2 \<le> i \<and> i < 12 then demo_name ! (i - 2) else 0)
      else if b = 6 then 0x7f else 0)"

definition demo_boot_mem :: mem where
  "demo_boot_mem x = (if 0x1000 \<le> x \<and> x < 0x100c then ([0x2f] @ demo_name @ [0]) ! unat (x - 0x1000) else 0)"

lemma demo_blk16:
  "blk16 demo_disk 1 4 = 1" "blk16 demo_disk 1 6 = 1" "blk16 demo_disk 4 14 = 5" "blk16 demo_disk 4 46 = 6" "blk16 demo_disk 5 0 = 2"
  by (simp_all add: blk16_def demo_disk_def)

lemma demo_zones: "disk_zone demo_disk 1 0 = 5" "i < 9 \<Longrightarrow> disk_zone demo_disk 2 i = (if i = 0 then 6 else 0)"
proof -
  have b: "itab_block demo_disk 1 = 4" "itab_block demo_disk 2 = 4" using demo_blk16 by (simp_all add: itab_block_def)
  show "disk_zone demo_disk 1 0 = 5" unfolding disk_zone_def b using demo_blk16 by simp
  show "i < 9 \<Longrightarrow> disk_zone demo_disk 2 i = (if i = 0 then 6 else 0)"
    unfolding disk_zone_def b using demo_blk16 by (simp add: blk16_def demo_disk_def)
qed

theorem boot_loads_kernel_witness:
  "\<exists>m'. boot_main 2 demo_disk 0x1000 demo_boot_mem = Inr m' \<and> m' 0x8003ff = 0x7f"
proof -
  have nm: "file_name demo_name" by (simp add: file_name_def demo_name_def)
  have p: "path_at demo_boot_mem 0x1000 demo_name"
    by (simp add: path_at_def str_at_Cons str_at_append demo_name_def demo_boot_mem_def)
  have f: "first_entry demo_disk (ucast (disk_zone demo_disk 1 0)) 0 demo_name"
    unfolding demo_zones(1) using demo_blk16(5) by (simp add: first_entry_def entry_starts_def demo_disk_def demo_name_def)
  have nr: "(2 :: nat) = unat (blk16 demo_disk (ucast (disk_zone demo_disk 1 0)) (16 * 0))" unfolding demo_zones(1) using demo_blk16(5) by simp
  have sz: "disk_size demo_disk 2 \<noteq> 0"
    using demo_blk16(1,2) by (simp add: disk_size_def itab_block_def ld32_def demo_disk_def)
  have n: "no_holes (disk_zone demo_disk 2) (disk_numbers demo_disk) 1"
    using demo_zones(2) by (simp add: no_holes_def file_map_def)
  obtain m' where m': "boot_main (Suc (Suc 0)) demo_disk 0x1000 demo_boot_mem = Inr m'"
    "\<forall>k<1. \<forall>i<1024. m' (0x800000 + of_nat (1024 * k + i)) = demo_disk (ucast (file_map (disk_zone demo_disk 2) (disk_numbers demo_disk) k)) i"
    using boot_loads_kernel[OF p nm _ f nr _ sz n, of 0] demo_zones(1) by auto
  have "file_map (disk_zone demo_disk 2) (disk_numbers demo_disk) 0 = 6" using demo_zones(2)[of 0] by (simp add: file_map_def)
  then have "m' 0x8003ff = 0x7f" using m'(2)[rule_format, of 0 1023] by (simp add: demo_disk_def)
  then show ?thesis using m'(1) by (auto simp: numeral_2_eq_2)
qed

text \<open>C40: an inode whose number is a multiple of 32 is never the one read: the loader takes the block behind the inode's own
  one, and the address it returns lies before the buffer, outside what was read.\<close>

theorem get_inode_wrong_inode:
  assumes "super_in d m" and "0 < q" and "32 * q < 65536"
  shows "get_inode d SUPER_BUF (of_nat (32 * q)) m = (INODE_BUF - 32, read_blocks d (itab_block d (32 * q) + 1) INODE_BUF m)"
proof -
  have u: "unat (of_nat (32 * q) :: u32) = 32 * q" using assms(3) by (intro unat_buf) simp
  have "(of_nat (32 * q) :: u32) div 32 = of_nat q" "(of_nat (32 * q) :: u32) mod 32 = 0"
    by (rule word_unat_eq_iff[THEN iffD2], use u unat_buf[of q] assms(3) in \<open>simp add: unat_div unat_mod\<close>)+
  moreover have "(32 * q - 1) div 32 = q - 1"
  proof -
    obtain k where "q = Suc k" using assms(2) by (metis gr0_implies_Suc)
    then show ?thesis by simp
  qed
  ultimately show ?thesis using assms(1,2) by (simp add: get_inode_def Let_def super_in_def itab_block_def of_nat_diff add.assoc)
qed

theorem get_inode_wrong_inode_witness:
  "get_inode demo_disk SUPER_BUF 32 (read_blocks demo_disk 1 SUPER_BUF demo_boot_mem)
     = (0x1fffe0, read_blocks demo_disk (itab_block demo_disk 32 + 1) INODE_BUF (read_blocks demo_disk 1 SUPER_BUF demo_boot_mem))"
  using get_inode_wrong_inode[OF boot_get_super_in[of demo_disk demo_boot_mem], of 1] by simp

end
