(* ===== verification/Namei.thy ===== *)
theory Namei
  imports Inode
begin

text \<open>
  Path names and directories, fs/namei.c, and fs/truncate.c. A directory entry is given by its address in
  the buffer's data; names and paths are in the user's segment \<open>fs_seg\<close>, with addresses of 32 bits. The
  scans of a path for its end are partial functions; the loop of \<open>get_dir\<close> over the components has fuel.
\<close>

section \<open>Truncating\<close>

text \<open>\<open>for (i=0;i<512;i++,p++) if (*p) f(dev,*p);\<close>\<close>

primrec free_entries :: "(u32 \<Rightarrow> fsst \<Rightarrow> fsst kres) \<Rightarrow> nat \<Rightarrow> u32 \<Rightarrow> fsst \<Rightarrow> fsst kres" where
  "free_entries f 0 a s = Inr s"
| "free_entries f (Suc k) a s =
     kbind (if ld16 (bdata s) a \<noteq> 0 then f (ucast (ld16 (bdata s) a)) s else Inr s) (free_entries f k (a + 2))"

definition free_ind :: "nat \<Rightarrow> fs_sleep \<Rightarrow> u32 \<Rightarrow> u32 \<Rightarrow> fsst \<Rightarrow> fsst kres" where
  "free_ind n zz dev block s =
     (if block = 0 then Inr s
      else kbind (fbread n zz dev block s) (\<lambda>(bh, s).
        kbind (if bh \<noteq> 0 then kbind (free_entries (free_block n zz dev) 512 (b_data (heads s bh)) s) (brelse n zz bh) else Inr s)
          (free_block n zz dev block)))"

definition free_dind :: "nat \<Rightarrow> fs_sleep \<Rightarrow> u32 \<Rightarrow> u32 \<Rightarrow> fsst \<Rightarrow> fsst kres" where
  "free_dind n zz dev block s =
     (if block = 0 then Inr s
      else kbind (fbread n zz dev block s) (\<lambda>(bh, s).
        kbind (if bh \<noteq> 0 then kbind (free_entries (free_ind n zz dev) 512 (b_data (heads s bh)) s) (brelse n zz bh) else Inr s)
          (free_block n zz dev block)))"

primrec free_direct :: "nat \<Rightarrow> fs_sleep \<Rightarrow> nat \<Rightarrow> nat list \<Rightarrow> fsst \<Rightarrow> fsst kres" where
  "free_direct n zz ip [] s = Inr s"
| "free_direct n zz ip (k # ks) s =
     kbind (if i_zone (inode_table s ip) k \<noteq> 0
            then kbind (free_block n zz (ucast (i_dev (inode_table s ip))) (ucast (i_zone (inode_table s ip) k)) s)
                   (\<lambda>s. Inr (upd_inode ip (\<lambda>i. i\<lparr>i_zone := (i_zone i)(k := 0)\<rparr>) s))
            else Inr s) (free_direct n zz ip ks)"

definition truncate :: "nat \<Rightarrow> fs_sleep \<Rightarrow> nat \<Rightarrow> fsst \<Rightarrow> fsst kres" where
  "truncate n zz ip s =
     (if \<not> (S_IS S_IFREG (i_mode (inode_table s ip)) \<or> S_IS S_IFDIR (i_mode (inode_table s ip))) then Inr s
      else kbind (free_direct n zz ip [0..<7] s) (\<lambda>s.
        kbind (free_ind n zz (ucast (i_dev (inode_table s ip))) (ucast (i_zone (inode_table s ip) 7)) s) (\<lambda>s.
        kbind (free_dind n zz (ucast (i_dev (inode_table s ip))) (ucast (i_zone (inode_table s ip) 8)) s) (\<lambda>s.
          Inr (upd_inode ip (\<lambda>i. i\<lparr>i_zone := (i_zone i)(7 := 0, 8 := 0), i_size := 0, i_dirt := 1,
                 i_mtime := CURRENT_TIME, i_ctime := CURRENT_TIME\<rparr>) s)))))"

section \<open>Directory entries\<close>

abbreviation (input) NAME_LEN :: nat where "NAME_LEN \<equiv> 14"
abbreviation (input) O_ACCMODE :: u32 where "O_ACCMODE \<equiv> 3"
abbreviation (input) O_WRONLY :: u32 where "O_WRONLY \<equiv> 1"
abbreviation (input) O_CREAT :: u32 where "O_CREAT \<equiv> 0x40"
abbreviation (input) O_EXCL :: u32 where "O_EXCL \<equiv> 0x80"
abbreviation (input) O_TRUNC :: u32 where "O_TRUNC \<equiv> 0x200"

definition permission :: "m_inode \<Rightarrow> u32 \<Rightarrow> bool" where
  "permission inode msk = True"

text \<open>\<open>ACC_MODE(x)\<close>, an entry of a string constant of signed characters.\<close>

definition ACC_MODE :: "u32 \<Rightarrow> u32" where
  "ACC_MODE x = [4, 2, 6, -1] ! unat (x AND O_ACCMODE)"

text \<open>\<open>repe cmpsb\<close>, from the user's segment against the entry's name. With a length of 0 the instruction leaves
  the flags alone; the callers exclude that.\<close>

primrec cmpsb_eq :: "nat \<Rightarrow> mem \<Rightarrow> u32 \<Rightarrow> mem \<Rightarrow> u32 \<Rightarrow> bool" where
  "cmpsb_eq 0 m a m' b = True"
| "cmpsb_eq (Suc n) m a m' b = (m a = m' b \<and> cmpsb_eq n m (a + 1) m' (b + 1))"

definition match_de :: "nat \<Rightarrow> u32 \<Rightarrow> u32 \<Rightarrow> fsst \<Rightarrow> bool" where
  "match_de len name de s =
     (if de = 0 \<or> ld16 (bdata s) de = 0 \<or> NAME_LEN < len then False
      else if len < NAME_LEN \<and> bdata s (de + 2 + of_nat len) \<noteq> 0 then False
      else cmpsb_eq len (fs_seg s) name (bdata s) (de + 2))"

text \<open>The search loop of \<open>find_entry\<close>. The fuel is one more than the number of entries: every round moves \<open>i\<close> on.
  After a block that is missing \<open>bh\<close> is null, and the next round reads through it.\<close>

primrec find_loop :: "nat \<Rightarrow> nat \<Rightarrow> fs_sleep \<Rightarrow> nat \<Rightarrow> u32 \<Rightarrow> nat \<Rightarrow> nat \<Rightarrow> nat \<Rightarrow> u32 \<Rightarrow> u32 \<Rightarrow> fsst \<Rightarrow> (u32 \<times> u32 \<times> fsst) kres" where
  "find_loop 0 n zz dir name namelen entries i bh de s = Inl Hang"
| "find_loop (Suc k) n zz dir name namelen entries i bh de s =
     (if entries \<le> i then kbind (brelse n zz bh s) (\<lambda>s. Inr (0, 0, s))
      else if bh = 0 then Inl Fault
      else if 1024 + b_data (heads s bh) \<le> de then
        kbind (brelse n zz bh s) (\<lambda>s.
        kbind (bmap n zz dir (of_nat (i div 64)) s) (\<lambda>(block, s).
        kbind (if block = 0 then Inr (0, s) else fbread n zz (ucast (i_dev (inode_table s dir))) block s) (\<lambda>(bh, s).
          if bh = 0 then find_loop k n zz dir name namelen entries (i + 64) 0 de s
          else if match_de namelen name (b_data (heads s bh)) s then Inr (bh, b_data (heads s bh), s)
          else find_loop k n zz dir name namelen entries (Suc i) bh (b_data (heads s bh) + 16) s)))
      else if match_de namelen name de s then Inr (bh, de, s)
      else find_loop k n zz dir name namelen entries (Suc i) bh (de + 16) s)"

text \<open>\<open>..\<close> in the root of the task is \<open>.\<close>; in the root of a mounted file system it leads over the mount point.\<close>

definition dotdot :: "nat \<Rightarrow> fs_sleep \<Rightarrow> nat \<Rightarrow> u32 \<Rightarrow> nat \<Rightarrow> fsst \<Rightarrow> (nat \<times> nat \<times> fsst) kres" where
  "dotdot n zz dir name namelen s =
     (if namelen = 2 \<and> fs_seg s name = 0x2e \<and> fs_seg s (name + 1) = 0x2e then
        if Some dir = t_root (cur_task s) then Inr (dir, 1, s)
        else if i_num (inode_table s dir) = 1 then
          kbind (get_super n zz (ucast (i_dev (inode_table s dir))) s) (\<lambda>(sb, s).
            case sb of
              None \<Rightarrow> Inl Fault
            | Some b \<Rightarrow>
               (case s_imount (super_block s b) of
                  None \<Rightarrow> Inr (dir, namelen, s)
                | Some _ \<Rightarrow>
                    kbind (iput n zz (Some dir) s) (\<lambda>s.
                      case s_imount (super_block s b) of
                        None \<Rightarrow> Inl Fault
                      | Some d \<Rightarrow> Inr (d, namelen, upd_inode d (\<lambda>i. i\<lparr>i_count := i_count i + 1\<rparr>) s))))
        else Inr (dir, namelen, s)
      else Inr (dir, namelen, s))"

text \<open>The result is the buffer with the entry (0 if there is none), the entry and the directory, which may have changed.\<close>

definition find_entry :: "nat \<Rightarrow> fs_sleep \<Rightarrow> nat \<Rightarrow> u32 \<Rightarrow> nat \<Rightarrow> fsst \<Rightarrow> (u32 \<times> u32 \<times> nat \<times> fsst) kres" where
  "find_entry n zz dir0 name namelen0 s0 =
     (let namelen1 = (if NAME_LEN < namelen0 then NAME_LEN else namelen0);
          entries = unat (i_size (inode_table s0 dir0) div 16)
      in if namelen1 = 0 then Inr (0, 0, dir0, s0)
         else kbind (dotdot n zz dir0 name namelen1 s0) (\<lambda>(dir, namelen, s).
           let block = i_zone (inode_table s dir) 0
           in if block = 0 then Inr (0, 0, dir, s)
              else kbind (fbread n zz (ucast (i_dev (inode_table s dir))) (ucast block) s) (\<lambda>(bh, s).
                if bh = 0 then Inr (0, 0, dir, s)
                else kbind (find_loop (Suc entries) n zz dir name namelen entries 0 bh (b_data (heads s bh)) s) (\<lambda>(bh, de, s).
                  Inr (bh, de, dir, s)))))"

text \<open>The loop that fills the name of a new entry, padded with zeros.\<close>

primrec put_name :: "nat \<Rightarrow> u32 \<Rightarrow> nat \<Rightarrow> u32 \<Rightarrow> mem \<Rightarrow> mem \<Rightarrow> mem" where
  "put_name 0 name namelen de u m = m"
| "put_name (Suc i) name namelen de u m =
     (put_name i name namelen de u m)(de + 2 + of_nat i := (if i < namelen then u (name + of_nat i) else 0))"

text \<open>The loop of \<open>add_entry\<close>. It ends at the latest behind the directory's size, before round \<open>2 ^ 28 + 2\<close>.\<close>

definition fill_entry :: "nat \<Rightarrow> u32 \<Rightarrow> nat \<Rightarrow> u32 \<Rightarrow> u32 \<Rightarrow> fsst \<Rightarrow> fsst" where
  "fill_entry dir name namelen bh de s0 =
     (let s = upd_inode dir (\<lambda>i. i\<lparr>i_mtime := CURRENT_TIME\<rparr>) s0
      in upd_bh bh (\<lambda>h. h\<lparr>b_dirt := 1\<rparr>) (s\<lparr>bdata := put_name NAME_LEN name namelen de (fs_seg s) (bdata s)\<rparr>))"

definition grow_dir :: "nat \<Rightarrow> nat \<Rightarrow> u32 \<Rightarrow> fsst \<Rightarrow> fsst" where
  "grow_dir dir i de s =
     (if unat (i_size (inode_table s dir)) \<le> i * 16
      then upd_inode dir (\<lambda>x. x\<lparr>i_size := of_nat ((i + 1) * 16), i_dirt := 1, i_ctime := CURRENT_TIME\<rparr>)
             (s\<lparr>bdata := st16 (bdata s) de 0\<rparr>)
      else s)"

primrec add_loop :: "nat \<Rightarrow> nat \<Rightarrow> fs_sleep \<Rightarrow> nat \<Rightarrow> u32 \<Rightarrow> nat \<Rightarrow> nat \<Rightarrow> u32 \<Rightarrow> u32 \<Rightarrow> fsst \<Rightarrow> (u32 \<times> u32 \<times> fsst) kres" where
  "add_loop 0 n zz dir name namelen i bh de s = Inl Hang"
| "add_loop (Suc k) n zz dir name namelen i bh0 de0 s0 =
     (if bh0 = 0 then Inl Fault
      else kbind (if 1024 + b_data (heads s0 bh0) \<le> de0 then
                    kbind (brelse n zz bh0 s0) (\<lambda>s.
                    kbind (create_block n zz dir (of_nat (i div 64)) s) (\<lambda>(block, s).
                      if block = 0 then Inr (None, s)
                      else kbind (fbread n zz (ucast (i_dev (inode_table s dir))) block s) (\<lambda>(bh, s).
                        Inr (Some (bh, b_data (heads s bh)), s))))
                  else Inr (Some (bh0, de0), s0)) (\<lambda>(r, s).
        case r of
          None \<Rightarrow> Inr (0, 0, s)
        | Some (bh, de) \<Rightarrow>
            if bh = 0 then add_loop k n zz dir name namelen (i + 64) 0 de0 s
            else
             (let s = grow_dir dir i de s
              in if ld16 (bdata s) de = 0 then Inr (bh, de, fill_entry dir name namelen bh de s)
                 else add_loop k n zz dir name namelen (Suc i) bh (de + 16) s)))"

definition add_entry :: "nat \<Rightarrow> fs_sleep \<Rightarrow> nat \<Rightarrow> u32 \<Rightarrow> nat \<Rightarrow> fsst \<Rightarrow> (u32 \<times> u32 \<times> fsst) kres" where
  "add_entry n zz dir name namelen0 s =
     (let namelen = (if NAME_LEN < namelen0 then NAME_LEN else namelen0)
      in if namelen = 0 \<or> i_zone (inode_table s dir) 0 = 0 then Inr (0, 0, s)
         else kbind (fbread n zz (ucast (i_dev (inode_table s dir))) (ucast (i_zone (inode_table s dir) 0)) s) (\<lambda>(bh, s).
           if bh = 0 then Inr (0, 0, s)
           else add_loop (2 ^ 28 + 2) n zz dir name namelen 0 bh (b_data (heads s bh)) s))"

section \<open>Paths\<close>

text \<open>\<open>for(namelen=0;(c=get_fs_byte(pathname++))&&(c!='/');namelen++)\<close>: the character that ended it, the pointer
  behind that, the length. It does not end when there is neither a slash nor a zero byte.\<close>

partial_function (option) scan_name :: "mem \<Rightarrow> u32 \<Rightarrow> nat \<Rightarrow> (u8 \<times> u32 \<times> nat) option" where
  "scan_name m p len =
     (if m p \<noteq> 0 \<and> m p \<noteq> 0x2f then scan_name m (p + 1) (Suc len) else Some (m p, p + 1, len))"

text \<open>\<open>while ((c=get_fs_byte(pathname++))) if (c=='/') basename=pathname;\<close>\<close>

partial_function (option) scan_base :: "mem \<Rightarrow> u32 \<Rightarrow> u32 \<Rightarrow> (u32 \<times> u32) option" where
  "scan_base m p base =
     (if m p \<noteq> 0 then scan_base m (p + 1) (if m p = 0x2f then p + 1 else base) else Some (p + 1, base))"

primrec dir_loop :: "nat \<Rightarrow> fs_sleep \<Rightarrow> nat \<Rightarrow> u32 \<Rightarrow> fsst \<Rightarrow> (nat option \<times> fsst) kres" where
  "dir_loop 0 zz inode pathname s = Inl Hang"
| "dir_loop (Suc n) zz inode pathname s =
     (if \<not> S_IS S_IFDIR (i_mode (inode_table s inode)) \<or> \<not> permission (inode_table s inode) 1
      then kbind (iput n zz (Some inode) s) (\<lambda>s. Inr (None, s))
      else case scan_name (fs_seg s) pathname 0 of
        None \<Rightarrow> Inl Hang
      | Some (c, next, namelen) \<Rightarrow>
          if c = 0 then Inr (Some inode, s)
          else kbind (find_entry n zz inode pathname namelen s) (\<lambda>(bh, de, inode, s).
            if bh = 0 then kbind (iput n zz (Some inode) s) (\<lambda>s. Inr (None, s))
            else
             (let inr = ucast (ld16 (bdata s) de); idev = ucast (i_dev (inode_table s inode))
              in kbind (brelse n zz bh s) (\<lambda>s.
                 kbind (iput n zz (Some inode) s) (\<lambda>s.
                 kbind (iget n zz idev inr s) (\<lambda>(r, s).
                   case r of None \<Rightarrow> Inr (None, s) | Some inode \<Rightarrow> dir_loop n zz inode next s))))))"

text \<open>\<open>!p || !p->i_count\<close>\<close>

definition no_inode :: "nat option \<Rightarrow> fsst \<Rightarrow> bool" where
  "no_inode p s = (case p of None \<Rightarrow> True | Some ip \<Rightarrow> i_count (inode_table s ip) = 0)"

definition get_dir :: "nat \<Rightarrow> fs_sleep \<Rightarrow> u32 \<Rightarrow> fsst \<Rightarrow> (nat option \<times> fsst) kres" where
  "get_dir n zz pathname s =
     (if no_inode (t_root (cur_task s)) s then Inl (Panic ''No root inode'')
      else if no_inode (t_pwd (cur_task s)) s then Inl (Panic ''No cwd inode'')
      else let c = fs_seg s pathname in
        if c = 0 then Inr (None, s)
        else
         (let inode = the (if c = 0x2f then t_root (cur_task s) else t_pwd (cur_task s))
          in dir_loop n zz inode (if c = 0x2f then pathname + 1 else pathname)
               (upd_inode inode (\<lambda>i. i\<lparr>i_count := i_count i + 1\<rparr>) s)))"

definition dir_namei :: "nat \<Rightarrow> fs_sleep \<Rightarrow> u32 \<Rightarrow> fsst \<Rightarrow> ((nat \<times> nat \<times> u32) option \<times> fsst) kres" where
  "dir_namei n zz pathname s =
     kbind (get_dir n zz pathname s) (\<lambda>(r, s).
       case r of
         None \<Rightarrow> Inr (None, s)
       | Some dir \<Rightarrow>
          (case scan_base (fs_seg s) pathname pathname of
             None \<Rightarrow> Inl Hang
           | Some (p, base) \<Rightarrow> Inr (Some (dir, unat (p - base - 1), base), s)))"

section \<open>open_namei\<close>

text \<open>The branch that makes a new file, and the one that opens an existing one.\<close>

definition open_create :: "nat \<Rightarrow> fs_sleep \<Rightarrow> nat \<Rightarrow> u32 \<Rightarrow> nat \<Rightarrow> u16 \<Rightarrow> fsst \<Rightarrow> (int \<times> nat option \<times> fsst) kres" where
  "open_create n zz dir basename namelen mode s =
     kbind (new_inode n zz (ucast (i_dev (inode_table s dir))) s) (\<lambda>(r, s).
       case r of
         None \<Rightarrow> kbind (iput n zz (Some dir) s) (\<lambda>s. Inr (-28, None, s))
       | Some ip \<Rightarrow>
          (let s = upd_inode ip (\<lambda>i. i\<lparr>i_uid := t_euid (cur_task s), i_mode := mode, i_dirt := 1\<rparr>) s
           in kbind (add_entry n zz dir basename namelen s) (\<lambda>(bh, de, s).
                if bh = 0 then
                  kbind (iput n zz (Some ip) (upd_inode ip (\<lambda>i. i\<lparr>i_nlinks := i_nlinks i - 1\<rparr>) s)) (\<lambda>s.
                  kbind (iput n zz (Some dir) s) (\<lambda>s. Inr (-28, None, s)))
                else
                 (let s = upd_bh bh (\<lambda>h. h\<lparr>b_dirt := 1\<rparr>) (s\<lparr>bdata := st16 (bdata s) de (i_num (inode_table s ip))\<rparr>)
                  in kbind (brelse n zz bh s) (\<lambda>s. kbind (iput n zz (Some dir) s) (\<lambda>s. Inr (0, Some ip, s)))))))"

definition open_existing :: "nat \<Rightarrow> fs_sleep \<Rightarrow> nat \<Rightarrow> u32 \<Rightarrow> u32 \<Rightarrow> u32 \<Rightarrow> fsst \<Rightarrow> (int \<times> nat option \<times> fsst) kres" where
  "open_existing n zz dir bh de flag s =
     (let inr = ucast (ld16 (bdata s) de); dev = ucast (i_dev (inode_table s dir))
      in kbind (brelse n zz bh s) (\<lambda>s.
         kbind (iput n zz (Some dir) s) (\<lambda>s.
           if flag AND O_EXCL \<noteq> 0 then Inr (-17, None, s)
           else kbind (iget n zz dev inr s) (\<lambda>(r, s).
             case r of
               None \<Rightarrow> Inr (-13, None, s)
             | Some ip \<Rightarrow>
                 if S_IS S_IFDIR (i_mode (inode_table s ip)) \<and> flag AND O_ACCMODE \<noteq> 0
                    \<or> \<not> permission (inode_table s ip) (ACC_MODE flag)
                 then kbind (iput n zz (Some ip) s) (\<lambda>s. Inr (-1, None, s))
                 else
                  (let s = upd_inode ip (\<lambda>i. i\<lparr>i_atime := CURRENT_TIME\<rparr>) s
                   in kbind (if flag AND O_TRUNC \<noteq> 0 then truncate n zz ip s else Inr s) (\<lambda>s. Inr (0, Some ip, s)))))))"

definition open_namei :: "nat \<Rightarrow> fs_sleep \<Rightarrow> u32 \<Rightarrow> u32 \<Rightarrow> u32 \<Rightarrow> fsst \<Rightarrow> (int \<times> nat option \<times> fsst) kres" where
  "open_namei n zz pathname flag0 mode0 s0 =
     (let flag = (if flag0 AND O_TRUNC \<noteq> 0 \<and> flag0 AND O_ACCMODE = 0 then flag0 OR O_WRONLY else flag0);
          mode = (mode0 AND (0x1ff AND NOT (ucast (t_umask (cur_task s0))))) OR 0x8000
      in kbind (dir_namei n zz pathname s0) (\<lambda>(r, s).
           case r of
             None \<Rightarrow> Inr (-2, None, s)
           | Some (dir, namelen, basename) \<Rightarrow>
               if namelen = 0 then
                 if flag AND (O_ACCMODE OR O_CREAT OR O_TRUNC) = 0 then Inr (0, Some dir, s)
                 else kbind (iput n zz (Some dir) s) (\<lambda>s. Inr (-21, None, s))
               else kbind (find_entry n zz dir basename namelen s) (\<lambda>(bh, de, dir, s).
                 if bh = 0 then
                   if flag AND O_CREAT = 0 then kbind (iput n zz (Some dir) s) (\<lambda>s. Inr (-2, None, s))
                   else if \<not> permission (inode_table s dir) 2 then kbind (iput n zz (Some dir) s) (\<lambda>s. Inr (-13, None, s))
                   else open_create n zz dir basename namelen (ucast mode) s
                 else open_existing n zz dir bh de flag s)))"

section \<open>Names\<close>

text \<open>The bytes of a name in the user's segment, and the name an entry holds.\<close>

definition user_name :: "mem \<Rightarrow> u32 \<Rightarrow> nat \<Rightarrow> u8 list" where
  "user_name u a n = map (\<lambda>i. u (a + of_nat i)) [0..<n]"

definition de_name :: "mem \<Rightarrow> u32 \<Rightarrow> u8 list" where
  "de_name m de = takeWhile (\<lambda>c. c \<noteq> 0) (user_name m (de + 2) 14)"

lemma length_user_name [simp]: "length (user_name u a n) = n"
  by (simp add: user_name_def)

lemma user_name_nth [simp]: "i < n \<Longrightarrow> user_name u a n ! i = u (a + of_nat i)"
  by (simp add: user_name_def)

lemma cmpsb_eq_iff: "cmpsb_eq n m a m' b \<longleftrightarrow> (\<forall>i<n. m (a + of_nat i) = m' (b + of_nat i))"
  by (induction n arbitrary: a b) (simp_all add: All_less_Suc2 add.assoc)

lemma takeWhile_eq_iff:
  assumes "\<forall>y \<in> set ys. P y" and "length ys \<le> length xs"
  shows "takeWhile P xs = ys \<longleftrightarrow> take (length ys) xs = ys \<and> (length ys < length xs \<longrightarrow> \<not> P (xs ! length ys))"
proof
  assume t: "takeWhile P xs = ys"
  then show "take (length ys) xs = ys \<and> (length ys < length xs \<longrightarrow> \<not> P (xs ! length ys))"
    using nth_length_takeWhile[of P xs] takeWhile_eq_take[of P xs] by auto
next
  assume r: "take (length ys) xs = ys \<and> (length ys < length xs \<longrightarrow> \<not> P (xs ! length ys))"
  show "takeWhile P xs = ys"
  proof (cases "length ys < length xs")
    case True
    then have "xs = ys @ xs ! length ys # drop (Suc (length ys)) xs" using r by (metis append_take_drop_id Cons_nth_drop_Suc)
    then show ?thesis using r True assms(1) by (metis takeWhile_append2 takeWhile.simps(2) append_Nil2)
  next
    case False
    then show ?thesis using r assms by (metis le_antisym not_less take_all takeWhile_eq_all_conv order_refl)
  qed
qed

lemma match_de_iff:
  assumes "len \<le> 14" and "0 \<notin> set (user_name (fs_seg s) name len)" and "de \<noteq> 0"
  shows "match_de len name de s \<longleftrightarrow> ld16 (bdata s) de \<noteq> 0 \<and> de_name (bdata s) de = user_name (fs_seg s) name len"
proof -
  let ?u = "user_name (fs_seg s) name len" and ?d = "user_name (bdata s) (de + 2) 14"
  have t: "take len ?d = ?u \<longleftrightarrow> cmpsb_eq len (fs_seg s) name (bdata s) (de + 2)"
    using assms(1) by (auto simp: cmpsb_eq_iff list_eq_iff_nth_eq)
  have z: "\<forall>y \<in> set ?u. y \<noteq> 0" using assms(2) by auto
  have l: "length ?u \<le> length ?d" using assms(1) by simp
  show ?thesis unfolding de_name_def takeWhile_eq_iff[of ?u "\<lambda>c. c \<noteq> 0" ?d, OF z l] match_de_def using assms(1,3) t by auto
qed

lemma put_name_apply:
  assumes "k \<le> 14"
  shows "put_name k name len de u m x =
    (let j = unat (x - (de + 2)) in if j < k then (if j < len then u (name + of_nat j) else 0) else m x)"
  using assms
proof (induction k)
  case (Suc k)
  have "x = de + 2 + of_nat k \<longleftrightarrow> x - (de + 2) = of_nat k" by (auto simp: algebra_simps)
  also have "\<dots> \<longleftrightarrow> unat (x - (de + 2)) = k" using Suc.prems by (auto simp: unat_of_nat word_unat_eq_iff)
  finally show ?case using Suc by (auto simp: Let_def)
qed simp

lemma de_name_put_name:
  assumes "len \<le> 14" and "0 \<notin> set (user_name u name len)"
  shows "de_name (put_name 14 name len de u m) de = user_name u name len"
proof -
  let ?u = "user_name u name len" and ?d = "user_name (put_name 14 name len de u m) (de + 2) 14"
  have b: "put_name 14 name len de u m (de + 2 + of_nat i) = (if i < len then u (name + of_nat i) else 0)" if "i < 14" for i
  proof -
    have "unat (de + 2 + of_nat i - (de + 2)) = i" using that by (simp add: unat_of_nat)
    then show ?thesis using that by (simp only: put_name_apply[OF order_refl] Let_def) simp
  qed
  have "\<forall>y \<in> set ?u. y \<noteq> 0" "length ?u \<le> length ?d" using assms by auto
  moreover have "take len ?d = ?u" using assms(1) by (auto simp: list_eq_iff_nth_eq b)
  moreover have "len < 14 \<Longrightarrow> ?d ! len = 0" by (simp add: b)
  ultimately show ?thesis unfolding de_name_def using takeWhile_eq_iff[of ?u "\<lambda>c. c \<noteq> 0" ?d] by simp
qed

section \<open>Directories in the cache\<close>

text \<open>The first \<open>nb\<close> blocks of file \<open>ip\<close> are in the cache, block \<open>k\<close> in buffer \<open>B k\<close>, and so are the blocks of
  block numbers the map goes through.\<close>

definition file_cached :: "u32 list \<Rightarrow> nat \<Rightarrow> (u16 \<Rightarrow> nat \<Rightarrow> u16) \<Rightarrow> nat \<Rightarrow> (nat \<Rightarrow> u32) \<Rightarrow> fsst \<Rightarrow> bool" where
  "file_cached fl ip D nb B s \<longleftrightarrow> nb \<le> 262663 \<and> (\<forall>k<nb. map_cached fl ip D k s \<and> file_map (i_zone (inode_table s ip)) D k \<noteq> 0
     \<and> cached fl (i_dev (inode_table s ip)) (ucast (file_map (i_zone (inode_table s ip)) D k)) (B k) s
     \<and> b_data (heads s (B k)) \<noteq> 0 \<and> unat (b_data (heads s (B k))) + 1024 < 2 ^ 32)"

text \<open>The address of entry \<open>j\<close>.\<close>

definition dir_de :: "(nat \<Rightarrow> u32) \<Rightarrow> fsst \<Rightarrow> nat \<Rightarrow> u32" where
  "dir_de B s j = b_data (heads s (B (j div 64))) + 16 * of_nat (j mod 64)"

lemma file_cachedD:
  assumes "cache_rep fl ch s" and "file_cached fl ip D nb B s" and "k < nb"
  defines "blk \<equiv> ucast (file_map (i_zone (inode_table s ip)) D k) :: u32"
  shows "bmap (Suc n) zz ip (of_nat k) s = Inr (blk, s)" "create_block (Suc n) zz ip (of_nat k) s = Inr (blk, s)" "blk \<noteq> 0"
    "fbread (Suc n) zz (ucast (i_dev (inode_table s ip))) blk s = Inr (B k, hold (B k) s)" "B k \<noteq> 0"
    "brelse m zz (B k) (hold (B k) s) = Inr s" "b_data (heads s (B k)) \<noteq> 0" "unat (b_data (heads s (B k))) + 1024 < 2 ^ 32"
proof -
  have c: "map_cached fl ip D k s" "file_map (i_zone (inode_table s ip)) D k \<noteq> 0" "cached fl (i_dev (inode_table s ip)) blk (B k) s"
    "k < 262663"
    using assms(2,3) by (auto simp: file_cached_def blk_def)
  show "b_data (heads s (B k)) \<noteq> 0" "unat (b_data (heads s (B k))) + 1024 < 2 ^ 32" using assms(2,3) by (auto simp: file_cached_def)
  note m = bmap_c_file_map[OF assms(1) c(1) c(4)]
  show "bmap (Suc n) zz ip (of_nat k) s = Inr (blk, s)" "create_block (Suc n) zz ip (of_nat k) s = Inr (blk, s)"
    using m[of False] m[of True] c(2) by (simp_all add: bmap_def create_block_def blk_def)
  show "blk \<noteq> 0" unfolding blk_def using c(2) ucast_16_inj[of "file_map (i_zone (inode_table s ip)) D k" 0] by auto
  show "fbread (Suc n) zz (ucast (i_dev (inode_table s ip))) blk s = Inr (B k, hold (B k) s)" and b: "B k \<noteq> 0"
    using fbread_hit[OF assms(1) c(3)] by auto
  have "brelse m zz (B k) (hold (B k) s) = Inr (upd_bh (B k) (\<lambda>h. h\<lparr>b_count := b_count h - 1\<rparr>) (hold (B k) s))"
    by (rule brelse_quiet) (use c(3) b in \<open>simp_all add: cached_def upd_bh_def\<close>)
  then show "brelse m zz (B k) (hold (B k) s) = Inr s" by (simp add: hold_release)
qed

lemma dir_de_bound:
  fixes d :: u32
  assumes "unat d + 1024 < 2 ^ 32" and "m \<le> 64"
  shows "unat (d + 16 * of_nat m) = unat d + 16 * m" "1024 + d \<le> d + 16 * of_nat m \<longleftrightarrow> m = 64"
proof -
  have w: "unat (16 * of_nat m :: u32) = 16 * m" using assms(2) by (simp add: unat_word_ariths unat_of_nat)
  then show u: "unat (d + 16 * of_nat m) = unat d + 16 * m" using assms by (subst unat_plus_if_size) (simp add: word_size)
  have "unat (1024 + d) = 1024 + unat d" using assms(1) by (subst unat_plus_if_size) (simp add: word_size)
  then show "1024 + d \<le> d + 16 * of_nat m \<longleftrightarrow> m = 64" unfolding word_le_nat_alt u using assms(2) by linarith
qed

text \<open>Where the loops stand before entry \<open>i\<close>: in the block of the entry before, at its end when \<open>i\<close> is the first of a block.\<close>

lemma entry_position:
  fixes i :: nat
  defines "k \<equiv> (i - 1) div 64"
  shows "i - 64 * k \<le> 64" "i - 64 * k = 64 \<Longrightarrow> i mod 64 = 0" "i - 64 * k \<noteq> 64 \<Longrightarrow> k = i div 64 \<and> i - 64 * k = i mod 64"
    "(Suc i - 1) div 64 = i div 64" "Suc i - 64 * (i div 64) = Suc (i mod 64)"
proof -
  have e: "i = 64 * (i div 64) + i mod 64" by simp
  show "(Suc i - 1) div 64 = i div 64" "Suc i - 64 * (i div 64) = Suc (i mod 64)"
    using e by (simp, linarith)
  have "i - 64 * k \<le> 64 \<and> (i - 64 * k = 64 \<longrightarrow> i mod 64 = 0) \<and> (i - 64 * k \<noteq> 64 \<longrightarrow> k = i div 64 \<and> i - 64 * k = i mod 64)"
  proof (cases i)
    case (Suc j)
    have j: "j = 64 * (j div 64) + j mod 64" "j mod 64 < 64" by simp_all
    have m: "i - 64 * k = Suc (j mod 64)" unfolding k_def Suc using j(1) by (simp only: diff_Suc_1)
    show ?thesis
    proof (cases "j mod 64 = 63")
      case True
      then show ?thesis unfolding m by (simp add: Suc mod_Suc)
    next
      case False
      then show ?thesis unfolding m by (simp add: Suc k_def mod_Suc div_Suc)
    qed
  qed (simp add: k_def)
  then show "i - 64 * k \<le> 64" "i - 64 * k = 64 \<Longrightarrow> i mod 64 = 0" "i - 64 * k \<noteq> 64 \<Longrightarrow> k = i div 64 \<and> i - 64 * k = i mod 64" by auto
qed

lemma match_de_hold [simp]: "match_de len name de (upd_bh p f s) = match_de len name de s"
  by (simp add: match_de_def upd_bh_def)

lemma hold_fields [simp]:
  "inode_table (upd_bh p f s) = inode_table s" "bdata (upd_bh p f s) = bdata s" "fs_seg (upd_bh p f s) = fs_seg s"
  "b_data (heads (hold p s) q) = b_data (heads s q)"
  by (simp_all add: upd_bh_def)

lemma find_upt: "i < e \<Longrightarrow> List.find P [i..<e] = (if P i then Some i else List.find P [Suc i..<e])"
  by (simp add: upt_conv_Cons)

lemma find_loop_finds:
  assumes "cache_rep fl ch s" and fc: "file_cached fl dir D nb B s" and "entries \<le> 64 * nb" and "0 < nb"
  shows "i \<le> entries \<Longrightarrow> entries - i < k \<Longrightarrow> q = (i - 1) div 64 \<Longrightarrow>
    find_loop k (Suc n) zz dir name len entries i (B q) (b_data (heads s (B q)) + 16 * of_nat (i - 64 * q)) (hold (B q) s) =
    Inr (case List.find (\<lambda>j. match_de len name (dir_de B s j) s) [i..<entries] of
           None \<Rightarrow> (0, 0, s) | Some j \<Rightarrow> (B (j div 64), dir_de B s j, hold (B (j div 64)) s))"
proof (induction k arbitrary: i q)
  case (Suc k)
  have q: "q < nb" using Suc.prems(1,3) assms(3,4) by (metis less_mult_imp_div_less le_trans diff_le_self le_neq_implies_less less_imp_diff_less mult.commute nat_less_le less_le_trans diff_is_0_eq' div_0 One_nat_def diff_Suc_less gr0I)
  note C = file_cachedD[OF assms(1) fc] and P = entry_position[of i, folded Suc.prems(3)]
  show ?case
  proof (cases "i = entries")
    case True
    then show ?thesis using C(6)[OF q, of "Suc n" zz] by simp
  next
    case False
    then have i: "i < entries" "i div 64 < nb" using Suc.prems(1) assms(3) by (auto intro: less_mult_imp_div_less)
    have step: "find_loop k (Suc n) zz dir name len entries (Suc i) (B (i div 64)) (dir_de B s i + 16) (hold (B (i div 64)) s) =
      Inr (case List.find (\<lambda>j. match_de len name (dir_de B s j) s) [Suc i..<entries] of
             None \<Rightarrow> (0, 0, s) | Some j \<Rightarrow> (B (j div 64), dir_de B s j, hold (B (j div 64)) s))"
      using Suc.IH[of "Suc i" "i div 64"] Suc.prems(2) i(1) P(4,5) by (simp add: dir_de_def algebra_simps)
    have b: "1024 + b_data (heads s (B q)) \<le> b_data (heads s (B q)) + 16 * of_nat (i - 64 * q) \<longleftrightarrow> i - 64 * q = 64"
      by (rule dir_de_bound(2)[OF C(8)[OF q] P(1)])
    show ?thesis
    proof (cases "i - 64 * q = 64")
      case True
      have d: "dir_de B s i = b_data (heads s (B (i div 64)))" using P(2)[OF True] by (simp add: dir_de_def)
      show ?thesis using True b i(1) C(1,4)[OF i(2), of n zz] C(3,5)[OF i(2)] C(5)[OF q] C(6)[OF q] step d by (simp add: find_upt)
    next
      case False
      then have d1: "q = i div 64" "i - 64 * q = i mod 64" using P(3) by auto
      have d: "b_data (heads s (B q)) + 16 * of_nat (i - 64 * q) = dir_de B s i" by (simp only: dir_de_def d1(2)) (simp only: d1(1))
      show ?thesis using False b i(1) C(5)[OF q] step unfolding d unfolding d1(1) by (simp add: find_upt)
    qed
  qed
qed simp

lemma find_entry_finds:
  assumes "cache_rep fl ch s" and "file_cached fl dir D nb B s" and "unat (i_size (inode_table s dir) div 16) \<le> 64 * nb" and "0 < nb"
    and "0 < len" and "user_name (fs_seg s) name len \<noteq> [0x2e, 0x2e]" and "len \<le> 14"
  shows "find_entry (Suc n) zz dir name len s =
    Inr (case List.find (\<lambda>j. match_de len name (dir_de B s j) s) [0..<unat (i_size (inode_table s dir) div 16)] of
           None \<Rightarrow> (0, 0, dir, s) | Some j \<Rightarrow> (B (j div 64), dir_de B s j, dir, hold (B (j div 64)) s))"
proof -
  let ?e = "unat (i_size (inode_table s dir) div 16)"
  have nd: "\<not> (len = 2 \<and> fs_seg s name = 0x2e \<and> fs_seg s (name + 1) = 0x2e)" using assms(6) by (auto simp: user_name_def upt_rec)
  have dd: "dotdot (Suc n) zz dir name len s = Inr (dir, len, s)" by (simp only: dotdot_def nd if_False)
  note C = file_cachedD[OF assms(1,2,4)]
  have z: "file_map (i_zone (inode_table s dir)) D 0 = i_zone (inode_table s dir) 0" by (simp add: file_map_def)
  have "find_loop (Suc ?e) (Suc n) zz dir name len ?e 0 (B 0) (b_data (heads s (B 0))) (hold (B 0) s) =
    Inr (case List.find (\<lambda>j. match_de len name (dir_de B s j) s) [0..<?e] of
           None \<Rightarrow> (0, 0, s) | Some j \<Rightarrow> (B (j div 64), dir_de B s j, hold (B (j div 64)) s))"
    using find_loop_finds[OF assms(1-4), of 0 "Suc ?e" 0 n zz name len] by simp
  then show ?thesis using assms(5,7) C(4)[of n zz] C(3,5) dd unfolding find_entry_def z by (auto simp: Let_def simp del: find_loop.simps split: option.split)
qed

section \<open>Adding an entry\<close>

text \<open>Entry \<open>j\<close> is the one \<open>add_entry\<close> takes: the first unused one, or the first behind the directory's end.\<close>

definition free_de :: "nat \<Rightarrow> (nat \<Rightarrow> u32) \<Rightarrow> nat \<Rightarrow> fsst \<Rightarrow> bool" where
  "free_de entries B j s \<longleftrightarrow> j \<le> entries \<and> (\<forall>i<j. ld16 (bdata s) (dir_de B s i) \<noteq> 0) \<and> (j < entries \<longrightarrow> ld16 (bdata s) (dir_de B s j) = 0)"

lemma grow_dir_inside: "i < entries \<Longrightarrow> unat (i_size (inode_table s dir)) = 16 * entries \<Longrightarrow> grow_dir dir i de s = s"
  by (simp add: grow_dir_def)

lemma grow_dir_free:
  assumes "free_de entries B j s" and "unat (i_size (inode_table s dir)) = 16 * entries"
  shows "ld16 (bdata (grow_dir dir j (dir_de B s j) (hold p s))) (dir_de B s j) = 0"
  using assms by (auto simp: grow_dir_def free_de_def upd_inode_def)

lemma add_loop_adds:
  assumes "cache_rep fl ch s" and fc: "file_cached fl dir D nb B s" and "j < 64 * nb"
    and fj: "free_de entries B j s" and sz: "unat (i_size (inode_table s dir)) = 16 * entries"
  shows "i \<le> j \<Longrightarrow> j - i < k \<Longrightarrow> q = (i - 1) div 64 \<Longrightarrow>
    add_loop k (Suc n) zz dir name len i (B q) (b_data (heads s (B q)) + 16 * of_nat (i - 64 * q)) (hold (B q) s) =
    Inr (B (j div 64), dir_de B s j,
         fill_entry dir name len (B (j div 64)) (dir_de B s j) (grow_dir dir j (dir_de B s j) (hold (B (j div 64)) s)))"
proof (induction k arbitrary: i q)
  case (Suc k)
  have i: "i div 64 < nb" and q: "q < nb" using Suc.prems(1,3) assms(3) by (auto intro!: less_mult_imp_div_less)
  note C = file_cachedD[OF assms(1) fc] and P = entry_position[of i, folded Suc.prems(3)]
  let ?r = "Inr (B (j div 64), dir_de B s j,
         fill_entry dir name len (B (j div 64)) (dir_de B s j) (grow_dir dir j (dir_de B s j) (hold (B (j div 64)) s)))"
  let ?next = "let t = grow_dir dir i (dir_de B s i) (hold (B (i div 64)) s)
    in if ld16 (bdata t) (dir_de B s i) = 0 then Inr (B (i div 64), dir_de B s i, fill_entry dir name len (B (i div 64)) (dir_de B s i) t)
       else add_loop k (Suc n) zz dir name len (Suc i) (B (i div 64)) (dir_de B s i + 16) t"
  have step: "?next = ?r"
  proof (cases "i = j")
    case True
    then show ?thesis using grow_dir_free[OF fj sz] by (simp add: Let_def)
  next
    case False
    then have l: "i < j" "i < entries" using Suc.prems(1) fj by (auto simp: free_de_def)
    have "grow_dir dir i (dir_de B s i) (hold (B (i div 64)) s) = hold (B (i div 64)) s" by (rule grow_dir_inside[OF l(2)]) (simp add: sz)
    moreover have "ld16 (bdata s) (dir_de B s i) \<noteq> 0" using fj l(1) by (simp add: free_de_def)
    ultimately show ?thesis using Suc.IH[of "Suc i" "i div 64"] Suc.prems(2) l(1) P(4,5) by (simp add: Let_def dir_de_def algebra_simps)
  qed
  have b: "1024 + b_data (heads s (B q)) \<le> b_data (heads s (B q)) + 16 * of_nat (i - 64 * q) \<longleftrightarrow> i - 64 * q = 64"
    by (rule dir_de_bound(2)[OF C(8)[OF q] P(1)])
  show ?case
  proof (cases "i - 64 * q = 64")
    case True
    have d: "b_data (heads s (B (i div 64))) = dir_de B s i" using P(2)[OF True] by (simp add: dir_de_def)
    show ?thesis using True b C(2,4)[OF i, of n zz] C(3,5)[OF i] C(5)[OF q] C(6)[OF q] step d by (simp add: Let_def)
  next
    case False
    then have d1: "q = i div 64" "i - 64 * q = i mod 64" using P(3) by auto
    have d: "b_data (heads s (B q)) + 16 * of_nat (i - 64 * q) = dir_de B s i" by (simp only: dir_de_def d1(2)) (simp only: d1(1))
    show ?thesis using False b C(5)[OF q] step unfolding d unfolding d1(1) by (simp add: Let_def)
  qed
qed simp

lemma add_entry_adds:
  assumes "cache_rep fl ch s" and "file_cached fl dir D nb B s" and "j < 64 * nb"
    and "free_de entries B j s" and "unat (i_size (inode_table s dir)) = 16 * entries" and "0 < len" and "len \<le> 14"
  shows "add_entry (Suc n) zz dir name len s = Inr (B (j div 64), dir_de B s j,
         fill_entry dir name len (B (j div 64)) (dir_de B s j) (grow_dir dir j (dir_de B s j) (hold (B (j div 64)) s)))"
proof -
  have nb: "0 < nb" "j < 2 ^ 28 + 2" using assms(2,3) by (auto simp: file_cached_def)
  note C = file_cachedD[OF assms(1,2) nb(1)]
  have z: "file_map (i_zone (inode_table s dir)) D 0 = i_zone (inode_table s dir) 0" by (simp add: file_map_def)
  show ?thesis
    using add_loop_adds[OF assms(1-5), of 0 "2 ^ 28 + 2" 0 n zz name len] nb(2) assms(6,7) C(4)[of n zz] C(3,5)
    unfolding add_entry_def z by (auto simp: Let_def simp del: add_loop.simps)
qed

text \<open>The bytes of different entries are different.\<close>

lemma entry_apart:
  assumes "file_cached fl dir D nb B s" and "inj_on B {..<nb}" and "data_apart (set fl) s" and "i < 64 * nb" and "j < 64 * nb" and "i \<noteq> j" and "t < 16"
  shows "16 \<le> unat (dir_de B s i + of_nat t - dir_de B s j)"
proof -
  let ?a = "b_data (heads s (B (i div 64)))" and ?b = "b_data (heads s (B (j div 64)))"
  let ?x = "16 * (i mod 64) + t" and ?y = "16 * (j mod 64)"
  have k: "i div 64 < nb" "j div 64 < nb" using assms(4,5) by (auto intro: less_mult_imp_div_less)
  have xy: "?x < 1024" "?y \<le> 1008" using assms(7) by simp_all
  have d: "dir_de B s i + of_nat t - dir_de B s j = ?a + of_nat ?x - ?b - of_nat ?y" by (simp add: dir_de_def algebra_simps)
  have u: "unat (of_nat ?y :: u32) = ?y" using xy(2) by (simp only: unat_of_nat) simp
  show ?thesis
  proof (cases "i div 64 = j div 64")
    case True
    then have m: "i mod 64 \<noteq> j mod 64" using assms(6) by (metis div_mult_mod_eq)
    have ux: "unat (of_nat ?x :: u32) = ?x" using xy(1) by (simp only: unat_of_nat) simp
    have "dir_de B s i + of_nat t - dir_de B s j = of_nat ?x - of_nat ?y" unfolding d True by simp
    moreover have "16 \<le> unat (of_nat ?x - of_nat ?y :: u32)"
      unfolding unat_minus_eq word_le_nat_alt ux u using m xy assms(7) by auto
    ultimately show ?thesis by (simp only:)
  next
    case False
    then have "B (i div 64) \<noteq> B (j div 64)" using k assms(2) by (auto simp: inj_on_def)
    moreover have "B (i div 64) \<in> set fl" "B (j div 64) \<in> set fl" using assms(1) k by (auto simp: file_cached_def cached_def)
    ultimately have "1024 \<le> unat (?a - ?b)" "1024 \<le> unat (?b - ?a)" using assms(3) by (auto simp: data_apart_def)
    then have g: "\<not> unat (?a + of_nat ?x - ?b) < 1024" by (rule apart_byte) (rule xy(1))
    have "of_nat ?y \<le> ?a + of_nat ?x - ?b" unfolding word_le_nat_alt u using g xy(2) by linarith
    then show ?thesis unfolding d using g xy(2) by (simp only: unat_sub u)
  qed
qed


lemma entry_cong:
  assumes "\<And>t. t < 16 \<Longrightarrow> m (de + of_nat t) = m' (de + of_nat t)"
  shows "ld16 m de = ld16 m' de" "de_name m de = de_name m' de"
proof -
  show "ld16 m de = ld16 m' de" using assms[of 0] assms[of 1] by (intro ld16_cong) simp_all
  have "m (de + 2 + of_nat i) = m' (de + 2 + of_nat i)" if "i < 14" for i using assms[of "i + 2"] that by (simp add: algebra_simps)
  then show "de_name m de = de_name m' de" unfolding de_name_def user_name_def by (intro arg_cong[where f = "takeWhile _"] map_cong) auto
qed

text \<open>The state after \<open>add_entry\<close>, the store of the inode number and \<open>brelse\<close>.\<close>

definition linked :: "nat \<Rightarrow> u32 \<Rightarrow> nat \<Rightarrow> (nat \<Rightarrow> u32) \<Rightarrow> nat \<Rightarrow> u16 \<Rightarrow> fsst \<Rightarrow> fsst" where
  "linked dir name len B j nr s = (let s1 = fill_entry dir name len (B (j div 64)) (dir_de B s j) (grow_dir dir j (dir_de B s j) s)
     in s1\<lparr>bdata := st16 (bdata s1) (dir_de B s j) nr\<rparr>)"

lemma linked_fields:
  shows "heads (linked dir name len B j nr s) = (heads s)(B (j div 64) := (heads s (B (j div 64)))\<lparr>b_dirt := 1\<rparr>)"
    "i_zone (inode_table (linked dir name len B j nr s) dir) = i_zone (inode_table s dir)"
    "i_dev (inode_table (linked dir name len B j nr s) dir) = i_dev (inode_table s dir)"
    "i_size (inode_table (linked dir name len B j nr s) dir) =
       (if unat (i_size (inode_table s dir)) \<le> j * 16 then of_nat ((j + 1) * 16) else i_size (inode_table s dir))"
    "fs_seg (linked dir name len B j nr s) = fs_seg s" "same_links s (linked dir name len B j nr s)"
    "buffer_wait (linked dir name len B j nr s) = buffer_wait s"
  by (simp_all add: linked_def Let_def fill_entry_def grow_dir_def upd_inode_def upd_bh_def same_links_def)

lemma linked_head [simp]:
  fixes s dir name len B j nr
  defines "t \<equiv> linked dir name len B j nr s"
  shows "b_dev (heads t p) = b_dev (heads s p)" "b_blocknr (heads t p) = b_blocknr (heads s p)" "b_lock (heads t p) = b_lock (heads s p)"
    "b_uptodate (heads t p) = b_uptodate (heads s p)" "b_count (heads t p) = b_count (heads s p)" "b_data (heads t p) = b_data (heads s p)"
  by (simp_all add: t_def linked_fields(1))

lemma linked_data:
  assumes "len \<le> 14" and "0 \<notin> set (user_name (fs_seg s) name len)"
  shows "ld16 (bdata (linked dir name len B j nr s)) (dir_de B s j) = nr"
    "de_name (bdata (linked dir name len B j nr s)) (dir_de B s j) = user_name (fs_seg s) name len"
    "16 \<le> unat (x - dir_de B s j) \<Longrightarrow> bdata (linked dir name len B j nr s) x = bdata s x"
proof -
  define m where "m = bdata (grow_dir dir j (dir_de B s j) s)"
  let ?d = "dir_de B s j" and ?m = "put_name 14 name len (dir_de B s j) (fs_seg s) m"
  have g: "fs_seg (grow_dir dir j ?d s) = fs_seg s" by (simp add: grow_dir_def upd_inode_def)
  have L: "bdata (linked dir name len B j nr s) = st16 ?m ?d nr"
    by (simp add: linked_def Let_def fill_entry_def upd_inode_def upd_bh_def m_def g)
  show "ld16 (bdata (linked dir name len B j nr s)) ?d = nr" unfolding L by simp
  have far: "unat (?d + 2 + of_nat i - ?d) = 2 + i" if "i < 14" for i
  proof -
    have "?d + 2 + of_nat i - ?d = of_nat (2 + i)" by simp
    then show ?thesis using that by (simp only: unat_of_nat) simp
  qed
  have "st16 ?m ?d nr (?d + 2 + of_nat i) = ?m (?d + 2 + of_nat i)" if "i < 14" for i by (rule st16_off) (simp only: far[OF that])
  then have "de_name (st16 ?m ?d nr) ?d = de_name ?m ?d" unfolding de_name_def user_name_def
    by (intro arg_cong[where f = "takeWhile _"] map_cong) simp_all
  then show "de_name (bdata (linked dir name len B j nr s)) ?d = user_name (fs_seg s) name len" unfolding L using de_name_put_name[OF assms] by simp
  assume x: "16 \<le> unat (x - ?d)"
  have "14 \<le> unat (x - (?d + 2))" using x by (simp only: diff_diff_add[symmetric]) (simp add: unat_minus_eq word_le_nat_alt)
  moreover have "m x = bdata s x" using x by (simp add: m_def grow_dir_def upd_inode_def st16_off)
  ultimately show "bdata (linked dir name len B j nr s) x = bdata s x" unfolding L using x by (simp add: st16_off put_name_apply Let_def)
qed

lemma dir_de_nonzero:
  assumes "file_cached fl dir D nb B s" and "j < 64 * nb"
  shows "dir_de B s j \<noteq> 0"
proof -
  have k: "j div 64 < nb" using assms(2) by (auto intro: less_mult_imp_div_less)
  have b: "b_data (heads s (B (j div 64))) \<noteq> 0" "unat (b_data (heads s (B (j div 64)))) + 1024 < 2 ^ 32"
    using assms(1) k by (auto simp: file_cached_def)
  have m: "j mod 64 \<le> 64" by (simp add: less_imp_le)
  show ?thesis unfolding dir_de_def using dir_de_bound(1)[OF b(2) m] b(1) unfolding word_unat_eq_iff by simp
qed

lemma find_cong_set: "(\<And>x. x \<in> set xs \<Longrightarrow> P x = Q x) \<Longrightarrow> List.find P xs = List.find Q xs"
  by (rule find_cong) simp_all

lemma file_cached_linked:
  assumes "file_cached fl dir D nb B s" and "nb \<le> 7"
  shows "file_cached fl dir D nb B (linked dir name len B j nr s)"
proof -
  have "map_blocks z D k = {}" if "k < nb" for z k using that assms(2) by (simp add: map_blocks_def)
  then show ?thesis using assms(1) by (simp add: file_cached_def map_cached_def cached_def linked_fields(2-7))
qed

lemma linked_de: "dir_de B (linked dir name len B j nr s) i = dir_de B s i"
  by (simp add: dir_de_def)

lemma linked_others:
  assumes "file_cached fl dir D nb B s" and "inj_on B {..<nb}" and "data_apart (set fl) s" and "i < 64 * nb" and "j < 64 * nb" and "i \<noteq> j"
    and "len \<le> 14" and "0 \<notin> set (user_name (fs_seg s) name len)"
  shows "ld16 (bdata (linked dir name len B j nr s)) (dir_de B s i) = ld16 (bdata s) (dir_de B s i)"
    "de_name (bdata (linked dir name len B j nr s)) (dir_de B s i) = de_name (bdata s) (dir_de B s i)"
proof -
  have b: "bdata (linked dir name len B j nr s) (dir_de B s i + of_nat t) = bdata s (dir_de B s i + of_nat t)" if "t < 16" for t
    by (rule linked_data(3)[OF assms(7,8)]) (rule entry_apart[OF assms(1-6) that])
  show "ld16 (bdata (linked dir name len B j nr s)) (dir_de B s i) = ld16 (bdata s) (dir_de B s i)" by (rule entry_cong(1)) (rule b)
  show "de_name (bdata (linked dir name len B j nr s)) (dir_de B s i) = de_name (bdata s) (dir_de B s i)" by (rule entry_cong(2)) (rule b)
qed

text \<open>After the new entry is in, exactly that entry matches the name.\<close>

lemma linked_match:
  assumes "file_cached fl dir D nb B s" and "inj_on B {..<nb}" and "data_apart (set fl) s" and "i < 64 * nb" and "j < 64 * nb"
    and "len \<le> 14" and "0 \<notin> set (user_name (fs_seg s) name len)" and "nr \<noteq> 0"
  shows "match_de len name (dir_de B s i) (linked dir name len B j nr s) \<longleftrightarrow> i = j \<or> match_de len name (dir_de B s i) s"
proof -
  let ?s = "linked dir name len B j nr s"
  have z: "dir_de B s i \<noteq> 0" using dir_de_nonzero[OF assms(1,4)] .
  note M = match_de_iff[OF assms(6) _ z]
  have m: "match_de len name (dir_de B s i) ?s \<longleftrightarrow> ld16 (bdata ?s) (dir_de B s i) \<noteq> 0 \<and> de_name (bdata ?s) (dir_de B s i) = user_name (fs_seg s) name len"
    using M[of ?s name] assms(7) by (simp add: linked_fields)
  show ?thesis
  proof (cases "i = j")
    case True
    then show ?thesis unfolding m using linked_data(1,2)[OF assms(6,7)] assms(8) by simp
  next
    case False
    note e = linked_others[OF assms(1-5) False assms(6,7)]
    show ?thesis unfolding m e using False M[of s name] assms(7) by simp
  qed
qed

text \<open>C16: \<open>find_entry\<close> refines the search of a list of names. In a directory whose blocks are in the cache, of any number of
  blocks, it returns the first used entry with the name, its buffer held, or nothing and leaves the state as it was; names
  longer than 14 bytes are cut. This is for names other than ``..'', without zero bytes.\<close>

theorem find_entry_refines:
  assumes "cache_rep fl ch s" and "file_cached fl dir D nb B s" and "unat (i_size (inode_table s dir)) div 16 \<le> 64 * nb" and "0 < nb"
    and "0 < namelen" and "nm = user_name (fs_seg s) name (min namelen 14)" and "nm \<noteq> [0x2e, 0x2e]" and "0 \<notin> set nm"
  shows "find_entry (Suc n) zz dir name namelen s =
    Inr (case List.find (\<lambda>j. ld16 (bdata s) (dir_de B s j) \<noteq> 0 \<and> de_name (bdata s) (dir_de B s j) = nm)
                [0..<unat (i_size (inode_table s dir)) div 16] of
           None \<Rightarrow> (0, 0, dir, s) | Some j \<Rightarrow> (B (j div 64), dir_de B s j, dir, hold (B (j div 64)) s))"
proof -
  let ?e = "unat (i_size (inode_table s dir)) div 16" and ?l = "min namelen 14"
  have e: "unat (i_size (inode_table s dir) div 16) = ?e" by (simp add: unat_div)
  have "match_de ?l name (dir_de B s j) s \<longleftrightarrow> ld16 (bdata s) (dir_de B s j) \<noteq> 0 \<and> de_name (bdata s) (dir_de B s j) = nm" if "j < ?e" for j
    using match_de_iff[OF _ _ dir_de_nonzero[OF assms(2)], of ?l s name j] that assms(3,6,8) by simp
  then have f: "List.find (\<lambda>j. match_de ?l name (dir_de B s j) s) [0..<?e] =
    List.find (\<lambda>j. ld16 (bdata s) (dir_de B s j) \<noteq> 0 \<and> de_name (bdata s) (dir_de B s j) = nm) [0..<?e]"
    by (intro find_cong_set) simp
  have "find_entry (Suc n) zz dir name namelen s = find_entry (Suc n) zz dir name ?l s" by (simp add: find_entry_def min_def)
  then show ?thesis using find_entry_finds[OF assms(1,2), where n = n and zz = zz and name = name and len = ?l] assms(3-7) unfolding e f[symmetric] by simp
qed

lemma hold_dirt: "h\<lparr>b_count := c, b_dirt := d\<rparr> = h\<lparr>b_dirt := d, b_count := c\<rparr>"
  by (rule buffer_head.equality) simp_all

lemma linked_held:
  assumes "bh = B (j div 64)" and "s1 = fill_entry dir name len bh (dir_de B s j) (grow_dir dir j (dir_de B s j) (hold bh s))"
  shows "upd_bh bh (\<lambda>h. h\<lparr>b_dirt := 1\<rparr>) (s1\<lparr>bdata := st16 (bdata s1) (dir_de B s j) nr\<rparr>) = hold bh (linked dir name len B j nr s)"
  unfolding assms by (rule fsst.equality) (simp_all add: linked_def Let_def fill_entry_def grow_dir_def upd_inode_def upd_bh_def hold_dirt)

lemma linked_entries:
  assumes "unat (i_size (inode_table s dir)) = 16 * entries" and "free_de entries B j s" and "j < 64 * nb" and "nb \<le> 7"
  shows "unat (i_size (inode_table (linked dir name len B j nr s) dir) div 16) = (if j = entries then Suc entries else entries)"
proof -
  have "unat (of_nat ((j + 1) * 16) :: u32) = (j + 1) * 16" using assms(3,4) by (simp only: unat_of_nat) simp
  then show ?thesis using assms(1,2) unfolding unat_div linked_fields(4) by (auto simp: free_de_def simp del: of_nat_mult of_nat_add)
qed

text \<open>C15: a name put into a directory is found there. \<open>add_entry\<close> takes the first unused entry, or one more at the end of
  the directory when its last block has room; once the caller has stored an inode number and released the buffer,
  \<open>find_entry\<close> for the same name gives that entry, and every other entry of the directory is as before.\<close>

theorem add_then_find_entry:
  assumes "cache_rep fl ch s" and "file_cached fl dir D nb B s" and "nb \<le> 7" and "inj_on B {..<nb}" and "data_apart (set fl) s"
    and "unat (i_size (inode_table s dir)) = 16 * entries" and "entries \<le> 64 * nb" and "free_de entries B j s" and "j < 64 * nb"
    and "0 < len" and "len \<le> 14" and "user_name (fs_seg s) name len \<noteq> [0x2e, 0x2e]" and "0 \<notin> set (user_name (fs_seg s) name len)"
    and "\<forall>i<entries. \<not> match_de len name (dir_de B s i) s" and "nr \<noteq> 0"
  shows "\<exists>s1 s2 bh. add_entry (Suc n) zz dir name len s = Inr (bh, dir_de B s j, s1)
    \<and> brelse (Suc n) zz bh (upd_bh bh (\<lambda>h. h\<lparr>b_dirt := 1\<rparr>) (s1\<lparr>bdata := st16 (bdata s1) (dir_de B s j) nr\<rparr>)) = Inr s2
    \<and> find_entry (Suc n) zz dir name len s2 = Inr (bh, dir_de B s j, dir, hold bh s2)
    \<and> ld16 (bdata s2) (dir_de B s j) = nr
    \<and> (\<forall>i < 64 * nb. i \<noteq> j \<longrightarrow> ld16 (bdata s2) (dir_de B s i) = ld16 (bdata s) (dir_de B s i)
         \<and> de_name (bdata s2) (dir_de B s i) = de_name (bdata s) (dir_de B s i))"
proof -
  let ?bh = "B (j div 64)" and ?t = "linked dir name len B j nr s"
  let ?e = "if j = entries then Suc entries else entries"
  define s1 where "s1 = fill_entry dir name len ?bh (dir_de B s j) (grow_dir dir j (dir_de B s j) (hold ?bh s))"
  have rt: "cache_rep fl ch ?t" using same_links_rep[OF linked_fields(6)] assms(1) by blast
  note ft = file_cached_linked[OF assms(2,3), of name len j nr] and e = linked_entries[OF assms(6,8,9,3)]
  have j: "j < ?e" "?e \<le> 64 * nb" "j \<le> entries" "j div 64 < nb" using assms(7-9) by (auto simp: free_de_def intro: less_mult_imp_div_less)
  have a: "add_entry (Suc n) zz dir name len s = Inr (?bh, dir_de B s j, s1)"
    unfolding s1_def by (rule add_entry_adds[OF assms(1,2,9,8,6,10,11)])
  have b: "brelse (Suc n) zz ?bh (upd_bh ?bh (\<lambda>h. h\<lparr>b_dirt := 1\<rparr>) (s1\<lparr>bdata := st16 (bdata s1) (dir_de B s j) nr\<rparr>)) = Inr ?t"
    unfolding linked_held[OF refl s1_def] by (rule file_cachedD(6)[OF rt ft j(4)])
  have m: "match_de len name (dir_de B s i) ?t \<longleftrightarrow> i = j \<or> match_de len name (dir_de B s i) s" if "i < ?e" for i
    using that j(2) by (intro linked_match[OF assms(2,4,5) _ assms(9,11,13,15)]) simp
  have "List.find (\<lambda>i. match_de len name (dir_de B s i) ?t) [0..<?e] = Some j"
    unfolding find_Some_iff using m j(1,3) assms(14) by (intro exI[of _ j]) auto
  then have f: "find_entry (Suc n) zz dir name len ?t = Inr (?bh, dir_de B s j, dir, hold ?bh ?t)"
    using find_entry_finds[OF rt ft, where n = n and zz = zz and name = name and len = len] j assms(10-12)
    by (simp add: e linked_fields(5) linked_de)
  show ?thesis
    by (rule exI[of _ s1], rule exI[of _ ?t], rule exI[of _ ?bh])
      (use a b f linked_data(1)[OF assms(11,13)] linked_others[OF assms(2,4,5) _ assms(9) _ assms(11,13)] in auto)
qed

section \<open>Witnesses\<close>

text \<open>A directory of one block with the entry ``a'' for inode 9, and the user's name ``b''.\<close>

definition demo_dir :: fsst where
  "demo_dir = demo_ifs\<lparr>inode_table := (inode_table demo_ifs)(3 := (inode_table demo_ifs 3)\<lparr>i_size := 16, i_zone := (\<lambda>k. if k = 0 then 4 else 0)\<rparr>),
     bdata := (\<lambda>_. 0)(0x8000 := 9, 0x8002 := 0x61), fs_seg := (\<lambda>_. 0)(0x10 := 0x62, 0x20 := 0x61)\<rparr>"

lemma demo_dir_rep: "cache_rep [0x1000, 0x2000] (\<lambda>i. if i = 159 then [0x1000] else []) demo_dir"
proof -
  have "same_links demo_ifs demo_dir" by (simp add: same_links_def demo_dir_def)
  then show ?thesis using same_links_rep demo_ifs_rep by blast
qed

lemma demo_dir_simps:
  "heads demo_dir = heads demo_ifs" "i_zone (inode_table demo_dir 3) = (\<lambda>k. if k = 0 then 4 else 0)" "i_size (inode_table demo_dir 3) = 16"
  "i_dev (inode_table demo_dir 3) = 0x301" "bdata demo_dir = (\<lambda>_. 0)(0x8000 := 9, 0x8002 := 0x61)" "fs_seg demo_dir = (\<lambda>_. 0)(0x10 := 0x62, 0x20 := 0x61)"
  "b_data (heads demo_ifs 0x1000) = 0x8000" "b_data (heads demo_ifs 0x2000) = 0x9000" "buffer_wait demo_dir = buffer_wait demo_ifs"
  by (simp_all add: demo_dir_def demo_ifs_def demo_fs_simps demo_icache_def demo_zcache_def demo_idle_def)

lemma demo_dir_cached: "file_cached [0x1000, 0x2000] 3 (\<lambda>_ _. 0) 1 (\<lambda>_. 0x1000) demo_dir"
  using demo_ifs_cached by (simp add: file_cached_def map_cached_def map_blocks_def file_map_def demo_dir_simps cached_def)

lemma demo_dir_entries:
  "dir_de (\<lambda>_. 0x1000) demo_dir 0 = 0x8000" "dir_de (\<lambda>_. 0x1000) demo_dir 1 = 0x8010" "ld16 (bdata demo_dir) 0x8000 = 9"
  "de_name (bdata demo_dir) 0x8000 = [0x61]" "user_name (fs_seg demo_dir) 0x10 1 = [0x62]" "user_name (fs_seg demo_dir) 0x20 1 = [0x61]"
  by (simp_all add: dir_de_def demo_dir_simps ld16_def de_name_def user_name_def upt_rec)

theorem find_entry_refines_witness:
  "find_entry 1 (\<lambda>_. Inr) 3 0x20 1 demo_dir = Inr (0x1000, 0x8000, 3, hold 0x1000 demo_dir)
   \<and> find_entry 1 (\<lambda>_. Inr) 3 0x10 1 demo_dir = Inr (0, 0, 3, demo_dir)"
proof -
  have e: "unat (i_size (inode_table demo_dir 3)) div 16 = 1" by (simp add: demo_dir_simps)
  have n: "[0x61] = user_name (fs_seg demo_dir) 0x20 (min 1 14)" "[0x62] = user_name (fs_seg demo_dir) 0x10 (min 1 14)"
    using demo_dir_entries(5,6) by simp_all
  note R = find_entry_refines[OF demo_dir_rep demo_dir_cached, where namelen = 1 and n = 0 and zz = "\<lambda>_. Inr", unfolded e]
  show ?thesis using R[OF _ _ _ n(1)] R[OF _ _ _ n(2)] demo_dir_entries(1,3,4) unfolding One_nat_def by (simp add: upt_rec)
qed

theorem add_then_find_entry_witness:
  "\<exists>s1 s2 bh. add_entry 1 (\<lambda>_. Inr) 3 0x10 1 demo_dir = Inr (bh, 0x8010, s1)
    \<and> find_entry 1 (\<lambda>_. Inr) 3 0x10 1 s2 = Inr (bh, 0x8010, 3, hold bh s2) \<and> ld16 (bdata s2) 0x8010 = 12 \<and> ld16 (bdata s2) 0x8000 = 9"
proof -
  let ?B = "\<lambda>_ :: nat. 0x1000 :: u32"
  have h: "(1 :: nat) \<le> 7" "inj_on ?B {..<1}" "data_apart (set [0x1000, 0x2000]) demo_dir" "unat (i_size (inode_table demo_dir 3)) = 16 * 1"
    "(1 :: nat) \<le> 64 * 1" "free_de 1 ?B 1 demo_dir" "(1 :: nat) < 64 * 1" "0 < (1 :: nat)" "(1 :: nat) \<le> 14"
    "user_name (fs_seg demo_dir) 0x10 1 \<noteq> [0x2e, 0x2e]" "0 \<notin> set (user_name (fs_seg demo_dir) 0x10 1)"
    by (simp_all add: demo_dir_simps demo_dir_entries data_apart_def inj_on_def free_de_def less_Suc_eq ld16_def user_name_def)
  have m: "\<forall>i<1. \<not> match_de 1 0x10 (dir_de ?B demo_dir i) demo_dir"
    using match_de_iff[of 1 demo_dir "0x10" "0x8000"] demo_dir_entries h(11) by (simp add: less_Suc_eq)
  from add_then_find_entry[OF demo_dir_rep demo_dir_cached h m, of 12 0 "\<lambda>_. Inr"]
  obtain s1 s2 bh where "add_entry 1 (\<lambda>_. Inr) 3 0x10 1 demo_dir = Inr (bh, 0x8010, s1)"
    "find_entry 1 (\<lambda>_. Inr) 3 0x10 1 s2 = Inr (bh, 0x8010, 3, hold bh s2)" "ld16 (bdata s2) 0x8010 = 12"
    "\<forall>i<64 * 1. i \<noteq> 1 \<longrightarrow> ld16 (bdata s2) (dir_de ?B demo_dir i) = ld16 (bdata demo_dir) (dir_de ?B demo_dir i)"
    unfolding demo_dir_entries(2) unfolding One_nat_def by auto
  moreover from this(4) have "ld16 (bdata s2) 0x8000 = 9" using demo_dir_entries(1,3) by (metis zero_neq_one zero_less_numeral mult.right_neutral)
  ultimately show ?thesis by blast
qed

section \<open>Splitting paths\<close>

text \<open>A path at address \<open>p\<close> of the user's segment, ended by a zero byte, and its last component.\<close>

definition user_path :: "mem \<Rightarrow> u32 \<Rightarrow> u8 list \<Rightarrow> bool" where
  "user_path u p bs \<longleftrightarrow> user_name u p (length bs) = bs \<and> 0 \<notin> set bs \<and> u (p + of_nat (length bs)) = 0"

definition last_part :: "u8 list \<Rightarrow> u8 list" where
  "last_part bs = rev (takeWhile (\<lambda>c. c \<noteq> 0x2f) (rev bs))"

lemma user_name_Suc: "user_name u p (Suc n) = u p # user_name u (p + 1) n"
  by (simp add: user_name_def upt_conv_Cons map_Suc_upt[symmetric] add.assoc del: upt_Suc)

lemma user_path_Cons: "user_path u p (c # bs) \<longleftrightarrow> u p = c \<and> c \<noteq> 0 \<and> user_path u (p + 1) bs"
  by (auto simp: user_path_def user_name_Suc add.assoc)

lemma takeWhile_no_slash: "0x2f \<notin> set bs \<Longrightarrow> takeWhile (\<lambda>c. c \<noteq> (0x2f :: u8)) bs = bs"
  by (rule takeWhile_eq_all_conv[THEN iffD2]) auto

lemma last_part_Cons: "last_part (c # bs) = (if 0x2f \<in> set bs then last_part bs else if c = 0x2f then bs else c # bs)"
  by (auto simp: last_part_def takeWhile_append takeWhile_no_slash)

lemma last_part_drop: "last_part bs = drop (length bs - length (last_part bs)) bs" "length (last_part bs) \<le> length bs"
proof -
  let ?w = "takeWhile (\<lambda>c. c \<noteq> 0x2f) (rev bs)"
  have "rev ?w = rev (take (length ?w) (rev bs))" by (simp only: takeWhile_eq_take[symmetric])
  then show "last_part bs = drop (length bs - length (last_part bs)) bs" by (simp add: last_part_def rev_take)
  show "length (last_part bs) \<le> length bs" using length_takeWhile_le[of _ "rev bs"] by (simp add: last_part_def)
qed

lemma last_part_no_slash: "0x2f \<notin> set bs \<Longrightarrow> last_part bs = bs"
  by (simp add: last_part_def takeWhile_no_slash)

lemma scan_name_path:
  assumes "user_path u p bs"
  shows "scan_name u p k = Some (if 0x2f \<in> set bs then 0x2f else 0,
    p + of_nat (length (takeWhile (\<lambda>c. c \<noteq> 0x2f) bs)) + 1, k + length (takeWhile (\<lambda>c. c \<noteq> 0x2f) bs))"
  using assms
proof (induction bs arbitrary: p k)
  case Nil
  then show ?case by (subst scan_name.simps) (simp add: user_path_def)
next
  case (Cons c bs)
  then show ?case by (subst scan_name.simps) (auto simp: user_path_Cons add.assoc)
qed

lemma scan_base_path:
  assumes "user_path u p bs"
  shows "scan_base u p base = Some (p + of_nat (length bs) + 1,
    if 0x2f \<in> set bs then p + of_nat (length bs) - of_nat (length (last_part bs)) else base)"
  using assms
proof (induction bs arbitrary: p base)
  case Nil
  then show ?case by (subst scan_base.simps) (simp add: user_path_def)
next
  case (Cons c bs)
  then show ?case by (subst scan_base.simps) (auto simp: user_path_Cons last_part_Cons last_part_no_slash add.assoc)
qed

lemma user_name_drop: "user_name u p n = bs \<Longrightarrow> k \<le> n \<Longrightarrow> user_name u (p + of_nat k) (n - k) = drop k bs"
proof (rule nth_equalityI)
  assume n: "user_name u p n = bs" "k \<le> n"
  show "user_name u (p + of_nat k) (n - k) ! i = drop k bs ! i" if "i < length (user_name u (p + of_nat k) (n - k))" for i
    using that n user_name_nth[of "k + i" n u p] by (auto simp: add.assoc)
qed auto

text \<open>C29: \<open>dir_namei\<close> splits a path. Once \<open>get_dir\<close> has found the directory, the scan over the path ends, and the name it
  gives, as an address and a length, is the part of the path behind the last slash.\<close>

theorem dir_namei_last_part:
  assumes "get_dir n zz p s = Inr (Some dir, s')" and "user_path (fs_seg s') p bs" and "length bs < 2 ^ 32 - 1"
  shows "\<exists>base. dir_namei n zz p s = Inr (Some (dir, length (last_part bs), base), s')
    \<and> user_name (fs_seg s') base (length (last_part bs)) = last_part bs"
proof -
  let ?u = "fs_seg s'" and ?l = "length (last_part bs)" and ?k = "length bs - length (last_part bs)"
  let ?base = "p + of_nat ?k"
  have lb: "?l \<le> length bs" by (rule last_part_drop)
  then have k: "of_nat ?k = (of_nat (length bs) :: u32) - of_nat ?l" by (simp add: of_nat_diff)
  have "scan_base ?u p p = Some (p + of_nat (length bs) + 1, ?base)"
    using scan_base_path[OF assms(2), of p] last_part_no_slash[of bs] unfolding k by auto
  moreover have "p + of_nat (length bs) + 1 - ?base - 1 = of_nat ?l" unfolding k by simp
  moreover have "unat (of_nat ?l :: u32) = ?l" using lb assms(3) by (simp add: unat_of_nat)
  ultimately have "dir_namei n zz p s = Inr (Some (dir, ?l, ?base), s')" using assms(1) by (simp add: dir_namei_def)
  moreover have "user_name ?u ?base ?l = last_part bs"
    using user_name_drop[of ?u p "length bs" bs ?k] assms(2) lb last_part_drop(1)[of bs] by (simp add: user_path_def)
  ultimately show ?thesis by blast
qed

text \<open>The path ``b'' seen from the directory of the witnesses above, which is the task's root and current directory.\<close>

definition demo_cwd :: fsst where
  "demo_cwd = demo_dir\<lparr>bio_sched := upd_task (current (bio_sched demo_dir)) (\<lambda>t. t\<lparr>t_root := Some 3, t_pwd := Some 3\<rparr>) (bio_sched demo_dir),
     inode_table := (inode_table demo_dir)(3 := (inode_table demo_dir 3)\<lparr>i_count := 1, i_mode := 0x4000\<rparr>)\<rparr>"

lemma demo_get_dir: "get_dir 1 zz 0x10 demo_cwd = Inr (Some 3, upd_inode 3 (\<lambda>i. i\<lparr>i_count := i_count i + 1\<rparr>) demo_cwd)" "user_path (fs_seg demo_cwd) 0x10 [0x62]"
proof -
  have f: "fs_seg demo_cwd = (\<lambda>_. 0)(0x10 := 0x62, 0x20 := 0x61)" "t_root (cur_task demo_cwd) = Some 3" "t_pwd (cur_task demo_cwd) = Some 3"
    "i_count (inode_table demo_cwd 3) = 1" "i_mode (inode_table demo_cwd 3) = 0x4000"
    by (simp_all add: demo_cwd_def demo_dir_simps upd_task_def)
  show p: "user_path (fs_seg demo_cwd) 0x10 [0x62]" by (simp add: user_path_def f user_name_def)
  show "get_dir 1 zz 0x10 demo_cwd = Inr (Some 3, upd_inode 3 (\<lambda>i. i\<lparr>i_count := i_count i + 1\<rparr>) demo_cwd)"
    using scan_name_path[OF p, of 0] f by (simp add: get_dir_def no_inode_def upd_inode_def permission_def S_IS_def)
qed

theorem dir_namei_last_part_witness:
  "\<exists>base. dir_namei 1 (\<lambda>_. Inr) 0x10 demo_cwd = Inr (Some (3, 1, base), upd_inode 3 (\<lambda>i. i\<lparr>i_count := i_count i + 1\<rparr>) demo_cwd)
    \<and> user_name (fs_seg demo_cwd) base 1 = [0x62]"
proof -
  have "fs_seg (upd_inode 3 f demo_cwd) = fs_seg demo_cwd" "last_part [0x62] = [0x62]" for f by (simp_all add: upd_inode_def last_part_def)
  then show ?thesis using dir_namei_last_part[OF demo_get_dir(1), of "[0x62]"] demo_get_dir(2) by simp
qed

end
