(* ===== verification/Tty_Queue.thy ===== *)
theory Tty_Queue
  imports Prelude
begin

text \<open>
  The terminal's ring buffer, \<open>struct tty_queue\<close> of include/kernel/tty.h, with its macros, and its
  refinement to a bounded FIFO list. The interface the other components rely on is the locale
  \<open>bounded_fifo\<close>.
\<close>

section \<open>Data and macros (include/kernel/tty.h)\<close>

abbreviation (input) TTY_BUF_SIZE :: nat where "TTY_BUF_SIZE \<equiv> 1024"

record tty_queue =
  q_data :: u32
  q_head :: u32
  q_tail :: u32
  q_proc_list :: u32
  q_buf :: "nat \<Rightarrow> u8"

definition INC :: "u32 \<Rightarrow> u32" where
  "INC a = (a + 1) AND (of_nat TTY_BUF_SIZE - 1)"

definition DEC :: "u32 \<Rightarrow> u32" where
  "DEC a = (a - 1) AND (of_nat TTY_BUF_SIZE - 1)"

definition EMPTY :: "tty_queue \<Rightarrow> bool" where
  "EMPTY q \<longleftrightarrow> q_head q = q_tail q"

definition LEFT :: "tty_queue \<Rightarrow> u32" where
  "LEFT q = (q_tail q - q_head q - 1) AND (of_nat TTY_BUF_SIZE - 1)"

definition LAST :: "tty_queue \<Rightarrow> u8" where
  "LAST q = q_buf q (unat ((of_nat TTY_BUF_SIZE - 1) AND (q_head q - 1)))"

definition FULL :: "tty_queue \<Rightarrow> bool" where
  "FULL q \<longleftrightarrow> LEFT q = 0"

definition CHARS :: "tty_queue \<Rightarrow> u32" where
  "CHARS q = (q_head q - q_tail q) AND (of_nat TTY_BUF_SIZE - 1)"

definition GETCH :: "tty_queue \<Rightarrow> u8 \<times> tty_queue" where
  "GETCH q = (q_buf q (unat (q_tail q)), q\<lparr>q_tail := INC (q_tail q)\<rparr>)"

definition PUTCH :: "u8 \<Rightarrow> tty_queue \<Rightarrow> tty_queue" where
  "PUTCH c q = q\<lparr>q_buf := (q_buf q)(unat (q_head q) := c), q_head := INC (q_head q)\<rparr>"

text \<open>\<open>DEC(queue.head)\<close>\<close>

definition UNPUT :: "tty_queue \<Rightarrow> tty_queue" where
  "UNPUT q = q\<lparr>q_head := DEC (q_head q)\<rparr>"

section \<open>The list a queue stands for\<close>

text \<open>Both indices stay inside the buffer.\<close>

definition q_ok :: "tty_queue \<Rightarrow> bool" where
  "q_ok q \<longleftrightarrow> unat (q_head q) < TTY_BUF_SIZE \<and> unat (q_tail q) < TTY_BUF_SIZE"

definition q_len :: "tty_queue \<Rightarrow> nat" where
  "q_len q = (unat (q_head q) + TTY_BUF_SIZE - unat (q_tail q)) mod TTY_BUF_SIZE"

definition q_list :: "tty_queue \<Rightarrow> u8 list" where
  "q_list q = map (\<lambda>i. q_buf q ((unat (q_tail q) + i) mod TTY_BUF_SIZE)) [0..<q_len q]"

lemma and_1023: "unat ((a :: u32) AND 1023) = unat a mod 1024"
proof -
  have "(1023 :: u32) = mask 10" by (simp add: mask_eq_exp_minus_1)
  then have "a AND 1023 = take_bit 10 a" by (simp add: take_bit_eq_mask)
  then show ?thesis by (simp add: unsigned_take_bit_eq take_bit_eq_mod unat_mod)
qed

lemma unat_INC: "unat a < 1024 \<Longrightarrow> unat (INC a) = (unat a + 1) mod 1024"
  by (simp add: INC_def and_1023 unat_word_ariths)

lemma wrap_diff:
  assumes "a < 1024" and "b \<le> (1024 :: nat)"
  shows "(a + 1024 - b) mod 1024 = (if b \<le> a then a - b else a + 1024 - b)"
proof (cases "b \<le> a")
  case True
  then have "a + 1024 - b = (a - b) + 1024" by simp
  then have "(a + 1024 - b) mod 1024 = (a - b) mod 1024" by (simp only: mod_add_self2)
  with True assms show ?thesis by simp
qed (use assms in simp)

lemma diff_and_1023:
  fixes x a :: u32
  assumes "unat a \<le> 1024"
  shows "unat ((x - a) AND 1023) = (unat x + 1024 - unat a) mod 1024"
proof (cases "a \<le> x")
  case True
  then have "unat x + 1024 - unat a = (unat x - unat a) + 1024" by (simp add: word_le_nat_alt)
  then have "(unat x + 1024 - unat a) mod 1024 = (unat x - unat a) mod 1024" by (simp only: mod_add_self2)
  with True show ?thesis by (simp add: and_1023 unat_minus_eq)
next
  case False
  have e: "unat x + 2 ^ 32 - unat a = (unat x + 1024 - unat a) + 4194303 * 1024" using assms by simp
  have "unat ((x - a) AND 1023) = (unat x + 2 ^ 32 - unat a) mod 1024"
    using False by (simp only: and_1023 unat_minus_eq if_False)
  also have "\<dots> = (unat x + 1024 - unat a) mod 1024" by (simp only: e mod_mult_self1)
  finally show ?thesis .
qed

lemma unat_DEC: "unat (DEC a) = (unat a + 1023) mod 1024"
  using diff_and_1023[of 1 a] by (simp add: DEC_def add.commute)

lemma unat_CHARS: "q_ok q \<Longrightarrow> unat (CHARS q) = q_len q"
  using diff_and_1023[of "q_tail q" "q_head q"] by (simp add: CHARS_def q_len_def q_ok_def)

lemma q_len_cases:
  "q_ok q \<Longrightarrow> q_len q = (if unat (q_tail q) \<le> unat (q_head q) then unat (q_head q) - unat (q_tail q)
     else unat (q_head q) + 1024 - unat (q_tail q))"
  unfolding q_len_def by (rule wrap_diff) (simp_all add: q_ok_def)

lemma q_len_less: "q_ok q \<Longrightarrow> q_len q < 1024"
  by (simp add: q_len_def)

lemma unat_LEFT:
  assumes "q_ok q"
  shows "unat (LEFT q) = 1023 - q_len q"
proof -
  let ?h = "unat (q_head q)" and ?t = "unat (q_tail q)"
  have h: "unat (q_head q + 1) = ?h + 1" using assms by (simp add: q_ok_def unat_word_ariths)
  have "LEFT q = (q_tail q - (q_head q + 1)) AND 1023" by (simp add: LEFT_def algebra_simps)
  then have "unat (LEFT q) = (?t + 1024 - (?h + 1)) mod 1024"
    using diff_and_1023[of "q_head q + 1" "q_tail q"] h assms by (simp add: q_ok_def)
  also have "\<dots> = (if ?h + 1 \<le> ?t then ?t - (?h + 1) else ?t + 1024 - (?h + 1))"
    using assms by (intro wrap_diff) (simp_all add: q_ok_def)
  also have "\<dots> = 1023 - q_len q" using assms by (simp add: q_len_cases q_ok_def)
  finally show ?thesis .
qed

lemma EMPTY_iff: "q_ok q \<Longrightarrow> EMPTY q \<longleftrightarrow> q_list q = []"
  by (auto simp: EMPTY_def q_list_def q_len_cases q_ok_def word_unat_eq_iff)

lemma length_q_list [simp]: "length (q_list q) = q_len q"
  by (simp add: q_list_def)

lemma FULL_iff: "q_ok q \<Longrightarrow> FULL q \<longleftrightarrow> length (q_list q) = 1023"
  using unat_LEFT[of q] q_len_less[of q] by (auto simp: FULL_def unat_eq_0[symmetric])

lemma q_ok_ops [simp]:
  "q_ok q \<Longrightarrow> q_ok (PUTCH c q)" "q_ok q \<Longrightarrow> q_ok (snd (GETCH q))" "q_ok q \<Longrightarrow> q_ok (UNPUT q)"
  by (simp_all add: q_ok_def PUTCH_def GETCH_def UNPUT_def unat_INC unat_DEC)

lemma q_len_PUTCH:
  assumes "q_ok q"
  shows "q_len (PUTCH c q) = (if q_len q = 1023 then 0 else q_len q + 1)"
proof -
  let ?h = "unat (q_head q)" and ?t = "unat (q_tail q)" and ?n = "unat (q_head (PUTCH c q))"
  have h: "?h < 1024" "?t < 1024" using assms by (simp_all add: q_ok_def)
  then have n: "?n = (if ?h = 1023 then 0 else ?h + 1)" by (auto simp: PUTCH_def unat_INC)
  have "q_tail (PUTCH c q) = q_tail q" by (simp add: PUTCH_def)
  then have "q_len (PUTCH c q) = (if ?t \<le> ?n then ?n - ?t else ?n + 1024 - ?t)"
    using q_len_cases[of "PUTCH c q"] assms by simp
  with h n show ?thesis using q_len_cases[OF assms] by (auto split: if_splits)
qed

lemma wrap_add_inj:
  assumes "i < 1024" and "j < 1024" and "(t + i) mod 1024 = (t + j) mod (1024 :: nat)"
  shows "i = j"
proof -
  have "i mod 1024 = j mod 1024"
    using assms(3) by (simp add: nat_mod_eq_iff)
  with assms(1,2) show ?thesis by simp
qed

lemma tail_plus_len:
  assumes "q_ok q"
  shows "(unat (q_tail q) + q_len q) mod 1024 = unat (q_head q)"
  using assms q_len_cases[OF assms] by (simp add: q_ok_def)

lemma q_list_PUTCH:
  assumes "q_ok q" and "q_len q < 1023"
  shows "q_list (PUTCH c q) = q_list q @ [c]"
proof -
  let ?t = "unat (q_tail q)"
  have len: "q_len (PUTCH c q) = Suc (q_len q)" using q_len_PUTCH[OF assms(1)] assms(2) by simp
  have last: "q_buf (PUTCH c q) ((?t + q_len q) mod 1024) = c"
    using tail_plus_len[OF assms(1)] by (simp add: PUTCH_def)
  have "q_buf (PUTCH c q) ((?t + i) mod 1024) = q_buf q ((?t + i) mod 1024)" if "i < q_len q" for i
  proof -
    have "(?t + i) mod 1024 \<noteq> unat (q_head q)"
      using wrap_add_inj[of i "q_len q" ?t] tail_plus_len[OF assms(1)] that assms(2) by auto
    then show ?thesis by (simp add: PUTCH_def)
  qed
  moreover have "q_tail (PUTCH c q) = q_tail q" by (simp add: PUTCH_def)
  ultimately show ?thesis using len last by (simp add: q_list_def)
qed

lemma q_list_PUTCH_full:
  assumes "q_ok q" and "q_len q = 1023"
  shows "q_list (PUTCH c q) = []"
  using q_len_PUTCH[OF assms(1)] assms(2) by (simp add: q_list_def)

lemma q_list_GETCH:
  assumes "q_ok q" and "q_list q = x # xs"
  shows "fst (GETCH q) = x \<and> q_list (snd (GETCH q)) = xs"
proof -
  let ?t = "unat (q_tail q)"
  have t: "?t < 1024" using assms(1) by (simp add: q_ok_def)
  have n: "0 < q_len q" using assms(2) by (metis length_greater_0_conv length_q_list list.distinct(1))
  have up: "[0..<q_len q] = 0 # map Suc [0..<q_len q - 1]"
    using n by (simp add: map_Suc_upt upt_conv_Cons)
  have t': "unat (q_tail (snd (GETCH q))) = (?t + 1) mod 1024" using t by (simp add: GETCH_def unat_INC)
  have "q_len (snd (GETCH q)) = q_len q - 1"
  proof -
    have "(?t + 1) mod 1024 = (if ?t = 1023 then 0 else ?t + 1)" using t by auto
    then show ?thesis
      using t t' n q_len_cases[OF assms(1)] q_len_cases[of "snd (GETCH q)"] assms(1)
      by (auto simp: GETCH_def q_ok_def split: if_splits)
  qed
  then have "q_list (snd (GETCH q)) = map (\<lambda>i. q_buf q ((?t + Suc i) mod 1024)) [0..<q_len q - 1]"
    unfolding q_list_def t' by (auto simp: GETCH_def mod_simps)
  moreover have "q_list q = q_buf q ?t # map (\<lambda>i. q_buf q ((?t + Suc i) mod 1024)) [0..<q_len q - 1]"
    unfolding q_list_def up using t by (simp add: o_def)
  ultimately show ?thesis using assms(2) by (simp add: GETCH_def)
qed

lemma q_list_UNPUT:
  assumes "q_ok q" and "q_list q \<noteq> []"
  shows "q_list (UNPUT q) = butlast (q_list q)" and "LAST q = last (q_list q)"
proof -
  let ?t = "unat (q_tail q)" and ?h = "unat (q_head q)"
  have t: "?t < 1024" "?h < 1024" using assms(1) by (simp_all add: q_ok_def)
  have n: "0 < q_len q" using assms(2) by (metis length_greater_0_conv length_q_list)
  have h': "unat (DEC (q_head q)) = (if ?h = 0 then 1023 else ?h - 1)"
    using t wrap_diff[of ?h 1] by (auto simp: unat_DEC add.commute split: if_splits)
  have "q_len (UNPUT q) = q_len q - 1"
    using t h' n q_len_cases[OF assms(1)] q_len_cases[of "UNPUT q"] assms(1)
    by (auto simp: UNPUT_def q_ok_def split: if_splits)
  then show "q_list (UNPUT q) = butlast (q_list q)"
    using n by (cases "q_len q") (simp_all add: q_list_def UNPUT_def)
  have i: "unat ((1023 :: u32) AND (q_head q - 1)) = (?t + (q_len q - 1)) mod 1024"
  proof (cases "?t \<le> ?h")
    case True
    then have "?t + (q_len q - 1) = ?h - 1" "0 < ?h" using n q_len_cases[OF assms(1)] by auto
    with h' t show ?thesis by (simp add: DEC_def and.commute)
  next
    case False
    then have "?t + (q_len q - 1) = ?h + 1023" using n t q_len_cases[OF assms(1)] by auto
    then show ?thesis using unat_DEC[of "q_head q"] by (simp add: DEC_def and.commute)
  qed
  have "last (q_list q) = q_buf q ((?t + (q_len q - 1)) mod 1024)"
    using n by (simp add: q_list_def last_map last_upt)
  then show "LAST q = last (q_list q)" by (simp add: LAST_def i)
qed

section \<open>The interface: a bounded first-in first-out queue\<close>

primrec get_many :: "('q \<Rightarrow> 'a \<times> 'q) \<Rightarrow> nat \<Rightarrow> 'q \<Rightarrow> 'a list \<times> 'q" where
  "get_many get 0 q = ([], q)"
| "get_many get (Suc n) q = (let (x, q1) = get q; (xs, q2) = get_many get n q1 in (x # xs, q2))"

locale bounded_fifo =
  fixes inv :: "'q \<Rightarrow> bool"
    and content :: "'q \<Rightarrow> 'a list"
    and put :: "'a \<Rightarrow> 'q \<Rightarrow> 'q"
    and get :: "'q \<Rightarrow> 'a \<times> 'q"
    and capacity :: nat
  assumes inv_put: "inv q \<Longrightarrow> inv (put c q)"
    and inv_get: "inv q \<Longrightarrow> inv (snd (get q))"
    and content_put: "inv q \<Longrightarrow> length (content q) < capacity \<Longrightarrow> content (put c q) = content q @ [c]"
    and content_get: "inv q \<Longrightarrow> content q = x # xs \<Longrightarrow> fst (get q) = x \<and> content (snd (get q)) = xs"
begin

lemma content_puts:
  assumes "inv q" and "length (content q) + length cs \<le> capacity"
  shows "inv (fold put cs q) \<and> content (fold put cs q) = content q @ cs"
  using assms
proof (induction cs arbitrary: q)
  case (Cons c cs)
  from Cons.prems have "content (put c q) = content q @ [c]" by (intro content_put) simp_all
  with Cons show ?case by (simp add: inv_put)
qed simp

lemma content_gets:
  assumes "inv q" and "content q = xs @ ys"
  shows "\<exists>q'. get_many get (length xs) q = (xs, q') \<and> inv q' \<and> content q' = ys"
  using assms
proof (induction xs arbitrary: q)
  case (Cons x xs)
  then have "fst (get q) = x" "content (snd (get q)) = xs @ ys" "inv (snd (get q))"
    using content_get[of q x "xs @ ys"] inv_get by auto
  with Cons.IH[of "snd (get q)"] show ?case by (cases "get q") auto
qed simp

lemma puts_then_gets:
  assumes "inv q" and "content q = []" and "length cs \<le> capacity"
  shows "\<exists>q'. get_many get (length cs) (fold put cs q) = (cs, q') \<and> inv q' \<and> content q' = []"
  using content_puts[of q cs] content_gets[of "fold put cs q" cs "[]"] assms by simp

end

interpretation tq: bounded_fifo q_ok q_list PUTCH GETCH 1023
  by unfold_locales (simp_all add: q_list_PUTCH q_list_GETCH)

section \<open>Properties of the ring buffer\<close>

text \<open>C30: The ring buffer refines a list of at most 1023 characters: PUTCH appends while the queue is not
  FULL, GETCH takes the oldest character, LAST and DEC of the head read and drop the youngest, and
  EMPTY, CHARS, LEFT and FULL tell its length. The indices never leave the buffer.\<close>

theorem tty_queue_refines_list:
  assumes "q_ok q"
  shows "(EMPTY q \<longleftrightarrow> q_list q = []) \<and> unat (CHARS q) = length (q_list q)
    \<and> unat (LEFT q) = 1023 - length (q_list q) \<and> (FULL q \<longleftrightarrow> length (q_list q) = 1023)
    \<and> q_ok (PUTCH c q) \<and> (\<not> FULL q \<longrightarrow> q_list (PUTCH c q) = q_list q @ [c])
    \<and> q_ok (snd (GETCH q))
    \<and> (\<not> EMPTY q \<longrightarrow> fst (GETCH q) # q_list (snd (GETCH q)) = q_list q
         \<and> LAST q = last (q_list q) \<and> q_list (UNPUT q) = butlast (q_list q) \<and> q_ok (UNPUT q))"
proof -
  have "\<not> FULL q \<Longrightarrow> q_len q < 1023" using FULL_iff[OF assms] q_len_less[OF assms] by simp
  moreover have "\<not> EMPTY q \<Longrightarrow> fst (GETCH q) # q_list (snd (GETCH q)) = q_list q"
    using EMPTY_iff[OF assms] q_list_GETCH[OF assms] by (cases "q_list q") auto
  ultimately show ?thesis
    using assms by (simp add: EMPTY_iff unat_CHARS unat_LEFT FULL_iff q_list_PUTCH q_list_UNPUT)
qed

text \<open>What is put into an empty queue comes out complete and in order, for up to 1023 characters,
  wherever in the buffer the indices stand.\<close>

theorem tty_queue_fifo:
  assumes "q_ok q" and "EMPTY q" and "length cs \<le> 1023"
  shows "\<exists>q'. get_many GETCH (length cs) (fold PUTCH cs q) = (cs, q') \<and> q_ok q' \<and> EMPTY q'"
  using tq.puts_then_gets[of q cs] assms EMPTY_iff by auto

text \<open>PUTCH into a full queue, which the macro does not guard against, makes it appear empty: all
  1023 characters and the new one are lost.\<close>

theorem putch_full_empties:
  assumes "q_ok q" and "FULL q"
  shows "EMPTY (PUTCH c q) \<and> CHARS (PUTCH c q) = 0"
proof -
  have "q_list (PUTCH c q) = []" using assms FULL_iff q_list_PUTCH_full by simp
  then have "EMPTY (PUTCH c q)" using EMPTY_iff assms(1) by simp
  then show ?thesis by (simp add: EMPTY_def CHARS_def)
qed

definition demo_q :: tty_queue where
  "demo_q = \<lparr>q_data = 0, q_head = 1022, q_tail = 1022, q_proc_list = 0, q_buf = (\<lambda>_. 0)\<rparr>"

theorem tty_queue_refines_list_witness: "q_list (PUTCH 65 demo_q) = [65] \<and> fst (GETCH (PUTCH 65 demo_q)) = 65"
proof -
  have ok: "q_ok demo_q" and e: "EMPTY demo_q" and f: "\<not> FULL demo_q" "\<not> EMPTY (PUTCH 65 demo_q)"
    by (simp_all add: q_ok_def demo_q_def EMPTY_def FULL_def LEFT_def PUTCH_def INC_def)
  from tty_queue_refines_list[OF ok, of 65] e f have "q_list (PUTCH 65 demo_q) = [65]" "q_ok (PUTCH 65 demo_q)" by auto
  with tty_queue_refines_list[of "PUTCH 65 demo_q"] f show ?thesis by auto
qed

theorem tty_queue_fifo_witness:
  "\<exists>q'. get_many GETCH (length [104, 105, 10 :: u8]) (fold PUTCH [104, 105, 10] demo_q) = ([104, 105, 10], q') \<and> EMPTY q'"
proof -
  have "q_ok demo_q" "EMPTY demo_q" by (simp_all add: q_ok_def demo_q_def EMPTY_def)
  from tty_queue_fifo[OF this, of "[104, 105, 10]"] show ?thesis by auto
qed

theorem putch_full_empties_witness: "EMPTY (PUTCH 65 (demo_q\<lparr>q_head := 1021\<rparr>))"
  using putch_full_empties[of "demo_q\<lparr>q_head := 1021\<rparr>" 65]
  by (simp add: q_ok_def demo_q_def FULL_def LEFT_def)

end
