(* ===== verification/Tty.thy ===== *)
theory Tty
  imports Tty_Queue
begin

text \<open>
  The terminal's data: \<open>struct termios\<close> with its flag bits (include/termios.h), \<open>struct tty_struct\<close> and
  the control characters (include/kernel/tty.h), and the flag tests and the table of
  drivers/char/tty/tty_io.c.
\<close>

record termios =
  c_iflag :: u32
  c_oflag :: u32
  c_cflag :: u32
  c_lflag :: u32
  c_line :: u8
  c_cc :: "nat \<Rightarrow> u8"

record tty_struct =
  tty_termios :: termios
  tty_pgrp :: u32
  tty_stopped :: u32
  read_q :: tty_queue
  write_q :: tty_queue
  secondary :: tty_queue

section \<open>Control characters (include/kernel/tty.h)\<close>

definition INTR_CHAR :: "tty_struct \<Rightarrow> u8" where "INTR_CHAR t = c_cc (tty_termios t) 0"
definition QUIT_CHAR :: "tty_struct \<Rightarrow> u8" where "QUIT_CHAR t = c_cc (tty_termios t) 1"
definition ERASE_CHAR :: "tty_struct \<Rightarrow> u8" where "ERASE_CHAR t = c_cc (tty_termios t) 2"
definition KILL_CHAR :: "tty_struct \<Rightarrow> u8" where "KILL_CHAR t = c_cc (tty_termios t) 3"
definition EOF_CHAR :: "tty_struct \<Rightarrow> u8" where "EOF_CHAR t = c_cc (tty_termios t) 4"
definition START_CHAR :: "tty_struct \<Rightarrow> u8" where "START_CHAR t = c_cc (tty_termios t) 8"
definition STOP_CHAR :: "tty_struct \<Rightarrow> u8" where "STOP_CHAR t = c_cc (tty_termios t) 9"

text \<open>\<open>c == X_CHAR(tty)\<close> compares a signed \<open>char\<close> with an \<open>unsigned char\<close>, both promoted to \<open>int\<close>.\<close>

definition is_cc :: "u8 \<Rightarrow> u8 \<Rightarrow> bool" where
  "is_cc c cc \<longleftrightarrow> sint c = uint cc"

section \<open>Mode flags (drivers/char/tty/tty_io.c, include/termios.h)\<close>

definition L_CANON :: "tty_struct \<Rightarrow> bool" where "L_CANON t \<longleftrightarrow> c_lflag (tty_termios t) AND 2 \<noteq> 0"
definition L_ISIG :: "tty_struct \<Rightarrow> bool" where "L_ISIG t \<longleftrightarrow> c_lflag (tty_termios t) AND 1 \<noteq> 0"
definition L_ECHO :: "tty_struct \<Rightarrow> bool" where "L_ECHO t \<longleftrightarrow> c_lflag (tty_termios t) AND 8 \<noteq> 0"
definition L_ECHOCTL :: "tty_struct \<Rightarrow> bool" where "L_ECHOCTL t \<longleftrightarrow> c_lflag (tty_termios t) AND 0x200 \<noteq> 0"
definition I_UCLC :: "tty_struct \<Rightarrow> bool" where "I_UCLC t \<longleftrightarrow> c_iflag (tty_termios t) AND 0x200 \<noteq> 0"
definition I_NLCR :: "tty_struct \<Rightarrow> bool" where "I_NLCR t \<longleftrightarrow> c_iflag (tty_termios t) AND 0x40 \<noteq> 0"
definition I_CRNL :: "tty_struct \<Rightarrow> bool" where "I_CRNL t \<longleftrightarrow> c_iflag (tty_termios t) AND 0x100 \<noteq> 0"
definition I_NOCR :: "tty_struct \<Rightarrow> bool" where "I_NOCR t \<longleftrightarrow> c_iflag (tty_termios t) AND 0x80 \<noteq> 0"
definition O_POST :: "tty_struct \<Rightarrow> bool" where "O_POST t \<longleftrightarrow> c_oflag (tty_termios t) AND 1 \<noteq> 0"
definition O_NLCR :: "tty_struct \<Rightarrow> bool" where "O_NLCR t \<longleftrightarrow> c_oflag (tty_termios t) AND 4 \<noteq> 0"
definition O_CRNL :: "tty_struct \<Rightarrow> bool" where "O_CRNL t \<longleftrightarrow> c_oflag (tty_termios t) AND 8 \<noteq> 0"
definition O_NLRET :: "tty_struct \<Rightarrow> bool" where "O_NLRET t \<longleftrightarrow> c_oflag (tty_termios t) AND 0x20 \<noteq> 0"
definition O_LCUC :: "tty_struct \<Rightarrow> bool" where "O_LCUC t \<longleftrightarrow> c_oflag (tty_termios t) AND 2 \<noteq> 0"

section \<open>The console's entry of tty_table (drivers/char/tty/tty_io.c)\<close>

definition INIT_C_CC :: "u8 list" where
  "INIT_C_CC = [3, 28, 127, 21, 4, 0, 1, 0, 17, 19, 26, 0, 18, 15, 23, 22, 0]"

definition empty_queue :: tty_queue where
  "empty_queue = \<lparr>q_data = 0, q_head = 0, q_tail = 0, q_proc_list = 0, q_buf = (\<lambda>_. 0)\<rparr>"

definition tty_table0 :: tty_struct where
  "tty_table0 = \<lparr>tty_termios = \<lparr>c_iflag = 0x100, c_oflag = 1 OR 4, c_cflag = 0,
       c_lflag = 1 OR 2 OR 8 OR 0x200 OR 0x800, c_line = 0,
       c_cc = (\<lambda>i. if i < length INIT_C_CC then INIT_C_CC ! i else 0)\<rparr>,
     tty_pgrp = 0, tty_stopped = 0, read_q = empty_queue, write_q = empty_queue, secondary = empty_queue\<rparr>"

definition tty_q_ok :: "tty_struct \<Rightarrow> bool" where
  "tty_q_ok t \<longleftrightarrow> q_ok (read_q t) \<and> q_ok (write_q t) \<and> q_ok (secondary t)"

end
