(* ===== verification/Console.thy ===== *)
theory Console
  imports Tty Sched
begin

text \<open>
  The VT100 console, drivers/char/tty/console.c: every operation on the video memory, the escape
  sequence automaton and \<open>con_write\<close>. The static variables of the file are the record \<open>console\<close>; the
  CRT controller is its register file \<open>crtc\<close>. \<open>con_write\<close> can call \<open>copy_to_cooked\<close> of tty_io.c, which in
  turn calls \<open>con_write\<close>: here that function is the parameter \<open>cook\<close>, and the knot is tied in
  theory Tty_IO.
\<close>

section \<open>State\<close>

abbreviation (input) VIDEO_TYPE_MDA :: u8 where "VIDEO_TYPE_MDA \<equiv> 0x10"
abbreviation (input) VIDEO_TYPE_CGA :: u8 where "VIDEO_TYPE_CGA \<equiv> 0x11"
abbreviation (input) VIDEO_TYPE_EGAM :: u8 where "VIDEO_TYPE_EGAM \<equiv> 0x20"
abbreviation (input) VIDEO_TYPE_EGAC :: u8 where "VIDEO_TYPE_EGAC \<equiv> 0x21"
abbreviation (input) NPAR :: nat where "NPAR \<equiv> 16"

record console =
  video_type :: u8
  video_num_columns :: u32
  video_size_row :: u32
  video_num_lines :: u32
  video_page :: u8
  video_mem_start :: u32
  video_mem_end :: u32
  video_port_reg :: u16
  video_port_val :: u16
  video_erase_char :: u16
  origin :: u32
  scr_end :: u32
  pos :: u32
  con_x :: u32
  con_y :: u32
  top_line :: u32
  bottom_line :: u32
  esc_state :: u32
  npar :: u32
  par :: "nat \<Rightarrow> u32"
  ques :: u32
  attr :: u8
  saved_x :: u32
  saved_y :: u32
  vmem :: mem
  crtc :: "u8 \<Rightarrow> u8"

record world =
  w_tty :: tty_struct
  w_con :: console
  w_sched :: sched

section \<open>Cursor and scrolling\<close>

definition set_cursor :: "console \<Rightarrow> console" where
  "set_cursor s = s\<lparr>crtc := (crtc s)(14 := ucast (0xff AND drop_bit 9 (pos s - video_mem_start s)),
     15 := ucast (0xff AND drop_bit 1 (pos s - video_mem_start s)))\<rparr>"

definition set_origin :: "console \<Rightarrow> console" where
  "set_origin s = s\<lparr>crtc := (crtc s)(12 := ucast (0xff AND drop_bit 9 (origin s - video_mem_start s)),
     13 := ucast (0xff AND drop_bit 1 (origin s - video_mem_start s)))\<rparr>"

definition gotoxy :: "u32 \<Rightarrow> u32 \<Rightarrow> console \<Rightarrow> console" where
  "gotoxy new_x new_y s =
     (if video_num_columns s < new_x \<or> video_num_lines s \<le> new_y then s
      else s\<lparr>con_x := new_x, con_y := new_y,
             pos := origin s + new_y * video_size_row s + push_bit 1 new_x\<rparr>)"

text \<open>\<open>rep movsl\<close>, then \<open>rep stosw\<close> of one row of blanks from where the copy stopped.\<close>

definition move_up_erase :: "u32 \<Rightarrow> u32 \<Rightarrow> u32 \<Rightarrow> console \<Rightarrow> console" where
  "move_up_erase count dst src s =
     s\<lparr>vmem := stosw (unat (video_num_columns s)) (movsl (unat count) (vmem s) dst src)
                 (dst + 4 * count) (video_erase_char s)\<rparr>"

definition scr_region_up :: "console \<Rightarrow> console" where
  "scr_region_up s =
     move_up_erase (drop_bit 1 ((bottom_line s - top_line s - 1) * video_num_columns s))
       (origin s + video_size_row s * top_line s) (origin s + video_size_row s * (top_line s + 1)) s"

definition scrup :: "console \<Rightarrow> console" where
  "scrup s =
     (if video_type s = VIDEO_TYPE_EGAC \<or> video_type s = VIDEO_TYPE_EGAM then
        if top_line s = 0 \<and> bottom_line s = video_num_lines s then
          (let s1 = s\<lparr>origin := origin s + video_size_row s, pos := pos s + video_size_row s,
                      scr_end := scr_end s + video_size_row s\<rparr>
           in set_origin
                (if video_mem_end s1 < scr_end s1 then
                   (let s2 = move_up_erase (drop_bit 1 ((video_num_lines s1 - 1) * video_num_columns s1))
                               (video_mem_start s1) (origin s1) s1;
                        d = origin s2 - video_mem_start s2
                    in s2\<lparr>scr_end := scr_end s2 - d, pos := pos s2 - d, origin := video_mem_start s2\<rparr>)
                 else s1\<lparr>vmem := stosw (unat (video_num_columns s1)) (vmem s1)
                             (scr_end s1 - video_size_row s1) (video_erase_char s1)\<rparr>))
        else scr_region_up s
      else scr_region_up s)"

text \<open>
  The two branches of \<open>scrdown\<close> are the same code. After the downward copy \<open>edi\<close> is \<open>4 * count\<close> below its
  start; two is added and a row of words is stored downwards.
\<close>

definition scrdown :: "console \<Rightarrow> console" where
  "scrdown s =
     (let count = drop_bit 1 ((bottom_line s - top_line s - 1) * video_num_columns s);
          dst = origin s + video_size_row s * bottom_line s - 4;
          src = origin s + video_size_row s * (bottom_line s - 1) - 4
      in s\<lparr>vmem := stosw_down (unat (video_num_columns s)) (movsl_down (unat count) (vmem s) dst src)
                     (dst - 4 * count + 2) (video_erase_char s)\<rparr>)"

section \<open>Characters and lines\<close>

primrec ins_cells :: "nat \<Rightarrow> u16 \<Rightarrow> u32 \<Rightarrow> mem \<Rightarrow> mem" where
  "ins_cells 0 old p m = m"
| "ins_cells (Suc n) old p m = ins_cells n (ld16 m p) (p + 2) (st16 m p old)"

definition insert_char :: "console \<Rightarrow> console" where
  "insert_char s = s\<lparr>vmem := ins_cells (unat (video_num_columns s) - unat (con_x s))
     (video_erase_char s) (pos s) (vmem s)\<rparr>"

definition insert_line :: "console \<Rightarrow> console" where
  "insert_line s =
     (let s1 = scrdown (s\<lparr>top_line := con_y s, bottom_line := video_num_lines s\<rparr>)
      in s1\<lparr>top_line := top_line s, bottom_line := bottom_line s\<rparr>)"

primrec del_cells :: "nat \<Rightarrow> u16 \<Rightarrow> u32 \<Rightarrow> mem \<Rightarrow> mem" where
  "del_cells 0 blank p m = st16 m p blank"
| "del_cells (Suc n) blank p m = del_cells n blank (p + 2) (st16 m p (ld16 m (p + 2)))"

definition delete_char :: "console \<Rightarrow> console" where
  "delete_char s =
     (if video_num_columns s \<le> con_x s then s
      else s\<lparr>vmem := del_cells (unat (video_num_columns s) - unat (con_x s) - 1)
               (video_erase_char s) (pos s) (vmem s)\<rparr>)"

definition delete_line :: "console \<Rightarrow> console" where
  "delete_line s =
     (let s1 = scrup (s\<lparr>top_line := con_y s, bottom_line := video_num_lines s\<rparr>)
      in s1\<lparr>top_line := top_line s, bottom_line := bottom_line s\<rparr>)"

definition lf :: "console \<Rightarrow> console" where
  "lf s = (if con_y s + 1 < bottom_line s
           then s\<lparr>con_y := con_y s + 1, pos := pos s + video_size_row s\<rparr> else scrup s)"

definition ri :: "console \<Rightarrow> console" where
  "ri s = (if top_line s < con_y s
           then s\<lparr>con_y := con_y s - 1, pos := pos s - video_size_row s\<rparr> else scrdown s)"

definition cr :: "console \<Rightarrow> console" where
  "cr s = s\<lparr>pos := pos s - push_bit 1 (con_x s), con_x := 0\<rparr>"

definition del :: "console \<Rightarrow> console" where
  "del s = (if con_x s \<noteq> 0
            then s\<lparr>pos := pos s - 2, con_x := con_x s - 1,
                   vmem := st16 (vmem s) (pos s - 2) (video_erase_char s)\<rparr> else s)"

section \<open>Control sequences\<close>

definition csi_count :: "u32 \<Rightarrow> u32 \<Rightarrow> nat" where
  "csi_count limit nr = unat (if limit < nr then limit else if nr = 0 then 1 else nr)"

definition csi_at :: "u32 \<Rightarrow> console \<Rightarrow> console" where
  "csi_at nr s = (insert_char ^^ csi_count (video_num_columns s) nr) s"

definition csi_L :: "u32 \<Rightarrow> console \<Rightarrow> console" where
  "csi_L nr s = (insert_line ^^ csi_count (video_num_lines s) nr) s"

definition csi_P :: "u32 \<Rightarrow> console \<Rightarrow> console" where
  "csi_P nr s = (delete_char ^^ csi_count (video_num_columns s) nr) s"

definition csi_M :: "u32 \<Rightarrow> console \<Rightarrow> console" where
  "csi_M nr s = (delete_line ^^ csi_count (video_num_lines s) nr) s"

definition erase :: "u32 \<Rightarrow> u32 \<Rightarrow> console \<Rightarrow> console" where
  "erase count start s = s\<lparr>vmem := stosw (unat count) (vmem s) start (video_erase_char s)\<rparr>"

definition csi_J :: "u32 \<Rightarrow> console \<Rightarrow> console" where
  "csi_J p s =
     (if p = 0 then erase (drop_bit 1 (scr_end s - pos s)) (pos s) s
      else if p = 1 then erase (drop_bit 1 (pos s - origin s)) (origin s) s
      else if p = 2 then erase (video_num_columns s * video_num_lines s) (origin s) s
      else s)"

definition csi_K :: "u32 \<Rightarrow> console \<Rightarrow> console" where
  "csi_K p s =
     (if p = 0 then
        (if video_num_columns s \<le> con_x s then s else erase (video_num_columns s - con_x s) (pos s) s)
      else if p = 1 then
        erase (if con_x s < video_num_columns s then con_x s else video_num_columns s)
          (pos s - push_bit 1 (con_x s)) s
      else if p = 2 then erase (video_num_columns s) (pos s - push_bit 1 (con_x s)) s
      else s)"

definition sgr :: "u32 \<Rightarrow> u8 \<Rightarrow> u8" where
  "sgr p a = (if p = 0 then 0x07 else if p = 1 then 0x0f else if p = 4 then 0x0f
              else if p = 7 then 0x70 else if p = 27 then 0x07 else a)"

definition csi_m :: "console \<Rightarrow> console" where
  "csi_m s = s\<lparr>attr := fold (\<lambda>i. sgr (par s i)) [0..<Suc (unat (npar s))] (attr s)\<rparr>"

definition save_cur :: "console \<Rightarrow> console" where
  "save_cur s = s\<lparr>saved_x := con_x s, saved_y := con_y s\<rparr>"

definition restore_cur :: "console \<Rightarrow> console" where
  "restore_cur s = gotoxy (saved_x s) (saved_y s) s"

section \<open>The escape sequence automaton and con_write\<close>

text \<open>State 0: printable characters, control characters. A cursor past the last column wraps to the next line first.\<close>

definition wrap_line :: "console \<Rightarrow> console" where
  "wrap_line s = lf (s\<lparr>con_x := con_x s - video_num_columns s, pos := pos s - video_size_row s\<rparr>)"

definition put_glyph :: "u8 \<Rightarrow> console \<Rightarrow> console" where
  "put_glyph c s =
     (let s1 = (if video_num_columns s \<le> con_x s then wrap_line s else s)
      in s1\<lparr>vmem := st16 (vmem s1) (pos s1) (ucast c OR push_bit 8 (ucast (attr s1))),
            pos := pos s1 + 2, con_x := con_x s1 + 1\<rparr>)"

definition tab :: "console \<Rightarrow> console" where
  "tab s =
     (let c = 8 - (con_x s AND 7);
          s1 = s\<lparr>con_x := con_x s + c, pos := pos s + push_bit 1 c\<rparr>
      in if video_num_columns s1 < con_x s1 then wrap_line s1 else s1)"

definition con_plain :: "u8 \<Rightarrow> u8 \<Rightarrow> console \<Rightarrow> console" where
  "con_plain erase_char c s =
     (if 31 <s c \<and> c <s 127 then put_glyph c s
      else if c = 27 then s\<lparr>esc_state := 1\<rparr>
      else if c = 10 \<or> c = 11 \<or> c = 12 then lf s
      else if c = 13 then cr s
      else if is_cc c erase_char then del s
      else if c = 8 then (if con_x s \<noteq> 0 then s\<lparr>con_x := con_x s - 1, pos := pos s - 2\<rparr> else s)
      else if c = 9 then tab s
      else s)"

text \<open>State 4: the final character of a control sequence.\<close>

definition par_dec :: "nat \<Rightarrow> console \<Rightarrow> console" where
  "par_dec i s = (if par s i \<noteq> 0 then s\<lparr>par := (par s)(i := par s i - 1)\<rparr> else s)"

definition par_inc :: "nat \<Rightarrow> console \<Rightarrow> console" where
  "par_inc i s = (if par s i = 0 then s\<lparr>par := (par s)(i := par s i + 1)\<rparr> else s)"

definition csi_r :: "console \<Rightarrow> console" where
  "csi_r s =
     (let s1 = par_dec 0 s;
          s2 = (if par s1 1 = 0 then s1\<lparr>par := (par s1)(1 := video_num_lines s1)\<rparr> else s1)
      in if par s2 0 < par s2 1 \<and> par s2 1 \<le> video_num_lines s2
         then s2\<lparr>top_line := par s2 0, bottom_line := par s2 1\<rparr> else s2)"

definition con_final :: "u8 \<Rightarrow> console \<Rightarrow> console" where
  "con_final c s0 =
     (let s = s0\<lparr>esc_state := 0\<rparr> in
      if c = 0x47 \<or> c = 0x60 then (let s1 = par_dec 0 s in gotoxy (par s1 0) (con_y s1) s1)
      else if c = 0x41 then (let s1 = par_inc 0 s in gotoxy (con_x s1) (con_y s1 - par s1 0) s1)
      else if c = 0x42 \<or> c = 0x65 then (let s1 = par_inc 0 s in gotoxy (con_x s1) (con_y s1 + par s1 0) s1)
      else if c = 0x43 \<or> c = 0x61 then (let s1 = par_inc 0 s in gotoxy (con_x s1 + par s1 0) (con_y s1) s1)
      else if c = 0x44 then (let s1 = par_inc 0 s in gotoxy (con_x s1 - par s1 0) (con_y s1) s1)
      else if c = 0x45 then (let s1 = par_inc 0 s in gotoxy 0 (con_y s1 + par s1 0) s1)
      else if c = 0x46 then (let s1 = par_inc 0 s in gotoxy 0 (con_y s1 - par s1 0) s1)
      else if c = 0x64 then (let s1 = par_dec 0 s in gotoxy (con_x s1) (par s1 0) s1)
      else if c = 0x48 \<or> c = 0x66 then (let s1 = par_dec 1 (par_dec 0 s) in gotoxy (par s1 1) (par s1 0) s1)
      else if c = 0x4a then csi_J (par s 0) s
      else if c = 0x4b then csi_K (par s 0) s
      else if c = 0x4c then csi_L (par s 0) s
      else if c = 0x4d then csi_M (par s 0) s
      else if c = 0x50 then csi_P (par s 0) s
      else if c = 0x40 then csi_at (par s 0) s
      else if c = 0x6d then csi_m s
      else if c = 0x72 then csi_r s
      else if c = 0x73 then save_cur s
      else if c = 0x75 then restore_cur s
      else s)"

text \<open>State 3: parameters; anything else falls through to state 4.\<close>

definition con_params :: "u8 \<Rightarrow> console \<Rightarrow> console" where
  "con_params c s =
     (if c = 0x3b \<and> npar s < of_nat (NPAR - 1) then s\<lparr>npar := npar s + 1\<rparr>
      else if 0x30 <=s c \<and> c <=s 0x39 then
        s\<lparr>par := (par s)(unat (npar s) := 10 * par s (unat (npar s)) + ucast c - 0x30)\<rparr>
      else con_final c (s\<lparr>esc_state := 4\<rparr>))"

text \<open>State 2: the parameters are cleared; unless the character is \<open>?\<close>, falls through to state 3.\<close>

definition con_csi :: "u8 \<Rightarrow> console \<Rightarrow> console" where
  "con_csi c s =
     (let s1 = s\<lparr>par := (\<lambda>i. if i < NPAR then 0 else par s i), npar := 0, esc_state := 3,
                 ques := (if c = 0x3f then 1 else 0)\<rparr>
      in if ques s1 \<noteq> 0 then s1 else con_params c s1)"

text \<open>\<open>respond\<close>: the answer to ESC Z goes into the read queue as if it had been typed.\<close>

definition RESPONSE :: "u8 list" where
  "RESPONSE = [27, 0x5b, 0x3f, 0x31, 0x3b, 0x32, 0x63]"

definition respond :: "(world \<Rightarrow> world kres) \<Rightarrow> world \<Rightarrow> world kres" where
  "respond cook w =
     cook (w\<lparr>w_tty := (w_tty w)\<lparr>read_q := fold PUTCH RESPONSE (read_q (w_tty w))\<rparr>\<rparr>)"

text \<open>
  State 1, the character after ESC. The last two tests are on the cursor column \<open>x\<close>, as in the
  source, and not on the character.
\<close>

definition con_esc :: "(world \<Rightarrow> world kres) \<Rightarrow> u8 \<Rightarrow> world \<Rightarrow> world kres" where
  "con_esc cook c w =
     (let s = (w_con w)\<lparr>esc_state := 0\<rparr>; upd = (\<lambda>s. Inr (w\<lparr>w_con := s\<rparr>)) in
      if c = 0x5b then upd (s\<lparr>esc_state := 2\<rparr>)
      else if c = 0x45 then upd (gotoxy 0 (con_y s + 1) s)
      else if c = 0x4d then upd (ri s)
      else if c = 0x44 then upd (lf s)
      else if c = 0x5a then respond cook (w\<lparr>w_con := s\<rparr>)
      else if con_x s = 0x37 then upd (save_cur s)
      else if con_x s = 0x38 then upd (restore_cur s)
      else upd s)"

definition con_char :: "(world \<Rightarrow> world kres) \<Rightarrow> u8 \<Rightarrow> world \<Rightarrow> world kres" where
  "con_char cook c w =
     (let s = w_con w; st = esc_state s in
      if st = 0 then Inr (w\<lparr>w_con := con_plain (ERASE_CHAR (w_tty w)) c s\<rparr>)
      else if st = 1 then con_esc cook c w
      else if st = 2 then Inr (w\<lparr>w_con := con_csi c s\<rparr>)
      else if st = 3 then Inr (w\<lparr>w_con := con_params c s\<rparr>)
      else if st = 4 then Inr (w\<lparr>w_con := con_final c s\<rparr>)
      else Inr w)"

text \<open>\<open>while (nr--) { GETCH(tty->write_q,c); ... }\<close>\<close>

primrec con_loop :: "(world \<Rightarrow> world kres) \<Rightarrow> nat \<Rightarrow> world \<Rightarrow> world kres" where
  "con_loop cook 0 w = Inr w"
| "con_loop cook (Suc nr) w =
     (case GETCH (write_q (w_tty w)) of (c, q) \<Rightarrow>
        kbind (con_char cook c (w\<lparr>w_tty := (w_tty w)\<lparr>write_q := q\<rparr>\<rparr>)) (con_loop cook nr))"

definition con_write :: "(world \<Rightarrow> world kres) \<Rightarrow> world \<Rightarrow> world kres" where
  "con_write cook w =
     kbind (con_loop cook (unat (CHARS (write_q (w_tty w)))) w)
       (\<lambda>w. Inr (w\<lparr>w_con := set_cursor (w_con w)\<rparr>))"

section \<open>Initialisation\<close>

text \<open>
  The values the boot code leaves at 0x90000. The trap gate of the keyboard and the programming of the
  keyboard controller are outside the state.
\<close>

record boot_video =
  ORIG_X :: u8
  ORIG_Y :: u8
  ORIG_VIDEO_PAGE :: u16
  ORIG_VIDEO_MODE_COLS :: u16
  ORIG_VIDEO_EGA_BX :: u16

primrec put_desc :: "u8 list \<Rightarrow> u32 \<Rightarrow> mem \<Rightarrow> mem" where
  "put_desc [] p m = m"
| "put_desc (c # str) p m = put_desc str (p + 2) (m(p := c))"

definition con_init :: "boot_video \<Rightarrow> console \<Rightarrow> console" where
  "con_init b s =
     (let cols = drop_bit 8 (ucast (ORIG_VIDEO_MODE_COLS b) AND 0xff00) :: u32;
          mono = (ORIG_VIDEO_MODE_COLS b AND 0xff = 7);
          ega = (ORIG_VIDEO_EGA_BX b AND 0xff \<noteq> 0x10);
          start = (if mono then 0xb0000 else 0xb8000) :: u32;
          s1 = s\<lparr>video_num_columns := cols, video_size_row := cols * 2, video_num_lines := 25,
                 video_page := ucast (ORIG_VIDEO_PAGE b), video_erase_char := 0x0720,
                 video_mem_start := start,
                 video_port_reg := (if mono then 0x3b4 else 0x3d4),
                 video_port_val := (if mono then 0x3b5 else 0x3d5),
                 video_type := (if mono then (if ega then VIDEO_TYPE_EGAM else VIDEO_TYPE_MDA)
                                else (if ega then VIDEO_TYPE_EGAC else VIDEO_TYPE_CGA)),
                 video_mem_end := (if mono then (if ega then 0xb8000 else 0xb2000)
                                   else (if ega then 0xbc000 else 0xba000))\<rparr>;
          desc = (if mono then (if ega then [0x45, 0x47, 0x41, 0x6d] else [0x2a, 0x4d, 0x44, 0x41])
                  else (if ega then [0x45, 0x47, 0x41, 0x63] else [0x2a, 0x43, 0x47, 0x41]));
          s2 = s1\<lparr>vmem := put_desc desc (video_mem_start s1 + video_size_row s1 - 8) (vmem s1)\<rparr>;
          s3 = s2\<lparr>origin := video_mem_start s2,
                  scr_end := video_mem_start s2 + video_num_lines s2 * video_size_row s2,
                  top_line := 0, bottom_line := video_num_lines s2\<rparr>
      in gotoxy (ucast (ORIG_X b)) (ucast (ORIG_Y b)) s3)"

section \<open>Memory frames\<close>

text \<open>Nothing outside the addresses from \<open>lo\<close> up to, not including, \<open>hi\<close> has changed.\<close>

definition frame :: "nat \<Rightarrow> nat \<Rightarrow> mem \<Rightarrow> mem \<Rightarrow> bool" where
  "frame lo hi m m' \<longleftrightarrow> (\<forall>a. unat a < lo \<or> hi \<le> unat a \<longrightarrow> m' a = m a)"

lemma frame_refl [simp, intro]: "frame lo hi m m"
  by (simp add: frame_def)

lemma frame_trans: "frame lo hi m m' \<Longrightarrow> frame lo hi m' m'' \<Longrightarrow> frame lo hi m m''"
  by (simp add: frame_def)

lemma unat_plus: "unat a + unat b < 4294967296 \<Longrightarrow> unat (a + b :: u32) = unat a + unat b"
  by (simp add: unat_word_ariths)

lemma unat_plus_num:
  "unat a + 1 < 4294967296 \<Longrightarrow> unat (a + 1 :: u32) = unat a + 1"
  "unat a + 2 < 4294967296 \<Longrightarrow> unat (a + 2 :: u32) = unat a + 2"
  "unat a + 4 < 4294967296 \<Longrightarrow> unat (a + 4 :: u32) = unat a + 4"
  by (simp_all add: unat_word_ariths)

lemma unat_times: "unat a * unat b < 4294967296 \<Longrightarrow> unat (a * b :: u32) = unat a * unat b"
  by (simp add: unat_word_ariths)

lemma unat_minus: "unat b \<le> unat a \<Longrightarrow> unat (a - b :: u32) = unat a - unat b"
  by (simp add: unat_minus_eq word_le_nat_alt)

lemma unat_minus_num:
  "1 \<le> unat a \<Longrightarrow> unat (a - 1 :: u32) = unat a - 1"
  "2 \<le> unat a \<Longrightarrow> unat (a - 2 :: u32) = unat a - 2"
  "4 \<le> unat a \<Longrightarrow> unat (a - 4 :: u32) = unat a - 4"
  by (simp_all add: unat_minus)

lemma unat_push_bit_1: "unat a < 2147483648 \<Longrightarrow> unat (push_bit 1 a :: u32) = 2 * unat a"
  by (simp add: push_bit_eq_mult unat_word_ariths)

lemma unat_drop_bit_1: "unat (drop_bit 1 a :: u32) = unat a div 2"
  by (simp add: drop_bit_eq_div unat_div)

lemma frame_st16:
  assumes "lo \<le> unat a" and "unat a + 2 \<le> hi" and "hi < 4294967296"
  shows "frame lo hi m (st16 m a v)"
  using assms unat_plus_num(1)[of a] by (auto simp: frame_def st16_def)

lemma frame_st32:
  assumes "lo \<le> unat a" and "unat a + 4 \<le> hi" and "hi < 4294967296"
  shows "frame lo hi m (st32 m a v)"
proof -
  have "m' = st32 m a v \<Longrightarrow> m' x = m x" if "unat x < lo \<or> hi \<le> unat x" for x m'
  proof -
    have "\<not> unat (x - a) < 4"
      using that assms by (auto simp: unat_minus_eq word_le_nat_alt)
    then show "m' = st32 m a v \<Longrightarrow> m' x = m x" by (simp add: st32_apply)
  qed
  then show ?thesis by (simp add: frame_def)
qed

lemma frame_stosw:
  assumes "lo \<le> unat a" and "unat a + 2 * n \<le> hi" and "hi < 4294967296"
  shows "frame lo hi m (stosw n m a v)"
  using assms
proof (induction n arbitrary: m a)
  case (Suc n)
  then have "unat (a + 2) = unat a + 2" by (intro unat_plus_num) simp
  with Suc.prems have "frame lo hi (st16 m a v) (stosw n (st16 m a v) (a + 2) v)"
    by (intro Suc.IH) simp_all
  moreover have "frame lo hi m (st16 m a v)" using Suc.prems by (intro frame_st16) simp_all
  ultimately show ?case by (auto intro: frame_trans)
qed simp

lemma frame_movsl:
  assumes "lo \<le> unat a" and "unat a + 4 * n \<le> hi" and "hi < 4294967296"
  shows "frame lo hi m (movsl n m a b)"
  using assms
proof (induction n arbitrary: m a b)
  case (Suc n)
  then have "unat (a + 4) = unat a + 4" by (intro unat_plus_num) simp
  with Suc.prems have "frame lo hi (st32 m a (ld32 m b)) (movsl n (st32 m a (ld32 m b)) (a + 4) (b + 4))"
    by (intro Suc.IH) simp_all
  moreover have "frame lo hi m (st32 m a (ld32 m b))" using Suc.prems by (intro frame_st32) simp_all
  ultimately show ?case by (auto intro: frame_trans)
qed simp

lemma frame_stosw_down:
  assumes "lo + 2 * n \<le> unat a + 2" and "unat a + 2 \<le> hi" and "hi < 4294967296"
  shows "frame lo hi m (stosw_down n m a v)"
  using assms
proof (induction n arbitrary: m a)
  case (Suc n)
  have "frame lo hi m (st16 m a v)" using Suc.prems by (intro frame_st16) simp_all
  moreover have "frame lo hi (st16 m a v) (stosw_down n (st16 m a v) (a - 2) v)"
  proof (cases n)
    case (Suc k)
    with Suc.prems have "unat (a - 2) = unat a - 2" by (intro unat_minus_num) simp
    with Suc.prems Suc show ?thesis by (intro Suc.IH) simp_all
  qed simp
  ultimately show ?case by (auto intro: frame_trans)
qed simp

lemma frame_movsl_down:
  assumes "lo + 4 * n \<le> unat a + 4" and "unat a + 4 \<le> hi" and "hi < 4294967296"
  shows "frame lo hi m (movsl_down n m a b)"
  using assms
proof (induction n arbitrary: m a b)
  case (Suc n)
  have "frame lo hi m (st32 m a (ld32 m b))" using Suc.prems by (intro frame_st32) simp_all
  moreover have "frame lo hi (st32 m a (ld32 m b)) (movsl_down n (st32 m a (ld32 m b)) (a - 4) (b - 4))"
  proof (cases n)
    case (Suc k)
    with Suc.prems have "unat (a - 4) = unat a - 4" by (intro unat_minus_num) simp
    with Suc.prems Suc show ?thesis by (intro Suc.IH) simp_all
  qed simp
  ultimately show ?case by (auto intro: frame_trans)
qed simp

lemma frame_ins_cells:
  assumes "lo \<le> unat p" and "unat p + 2 * n \<le> hi" and "hi < 4294967296"
  shows "frame lo hi m (ins_cells n v p m)"
  using assms
proof (induction n arbitrary: m p v)
  case (Suc n)
  then have "unat (p + 2) = unat p + 2" by (intro unat_plus_num) simp
  with Suc.prems have "frame lo hi (st16 m p v) (ins_cells n (ld16 m p) (p + 2) (st16 m p v))"
    by (intro Suc.IH) simp_all
  moreover have "frame lo hi m (st16 m p v)" using Suc.prems by (intro frame_st16) simp_all
  ultimately show ?case by (auto intro: frame_trans)
qed simp

lemma frame_del_cells:
  assumes "lo \<le> unat p" and "unat p + 2 * n + 2 \<le> hi" and "hi < 4294967296"
  shows "frame lo hi m (del_cells n v p m)"
  using assms
proof (induction n arbitrary: m p)
  case 0
  then show ?case by (auto intro: frame_st16)
next
  case (Suc n)
  then have "unat (p + 2) = unat p + 2" by (intro unat_plus_num) simp
  with Suc.prems have "frame lo hi (st16 m p (ld16 m (p + 2))) (del_cells n v (p + 2) (st16 m p (ld16 m (p + 2))))"
    by (intro Suc.IH) simp_all
  moreover have "frame lo hi m (st16 m p (ld16 m (p + 2)))" using Suc.prems by (intro frame_st16) simp_all
  ultimately show ?case by (auto intro: frame_trans)
qed

section \<open>The console's invariant\<close>

text \<open>
  The visible screen lies inside the video memory, the scroll region inside the screen, the cursor
  inside the screen (one column past the last is allowed) and \<open>pos\<close> is its address.
\<close>

definition con_ok :: "console \<Rightarrow> bool" where
  "con_ok s \<longleftrightarrow> 8 \<le> unat (video_num_columns s) \<and> unat (video_size_row s) = 2 * unat (video_num_columns s)
     \<and> unat (video_mem_start s) \<le> unat (origin s)
     \<and> unat (scr_end s) = unat (origin s) + unat (video_num_lines s) * unat (video_size_row s)
     \<and> unat (origin s) + unat (video_num_lines s) * unat (video_size_row s) \<le> unat (video_mem_end s)
     \<and> unat (video_mem_end s) \<le> 0x100000
     \<and> unat (con_x s) \<le> unat (video_num_columns s) \<and> unat (con_y s) < unat (video_num_lines s)
     \<and> unat (top_line s) < unat (bottom_line s) \<and> unat (bottom_line s) \<le> unat (video_num_lines s)
     \<and> unat (pos s) = unat (origin s) + unat (con_y s) * unat (video_size_row s) + 2 * unat (con_x s)
     \<and> unat (npar s) < NPAR"

text \<open>What an operation of the console may do: it keeps the invariant and the geometry, and writes only
  to the video memory.\<close>

definition con_safe :: "console \<Rightarrow> console \<Rightarrow> bool" where
  "con_safe s s' \<longleftrightarrow> con_ok s' \<and> video_mem_start s' = video_mem_start s \<and> video_mem_end s' = video_mem_end s
     \<and> video_num_columns s' = video_num_columns s \<and> video_num_lines s' = video_num_lines s
     \<and> video_type s' = video_type s
     \<and> frame (unat (video_mem_start s)) (unat (video_mem_end s)) (vmem s) (vmem s')"

lemma con_safe_refl: "con_ok s \<Longrightarrow> con_safe s s"
  by (simp add: con_safe_def)

lemma con_safe_trans: "con_safe s s' \<Longrightarrow> con_safe s' s'' \<Longrightarrow> con_safe s s''"
  by (auto simp: con_safe_def intro: frame_trans)

lemma con_safe_ok: "con_safe s s' \<Longrightarrow> con_ok s'"
  by (simp add: con_safe_def)

lemma con_safe_funpow:
  assumes "\<And>s. con_ok s \<Longrightarrow> con_safe s (f s)" and "con_ok s"
  shows "con_safe s ((f ^^ n) s)"
proof (induction n)
  case (Suc n)
  then show ?case using assms(1)[OF con_safe_ok[OF Suc]] con_safe_trans by auto
qed (simp add: con_safe_refl assms(2))

lemma rows_le: "y < n \<Longrightarrow> y * r + r \<le> n * (r :: nat)"
  by (metis Suc_leI mult_Suc mult_le_mono1 add.commute)

lemma rows_split:
  assumes "t < b"
  shows "t * r + (b - t - 1) * r + r = b * (r :: nat)"
proof -
  obtain k where "b = Suc (t + k)" using less_imp_Suc_add[OF assms] by blast
  then show ?thesis by (simp add: algebra_simps)
qed

text \<open>The numbers behind an invariant state.\<close>

lemma con_okE:
  assumes "con_ok s"
  obtains C L S E O' x y t b where
    "unat (video_num_columns s) = C" "unat (video_size_row s) = 2 * C" "unat (video_num_lines s) = L"
    "unat (video_mem_start s) = S" "unat (video_mem_end s) = E" "unat (origin s) = O'"
    "unat (scr_end s) = O' + L * (2 * C)" "unat (con_x s) = x" "unat (con_y s) = y"
    "unat (top_line s) = t" "unat (bottom_line s) = b" "unat (pos s) = O' + y * (2 * C) + 2 * x"
    "8 \<le> C" "S \<le> O'" "O' + L * (2 * C) \<le> E" "E \<le> 0x100000" "x \<le> C" "y < L" "t < b" "b \<le> L"
    "y * (2 * C) + 2 * C \<le> L * (2 * C)" "t * (2 * C) + 2 * C \<le> b * (2 * C)" "b * (2 * C) \<le> L * (2 * C)"
proof -
  let ?C = "unat (video_num_columns s)" and ?L = "unat (video_num_lines s)"
  have row: "unat (video_size_row s) = 2 * ?C" using assms by (simp add: con_ok_def)
  have y: "unat (con_y s) < ?L" and t: "unat (top_line s) < unat (bottom_line s)" and b: "unat (bottom_line s) \<le> ?L"
    using assms by (auto simp: con_ok_def)
  show ?thesis
    by (rule that[OF refl row refl refl refl refl _ refl refl refl refl _ _ _ _ _ _ y t b
          rows_le[OF y] rows_le[OF t] mult_le_mono1[OF b]])
      (use assms row in \<open>simp_all only: con_ok_def\<close>)
qed

lemma con_ok_fields [simp]:
  "con_ok (s\<lparr>crtc := a\<rparr>) = con_ok s" "con_ok (s\<lparr>vmem := m\<rparr>) = con_ok s" "con_ok (s\<lparr>attr := b\<rparr>) = con_ok s"
  "con_ok (s\<lparr>esc_state := v\<rparr>) = con_ok s" "con_ok (s\<lparr>ques := v\<rparr>) = con_ok s" "con_ok (s\<lparr>par := p\<rparr>) = con_ok s"
  "con_ok (s\<lparr>saved_x := v\<rparr>) = con_ok s" "con_ok (s\<lparr>saved_y := v\<rparr>) = con_ok s"
  by (simp_all add: con_ok_def)

lemma set_cursor_safe: "con_ok s \<Longrightarrow> con_safe s (set_cursor s)"
  by (simp add: con_safe_def set_cursor_def)

lemma gotoxy_safe:
  assumes "con_ok s"
  shows "con_safe s (gotoxy nx ny s)"
proof (cases "video_num_columns s < nx \<or> video_num_lines s \<le> ny")
  case True
  then show ?thesis using assms by (auto simp: gotoxy_def con_safe_refl)
next
  case False
  then have n: "unat nx \<le> unat (video_num_columns s)" "unat ny < unat (video_num_lines s)"
    by (auto simp: word_less_nat_alt word_le_nat_alt)
  obtain C L S E O' where c: "unat (video_num_columns s) = C" "unat (video_size_row s) = 2 * C"
    "unat (video_num_lines s) = L" "unat (origin s) = O'" "O' + L * (2 * C) \<le> E" "E \<le> 0x100000" "8 \<le> C"
    by (rule con_okE[OF assms]) blast
  have r: "unat ny * (2 * C) + 2 * C \<le> L * (2 * C)" using n c by (intro rows_le) simp
  have p1: "unat (ny * video_size_row s) = unat ny * (2 * C)" 
  proof (subst unat_times)
    show "unat ny * unat (video_size_row s) < 4294967296" unfolding c using c r by linarith
  qed (simp only: c)
  have p2: "unat (push_bit 1 nx) = 2 * unat nx"
  proof (rule unat_push_bit_1)
    show "unat nx < 2147483648" using c n r by linarith
  qed
  have p3: "unat (origin s + ny * video_size_row s) = O' + unat ny * (2 * C)"
  proof (subst unat_plus)
    show "unat (origin s) + unat (ny * video_size_row s) < 4294967296" unfolding p1 c using c r by linarith
  qed (simp only: p1 c)
  have "unat (origin s + ny * video_size_row s + push_bit 1 nx) = O' + unat ny * (2 * C) + 2 * unat nx"
  proof (subst unat_plus)
    show "unat (origin s + ny * video_size_row s) + unat (push_bit 1 nx) < 4294967296"
      unfolding p2 p3 using c r n by linarith
  qed (simp only: p2 p3)
  with False n c assms show ?thesis
    by (simp add: gotoxy_def con_safe_def con_ok_def)
qed

lemma region_cells:
  assumes "con_ok s"
  shows "unat ((bottom_line s - top_line s - 1) * video_num_columns s)
    = (unat (bottom_line s) - unat (top_line s) - 1) * unat (video_num_columns s)"
proof -
  obtain C L E O' t b where c: "unat (video_num_columns s) = C"
    "unat (top_line s) = t" "unat (bottom_line s) = b" "O' + L * (2 * C) \<le> E" "E \<le> 0x100000" "t < b"
    "t * (2 * C) + 2 * C \<le> b * (2 * C)" "b * (2 * C) \<le> L * (2 * C)"
    by (rule con_okE[OF assms]) blast
  have "unat (bottom_line s - top_line s - 1) = b - t - 1"
    using c by (simp add: unat_minus unat_minus_num)
  moreover have "(b - t - 1) * C \<le> b * (2 * C)" by (intro mult_le_mono) simp_all
  then have "(b - t - 1) * C < 4294967296" using c by linarith
  ultimately show ?thesis by (simp add: unat_times c)
qed

lemma region_count:
  assumes "con_ok s"
  shows "4 * unat (drop_bit 1 ((bottom_line s - top_line s - 1) * video_num_columns s))
    \<le> (unat (bottom_line s) - unat (top_line s) - 1) * (2 * unat (video_num_columns s))"
  unfolding unat_drop_bit_1 region_cells[OF assms] mult.left_commute[of _ 2] by linarith

text \<open>The start of a row.\<close>

lemma row_addr:
  assumes "con_ok s" and "unat r \<le> unat (video_num_lines s)"
  shows "unat (origin s + video_size_row s * r) = unat (origin s) + unat r * (2 * unat (video_num_columns s))"
proof -
  obtain C L E O' where c: "unat (video_num_columns s) = C" "unat (video_size_row s) = 2 * C"
    "unat (video_num_lines s) = L" "unat (origin s) = O'" "O' + L * (2 * C) \<le> E" "E \<le> 0x100000"
    by (rule con_okE[OF assms(1)]) blast
  have r: "unat r * (2 * C) \<le> L * (2 * C)" using assms(2) c by (intro mult_le_mono) simp_all
  have m: "unat (video_size_row s * r) = unat r * (2 * C)"
  proof (subst unat_times)
    show "unat (video_size_row s) * unat r < 4294967296"
      unfolding c mult.commute[of "2 * C"] using c r by linarith
  qed (simp only: c mult.commute)
  show ?thesis
  proof (subst unat_plus)
    show "unat (origin s) + unat (video_size_row s * r) < 4294967296" unfolding m c using c r by linarith
  qed (simp only: m c)
qed

lemma unat_4_times_u32: "4 * unat a < 4294967296 \<Longrightarrow> unat (4 * a :: u32) = 4 * unat a"
  by (simp add: unat_word_ariths)

lemma move_up_frame:
  assumes "unat d + 4 * unat n + 2 * unat (video_num_columns s) \<le> E" and "S \<le> unat d" and "E < 4294967296"
  shows "frame S E (vmem s) (vmem (move_up_erase n d src s))"
proof -
  have "unat (4 * n) = 4 * unat n" using assms by (intro unat_4_times_u32) linarith
  then have e4: "unat (d + 4 * n) = unat d + 4 * unat n" using assms by (subst unat_plus) linarith+
  have "frame S E (vmem s) (movsl (unat n) (vmem s) d src)" by (rule frame_movsl) (use assms in linarith)+
  moreover have "frame S E (movsl (unat n) (vmem s) d src) (vmem (move_up_erase n d src s))"
    by (simp add: move_up_erase_def) (rule frame_stosw, (use e4 assms in linarith)+)
  ultimately show ?thesis by (rule frame_trans)
qed

lemma con_safe_vmem:
  "con_ok s \<Longrightarrow> frame (unat (video_mem_start s)) (unat (video_mem_end s)) (vmem s) m \<Longrightarrow> con_safe s (s\<lparr>vmem := m\<rparr>)"
  by (simp add: con_safe_def)

lemma move_up_erase_safe:
  assumes "con_ok s" and "unat d + 4 * unat n + 2 * unat (video_num_columns s) \<le> unat (video_mem_end s)"
    and "unat (video_mem_start s) \<le> unat d"
  shows "con_safe s (move_up_erase n d src s)"
proof -
  have "unat (video_mem_end s) < 4294967296" by (simp add: unat_u32_lt)
  from con_safe_vmem[OF assms(1) move_up_frame[OF assms(2,3) this, of src]] show ?thesis
    by (simp add: move_up_erase_def)
qed

lemma scr_region_up_safe:
  assumes "con_ok s"
  shows "con_safe s (scr_region_up s)"
proof -
  obtain C L S E O' t b where c: "unat (video_num_columns s) = C" "unat (video_num_lines s) = L"
    "unat (video_mem_start s) = S" "unat (video_mem_end s) = E" "unat (origin s) = O'"
    "unat (top_line s) = t" "unat (bottom_line s) = b" "S \<le> O'" "O' + L * (2 * C) \<le> E"
    "t < b" "b \<le> L" "b * (2 * C) \<le> L * (2 * C)"
    by (rule con_okE[OF assms]) blast
  have d: "unat (origin s + video_size_row s * top_line s) = O' + t * (2 * C)"
    using row_addr[OF assms, of "top_line s"] c by simp
  have e: "t * (2 * C) + (b - t - 1) * (2 * C) + 2 * C = b * (2 * C)"
    using c(10) by (rule rows_split)
  show ?thesis unfolding scr_region_up_def
    by (rule move_up_erase_safe[OF assms])
      (use d region_count[OF assms, unfolded c] e c in linarith)+
qed

lemma scrdown_safe:
  assumes "con_ok s"
  shows "con_safe s (scrdown s)"
proof -
  obtain C L S E O' t b where c: "unat (video_num_columns s) = C" "unat (video_num_lines s) = L"
    "unat (video_mem_start s) = S" "unat (video_mem_end s) = E" "unat (origin s) = O'"
    "unat (top_line s) = t" "unat (bottom_line s) = b" "S \<le> O'" "O' + L * (2 * C) \<le> E" "E \<le> 0x100000"
    "t < b" "b \<le> L" "b * (2 * C) \<le> L * (2 * C)" "8 \<le> C"
    by (rule con_okE[OF assms]) blast
  define n where "n = drop_bit 1 ((bottom_line s - top_line s - 1) * video_num_columns s)"
  define d where "d = origin s + video_size_row s * bottom_line s - 4"
  have n: "4 * unat n \<le> (b - t - 1) * (2 * C)" using region_count[OF assms] c by (simp only: n_def)
  have e: "t * (2 * C) + (b - t - 1) * (2 * C) + 2 * C = b * (2 * C)"
    using c(11) by (rule rows_split)
  have "unat (origin s + video_size_row s * bottom_line s) = O' + b * (2 * C)"
    using row_addr[OF assms, of "bottom_line s"] c by simp
  then have d: "unat d = O' + b * (2 * C) - 4" unfolding d_def using e c by (subst unat_minus_num) linarith+
  have n4: "unat (4 * n) = 4 * unat n" using n e c by (intro unat_4_times_u32) linarith
  have d1: "unat (d - 4 * n) = O' + b * (2 * C) - 4 - 4 * unat n"
    using d n4 n e c by (subst unat_minus) linarith+
  have d2: "unat (d - 4 * n + 2) = O' + b * (2 * C) - 4 - 4 * unat n + 2"
    using d1 n e c by (subst unat_plus_num) linarith+
  have "frame S E (vmem s) (stosw_down C (movsl_down (unat n) (vmem s) d (origin s + video_size_row s * (bottom_line s - 1) - 4))
      (d - 4 * n + 2) (video_erase_char s))"
  proof (rule frame_trans)
    show "frame S E (vmem s) (movsl_down (unat n) (vmem s) d (origin s + video_size_row s * (bottom_line s - 1) - 4))"
      by (rule frame_movsl_down) (use d n e c in linarith)+
  qed (rule frame_stosw_down, (use d2 n e c in linarith)+)
  then show ?thesis unfolding scrdown_def Let_def n_def[symmetric] d_def[symmetric]
    by (intro con_safe_vmem[OF assms]) (simp only: c)
qed

lemma screen_cells:
  assumes "con_ok s"
  shows "unat ((video_num_lines s - 1) * video_num_columns s) = (unat (video_num_lines s) - 1) * unat (video_num_columns s)"
    and "0 < unat (video_num_lines s)"
proof -
  obtain C L E O' where c: "unat (video_num_columns s) = C" "unat (video_num_lines s) = L" "O' + L * (2 * C) \<le> E"
    "E \<le> 0x100000" "8 \<le> C" and L: "0 < L"
    by (rule con_okE[OF assms]) (metis gr_zeroI not_less_zero)
  then have "unat (video_num_lines s - 1) = L - 1" by (simp add: unat_minus_num)
  moreover have "(L - 1) * C \<le> L * (2 * C)" by (intro mult_le_mono) simp_all
  then have "(L - 1) * C < 4294967296" using c by linarith
  ultimately show "unat ((video_num_lines s - 1) * video_num_columns s) = (unat (video_num_lines s) - 1) * unat (video_num_columns s)"
    by (simp add: unat_times c)
  show "0 < unat (video_num_lines s)" using L c by simp
qed

lemma screen_count:
  assumes "con_ok s"
  shows "4 * unat (drop_bit 1 ((video_num_lines s - 1) * video_num_columns s)) + 2 * unat (video_num_columns s)
    \<le> unat (video_num_lines s) * (2 * unat (video_num_columns s))"
proof -
  define C L where "C = unat (video_num_columns s)" and "L = unat (video_num_lines s)"
  have "2 * ((L - 1) * C) + 2 * C = L * (2 * C)" using screen_cells(2)[OF assms] by (cases L) (simp_all add: L_def)
  then show ?thesis unfolding unat_drop_bit_1 screen_cells(1)[OF assms] C_def[symmetric] L_def[symmetric] by linarith
qed

text \<open>The fast scroll of the EGA and VGA displays moves the origin; at the end of the video memory the
  screen is copied back to its start.\<close>

lemma scroll_origin_safe:
  assumes "con_ok s" and "top_line s = 0" and "bottom_line s = video_num_lines s"
    and "video_type s = VIDEO_TYPE_EGAC \<or> video_type s = VIDEO_TYPE_EGAM"
  shows "con_safe s (scrup s)"
proof -
  obtain C L S E O' x y where c: "unat (video_num_columns s) = C" "unat (video_size_row s) = 2 * C"
    "unat (video_num_lines s) = L" "unat (video_mem_start s) = S" "unat (video_mem_end s) = E" "unat (origin s) = O'"
    "unat (scr_end s) = O' + L * (2 * C)" "unat (con_x s) = x" "unat (con_y s) = y"
    "unat (pos s) = O' + y * (2 * C) + 2 * x" "8 \<le> C" "S \<le> O'" "O' + L * (2 * C) \<le> E" "E \<le> 0x100000"
    "x \<le> C" "y < L" "y * (2 * C) + 2 * C \<le> L * (2 * C)"
    by (rule con_okE[OF assms(1)]) blast
  define s1 where "s1 = s\<lparr>origin := origin s + video_size_row s, pos := pos s + video_size_row s,
                      scr_end := scr_end s + video_size_row s\<rparr>"
  have o: "unat (origin s1) = O' + 2 * C" unfolding s1_def using c by (simp, subst unat_plus) linarith+
  have e: "unat (scr_end s1) = O' + L * (2 * C) + 2 * C" unfolding s1_def using c by (simp, subst unat_plus) linarith+
  have p: "unat (pos s1) = O' + y * (2 * C) + 2 * x + 2 * C" unfolding s1_def using c by (simp, subst unat_plus) linarith+
  have scr: "scrup s = set_origin (if video_mem_end s1 < scr_end s1
      then (let s2 = move_up_erase (drop_bit 1 ((video_num_lines s1 - 1) * video_num_columns s1))
                               (video_mem_start s1) (origin s1) s1;
                d = origin s2 - video_mem_start s2
            in s2\<lparr>scr_end := scr_end s2 - d, pos := pos s2 - d, origin := video_mem_start s2\<rparr>)
      else s1\<lparr>vmem := stosw (unat (video_num_columns s1)) (vmem s1)
                             (scr_end s1 - video_size_row s1) (video_erase_char s1)\<rparr>)"
    using assms(2-4) by (auto simp: scrup_def s1_def Let_def)
  have s1: "video_num_columns s1 = video_num_columns s" "video_num_lines s1 = video_num_lines s"
    "video_mem_start s1 = video_mem_start s" "video_mem_end s1 = video_mem_end s" "vmem s1 = vmem s"
    "video_size_row s1 = video_size_row s" "con_x s1 = con_x s" "con_y s1 = con_y s" "top_line s1 = top_line s"
    "bottom_line s1 = bottom_line s" "npar s1 = npar s" "video_type s1 = video_type s"
    by (simp_all add: s1_def)
  have np: "unat (npar s) < NPAR" "unat (top_line s) < unat (bottom_line s)" using assms(1) by (auto simp: con_ok_def)
  show ?thesis
  proof (cases "video_mem_end s1 < scr_end s1")
    case True
    let ?n = "drop_bit 1 ((video_num_lines s1 - 1) * video_num_columns s1)"
    have d: "unat (origin s1 - video_mem_start s) = O' + 2 * C - S"
      using o c by (subst unat_minus) linarith+
    have e': "unat (scr_end s1 - (origin s1 - video_mem_start s)) = S + L * (2 * C)"
      using d e c by (subst unat_minus) linarith+
    have p': "unat (pos s1 - (origin s1 - video_mem_start s)) = S + y * (2 * C) + 2 * x"
      using d p c by (subst unat_minus) linarith+
    have "S + L * (2 * C) \<le> E" using c by linarith
    moreover have "frame S E (vmem s) (vmem (move_up_erase ?n (video_mem_start s) (origin s1) s1))"
      unfolding s1(5)[symmetric]
      by (rule move_up_frame) (use screen_count[OF assms(1), unfolded c] c in \<open>(unfold s1)?, linarith\<close>)+
    ultimately show ?thesis
      using True np assms(3) c e' p' unfolding scr
      by (simp add: set_origin_def con_safe_def Let_def s1 con_ok_def move_up_erase_def)
  next
    case False
    then have f: "O' + L * (2 * C) + 2 * C \<le> E" using e c by (simp add: word_less_nat_alt s1)
    have "unat (scr_end s1 - video_size_row s1) = O' + L * (2 * C)"
      using e c s1 by (subst unat_minus) simp_all
    then have "frame S E (vmem s) (stosw C (vmem s1) (scr_end s1 - video_size_row s1) v)" for v
      unfolding s1(5) by (intro frame_stosw) (use c f in linarith)+
    then show ?thesis
      using False np assms(3) c e o p f unfolding scr
      by (simp add: set_origin_def con_safe_def s1 con_ok_def)
  qed
qed

lemma scrup_safe: "con_ok s \<Longrightarrow> con_safe s (scrup s)"
  using scroll_origin_safe[of s] scr_region_up_safe[of s] by (auto simp: scrup_def)

lemma con_ok_region:
  "con_ok s \<Longrightarrow> unat t < unat b \<Longrightarrow> unat b \<le> unat (video_num_lines s)
    \<Longrightarrow> con_ok (s\<lparr>top_line := t, bottom_line := b\<rparr>)"
  by (auto simp: con_ok_def)

text \<open>A scroll with a temporary region, as \<open>insert_line\<close> and \<open>delete_line\<close> do it.\<close>

lemma with_region_safe:
  assumes f: "\<And>s. con_ok s \<Longrightarrow> con_safe s (f s)" and ok: "con_ok s"
  shows "con_safe s ((f (s\<lparr>top_line := con_y s, bottom_line := video_num_lines s\<rparr>))
    \<lparr>top_line := top_line s, bottom_line := bottom_line s\<rparr>)"
proof -
  let ?s = "s\<lparr>top_line := con_y s, bottom_line := video_num_lines s\<rparr>"
  have y: "unat (con_y s) < unat (video_num_lines s)" "unat (top_line s) < unat (bottom_line s)"
    "unat (bottom_line s) \<le> unat (video_num_lines s)" using ok by (auto simp: con_ok_def)
  have "con_safe ?s (f ?s)" by (rule f[OF con_ok_region[OF ok y(1)]]) simp
  then show ?thesis using y con_ok_region[of "f ?s" "top_line s" "bottom_line s"] by (simp add: con_safe_def)
qed

lemma line_ops_safe:
  "con_ok s \<Longrightarrow> con_safe s (insert_line s)" "con_ok s \<Longrightarrow> con_safe s (delete_line s)"
  using with_region_safe[of scrdown s] with_region_safe[of scrup s] scrdown_safe scrup_safe
  by (simp_all add: insert_line_def delete_line_def Let_def)

lemma char_ops_safe:
  assumes "con_ok s"
  shows "con_safe s (insert_char s)" "con_safe s (delete_char s)" "con_safe s (del s)"
proof -
  obtain C L S E O' x y where c: "unat (video_num_columns s) = C" "unat (video_num_lines s) = L"
    "unat (video_mem_start s) = S" "unat (video_mem_end s) = E" "unat (con_x s) = x" "unat (con_y s) = y"
    "unat (origin s) = O'"
    "unat (pos s) = O' + y * (2 * C) + 2 * x" "8 \<le> C" "S \<le> O'" "O' + L * (2 * C) \<le> E" "E \<le> 0x100000"
    "x \<le> C" "y < L" "y * (2 * C) + 2 * C \<le> L * (2 * C)" "unat (video_size_row s) = 2 * C"
    by (rule con_okE[OF assms]) blast
  show "con_safe s (insert_char s)" unfolding insert_char_def
    by (rule con_safe_vmem[OF assms frame_ins_cells]) (unfold c, (use c in linarith)+)
  have "con_safe s (s\<lparr>vmem := del_cells (C - x - 1) (video_erase_char s) (pos s) (vmem s)\<rparr>)" if "x < C"
    by (rule con_safe_vmem[OF assms frame_del_cells]) (unfold c, (use c that in linarith)+)
  then show "con_safe s (delete_char s)"
    using con_safe_refl[OF assms] by (auto simp: delete_char_def word_le_nat_alt c)
  show "con_safe s (del s)"
  proof (cases "con_x s = 0")
    case True
    with assms show ?thesis by (simp add: del_def con_safe_refl)
  next
    case False
    then have x: "0 < x" using c by (simp add: unat_gt_0[symmetric])
    have p: "unat (pos s - 2) = O' + y * (2 * C) + 2 * (x - 1)" using c x by (subst unat_minus_num) linarith+
    have "frame S E (vmem s) (st16 (vmem s) (pos s - 2) (video_erase_char s))"
      by (rule frame_st16) (use p c x in linarith)+
    moreover have "unat (con_x s - 1) = x - 1" using c x by (simp add: unat_minus_num)
    ultimately show ?thesis using False assms p c x by (simp add: del_def con_safe_def con_ok_def)
  qed
qed

lemma cursor_ops_safe:
  assumes "con_ok s"
  shows "con_safe s (lf s)" "con_safe s (ri s)" "con_safe s (cr s)"
    "con_x s \<noteq> 0 \<Longrightarrow> con_safe s (s\<lparr>con_x := con_x s - 1, pos := pos s - 2\<rparr>)"
proof -
  obtain C L S E O' x y t b where c: "unat (video_num_columns s) = C" "unat (video_num_lines s) = L"
    "unat (video_mem_start s) = S" "unat (video_mem_end s) = E" "unat (con_x s) = x" "unat (con_y s) = y"
    "unat (origin s) = O'" "unat (top_line s) = t" "unat (bottom_line s) = b"
    "unat (pos s) = O' + y * (2 * C) + 2 * x" "8 \<le> C" "S \<le> O'" "O' + L * (2 * C) \<le> E" "E \<le> 0x100000"
    "x \<le> C" "y < L" "y * (2 * C) + 2 * C \<le> L * (2 * C)" "unat (video_size_row s) = 2 * C" "t < b" "b \<le> L"
    by (rule con_okE[OF assms]) blast
  have Ls: "L \<le> L * (2 * C)" using c by simp
  then have L: "L \<le> 0x100000" using c by linarith
  have y1: "unat (con_y s + 1) = y + 1" using c L by (subst unat_plus_num) linarith+
  show "con_safe s (lf s)"
  proof (cases "con_y s + 1 < bottom_line s")
    case True
    then have y: "y + 1 < L" using y1 c by (simp add: word_less_nat_alt)
    have e: "(y + 1) * (2 * C) = y * (2 * C) + 2 * C" by simp
    have "unat (pos s + video_size_row s) = O' + (y + 1) * (2 * C) + 2 * x"
      using c e by (subst unat_plus) linarith+
    with True y y1 c assms show ?thesis by (simp add: lf_def con_safe_def con_ok_def)
  qed (simp add: lf_def scrup_safe assms)
  show "con_safe s (ri s)"
  proof (cases "top_line s < con_y s")
    case True
    then have y: "0 < y" using c by (simp add: word_less_nat_alt)
    then have e: "y * (2 * C) = (y - 1) * (2 * C) + 2 * C" by (cases y) simp_all
    have "unat (pos s - video_size_row s) = O' + (y - 1) * (2 * C) + 2 * x"
      using c e by (subst unat_minus) linarith+
    moreover have "unat (con_y s - 1) = y - 1" using y c by (simp add: unat_minus_num)
    ultimately show ?thesis using True y c assms by (simp add: ri_def con_safe_def con_ok_def)
  qed (simp add: ri_def scrdown_safe assms)
  have "unat (push_bit 1 (con_x s)) = 2 * x" using c by (subst unat_push_bit_1) linarith+
  then have "unat (pos s - push_bit 1 (con_x s)) = O' + y * (2 * C)" using c by (subst unat_minus) linarith+
  then show "con_safe s (cr s)" using c assms by (simp add: cr_def con_safe_def con_ok_def)
  show "con_safe s (s\<lparr>con_x := con_x s - 1, pos := pos s - 2\<rparr>)" if "con_x s \<noteq> 0"
  proof -
    have x: "0 < x" using c that by (simp add: unat_gt_0[symmetric])
    have "unat (pos s - 2) = O' + y * (2 * C) + 2 * (x - 1)" using c x by (subst unat_minus_num) linarith+
    moreover have "unat (con_x s - 1) = x - 1" using c x by (simp add: unat_minus_num)
    ultimately show ?thesis using assms c x by (simp add: con_safe_def con_ok_def)
  qed
qed

lemma erase_safe:
  assumes "con_ok s" and "unat (origin s) \<le> unat a" and "unat a + 2 * unat n \<le> unat (scr_end s)"
  shows "con_safe s (erase n a s)"
  unfolding erase_def
proof (rule con_safe_vmem[OF assms(1) frame_stosw])
  show "unat (video_mem_start s) \<le> unat a" "unat a + 2 * unat n \<le> unat (video_mem_end s)"
    using assms by (auto simp: con_ok_def)
  show "unat (video_mem_end s) < 4294967296" using assms(1) by (auto simp: con_ok_def)
qed

lemma erase_ops_safe:
  assumes "con_ok s"
  shows "con_safe s (csi_J p s)" "con_safe s (csi_K p s)"
proof -
  obtain C L E O' x y where c: "unat (video_num_columns s) = C" "unat (video_num_lines s) = L"
    "unat (scr_end s) = O' + L * (2 * C)" "unat (con_x s) = x" "unat (con_y s) = y" "unat (origin s) = O'"
    "unat (pos s) = O' + y * (2 * C) + 2 * x" "O' + L * (2 * C) \<le> E" "E \<le> 0x100000"
    "x \<le> C" "y < L" "y * (2 * C) + 2 * C \<le> L * (2 * C)"
    by (rule con_okE[OF assms]) blast
  have d: "unat (scr_end s - pos s) = O' + L * (2 * C) - (O' + y * (2 * C) + 2 * x)"
    "unat (pos s - origin s) = y * (2 * C) + 2 * x"
    using c by (subst unat_minus; linarith)+
  have "C * L \<le> L * (2 * C)" by simp
  then have "C * L < 4294967296" using c by linarith
  then have m: "unat (video_num_columns s * video_num_lines s) = C * L" by (simp add: unat_times c)
  have m2: "2 * (C * L) = L * (2 * C)" by simp
  have "unat (push_bit 1 (con_x s)) = 2 * x" using c by (subst unat_push_bit_1) linarith+
  then have r: "unat (pos s - push_bit 1 (con_x s)) = O' + y * (2 * C)" using c by (subst unat_minus) linarith+
  have J: "con_safe s (erase (drop_bit 1 (scr_end s - pos s)) (pos s) s)"
    "con_safe s (erase (drop_bit 1 (pos s - origin s)) (origin s) s)"
    "con_safe s (erase (video_num_columns s * video_num_lines s) (origin s) s)"
    by (rule erase_safe[OF assms]; (unfold unat_drop_bit_1 d m c)?; use c m2 in linarith)+
  then show "con_safe s (csi_J p s)" using con_safe_refl[OF assms] by (simp add: csi_J_def)
  have "unat (video_num_columns s - con_x s) = C - x" using c by (subst unat_minus) linarith+
  then have "con_safe s (erase (video_num_columns s - con_x s) (pos s) s)"
    by (intro erase_safe[OF assms]) (use c in linarith)+
  moreover have "con_safe s (erase n (pos s - push_bit 1 (con_x s)) s)" if "unat n \<le> C" for n
    by (rule erase_safe[OF assms]) (use c r that in linarith)+
  ultimately show "con_safe s (csi_K p s)"
    using con_safe_refl[OF assms] c by (simp add: csi_K_def)
qed

section \<open>Safety of the automaton\<close>

text \<open>Wrapping at the right margin, from any column up to eight past it.\<close>

lemma wrap_start_ok:
  assumes ok: "con_ok (s\<lparr>con_x := x0, pos := p0\<rparr>)" and x: "con_x s = x0 + n" "pos s = p0 + push_bit 1 n"
    and n: "unat n \<le> 8" "unat (video_num_columns s) \<le> unat x0 + unat n"
  shows "con_ok (s\<lparr>con_x := con_x s - video_num_columns s, pos := pos s - video_size_row s\<rparr>)"
    and "unat (con_x s - video_num_columns s) = unat x0 + unat n - unat (video_num_columns s)"
proof -
  obtain C L S E O' y where c: "unat (video_num_columns s) = C" "unat (video_num_lines s) = L"
    "unat (video_mem_start s) = S" "unat (video_mem_end s) = E" "unat x0 \<le> C" "unat (con_y s) = y" "unat (origin s) = O'"
    "unat p0 = O' + y * (2 * C) + 2 * unat x0" "8 \<le> C" "S \<le> O'" "O' + L * (2 * C) \<le> E" "E \<le> 0x100000"
    "y < L" "y * (2 * C) + 2 * C \<le> L * (2 * C)" "unat (video_size_row s) = 2 * C"
    by (rule con_okE[OF ok]) simp
  have x1: "unat (con_x s) = unat x0 + unat n" unfolding x using c n by (subst unat_plus) linarith+
  have b: "unat (push_bit 1 n) = 2 * unat n" using n by (subst unat_push_bit_1) linarith+
  have p1: "unat (pos s) = unat p0 + 2 * unat n" unfolding x using b c n by (subst unat_plus) linarith+
  have x2: "unat (con_x s - video_num_columns s) = unat x0 + unat n - C" using x1 c n by (subst unat_minus) linarith+
  have p2: "unat (pos s - video_size_row s) = O' + y * (2 * C) + 2 * (unat x0 + unat n - C)"
    using p1 c n by (subst unat_minus) linarith+
  show "con_ok (s\<lparr>con_x := con_x s - video_num_columns s, pos := pos s - video_size_row s\<rparr>)"
    using ok x2 p2 c n by (auto simp: con_ok_def)
  show "unat (con_x s - video_num_columns s) = unat x0 + unat n - unat (video_num_columns s)" using x2 c by simp
qed

lemma wrap_line_safe:
  assumes "con_ok (s\<lparr>con_x := x0, pos := p0\<rparr>)" and "con_x s = x0 + n" "pos s = p0 + push_bit 1 n"
    and "unat n \<le> 8" "unat (video_num_columns s) \<le> unat x0 + unat n"
  shows "con_safe s (wrap_line s)"
  using cursor_ops_safe(1)[OF wrap_start_ok(1)[OF assms]] by (simp add: wrap_line_def con_safe_def)

lemma con_x_wrap: "con_x (wrap_line s) = con_x s - video_num_columns s"
  by (simp add: wrap_line_def lf_def scrup_def scr_region_up_def move_up_erase_def set_origin_def Let_def)

lemma put_glyph_safe:
  assumes "con_ok s"
  shows "con_safe s (put_glyph c s)"
proof -
  define s1 where "s1 = (if video_num_columns s \<le> con_x s then wrap_line s else s)"
  have xC: "unat (con_x s) \<le> unat (video_num_columns s)" "8 \<le> unat (video_num_columns s)"
    using assms by (auto simp: con_ok_def)
  have "s\<lparr>con_x := con_x s, pos := pos s\<rparr> = s" by simp
  then have w: "con_safe s (wrap_line s)" if "video_num_columns s \<le> con_x s"
    using wrap_line_safe[where s = s and ?x0.0 = "con_x s" and ?p0.0 = "pos s" and n = 0] assms that by (simp add: word_le_nat_alt)
  have S: "con_safe s s1" using w con_safe_refl[OF assms] by (simp add: s1_def)
  have x: "unat (con_x s1) < unat (video_num_columns s1)"
  proof (cases "video_num_columns s \<le> con_x s")
    case True
    then have "con_x s = video_num_columns s" using xC by (simp add: word_unat_eq_iff word_le_nat_alt)
    then have "con_x s1 = 0" using True by (simp add: s1_def con_x_wrap)
    then show ?thesis using con_safe_ok[OF S] by (auto simp: con_ok_def)
  qed (simp add: s1_def word_le_nat_alt)
  obtain C L M E O' y where c: "unat (video_num_columns s1) = C" "unat (video_num_lines s1) = L"
    "unat (video_mem_start s1) = M" "unat (video_mem_end s1) = E" "unat (con_y s1) = y" "unat (origin s1) = O'"
    "unat (pos s1) = O' + y * (2 * C) + 2 * unat (con_x s1)" "8 \<le> C" "M \<le> O'" "O' + L * (2 * C) \<le> E"
    "E \<le> 0x100000" "y < L" "y * (2 * C) + 2 * C \<le> L * (2 * C)" "unat (video_size_row s1) = 2 * C"
    by (rule con_okE[OF con_safe_ok[OF S]]) blast
  have p2: "unat (pos s1 + 2) = O' + y * (2 * C) + 2 * (unat (con_x s1) + 1)"
  proof -
    have "unat (pos s1 + 2) = unat (pos s1) + 2" by (rule unat_plus_num) (use c x in linarith)
    then show ?thesis by (simp add: c)
  qed
  have x2: "unat (con_x s1 + 1) = unat (con_x s1) + 1" using c x by (subst unat_plus_num) linarith+
  have "frame M E (vmem s1) (st16 (vmem s1) (pos s1) v)" for v
    by (rule frame_st16) (use c x in linarith)+
  then have "con_safe s1 (put_glyph c s)"
    using con_safe_ok[OF S] p2 x2 x c
    by (auto simp: put_glyph_def Let_def s1_def[symmetric] con_safe_def con_ok_def)
  with S show ?thesis by (rule con_safe_trans)
qed

lemma tab_safe:
  assumes "con_ok s"
  shows "con_safe s (tab s)"
proof -
  define n where "n = 8 - (con_x s AND 7)"
  have "unat (con_x s AND 7) = unat (con_x s) mod 8"
  proof -
    have "con_x s AND 7 = take_bit 3 (con_x s)" by (simp add: take_bit_eq_mask mask_eq_exp_minus_1)
    then show ?thesis by (simp add: unsigned_take_bit_eq take_bit_eq_mod unat_mod)
  qed
  then have "unat n = 8 - unat (con_x s) mod 8" unfolding n_def by (subst unat_minus) simp_all
  then have n: "unat n \<le> 8" by simp
  define s1 where "s1 = s\<lparr>con_x := con_x s + n, pos := pos s + push_bit 1 n\<rparr>"
  obtain C L E O' x y where c: "unat (video_num_columns s) = C" "unat (video_num_lines s) = L"
    "unat (video_mem_end s) = E" "unat (con_x s) = x" "unat (con_y s) = y" "unat (origin s) = O'"
    "unat (pos s) = O' + y * (2 * C) + 2 * x" "8 \<le> C" "O' + L * (2 * C) \<le> E" "E \<le> 0x100000"
    "x \<le> C" "y < L" "y * (2 * C) + 2 * C \<le> L * (2 * C)" "unat (video_size_row s) = 2 * C"
    by (rule con_okE[OF assms]) blast
  have x1: "unat (con_x s + n) = x + unat n" using c n by (subst unat_plus) linarith+
  have b: "unat (push_bit 1 n) = 2 * unat n" using n by (subst unat_push_bit_1) linarith+
  have p1: "unat (pos s + push_bit 1 n) = O' + y * (2 * C) + 2 * (x + unat n)" 
  proof -
    have "unat (pos s + push_bit 1 n) = unat (pos s) + unat (push_bit 1 n)" by (rule unat_plus) (use b c n in linarith)
    then show ?thesis unfolding b c by simp
  qed
  show ?thesis
  proof (cases "video_num_columns s1 < con_x s1")
    case True
    have "s1\<lparr>con_x := con_x s, pos := pos s\<rparr> = s" by (simp add: s1_def)
    then have "con_safe s1 (wrap_line s1)"
      using wrap_line_safe[where s = s1 and ?x0.0 = "con_x s" and ?p0.0 = "pos s" and n = n] assms True n x1 c
      by (simp add: s1_def word_less_nat_alt)
    then have "con_safe s (wrap_line s1)" by (simp add: con_safe_def s1_def)
    with True show ?thesis by (simp add: tab_def Let_def n_def[symmetric] s1_def)
  next
    case False
    then have "con_ok s1" using assms x1 p1 c by (auto simp: s1_def con_ok_def word_less_nat_alt)
    then have "con_safe s s1" by (simp add: con_safe_def s1_def)
    with False show ?thesis by (simp add: tab_def Let_def n_def[symmetric] s1_def)
  qed
qed

lemma con_safe_field:
  "con_ok s \<Longrightarrow> con_safe s (s\<lparr>esc_state := v\<rparr>)" "con_ok s \<Longrightarrow> con_safe s (s\<lparr>par := p\<rparr>)"
  "con_ok s \<Longrightarrow> con_safe s (save_cur s)" "con_ok s \<Longrightarrow> con_safe s (csi_m s)"
  by (simp_all add: con_safe_def save_cur_def csi_m_def)

lemma con_plain_safe:
  assumes "con_ok s"
  shows "con_safe s (con_plain e c s)"
  unfolding con_plain_def
  using put_glyph_safe[OF assms] cursor_ops_safe[OF assms] char_ops_safe[OF assms] tab_safe[OF assms]
    con_safe_refl[OF assms] con_safe_field(1)[OF assms] by simp

lemma par_ops_safe:
  assumes "con_ok s"
  shows "con_safe s (par_dec i s)" "con_safe s (par_inc i s)"
  using con_safe_field(2)[OF assms] con_safe_refl[OF assms] by (simp_all add: par_dec_def par_inc_def)

lemma csi_r_safe:
  assumes "con_ok s"
  shows "con_safe s (csi_r s)"
proof -
  define s1 where "s1 = par_dec 0 s"
  define s2 where "s2 = (if par s1 1 = 0 then s1\<lparr>par := (par s1)(1 := video_num_lines s1)\<rparr> else s1)"
  have "con_safe s s1" using par_ops_safe[OF assms] by (simp add: s1_def)
  moreover from con_safe_ok[OF this] have "con_safe s1 s2"
    using con_safe_field(2)[of s1] con_safe_refl[of s1] by (simp add: s2_def)
  ultimately have S: "con_safe s s2" by (rule con_safe_trans)
  have "con_safe s2 (s2\<lparr>top_line := par s2 0, bottom_line := par s2 1\<rparr>)"
    if "par s2 0 < par s2 1 \<and> par s2 1 \<le> video_num_lines s2"
    using con_ok_region[OF con_safe_ok[OF S], of "par s2 0" "par s2 1"] that
    by (simp add: con_safe_def word_less_nat_alt word_le_nat_alt)
  then show ?thesis
    using S con_safe_trans[OF S] unfolding csi_r_def Let_def s1_def[symmetric] s2_def[symmetric] by auto
qed

lemma goto_after:
  assumes "con_safe s s1"
  shows "con_safe s (gotoxy a b s1)"
  using con_safe_trans[OF assms gotoxy_safe[OF con_safe_ok[OF assms]]] .

lemma csi_ops_safe:
  assumes "con_ok s"
  shows "con_safe s (csi_at n s)" "con_safe s (csi_L n s)" "con_safe s (csi_P n s)" "con_safe s (csi_M n s)"
    "con_safe s (restore_cur s)"
  using assms con_safe_funpow[of insert_char] con_safe_funpow[of insert_line] con_safe_funpow[of delete_char]
    con_safe_funpow[of delete_line] char_ops_safe line_ops_safe gotoxy_safe
  by (simp_all add: csi_at_def csi_L_def csi_P_def csi_M_def restore_cur_def)

lemma con_safe_if:
  "(P \<Longrightarrow> con_safe s a) \<Longrightarrow> (\<not> P \<Longrightarrow> con_safe s b) \<Longrightarrow> con_safe s (if P then a else b)"
  by simp

lemma con_final_safe:
  assumes "con_ok s"
  shows "con_safe s (con_final c s)"
proof -
  let ?s = "s\<lparr>esc_state := 0\<rparr>"
  have ok: "con_ok ?s" using assms by simp
  have p: "con_safe ?s (par_dec i ?s)" "con_safe ?s (par_inc i ?s)" "con_safe ?s (par_dec j (par_dec i ?s))" for i j
    using par_ops_safe[OF ok] con_safe_trans[OF par_ops_safe(1)[OF ok] par_ops_safe(1)[OF con_safe_ok[OF par_ops_safe(1)[OF ok]]]]
    by auto
  note r = p[THEN goto_after] csi_ops_safe[OF ok] erase_ops_safe[OF ok] csi_r_safe[OF ok]
    con_safe_field[OF ok] con_safe_refl[OF ok]
  have "con_safe ?s (con_final c s)"
    unfolding con_final_def Let_def by (intro con_safe_if r)
  then show ?thesis using con_safe_trans con_safe_field(1)[OF assms] by blast
qed

lemma con_params_safe:
  assumes "con_ok s"
  shows "con_safe s (con_params c s)"
proof -
  have "con_ok (s\<lparr>npar := npar s + 1\<rparr>)" if "npar s < 15"
  proof -
    have "unat (npar s + 1) = unat (npar s) + 1" using that by (subst unat_plus_num) (simp_all add: word_less_nat_alt)
    with that assms show ?thesis by (auto simp: con_ok_def word_less_nat_alt)
  qed
  then have "npar s < 15 \<Longrightarrow> con_safe s (s\<lparr>npar := npar s + 1\<rparr>)" by (simp add: con_safe_def)
  moreover have "con_safe s (con_final c (s\<lparr>esc_state := 4\<rparr>))"
    using con_safe_trans[OF con_safe_field(1)[OF assms] con_final_safe[OF con_safe_ok[OF con_safe_field(1)[OF assms]]]] .
  ultimately show ?thesis using con_safe_field(2)[OF assms] by (simp add: con_params_def)
qed

lemma con_csi_safe:
  assumes "con_ok s"
  shows "con_safe s (con_csi c s)"
proof -
  let ?s = "s\<lparr>par := (\<lambda>i. if i < NPAR then 0 else par s i), npar := 0, esc_state := 3, ques := (if c = 0x3f then 1 else 0)\<rparr>"
  have ok: "con_ok ?s" using assms by (auto simp: con_ok_def)
  then have s: "con_safe s ?s" by (simp add: con_safe_def)
  show ?thesis
    unfolding con_csi_def Let_def
    by (intro con_safe_if s con_safe_trans[OF s con_params_safe[OF ok]])
qed

text \<open>The whole console, with its terminal. A step is safe if it writes to video memory only and keeps
  the invariants of the screen and of the three queues.\<close>

definition world_ok :: "world \<Rightarrow> bool" where
  "world_ok w \<longleftrightarrow> con_ok (w_con w) \<and> tty_q_ok (w_tty w)"

definition world_safe :: "world \<Rightarrow> world \<Rightarrow> bool" where
  "world_safe w w' \<longleftrightarrow> con_safe (w_con w) (w_con w') \<and> tty_q_ok (w_tty w')"

lemma world_safe_refl: "world_ok w \<Longrightarrow> world_safe w w"
  by (simp add: world_ok_def world_safe_def con_safe_refl)

lemma world_safe_ok: "world_safe w w' \<Longrightarrow> world_ok w'"
  by (auto simp: world_ok_def world_safe_def dest: con_safe_ok)

lemma world_safe_trans: "world_safe w w' \<Longrightarrow> world_safe w' w'' \<Longrightarrow> world_safe w w''"
  by (auto simp: world_safe_def intro: con_safe_trans)

lemma world_safe_con: "world_ok w \<Longrightarrow> con_safe (w_con w) s \<Longrightarrow> world_safe w (w\<lparr>w_con := s\<rparr>)"
  by (simp add: world_ok_def world_safe_def)

lemma world_safe_tty: "world_ok w \<Longrightarrow> tty_q_ok t \<Longrightarrow> world_safe w (w\<lparr>w_tty := t\<rparr>)"
  by (simp add: world_ok_def world_safe_def con_safe_refl)

lemma q_ok_fold_PUTCH: "q_ok q \<Longrightarrow> q_ok (fold PUTCH xs q)"
  by (induction xs arbitrary: q) simp_all

text \<open>The contract of a function that works on the world: \<open>cook\<close> and \<open>tty->write\<close> are such functions.\<close>

locale safe_action =
  fixes act :: "world \<Rightarrow> world kres"
  assumes act_safe: "world_ok w \<Longrightarrow> act w = Inr w' \<Longrightarrow> world_safe w w'"
begin

lemma respond_safe:
  assumes "world_ok w" and "respond act w = Inr w'"
  shows "world_safe w w'"
proof -
  let ?t = "(w_tty w)\<lparr>read_q := fold PUTCH RESPONSE (read_q (w_tty w))\<rparr>"
  have "world_safe w (w\<lparr>w_tty := ?t\<rparr>)"
    using assms(1) by (intro world_safe_tty) (auto simp: world_ok_def tty_q_ok_def q_ok_fold_PUTCH)
  moreover from world_safe_ok[OF this] have "world_safe (w\<lparr>w_tty := ?t\<rparr>) w'"
    using assms(2) act_safe by (simp add: respond_def)
  ultimately show ?thesis by (rule world_safe_trans)
qed

lemma con_esc_safe:
  assumes "world_ok w" and "con_esc act c w = Inr w'"
  shows "world_safe w w'"
proof -
  let ?s = "(w_con w)\<lparr>esc_state := 0\<rparr>"
  have ok: "con_ok ?s" and S: "con_safe (w_con w) ?s"
    using assms(1) con_safe_field(1)[of "w_con w" 0] by (auto simp: world_ok_def)
  have u: "world_safe w (w\<lparr>w_con := t\<rparr>)" if "con_safe ?s t" for t
    using assms(1) by (rule world_safe_con) (rule con_safe_trans[OF S that])
  have z: "world_safe w w'" if "respond act (w\<lparr>w_con := ?s\<rparr>) = Inr w'"
    using world_safe_trans[OF u[OF con_safe_refl[OF ok]]] respond_safe[OF world_safe_ok[OF u[OF con_safe_refl[OF ok]]] that]
    by blast
  note r = u[OF con_safe_field(1)[OF ok]] u[OF gotoxy_safe[OF ok]] u[OF cursor_ops_safe(1)[OF ok]]
    u[OF cursor_ops_safe(2)[OF ok]] u[OF con_safe_field(3)[OF ok]] u[OF csi_ops_safe(5)[OF ok]] u[OF con_safe_refl[OF ok]]
  show ?thesis
    using assms(2) r z unfolding con_esc_def Let_def by (auto split: if_splits)
qed

lemma con_char_safe:
  assumes "world_ok w" and "con_char act c w = Inr w'"
  shows "world_safe w w'"
proof -
  have ok: "con_ok (w_con w)" using assms(1) by (simp add: world_ok_def)
  note r = world_safe_con[OF assms(1) con_plain_safe[OF ok]] world_safe_con[OF assms(1) con_csi_safe[OF ok]]
    world_safe_con[OF assms(1) con_params_safe[OF ok]] world_safe_con[OF assms(1) con_final_safe[OF ok]]
    world_safe_refl[OF assms(1)] con_esc_safe[OF assms(1)]
  show ?thesis using assms(2) r unfolding con_char_def Let_def by (auto split: if_splits)
qed

lemma con_loop_safe:
  assumes "world_ok w" and "con_loop act n w = Inr w'"
  shows "world_safe w w'"
  using assms
proof (induction n arbitrary: w)
  case (Suc n)
  obtain c q where g: "GETCH (write_q (w_tty w)) = (c, q)" by force
  let ?w = "w\<lparr>w_tty := (w_tty w)\<lparr>write_q := q\<rparr>\<rparr>"
  have "q_ok q" using Suc.prems(1) q_ok_ops(2)[of "write_q (w_tty w)"] by (simp add: world_ok_def tty_q_ok_def g)
  then have s1: "world_safe w ?w"
    using Suc.prems(1) by (intro world_safe_tty) (auto simp: world_ok_def tty_q_ok_def)
  obtain w1 where w1: "con_char act c ?w = Inr w1" "con_loop act n w1 = Inr w'"
    using Suc.prems(2) g by (auto simp: kres_simps)
  have s2: "world_safe ?w w1" using con_char_safe[OF world_safe_ok[OF s1] w1(1)] .
  have "world_safe w1 w'" using Suc.IH[OF world_safe_ok[OF s2] w1(2)] .
  with s1 s2 show ?case by (blast intro: world_safe_trans)
qed (simp add: world_safe_refl)

lemma con_write_safe:
  assumes "world_ok w" and "con_write act w = Inr w'"
  shows "world_safe w w'"
proof -
  obtain w1 where w1: "con_loop act (unat (CHARS (write_q (w_tty w)))) w = Inr w1"
      "w' = w1\<lparr>w_con := set_cursor (w_con w1)\<rparr>"
    using assms(2) by (auto simp: con_write_def kres_simps)
  have s: "world_safe w w1" using con_loop_safe[OF assms(1) w1(1)] .
  have "world_safe w1 w'" unfolding w1(2)
    using world_safe_ok[OF s] by (intro world_safe_con set_cursor_safe) (auto simp: world_ok_def)
  with s show ?thesis by (rule world_safe_trans)
qed

end

section \<open>Properties of the console\<close>

lemma gotoxy_ok_imp:
  assumes "con_ok (s\<lparr>con_x := 0, con_y := 0, pos := origin s\<rparr>)" and "nx \<le> video_num_columns s" and "ny < video_num_lines s"
  shows "con_ok (gotoxy nx ny s)"
proof -
  let ?s = "s\<lparr>con_x := 0, con_y := 0, pos := origin s\<rparr>"
  have "con_ok (gotoxy nx ny ?s)" using gotoxy_safe[OF assms(1)] con_safe_ok by blast
  moreover have "gotoxy nx ny ?s = gotoxy nx ny s" using assms(2,3) by (simp add: gotoxy_def)
  ultimately show ?thesis by simp
qed

text \<open>\<open>con_init\<close> establishes the console's invariant for every display it knows, given a width
  of 8 to 160 columns and a cursor position on the screen.\<close>

lemma con_init_inv:
  assumes "cols = (drop_bit 8 (ucast (ORIG_VIDEO_MODE_COLS b) AND 0xff00) :: u32)"
    and "8 \<le> unat cols" and "unat cols \<le> 160" and "unat (ORIG_X b) \<le> unat cols" and "unat (ORIG_Y b) < 25"
    and "unat (npar s) < NPAR"
  shows "con_ok (con_init b s) \<and> con_x (con_init b s) = ucast (ORIG_X b) \<and> con_y (con_init b s) = ucast (ORIG_Y b)"
proof -
  let ?x = "ucast (ORIG_X b) :: u32" and ?y = "ucast (ORIG_Y b) :: u32"
  have "\<exists>s3. con_init b s = gotoxy ?x ?y s3 \<and> video_num_columns s3 = cols \<and> video_size_row s3 = cols * 2
    \<and> video_num_lines s3 = 25 \<and> origin s3 = video_mem_start s3 \<and> scr_end s3 = video_mem_start s3 + 25 * (cols * 2)
    \<and> top_line s3 = 0 \<and> bottom_line s3 = 25 \<and> npar s3 = npar s
    \<and> (video_mem_start s3, video_mem_end s3) \<in> {(0xb0000, 0xb8000), (0xb0000, 0xb2000), (0xb8000, 0xbc000), (0xb8000, 0xba000)}"
    unfolding con_init_def Let_def assms(1)[symmetric]
    by (rule exI, rule conjI, rule refl) auto
  then obtain s3 where i: "con_init b s = gotoxy ?x ?y s3" and c: "video_num_columns s3 = cols" "video_size_row s3 = cols * 2"
    "video_num_lines s3 = 25" "origin s3 = video_mem_start s3" "scr_end s3 = video_mem_start s3 + 25 * (cols * 2)"
    "top_line s3 = 0" "bottom_line s3 = 25" "npar s3 = npar s"
    and m: "(video_mem_start s3, video_mem_end s3) \<in> {(0xb0000, 0xb8000), (0xb0000, 0xb2000), (0xb8000, 0xbc000), (0xb8000, 0xba000)}"
    by blast
  have r: "unat (cols * 2) = 2 * unat cols" using assms(3) by (simp add: unat_word_ariths)
  then have r25: "unat (25 * (cols * 2)) = 25 * (2 * unat cols)" using assms(3) by (subst unat_times) simp_all
  have b: "unat (video_mem_start s3) + 25 * (2 * unat cols) \<le> unat (video_mem_end s3)" "unat (video_mem_end s3) \<le> 0x100000"
    using m assms(3) by auto
  have e: "unat (scr_end s3) = unat (video_mem_start s3) + 25 * (2 * unat cols)"
    unfolding c using r25 b by (subst unat_plus) linarith+
  have "con_ok (s3\<lparr>con_x := 0, con_y := 0, pos := origin s3\<rparr>)"
    using assms(2,6) r b e c(1-4,6-8) by (simp add: con_ok_def)
  moreover have t: "unat ?x \<le> unat (ORIG_X b)" "unat ?y \<le> unat (ORIG_Y b)" by (simp_all add: unsigned_ucast_eq)
  have "?x \<le> video_num_columns s3" "?y < video_num_lines s3"
    unfolding c word_le_nat_alt word_less_nat_alt using t assms(4,5) by simp_all
  ultimately show ?thesis unfolding i using gotoxy_ok_imp by (auto simp: gotoxy_def)
qed

text \<open>ESC 7 and ESC 8 do not save and restore the cursor: the code tests the cursor column where
  the character is meant. In every column but 55 and 56 both sequences do nothing, and in column 55
  any character that is not the start of another sequence saves the cursor.\<close>

theorem esc_7_8_ignored:
  assumes "c = 0x37 \<or> c = 0x38"
  shows "(con_x (w_con w) \<noteq> 0x37 \<and> con_x (w_con w) \<noteq> 0x38
      \<longrightarrow> con_esc cook c w = Inr (w\<lparr>w_con := (w_con w)\<lparr>esc_state := 0\<rparr>\<rparr>))
    \<and> (con_x (w_con w) = 0x37 \<longrightarrow> con_esc cook 0x41 w = Inr (w\<lparr>w_con := save_cur ((w_con w)\<lparr>esc_state := 0\<rparr>)\<rparr>))"
  using assms by (auto simp: con_esc_def Let_def)

definition zero_console :: console where
  "zero_console = \<lparr>video_type = 0, video_num_columns = 0, video_size_row = 0, video_num_lines = 0, video_page = 0,
     video_mem_start = 0, video_mem_end = 0, video_port_reg = 0, video_port_val = 0, video_erase_char = 0, origin = 0,
     scr_end = 0, pos = 0, con_x = 0, con_y = 0, top_line = 0, bottom_line = 0, esc_state = 0, npar = 0, par = (\<lambda>_. 0),
     ques = 0, attr = 7, saved_x = 0, saved_y = 0, vmem = (\<lambda>_. 0), crtc = (\<lambda>_. 0)\<rparr>"

definition vga_boot :: boot_video where
  "vga_boot = \<lparr>ORIG_X = 0, ORIG_Y = 5, ORIG_VIDEO_PAGE = 0, ORIG_VIDEO_MODE_COLS = 0x5003, ORIG_VIDEO_EGA_BX = 3\<rparr>"

definition demo_world :: world where
  "demo_world = \<lparr>w_tty = tty_table0, w_con = con_init vga_boot zero_console, w_sched = demo_sched 0 0 0 0x2000\<rparr>"

theorem esc_7_8_ignored_witness:
  "con_esc Inr 0x37 demo_world = Inr (demo_world\<lparr>w_con := (w_con demo_world)\<lparr>esc_state := 0\<rparr>\<rparr>)"
proof -
  have "con_x (w_con demo_world) = 0"
    by (simp add: demo_world_def con_init_def vga_boot_def zero_console_def Let_def gotoxy_def)
  then show ?thesis using esc_7_8_ignored[of "0x37" demo_world Inr] by simp
qed

end
