(* ===== verification/Ctype.thy ===== *)
theory Ctype
  imports Prelude
begin

text \<open>
  Character classes: the table of lib/ctype.c and the macros of include/ctype.h. A \<open>char\<close> is
  signed, so the table index \<open>c + 1\<close> of a character above 0x7f is negative, which is a \<open>Fault\<close>.
\<close>

section \<open>The table (lib/ctype.c) and the macros (include/ctype.h)\<close>

abbreviation (input) CT_U :: u8 where "CT_U \<equiv> 0x01"
abbreviation (input) CT_L :: u8 where "CT_L \<equiv> 0x02"
abbreviation (input) CT_D :: u8 where "CT_D \<equiv> 0x04"
abbreviation (input) CT_C :: u8 where "CT_C \<equiv> 0x08"
abbreviation (input) CT_P :: u8 where "CT_P \<equiv> 0x10"
abbreviation (input) CT_S :: u8 where "CT_S \<equiv> 0x20"
abbreviation (input) CT_X :: u8 where "CT_X \<equiv> 0x40"
abbreviation (input) CT_SP :: u8 where "CT_SP \<equiv> 0x80"

definition ctype_table :: "u8 list" where
  "ctype_table = [0x00] @
     [CT_C,CT_C,CT_C,CT_C,CT_C,CT_C,CT_C,CT_C] @
     [CT_C,CT_C OR CT_S,CT_C OR CT_S,CT_C OR CT_S,CT_C OR CT_S,CT_C OR CT_S,CT_C,CT_C] @
     [CT_C,CT_C,CT_C,CT_C,CT_C,CT_C,CT_C,CT_C] @
     [CT_C,CT_C,CT_C,CT_C,CT_C,CT_C,CT_C,CT_C] @
     [CT_S OR CT_SP,CT_P,CT_P,CT_P,CT_P,CT_P,CT_P,CT_P] @
     [CT_P,CT_P,CT_P,CT_P,CT_P,CT_P,CT_P,CT_P] @
     [CT_D,CT_D,CT_D,CT_D,CT_D,CT_D,CT_D,CT_D] @
     [CT_D,CT_D,CT_P,CT_P,CT_P,CT_P,CT_P,CT_P] @
     [CT_P,CT_U OR CT_X,CT_U OR CT_X,CT_U OR CT_X,CT_U OR CT_X,CT_U OR CT_X,CT_U OR CT_X,CT_U] @
     [CT_U,CT_U,CT_U,CT_U,CT_U,CT_U,CT_U,CT_U] @
     [CT_U,CT_U,CT_U,CT_U,CT_U,CT_U,CT_U,CT_U] @
     [CT_U,CT_U,CT_U,CT_P,CT_P,CT_P,CT_P,CT_P] @
     [CT_P,CT_L OR CT_X,CT_L OR CT_X,CT_L OR CT_X,CT_L OR CT_X,CT_L OR CT_X,CT_L OR CT_X,CT_L] @
     [CT_L,CT_L,CT_L,CT_L,CT_L,CT_L,CT_L,CT_L] @
     [CT_L,CT_L,CT_L,CT_L,CT_L,CT_L,CT_L,CT_L] @
     [CT_L,CT_L,CT_L,CT_P,CT_P,CT_P,CT_P,CT_C] @
     replicate 128 0"

text \<open>\<open>(_ctype+1)[c] & mask\<close> for an index \<open>c\<close> of type \<open>int\<close>.\<close>

definition ctype_test :: "u8 \<Rightarrow> int \<Rightarrow> bool kres" where
  "ctype_test cls c = (if c < -1 \<or> 255 < c then Inl Fault
     else Inr (ctype_table ! nat (c + 1) AND cls \<noteq> 0))"

definition isalnum :: "int \<Rightarrow> bool kres" where "isalnum = ctype_test (CT_U OR CT_L OR CT_D)"
definition isalpha :: "int \<Rightarrow> bool kres" where "isalpha = ctype_test (CT_U OR CT_L)"
definition iscntrl :: "int \<Rightarrow> bool kres" where "iscntrl = ctype_test CT_C"
definition isdigit :: "int \<Rightarrow> bool kres" where "isdigit = ctype_test CT_D"
definition isgraph :: "int \<Rightarrow> bool kres" where "isgraph = ctype_test (CT_P OR CT_U OR CT_L OR CT_D)"
definition islower :: "int \<Rightarrow> bool kres" where "islower = ctype_test CT_L"
definition isprint :: "int \<Rightarrow> bool kres" where "isprint = ctype_test (CT_P OR CT_U OR CT_L OR CT_D OR CT_SP)"
definition ispunct :: "int \<Rightarrow> bool kres" where "ispunct = ctype_test CT_P"
definition isspace :: "int \<Rightarrow> bool kres" where "isspace = ctype_test CT_S"
definition isupper :: "int \<Rightarrow> bool kres" where "isupper = ctype_test CT_U"
definition isxdigit :: "int \<Rightarrow> bool kres" where "isxdigit = ctype_test (CT_D OR CT_X)"

text \<open>\<open>tolower\<close> and \<open>toupper\<close> go through the \<open>char\<close> variable \<open>_ctmp\<close>, here the argument.\<close>

definition tolower :: "u8 \<Rightarrow> u8 kres" where
  "tolower c = kbind (isupper (sint c)) (\<lambda>b. Inr (if b then c - (65 - 97) else c))"

definition toupper :: "u8 \<Rightarrow> u8 kres" where
  "toupper c = kbind (islower (sint c)) (\<lambda>b. Inr (if b then c - (97 - 65) else c))"

section \<open>The classes are those of ASCII\<close>

lemma ctype_table_length: "length ctype_table = 257"
  by (simp add: ctype_table_def)

definition ascii_class :: "nat \<Rightarrow> u8" where
  "ascii_class n =
     (if n \<in> {65..90} then CT_U else 0) OR (if n \<in> {97..122} then CT_L else 0)
     OR (if n \<in> {48..57} then CT_D else 0) OR (if n < 32 \<or> n = 127 then CT_C else 0)
     OR (if n \<in> {33..47} \<union> {58..64} \<union> {91..96} \<union> {123..126} then CT_P else 0)
     OR (if n \<in> {9..13} \<or> n = 32 then CT_S else 0)
     OR (if n \<in> {65..70} \<union> {97..102} then CT_X else 0) OR (if n = 32 then CT_SP else 0)"

lemma list_all_uptD: "list_all P [0..<m] \<Longrightarrow> n < m \<Longrightarrow> P n"
  by (simp add: list_all_iff)

lemma ctype_table_ascii: "n < 128 \<Longrightarrow> ctype_table ! (n + 1) = ascii_class n"
proof -
  have "list_all (\<lambda>n. ctype_table ! (n + 1) = ascii_class n) [0..<128]" by code_simp
  from list_all_uptD[OF this] show "n < 128 \<Longrightarrow> ctype_table ! (n + 1) = ascii_class n" .
qed

lemma ctype_test_ascii: "n < 128 \<Longrightarrow> ctype_test cls (int n) = Inr (ascii_class n AND cls \<noteq> 0)"
  using ctype_table_ascii[of n] by (simp add: ctype_test_def nat_add_distrib)

lemma if_and_word: "(if P then x else 0) AND y = (if P then x AND y else (0 :: u8))"
  by simp

lemma ascii_class_bits:
  "ascii_class n AND cls = 0 \<longleftrightarrow> \<not> (n \<in> {65..90} \<and> cls AND CT_U \<noteq> 0 \<or> n \<in> {97..122} \<and> cls AND CT_L \<noteq> 0
     \<or> n \<in> {48..57} \<and> cls AND CT_D \<noteq> 0 \<or> (n < 32 \<or> n = 127) \<and> cls AND CT_C \<noteq> 0
     \<or> n \<in> {33..47} \<union> {58..64} \<union> {91..96} \<union> {123..126} \<and> cls AND CT_P \<noteq> 0
     \<or> (n \<in> {9..13} \<or> n = 32) \<and> cls AND CT_S \<noteq> 0
     \<or> n \<in> {65..70} \<union> {97..102} \<and> cls AND CT_X \<noteq> 0 \<or> n = 32 \<and> cls AND CT_SP \<noteq> 0)"
  unfolding ascii_class_def bit.conj_disj_distrib2 or_eq_0_iff if_and_word
  by (auto simp: and.commute)

text \<open>On the ASCII characters the class macros are the classes of the C standard's "C" locale.\<close>

theorem ctype_ascii:
  assumes "n < 128"
  shows "isupper (int n) = Inr (n \<in> {65..90}) \<and> islower (int n) = Inr (n \<in> {97..122})
    \<and> isdigit (int n) = Inr (n \<in> {48..57}) \<and> isalpha (int n) = Inr (n \<in> {65..90} \<union> {97..122})
    \<and> isalnum (int n) = Inr (n \<in> {48..57} \<union> {65..90} \<union> {97..122})
    \<and> isspace (int n) = Inr (n \<in> {9..13} \<union> {32}) \<and> iscntrl (int n) = Inr (n < 32 \<or> n = 127)
    \<and> isxdigit (int n) = Inr (n \<in> {48..57} \<union> {65..70} \<union> {97..102})
    \<and> isgraph (int n) = Inr (32 < n \<and> n < 127) \<and> isprint (int n) = Inr (32 \<le> n \<and> n < 127)"
  using assms
  by (auto simp: ctype_test_ascii ascii_class_bits isupper_def islower_def isdigit_def isalpha_def isalnum_def
      isspace_def iscntrl_def isxdigit_def isgraph_def isprint_def)

lemma sint_ascii: "n < 128 \<Longrightarrow> sint (of_nat n :: u8) = int n"
  by (simp add: signed_take_bit_int_eq_self signed_of_nat)

lemma case_ascii:
  assumes "n < 128"
  shows "tolower (of_nat n) = Inr (if n \<in> {65..90} then of_nat (n + 32) else of_nat n)"
    and "toupper (of_nat n) = Inr (if n \<in> {97..122} then of_nat (n - 32) else of_nat n)"
proof -
  have U: "isupper (int n) = Inr (n \<in> {65..90})" "islower (int n) = Inr (n \<in> {97..122})"
    by (simp_all add: ctype_test_ascii[OF assms] ascii_class_bits isupper_def islower_def)
  show "tolower (of_nat n) = Inr (if n \<in> {65..90} then of_nat (n + 32) else of_nat n)"
    by (simp add: tolower_def sint_ascii[OF assms] U)
  show "toupper (of_nat n) = Inr (if n \<in> {97..122} then of_nat (n - 32) else of_nat n)"
    by (auto simp: toupper_def sint_ascii[OF assms] U of_nat_diff)
qed

text \<open>\<open>tolower\<close> and \<open>toupper\<close> map the 26 letters onto each other, are inverse there and leave every
  other ASCII character alone.\<close>

theorem case_conversion:
  assumes "n < 128"
  shows "tolower (of_nat n) = Inr (if n \<in> {65..90} then of_nat (n + 32) else of_nat n)
    \<and> toupper (of_nat n) = Inr (if n \<in> {97..122} then of_nat (n - 32) else of_nat n)
    \<and> (n \<in> {97..122} \<longrightarrow> kbind (toupper (of_nat n)) tolower = Inr (of_nat n))
    \<and> (n \<in> {65..90} \<longrightarrow> kbind (tolower (of_nat n)) toupper = Inr (of_nat n))"
proof -
  have "kbind (toupper (of_nat n)) tolower = Inr (of_nat n)" if "n \<in> {97..122}"
  proof -
    have "n - 32 < 128" "n - 32 \<in> {65..90}" "n - 32 + 32 = n" using that by auto
    then have "tolower (of_nat (n - 32)) = Inr (of_nat n)" using case_ascii(1)[of "n - 32"] by presburger
    moreover have "toupper (of_nat n) = Inr (of_nat (n - 32))" using that case_ascii(2)[OF assms] by presburger
    ultimately show ?thesis by simp
  qed
  moreover have "kbind (tolower (of_nat n)) toupper = Inr (of_nat n)" if "n \<in> {65..90}"
    using that case_ascii(1)[OF assms] case_ascii(2)[of "n + 32"] by simp
  ultimately show ?thesis using case_ascii[OF assms] by blast
qed

text \<open>For every character from 0x80 to 0xfe the table is read before its start, since \<open>char\<close> is signed.\<close>

theorem ctype_high_fault:
  "list_all (\<lambda>n. tolower (of_nat n) = Inl Fault \<and> toupper (of_nat n) = Inl Fault) [128..<255]"
  by code_simp

theorem ctype_ascii_witness: "isdigit 55 = Inr True \<and> isupper 55 = Inr False"
  using ctype_ascii[of 55] by simp

theorem case_conversion_witness: "tolower 65 = Inr 97 \<and> toupper 97 = Inr 65"
  using case_conversion[of 65] case_conversion[of 97] by simp

end
