(* ===== verification/Tty_IO.thy ===== *)
theory Tty_IO
  imports Console Ctype
begin

text \<open>
  The terminal's line discipline, drivers/char/tty/tty_io.c. \<open>tty->write\<close> is the parameter \<open>write\<close> of
  the operations that call it. \<open>con_write\<close> answers ESC Z through \<open>copy_to_cooked\<close>, which echoes through
  \<open>con_write\<close>: \<open>con_write_n\<close> ties this knot with a bound on the depth of the nesting, beyond which the
  outcome is \<open>Hang\<close>. The two loops of \<open>copy_to_cooked\<close>, which both can be fed by \<open>tty->write\<close> while they
  run, have fuel too.
\<close>

section \<open>copy_to_cooked\<close>

definition upd_tty :: "(tty_struct \<Rightarrow> tty_struct) \<Rightarrow> world \<Rightarrow> world" where
  "upd_tty f w = w\<lparr>w_tty := f (w_tty w)\<rparr>"

definition put_write :: "u8 \<Rightarrow> world \<Rightarrow> world" where
  "put_write c = upd_tty (\<lambda>t. t\<lparr>write_q := PUTCH c (write_q t)\<rparr>)"

text \<open>\<open>tty_intr\<close>: its loop over the tasks is commented out, so that nothing happens in either case.\<close>

definition tty_intr :: "u32 \<Rightarrow> world \<Rightarrow> world" where
  "tty_intr msk w = (if tty_pgrp (w_tty w) <=s 0 then w else w)"

text \<open>Carriage return and newline on input; \<open>None\<close> for a character that is dropped.\<close>

definition in_map :: "tty_struct \<Rightarrow> u8 \<Rightarrow> u8 option" where
  "in_map t c =
     (if c = 13 then (if I_CRNL t then Some 10 else if I_NOCR t then None else Some c)
      else if c = 10 \<and> I_NLCR t then Some 13 else Some c)"

text \<open>\<open>c < 32\<close> for a signed character: the erased character was echoed as two.\<close>

definition echo_del :: "(world \<Rightarrow> world kres) \<Rightarrow> u8 \<Rightarrow> world \<Rightarrow> world kres" where
  "echo_del write c w =
     (if L_ECHO (w_tty w)
      then write (put_write 127 (if c <s 32 then put_write 127 w else w)) else Inr w)"

definition line_end :: "tty_struct \<Rightarrow> u8 \<Rightarrow> bool" where
  "line_end t c \<longleftrightarrow> c = 10 \<or> is_cc c (EOF_CHAR t)"

definition unput_sec :: "world \<Rightarrow> world" where
  "unput_sec = upd_tty (\<lambda>t. t\<lparr>secondary := UNPUT (secondary t)\<rparr>)"

primrec kill_line :: "nat \<Rightarrow> (world \<Rightarrow> world kres) \<Rightarrow> world \<Rightarrow> world kres" where
  "kill_line 0 write w = Inl Hang"
| "kill_line (Suc n) write w =
     (let t = w_tty w; c = LAST (secondary t)
      in if EMPTY (secondary t) \<or> line_end t c then Inr w
         else kbind (echo_del write c w) (\<lambda>w. kill_line n write (unput_sec w)))"

definition echo_char :: "(world \<Rightarrow> world kres) \<Rightarrow> u8 \<Rightarrow> world \<Rightarrow> world kres" where
  "echo_char write c w =
     (if L_ECHO (w_tty w) then
        write (if c = 10 then put_write 13 (put_write 10 w)
               else if c <s 32 then
                 (if L_ECHOCTL (w_tty w) then put_write (c + 64) (put_write 0x5e w) else w)
               else put_write c w)
      else Inr w)"

definition keep_char :: "(world \<Rightarrow> world kres) \<Rightarrow> u8 \<Rightarrow> world \<Rightarrow> world kres" where
  "keep_char write c w =
     kbind (echo_char write c
        (if line_end (w_tty w) c
         then upd_tty (\<lambda>t. t\<lparr>secondary := (secondary t)\<lparr>q_data := q_data (secondary t) + 1\<rparr>\<rparr>) w else w))
       (\<lambda>w. Inr (upd_tty (\<lambda>t. t\<lparr>secondary := PUTCH c (secondary t)\<rparr>) w))"

text \<open>One round of the loop, after GETCH.\<close>

definition cook_char :: "nat \<Rightarrow> (world \<Rightarrow> world kres) \<Rightarrow> u8 \<Rightarrow> world \<Rightarrow> world kres" where
  "cook_char fuel write c0 w =
     (let t = w_tty w in
      case in_map t c0 of
        None \<Rightarrow> Inr w
      | Some c1 \<Rightarrow> kbind (if I_UCLC t then tolower c1 else Inr c1) (\<lambda>c.
          if L_CANON t \<and> is_cc c (KILL_CHAR t) then kill_line fuel write w
          else if L_CANON t \<and> is_cc c (ERASE_CHAR t) then
            (if EMPTY (secondary t) \<or> line_end t (LAST (secondary t)) then Inr w
             else kbind (echo_del write (LAST (secondary t)) w) (\<lambda>w. Inr (unput_sec w)))
          else if L_CANON t \<and> is_cc c (STOP_CHAR t) then Inr (upd_tty (\<lambda>t. t\<lparr>tty_stopped := 1\<rparr>) w)
          else if L_CANON t \<and> is_cc c (START_CHAR t) then Inr (upd_tty (\<lambda>t. t\<lparr>tty_stopped := 0\<rparr>) w)
          else if L_ISIG t \<and> is_cc c (INTR_CHAR t) then Inr (tty_intr 2 w)
          else if L_ISIG t \<and> is_cc c (QUIT_CHAR t) then Inr (tty_intr 4 w)
          else keep_char write c w))"

primrec cook_loop :: "nat \<Rightarrow> nat \<Rightarrow> (world \<Rightarrow> world kres) \<Rightarrow> world \<Rightarrow> world kres" where
  "cook_loop 0 fuel write w = Inl Hang"
| "cook_loop (Suc n) fuel write w =
     (if \<not> EMPTY (read_q (w_tty w)) \<and> \<not> FULL (secondary (w_tty w)) then
        (case GETCH (read_q (w_tty w)) of (c, q) \<Rightarrow>
           kbind (cook_char fuel write c (upd_tty (\<lambda>t. t\<lparr>read_q := q\<rparr>) w)) (cook_loop n fuel write))
      else Inr w)"

definition wake_readers :: "world \<Rightarrow> world" where
  "wake_readers w =
     (case wake_up (q_proc_list (secondary (w_tty w))) (w_sched w) of
        (p, k) \<Rightarrow> upd_tty (\<lambda>t. t\<lparr>secondary := (secondary t)\<lparr>q_proc_list := p\<rparr>\<rparr>) (w\<lparr>w_sched := k\<rparr>))"

definition copy_to_cooked :: "nat \<Rightarrow> (world \<Rightarrow> world kres) \<Rightarrow> world \<Rightarrow> world kres" where
  "copy_to_cooked fuel write w = kbind (cook_loop fuel fuel write w) (\<lambda>w. Inr (wake_readers w))"

primrec con_write_n :: "nat \<Rightarrow> nat \<Rightarrow> world \<Rightarrow> world kres" where
  "con_write_n 0 fuel w = Inl Hang"
| "con_write_n (Suc d) fuel w = con_write (copy_to_cooked fuel (con_write_n d fuel)) w"

definition do_tty_interrupt :: "nat \<Rightarrow> nat \<Rightarrow> world \<Rightarrow> world kres" where
  "do_tty_interrupt d fuel w = copy_to_cooked fuel (con_write_n d fuel) w"

section \<open>tty_write\<close>

text \<open>
  The inner loop: characters of the user's buffer go into the write queue until it is full. The
  static variable \<open>cr_flag\<close> is threaded through; the result has the characters not yet taken.
\<close>

function out_loop :: "bool \<Rightarrow> u8 list \<Rightarrow> tty_struct \<Rightarrow> (bool \<times> u8 list \<times> tty_struct) kres" where
  "out_loop cr_flag bs t =
     (case bs of
        [] \<Rightarrow> Inr (cr_flag, bs, t)
      | b # bs' \<Rightarrow>
          if FULL (write_q t) then Inr (cr_flag, bs, t)
          else if O_POST t then
            (let c = (if b = 13 \<and> O_CRNL t then 10 else if b = 10 \<and> O_NLRET t then 13 else b)
             in if c = 10 \<and> \<not> cr_flag \<and> O_NLCR t
                then out_loop True bs (t\<lparr>write_q := PUTCH 13 (write_q t)\<rparr>)
                else kbind (if O_LCUC t then toupper c else Inr c)
                       (\<lambda>c. out_loop False bs' (t\<lparr>write_q := PUTCH c (write_q t)\<rparr>)))
          else out_loop False bs' (t\<lparr>write_q := PUTCH b (write_q t)\<rparr>))"
  by pat_completeness auto
termination
  by (relation "measures [\<lambda>(f, bs, t). length bs, \<lambda>(f, bs, t). if f then 0 else 1]") auto

declare out_loop.simps [simp del]

text \<open>
  \<open>doze\<close> is a call of \<open>interruptible_sleep_on\<close> and \<open>resched\<close> one of \<open>schedule()\<close>, each up to its return in
  the calling task; what happens in between is up to the rest of the system.
\<close>

primrec sleep_while_full :: "nat \<Rightarrow> (world \<Rightarrow> world kres) \<Rightarrow> world \<Rightarrow> world kres" where
  "sleep_while_full 0 doze w = Inl Hang"
| "sleep_while_full (Suc n) doze w =
     (if LEFT (write_q (w_tty w)) < 128 then kbind (doze w) (sleep_while_full n doze) else Inr w)"

definition sleep_if_full :: "nat \<Rightarrow> (world \<Rightarrow> world kres) \<Rightarrow> world \<Rightarrow> world kres" where
  "sleep_if_full fuel doze w = (if FULL (write_q (w_tty w)) then sleep_while_full fuel doze w else Inr w)"

primrec tty_write_loop :: "nat \<Rightarrow> (world \<Rightarrow> world kres) \<Rightarrow> (world \<Rightarrow> world kres) \<Rightarrow> (world \<Rightarrow> world kres)
    \<Rightarrow> bool \<Rightarrow> u8 list \<Rightarrow> world \<Rightarrow> (bool \<times> u8 list \<times> world) kres" where
  "tty_write_loop 0 doze resched write cr_flag bs w = Inl Hang"
| "tty_write_loop (Suc n) doze resched write cr_flag bs w =
     (if bs = [] then Inr (cr_flag, bs, w)
      else kbind (sleep_if_full n doze w) (\<lambda>w1.
        kbind (out_loop cr_flag bs (w_tty w1)) (\<lambda>(f, bs', t).
          kbind (write (w1\<lparr>w_tty := t\<rparr>)) (\<lambda>w2.
            kbind (if bs' \<noteq> [] then resched w2 else Inr w2) (tty_write_loop n doze resched write f bs')))))"

text \<open>
  The table has one terminal: channels 1 and 2 pass the test of the code but lie outside the table.
  \<open>nr\<close> is the length of the buffer read from user space, as a signed number.
\<close>

definition tty_write :: "nat \<Rightarrow> (world \<Rightarrow> world kres) \<Rightarrow> (world \<Rightarrow> world kres) \<Rightarrow> (world \<Rightarrow> world kres)
    \<Rightarrow> u32 \<Rightarrow> u8 list \<Rightarrow> int \<Rightarrow> bool \<Rightarrow> world \<Rightarrow> (int \<times> bool \<times> world) kres" where
  "tty_write fuel doze resched write channel buf nr cr_flag w =
     (if 2 < channel \<or> nr < 0 then Inr (-1, cr_flag, w)
      else if channel \<noteq> 0 \<and> nr > 0 then Inl Fault
      else kbind (tty_write_loop fuel doze resched write cr_flag (take (nat nr) buf) w) (\<lambda>(f, rest, w').
             Inr (nr - int (length rest), f, w')))"

text \<open>\<open>tty_init\<close> calls \<open>con_init\<close>, which also sets the gate of the keyboard interrupt.\<close>

definition tty_init :: "boot_video \<Rightarrow> u32 \<Rightarrow> world \<Rightarrow> world" where
  "tty_init b keyboard_interrupt w =
     w\<lparr>w_con := con_init b (w_con w), w_sched := (w_sched w)\<lparr>idt := (idt (w_sched w))(0x21 := set_trap_gate keyboard_interrupt)\<rparr>\<rparr>"

section \<open>Safety of the line discipline\<close>

lemma world_safe_upd:
  assumes "world_ok w" and "tty_q_ok (f (w_tty w))"
  shows "world_safe w (upd_tty f w)"
  using assms by (simp add: upd_tty_def world_safe_tty)

lemma put_write_safe: "world_ok w \<Longrightarrow> world_safe w (put_write c w)"
  unfolding put_write_def by (rule world_safe_upd) (auto simp: world_ok_def tty_q_ok_def)

lemma unput_sec_safe: "world_ok w \<Longrightarrow> world_safe w (unput_sec w)"
  unfolding unput_sec_def by (rule world_safe_upd) (auto simp: world_ok_def tty_q_ok_def)

lemma q_ok_fields [simp]: "q_ok (q\<lparr>q_data := d\<rparr>) = q_ok q" "q_ok (q\<lparr>q_proc_list := p\<rparr>) = q_ok q"
  by (simp_all add: q_ok_def)

lemma wake_readers_safe: "world_ok w \<Longrightarrow> world_safe w (wake_readers w)"
  by (simp add: wake_readers_def upd_tty_def world_safe_def world_ok_def tty_q_ok_def con_safe_refl
      split: prod.split)

context safe_action
begin

lemma act_after: "world_safe w w1 \<Longrightarrow> act w1 = Inr w' \<Longrightarrow> world_safe w w'"
  using act_safe world_safe_ok world_safe_trans by blast

lemma echo_del_safe:
  assumes "world_ok w" and "echo_del act c w = Inr w'"
  shows "world_safe w w'"
proof -
  have "world_safe w (put_write 127 (if c <s 32 then put_write 127 w else w))"
    using assms(1) put_write_safe world_safe_ok world_safe_trans by (auto split: if_split) blast+
  then show ?thesis
    using assms act_after world_safe_refl by (auto simp: echo_del_def split: if_splits)
qed

lemma kill_line_safe:
  assumes "world_ok w" and "kill_line n act w = Inr w'"
  shows "world_safe w w'"
  using assms
proof (induction n arbitrary: w)
  case (Suc n)
  show ?case
  proof (cases "EMPTY (secondary (w_tty w)) \<or> line_end (w_tty w) (LAST (secondary (w_tty w)))")
    case True
    with Suc.prems show ?thesis by (auto simp: Let_def world_safe_refl)
  next
    case False
    with Suc.prems obtain w1 where w1: "echo_del act (LAST (secondary (w_tty w))) w = Inr w1"
        "kill_line n act (unput_sec w1) = Inr w'"
      by (auto simp: Let_def kres_simps)
    have s1: "world_safe w w1" using echo_del_safe[OF Suc.prems(1) w1(1)] .
    have s2: "world_safe w1 (unput_sec w1)" using unput_sec_safe[OF world_safe_ok[OF s1]] .
    show ?thesis using world_safe_trans[OF s1 world_safe_trans[OF s2 Suc.IH[OF world_safe_ok[OF s2] w1(2)]]] .
  qed
qed simp

lemma echo_char_safe:
  assumes "world_ok w" and "echo_char act c w = Inr w'"
  shows "world_safe w w'"
proof -
  have p: "world_safe w (put_write a w)" "world_safe w (put_write b (put_write a w))" for a b
    using put_write_safe[OF assms(1)] world_safe_trans[OF put_write_safe[OF assms(1)] put_write_safe[OF world_safe_ok[OF put_write_safe[OF assms(1)]]]]
    by auto
  note a = act_after[OF p(1)] act_after[OF p(2)] act_after[OF world_safe_refl[OF assms(1)]]
  show ?thesis
    using assms(2) a world_safe_refl[OF assms(1)]
    by (auto simp: echo_char_def split: if_splits)
qed

lemma keep_char_safe:
  assumes "world_ok w" and "keep_char act c w = Inr w'"
  shows "world_safe w w'"
proof -
  define w0 where "w0 = (if line_end (w_tty w) c
    then upd_tty (\<lambda>t. t\<lparr>secondary := (secondary t)\<lparr>q_data := q_data (secondary t) + 1\<rparr>\<rparr>) w else w)"
  have s0: "world_safe w w0"
    using assms(1) world_safe_refl unfolding w0_def
    by (auto intro!: world_safe_upd simp: world_ok_def tty_q_ok_def)
  obtain w1 where w1: "echo_char act c w0 = Inr w1"
      "w' = upd_tty (\<lambda>t. t\<lparr>secondary := PUTCH c (secondary t)\<rparr>) w1"
    using assms(2) by (auto simp: keep_char_def kres_simps w0_def)
  have s1: "world_safe w0 w1" using echo_char_safe[OF world_safe_ok[OF s0] w1(1)] .
  have "world_safe w1 w'" unfolding w1(2)
    using world_safe_ok[OF s1] by (intro world_safe_upd) (auto simp: world_ok_def tty_q_ok_def)
  with s0 s1 show ?thesis by (blast intro: world_safe_trans)
qed

lemma cook_char_safe:
  assumes "world_ok w" and "cook_char n act c w = Inr w'"
  shows "world_safe w w'"
proof -
  have e: "world_safe w w'" if "kbind (echo_del act b w) (\<lambda>w. Inr (unput_sec w)) = Inr w'" for b
    using that echo_del_safe[OF assms(1)] unput_sec_safe world_safe_ok world_safe_trans
    by (auto simp: kres_simps) blast
  have st: "world_safe w (upd_tty (\<lambda>t. t\<lparr>tty_stopped := v\<rparr>) w)" for v
    using assms(1) by (intro world_safe_upd) (auto simp: world_ok_def tty_q_ok_def)
  have i: "world_safe w w'" if "Inr (tty_intr m w) = Inr w'" for m
    using that world_safe_refl[OF assms(1)] by (simp add: tty_intr_def)
  have st': "world_safe w w'" if "Inr (upd_tty (\<lambda>t. t\<lparr>tty_stopped := v\<rparr>) w) = Inr w'" for v
    using that st by auto
  have same: "world_safe w w'" if "Inr w = Inr w'" using that world_safe_refl[OF assms(1)] by simp
  show ?thesis
  proof (cases "in_map (w_tty w) c")
    case None
    with assms(2) show ?thesis using same by (simp add: cook_char_def Let_def)
  next
    case (Some c1)
    from assms(2) show ?thesis
      unfolding cook_char_def Let_def Some option.case
      by (rule kbind_eq_InrE)
        (elim if_InrE; (erule kill_line_safe[OF assms(1)] keep_char_safe[OF assms(1)] e st' i same))
  qed
qed

lemma cook_loop_safe:
  assumes "world_ok w" and "cook_loop n m act w = Inr w'"
  shows "world_safe w w'"
  using assms
proof (induction n arbitrary: w)
  case (Suc n)
  show ?case
  proof (cases "\<not> EMPTY (read_q (w_tty w)) \<and> \<not> FULL (secondary (w_tty w))")
    case True
    obtain c q where g: "GETCH (read_q (w_tty w)) = (c, q)" by force
    let ?w = "upd_tty (\<lambda>t. t\<lparr>read_q := q\<rparr>) w"
    have "q_ok q" using Suc.prems(1) q_ok_ops(2)[of "read_q (w_tty w)"] by (simp add: world_ok_def tty_q_ok_def g)
    then have s1: "world_safe w ?w"
      using Suc.prems(1) by (intro world_safe_upd) (auto simp: world_ok_def tty_q_ok_def)
    obtain w1 where w1: "cook_char m act c ?w = Inr w1" "cook_loop n m act w1 = Inr w'"
      using Suc.prems(2) g True by (auto simp: kres_simps)
    have s2: "world_safe ?w w1" using cook_char_safe[OF world_safe_ok[OF s1] w1(1)] .
    show ?thesis using world_safe_trans[OF s1 world_safe_trans[OF s2 Suc.IH[OF world_safe_ok[OF s2] w1(2)]]] .
  next
    case False
    with Suc.prems show ?thesis by (auto simp: world_safe_refl)
  qed
qed simp

lemma copy_to_cooked_safe:
  assumes "world_ok w" and "copy_to_cooked n act w = Inr w'"
  shows "world_safe w w'"
proof -
  obtain w1 where w1: "cook_loop n n act w = Inr w1" "w' = wake_readers w1"
    using assms(2) by (auto simp: copy_to_cooked_def kres_simps)
  have s: "world_safe w w1" using cook_loop_safe[OF assms(1) w1(1)] .
  show ?thesis unfolding w1(2) using world_safe_trans[OF s wake_readers_safe[OF world_safe_ok[OF s]]] .
qed

end

lemma con_write_n_safe: "world_ok w \<Longrightarrow> con_write_n d fuel w = Inr w' \<Longrightarrow> world_safe w w'"
proof (induction d arbitrary: w w')
  case (Suc d)
  have w: "safe_action (con_write_n d fuel)" by (unfold_locales) (rule Suc.IH)
  have "safe_action (copy_to_cooked fuel (con_write_n d fuel))"
    by unfold_locales (rule safe_action.copy_to_cooked_safe[OF w])
  from safe_action.con_write_safe[OF this Suc.prems(1)] Suc.prems(2) show ?case by simp
qed simp

interpretation cwrite: safe_action "con_write_n d fuel" for d fuel
  by unfold_locales (rule con_write_n_safe)

interpretation cook: safe_action "copy_to_cooked fuel (con_write_n d fuel)" for fuel d
  by unfold_locales (rule cwrite.copy_to_cooked_safe)

text \<open>C38: Whatever characters arrive from the keyboard or are written to the terminal, including
  every escape sequence and the answers to it, and however deep echo and answer nest: the console
  writes to video memory only, and its screen invariant (cursor and scroll region on the screen, \<open>pos\<close>
  the cursor's address, the screen inside video memory) and the three queues stay intact.\<close>

theorem terminal_memory_safe:
  assumes "world_ok w"
    and "con_write_n d fuel w = Inr w' \<or> do_tty_interrupt d fuel w = Inr w'"
  shows "world_ok w' \<and> (\<forall>a. unat a < unat (video_mem_start (w_con w)) \<or> unat (video_mem_end (w_con w)) \<le> unat a
      \<longrightarrow> vmem (w_con w') a = vmem (w_con w) a)"
proof -
  have "world_safe w w'"
    using assms con_write_n_safe cwrite.copy_to_cooked_safe by (auto simp: do_tty_interrupt_def)
  then show ?thesis using world_safe_ok[of w w'] by (simp add: world_safe_def con_safe_def frame_def)
qed

section \<open>The line discipline as a function on lists\<close>

text \<open>The state a reader sees: the cooked characters, the number of line ends among them, and the stop flag.\<close>

type_synonym cooked = "u8 list \<times> u32 \<times> u32"

definition low :: "u8 \<Rightarrow> u8" where
  "low c = (case tolower c of Inr d \<Rightarrow> d | Inl _ \<Rightarrow> c)"

text \<open>Erasing stops at the previous line end.\<close>

definition drop_line :: "tty_struct \<Rightarrow> u8 list \<Rightarrow> u8 list" where
  "drop_line t sec = rev (dropWhile (\<lambda>c. \<not> line_end t c) (rev sec))"

definition cook_spec1 :: "tty_struct \<Rightarrow> u8 \<Rightarrow> cooked \<Rightarrow> cooked" where
  "cook_spec1 t c0 = (\<lambda>(sec, d, stp).
     case in_map t c0 of
       None \<Rightarrow> (sec, d, stp)
     | Some c1 \<Rightarrow>
         (let c = (if I_UCLC t then low c1 else c1) in
          if L_CANON t \<and> is_cc c (KILL_CHAR t) then (drop_line t sec, d, stp)
          else if L_CANON t \<and> is_cc c (ERASE_CHAR t)
          then (if sec = [] \<or> line_end t (last sec) then sec else butlast sec, d, stp)
          else if L_CANON t \<and> is_cc c (STOP_CHAR t) then (sec, d, 1)
          else if L_CANON t \<and> is_cc c (START_CHAR t) then (sec, d, 0)
          else if L_ISIG t \<and> is_cc c (INTR_CHAR t) then (sec, d, stp)
          else if L_ISIG t \<and> is_cc c (QUIT_CHAR t) then (sec, d, stp)
          else (sec @ [c], if line_end t c then d + 1 else d, stp)))"

text \<open>All input is taken, or as much as fits into the 1023 characters of the cooked queue.\<close>

fun cook_spec :: "tty_struct \<Rightarrow> u8 list \<Rightarrow> cooked \<Rightarrow> u8 list \<times> cooked" where
  "cook_spec t [] s = ([], s)"
| "cook_spec t (c # input) s = (if length (fst s) = 1023 then (c # input, s) else cook_spec t input (cook_spec1 t c s))"

definition cooked_of :: "tty_struct \<Rightarrow> cooked" where
  "cooked_of t = (q_list (secondary t), q_data (secondary t), tty_stopped t)"

text \<open>
  What the line discipline needs of \<open>tty->write\<close>: as long as the driver is calm (for the console: in its
  ground state, with no ESC waiting) it returns, stays calm and touches nothing of the
  terminal but the write queue.
\<close>

lemma put_write_fields [simp]:
  "w_sched (put_write c w) = w_sched w"
  "w_tty (put_write c w) = (w_tty w)\<lparr>write_q := PUTCH c (write_q (w_tty w))\<rparr>"
  by (simp_all add: put_write_def upd_tty_def)

lemma upd_tty_fields [simp]: "w_sched (upd_tty f w) = w_sched w" "w_tty (upd_tty f w) = f (w_tty w)"
  by (simp_all add: upd_tty_def)

lemma unput_sec_fields [simp]:
  "w_sched (unput_sec w) = w_sched w"
  "w_tty (unput_sec w) = (w_tty w)\<lparr>secondary := UNPUT (secondary (w_tty w))\<rparr>"
  by (simp_all add: unput_sec_def)

lemma mode_fields [simp]:
  "line_end (t\<lparr>write_q := q\<rparr>) = line_end t" "line_end (t\<lparr>secondary := q\<rparr>) = line_end t"
  "line_end (t\<lparr>read_q := q\<rparr>) = line_end t"
  by (simp_all add: fun_eq_iff line_end_def EOF_CHAR_def)

lemma drop_line_step:
  assumes "sec \<noteq> []"
  shows "drop_line t sec = (if line_end t (last sec) then sec else drop_line t (butlast sec))"
  using assms by (cases sec rule: rev_cases) (simp_all add: drop_line_def)

lemma cook_spec1_termios: "tty_termios t = tty_termios t' \<Longrightarrow> cook_spec1 t = cook_spec1 t'"
  unfolding cook_spec1_def in_map_def drop_line_def line_end_def L_CANON_def L_ISIG_def I_UCLC_def I_NLCR_def I_CRNL_def
    I_NOCR_def KILL_CHAR_def ERASE_CHAR_def STOP_CHAR_def START_CHAR_def INTR_CHAR_def QUIT_CHAR_def EOF_CHAR_def
  by (simp only:)

lemma cook_spec_termios:
  assumes "tty_termios t = tty_termios t'"
  shows "cook_spec t input s = cook_spec t' input s"
  using cook_spec1_termios[OF assms] by (induction input arbitrary: s) simp_all

locale calm_driver =
  fixes wr :: "world \<Rightarrow> world kres"
    and calm :: "world \<Rightarrow> bool"
  assumes calm_ok: "calm w \<Longrightarrow> tty_q_ok (w_tty w)"
    and calm_write: "calm w \<Longrightarrow> \<exists>w' q. wr w = Inr w' \<and> calm w' \<and> w_sched w' = w_sched w
      \<and> w_tty w' = (w_tty w)\<lparr>write_q := q\<rparr>"
    and calm_put: "calm w \<Longrightarrow> c \<noteq> 27 \<Longrightarrow> calm (put_write c w)"
    and calm_upd: "calm w \<Longrightarrow> write_q (f (w_tty w)) = write_q (w_tty w) \<Longrightarrow> tty_q_ok (f (w_tty w)) \<Longrightarrow> calm (upd_tty f w)"
begin

text \<open>The world has changed only in the wr queue and on the screen.\<close>

definition echoed :: "world \<Rightarrow> world \<Rightarrow> bool" where
  "echoed w w' \<longleftrightarrow> calm w' \<and> w_sched w' = w_sched w \<and> (\<exists>q. w_tty w' = (w_tty w)\<lparr>write_q := q\<rparr>)"

lemma echoed_refl: "calm w \<Longrightarrow> echoed w w"
  by (auto simp: echoed_def intro: exI[of _ "write_q (w_tty w)"])

lemma echoed_put: "echoed w w' \<Longrightarrow> c \<noteq> 27 \<Longrightarrow> echoed w (put_write c w')"
  by (auto simp: echoed_def calm_put)

lemma echoed_write: "echoed w w' \<Longrightarrow> \<exists>w''. wr w' = Inr w'' \<and> echoed w w''"
  using calm_write[of w'] by (fastforce simp: echoed_def)

lemma echo_del_calm: "calm w \<Longrightarrow> \<exists>w'. echo_del wr c w = Inr w' \<and> echoed w w'"
  using echoed_write[of w "put_write 127 (if c <s 32 then put_write 127 w else w)"]
  by (auto simp: echo_del_def echoed_refl echoed_put)

lemma ascii_echo:
  assumes "unat (c :: u8) < 128"
  shows "c <s 32 \<Longrightarrow> c + 64 \<noteq> 27" and "\<not> c <s 32 \<Longrightarrow> c \<noteq> 27"
proof -
  show "c <s 32 \<Longrightarrow> c + 64 \<noteq> 27" using assms by (auto simp: word_unat_eq_iff unat_word_ariths)
  show "\<not> c <s 32 \<Longrightarrow> c \<noteq> 27" by (auto simp: word_sless_alt)
qed

lemma echo_char_calm:
  assumes "calm w" and "unat c < 128"
  shows "\<exists>w'. echo_char wr c w = Inr w' \<and> echoed w w'"
proof -
  let ?w = "if c = 10 then put_write 13 (put_write 10 w)
               else if c <s 32 then
                 (if L_ECHOCTL (w_tty w) then put_write (c + 64) (put_write 0x5e w) else w)
               else put_write c w"
  have "echoed w ?w" using assms(1) ascii_echo[OF assms(2)] by (simp add: echoed_put echoed_refl)
  then show ?thesis using echoed_write[of w ?w] echoed_refl[OF assms(1)] by (auto simp: echo_char_def)
qed

text \<open>The terminal \<open>w'\<close> differs from \<open>w\<close> in the write queue and in the cooked state, which is \<open>s\<close>.\<close>

definition cooks :: "world \<Rightarrow> world \<Rightarrow> cooked \<Rightarrow> bool" where
  "cooks w w' s \<longleftrightarrow> calm w' \<and> w_sched w' = w_sched w \<and> tty_termios (w_tty w') = tty_termios (w_tty w)
     \<and> read_q (w_tty w') = read_q (w_tty w) \<and> cooked_of (w_tty w') = s
     \<and> q_proc_list (secondary (w_tty w')) = q_proc_list (secondary (w_tty w))"

lemma cooks_refl: "calm w \<Longrightarrow> cooks w w (cooked_of (w_tty w))"
  by (simp add: cooks_def)

lemma cooks_trans: "cooks w w1 s1 \<Longrightarrow> cooks w1 w2 s2 \<Longrightarrow> cooks w w2 s2"
  by (simp add: cooks_def)

lemma echoed_cooks: "echoed w w' \<Longrightarrow> cooks w w' (cooked_of (w_tty w))"
  by (auto simp: echoed_def cooks_def cooked_of_def)

lemma q_ok_sec: "calm w \<Longrightarrow> q_ok (secondary (w_tty w))"
  using calm_ok by (simp add: tty_q_ok_def)

lemma unput_cooks:
  assumes "calm w" and "q_list (secondary (w_tty w)) \<noteq> []"
  shows "cooks w (unput_sec w) (butlast (q_list (secondary (w_tty w))), q_data (secondary (w_tty w)), tty_stopped (w_tty w))"
proof -
  have "calm (unput_sec w)"
    unfolding unput_sec_def using assms(1) calm_ok[OF assms(1)]
    by (intro calm_upd) (auto simp: tty_q_ok_def)
  then show ?thesis
    using q_list_UNPUT(1)[OF q_ok_sec[OF assms(1)] assms(2)] by (simp add: cooks_def cooked_of_def UNPUT_def)
qed

text \<open>Modes are read from the termios alone.\<close>

lemma line_end_termios: "tty_termios t = tty_termios t' \<Longrightarrow> line_end t = line_end t'"
  by (simp add: fun_eq_iff line_end_def EOF_CHAR_def)

lemma erase_one:
  assumes "calm w" and "q_list (secondary (w_tty w)) \<noteq> []"
  shows "\<exists>w1. echo_del wr c w = Inr w1 \<and> cooks w (unput_sec w1)
    (butlast (q_list (secondary (w_tty w))), q_data (secondary (w_tty w)), tty_stopped (w_tty w))"
proof -
  obtain w1 where w1: "echo_del wr c w = Inr w1" "echoed w w1" using echo_del_calm[OF assms(1)] by blast
  from echoed_cooks[OF w1(2)] have c: "cooks w w1 (cooked_of (w_tty w))" .
  then have "calm w1" "cooked_of (w_tty w1) = cooked_of (w_tty w)" by (auto simp: cooks_def)
  then have "cooks w1 (unput_sec w1) (butlast (q_list (secondary (w_tty w))), q_data (secondary (w_tty w)), tty_stopped (w_tty w))"
    using unput_cooks[of w1] assms(2) by (auto simp: cooked_of_def)
  with w1(1) c show ?thesis using cooks_trans by blast
qed

lemma kill_line_calm:
  assumes "calm w" and "length (q_list (secondary (w_tty w))) < n"
  shows "\<exists>w'. kill_line n wr w = Inr w' \<and> cooks w w' (drop_line (w_tty w) (q_list (secondary (w_tty w))),
    q_data (secondary (w_tty w)), tty_stopped (w_tty w))"
  using assms
proof (induction n arbitrary: w)
  case (Suc n)
  let ?sec = "q_list (secondary (w_tty w))"
  note ok = q_ok_sec[OF Suc.prems(1)]
  show ?case
  proof (cases "?sec = [] \<or> line_end (w_tty w) (last ?sec)")
    case True
    then have "kill_line (Suc n) wr w = Inr w"
      using EMPTY_iff[OF ok] q_list_UNPUT(2)[OF ok] by (auto simp: Let_def)
    moreover have "drop_line (w_tty w) ?sec = ?sec"
      using True drop_line_step[of ?sec "w_tty w"] by (cases "?sec = []") (auto simp: drop_line_def)
    ultimately show ?thesis using cooks_refl[OF Suc.prems(1)] by (simp add: cooked_of_def)
  next
    case False
    then have ne: "?sec \<noteq> []" by simp
    obtain w1 where w1: "echo_del wr (last ?sec) w = Inr w1"
      and c: "cooks w (unput_sec w1) (butlast ?sec, q_data (secondary (w_tty w)), tty_stopped (w_tty w))"
      using erase_one[OF Suc.prems(1) ne] by blast
    have cl: "calm (unput_sec w1)" "q_list (secondary (w_tty (unput_sec w1))) = butlast ?sec"
      "q_data (secondary (w_tty (unput_sec w1))) = q_data (secondary (w_tty w))"
      "tty_stopped (w_tty (unput_sec w1)) = tty_stopped (w_tty w)"
      using c by (auto simp: cooks_def cooked_of_def)
    have "tty_termios (w_tty (unput_sec w1)) = tty_termios (w_tty w)" using c by (simp add: cooks_def)
    then have "line_end (w_tty (unput_sec w1)) = line_end (w_tty w)" by (rule line_end_termios)
    then have le: "drop_line (w_tty (unput_sec w1)) = drop_line (w_tty w)"
      by (intro ext) (simp only: drop_line_def)
    obtain w' where w': "kill_line n wr (unput_sec w1) = Inr w'"
      "cooks (unput_sec w1) w' (drop_line (w_tty w) (butlast ?sec), q_data (secondary (w_tty w)), tty_stopped (w_tty w))"
    proof -
      have "length (butlast ?sec) < length ?sec" using ne by (cases ?sec rule: rev_cases) simp_all
      then have "length (q_list (secondary (w_tty (unput_sec w1)))) < n" unfolding cl(2) using Suc.prems(2) by linarith
      from Suc.IH[OF cl(1) this] show thesis unfolding cl(2-4) le using that by blast
    qed
    have "kill_line (Suc n) wr w = Inr w'"
      using False w1 w'(1) EMPTY_iff[OF ok] q_list_UNPUT(2)[OF ok] by (simp add: Let_def)
    moreover have "drop_line (w_tty w) ?sec = drop_line (w_tty w) (butlast ?sec)"
      using False drop_line_step[of ?sec "w_tty w"] by simp
    ultimately show ?thesis using cooks_trans[OF c w'(2)] by simp
  qed
qed simp

lemma keep_char_calm:
  assumes "calm w" and "unat c < 128" and "length (q_list (secondary (w_tty w))) < 1023"
  shows "\<exists>w'. keep_char wr c w = Inr w' \<and> cooks w w' (q_list (secondary (w_tty w)) @ [c],
    if line_end (w_tty w) c then q_data (secondary (w_tty w)) + 1 else q_data (secondary (w_tty w)), tty_stopped (w_tty w))"
proof -
  define w0 where "w0 = (if line_end (w_tty w) c
    then upd_tty (\<lambda>t. t\<lparr>secondary := (secondary t)\<lparr>q_data := q_data (secondary t) + 1\<rparr>\<rparr>) w else w)"
  have [simp]: "q_list (q\<lparr>q_data := d\<rparr>) = q_list q" for q d by (simp add: q_list_def q_len_def)
  have "calm w0" unfolding w0_def
    using assms(1) calm_ok[OF assms(1)] by (auto intro!: calm_upd simp: tty_q_ok_def)
  then have c0: "cooks w w0 (q_list (secondary (w_tty w)),
      if line_end (w_tty w) c then q_data (secondary (w_tty w)) + 1 else q_data (secondary (w_tty w)), tty_stopped (w_tty w))"
    by (simp add: cooks_def cooked_of_def w0_def)
  obtain w1 where w1: "echo_char wr c w0 = Inr w1" "echoed w0 w1"
    using echo_char_calm[OF \<open>calm w0\<close> assms(2)] by blast
  let ?w = "upd_tty (\<lambda>t. t\<lparr>secondary := PUTCH c (secondary t)\<rparr>) w1"
  have c1: "cooks w w1 (q_list (secondary (w_tty w)),
      if line_end (w_tty w) c then q_data (secondary (w_tty w)) + 1 else q_data (secondary (w_tty w)), tty_stopped (w_tty w))"
    using cooks_trans[OF c0 echoed_cooks[OF w1(2)]] c0 by (simp add: cooks_def)
  then have "calm w1" by (simp add: cooks_def)
  then have "calm ?w" using calm_ok by (intro calm_upd) (auto simp: tty_q_ok_def)
  moreover have "q_list (PUTCH c (secondary (w_tty w1))) = q_list (secondary (w_tty w)) @ [c]"
  proof -
    have e: "q_list (secondary (w_tty w1)) = q_list (secondary (w_tty w))" using c1 by (simp add: cooks_def cooked_of_def)
    then have "q_len (secondary (w_tty w1)) < 1023" using assms(3) by (metis length_q_list)
    from q_list_PUTCH[OF q_ok_sec[OF \<open>calm w1\<close>] this] e show ?thesis by simp
  qed
  ultimately have "cooks w ?w (q_list (secondary (w_tty w)) @ [c],
      if line_end (w_tty w) c then q_data (secondary (w_tty w)) + 1 else q_data (secondary (w_tty w)), tty_stopped (w_tty w))"
    using c1 by (simp add: cooks_def cooked_of_def PUTCH_def)
  moreover have "keep_char wr c w = Inr ?w" using w1(1) by (simp add: keep_char_def w0_def)
  ultimately show ?thesis by blast
qed

lemma in_map_ascii: "unat c < 128 \<Longrightarrow> in_map t c = Some c1 \<Longrightarrow> unat c1 < 128"
  by (auto simp: in_map_def split: if_splits)

lemma tolower_ascii:
  assumes "unat c < 128"
  shows "tolower c = Inr (low c) \<and> unat (low c) < 128"
proof -
  have "tolower c = Inr (if unat c \<in> {65..90} then of_nat (unat c + 32) else c)"
    using case_ascii(1)[OF assms] by simp
  with assms show ?thesis by (auto simp: low_def unat_word_ariths unat_of_nat)
qed

lemma cook_char_calm:
  assumes "calm w" and "unat c0 < 128" and "length (q_list (secondary (w_tty w))) < 1023" and "1023 < n"
  shows "\<exists>w'. cook_char n wr c0 w = Inr w' \<and> cooks w w' (cook_spec1 (w_tty w) c0 (cooked_of (w_tty w)))"
proof (cases "in_map (w_tty w) c0")
  case None
  with cooks_refl[OF assms(1)] show ?thesis by (simp add: cook_char_def cook_spec1_def cooked_of_def)
next
  case (Some c1)
  let ?t = "w_tty w" and ?sec = "q_list (secondary (w_tty w))"
  define c where "c = (if I_UCLC ?t then low c1 else c1)"
  have c1: "unat c1 < 128" using in_map_ascii[OF assms(2) Some] .
  have k: "kbind (if I_UCLC ?t then tolower c1 else Inr c1) f = f c" for f :: "u8 \<Rightarrow> world kres"
    using tolower_ascii[OF c1] by (simp add: c_def)
  have c: "unat c < 128" using c1 tolower_ascii[OF c1] by (simp add: c_def)
  have sp: "cook_spec1 ?t c0 (cooked_of ?t) =
     (if L_CANON ?t \<and> is_cc c (KILL_CHAR ?t) then (drop_line ?t ?sec, q_data (secondary ?t), tty_stopped ?t)
          else if L_CANON ?t \<and> is_cc c (ERASE_CHAR ?t)
          then (if ?sec = [] \<or> line_end ?t (last ?sec) then ?sec else butlast ?sec, q_data (secondary ?t), tty_stopped ?t)
          else if L_CANON ?t \<and> is_cc c (STOP_CHAR ?t) then (?sec, q_data (secondary ?t), 1)
          else if L_CANON ?t \<and> is_cc c (START_CHAR ?t) then (?sec, q_data (secondary ?t), 0)
          else if L_ISIG ?t \<and> is_cc c (INTR_CHAR ?t) then (?sec, q_data (secondary ?t), tty_stopped ?t)
          else if L_ISIG ?t \<and> is_cc c (QUIT_CHAR ?t) then (?sec, q_data (secondary ?t), tty_stopped ?t)
          else (?sec @ [c], if line_end ?t c then q_data (secondary ?t) + 1 else q_data (secondary ?t), tty_stopped ?t))"
    by (simp add: cook_spec1_def Some cooked_of_def c_def[symmetric] Let_def)
  note ok = q_ok_sec[OF assms(1)]
  have K: "\<exists>w'. kill_line n wr w = Inr w' \<and> cooks w w' (drop_line ?t ?sec, q_data (secondary ?t), tty_stopped ?t)"
    using kill_line_calm[OF assms(1)] assms(3,4) by simp
  have E: "\<exists>w'. (if EMPTY (secondary ?t) \<or> line_end ?t (LAST (secondary ?t)) then Inr w
      else kbind (echo_del wr (LAST (secondary ?t)) w) (\<lambda>w. Inr (unput_sec w))) = Inr w'
    \<and> cooks w w' (if ?sec = [] \<or> line_end ?t (last ?sec) then ?sec else butlast ?sec, q_data (secondary ?t), tty_stopped ?t)"
  proof (cases "?sec = [] \<or> line_end ?t (last ?sec)")
    case True
    then show ?thesis
      using EMPTY_iff[OF ok] q_list_UNPUT(2)[OF ok] cooks_refl[OF assms(1)] by (auto simp: cooked_of_def)
  next
    case False
    then show ?thesis
      using EMPTY_iff[OF ok] q_list_UNPUT(2)[OF ok] erase_one[OF assms(1), of "last ?sec"] by auto
  qed
  have S: "cooks w (upd_tty (\<lambda>t. t\<lparr>tty_stopped := v\<rparr>) w) (?sec, q_data (secondary ?t), v)" for v
    using assms(1) calm_ok[OF assms(1)]
    by (auto simp: cooks_def cooked_of_def tty_q_ok_def intro!: calm_upd)
  have I: "cooks w (tty_intr m w) (?sec, q_data (secondary ?t), tty_stopped ?t)" for m
    using cooks_refl[OF assms(1)] by (simp add: tty_intr_def cooked_of_def)
  note KC = keep_char_calm[OF assms(1) c assms(3)]
  show ?thesis
    unfolding cook_char_def Let_def Some option.case k sp
    using K E S I KC by (simp split: if_split)
qed

lemma cook_loop_calm:
  assumes "calm w" and "\<forall>c \<in> set (q_list (read_q (w_tty w))). unat c < 128"
    and "length (q_list (read_q (w_tty w))) < n" and "1023 < m"
  shows "\<exists>w'. cook_loop n m wr w = Inr w' \<and> calm w' \<and> w_sched w' = w_sched w
    \<and> tty_termios (w_tty w') = tty_termios (w_tty w)
    \<and> q_proc_list (secondary (w_tty w')) = q_proc_list (secondary (w_tty w))
    \<and> (q_list (read_q (w_tty w')), cooked_of (w_tty w'))
        = cook_spec (w_tty w) (q_list (read_q (w_tty w))) (cooked_of (w_tty w))"
  using assms(1-3)
proof (induction n arbitrary: w)
  case (Suc n)
  let ?t = "w_tty w"
  have ok: "q_ok (read_q ?t)" "q_ok (secondary ?t)" using calm_ok[OF Suc.prems(1)] by (simp_all add: tty_q_ok_def)
  have fst_c: "fst (cooked_of ?t) = q_list (secondary ?t)" by (simp add: cooked_of_def)
  show ?case
  proof (cases "q_list (read_q ?t) = [] \<or> length (q_list (secondary ?t)) = 1023")
    case True
    then have "cook_loop (Suc n) m wr w = Inr w" using EMPTY_iff[OF ok(1)] FULL_iff[OF ok(2)] by auto
    moreover have "cook_spec ?t (q_list (read_q ?t)) (cooked_of ?t) = (q_list (read_q ?t), cooked_of ?t)"
      using True fst_c by (cases "q_list (read_q ?t)") auto
    ultimately show ?thesis using Suc.prems(1) by simp
  next
    case False
    then obtain c cs where l: "q_list (read_q ?t) = c # cs" by (cases "q_list (read_q ?t)") auto
    obtain q where g: "GETCH (read_q ?t) = (c, q)" "q_list q = cs"
      using q_list_GETCH[OF ok(1) l] by (cases "GETCH (read_q ?t)") auto
    let ?w = "upd_tty (\<lambda>t. t\<lparr>read_q := q\<rparr>) w"
    have "q_ok q" using q_ok_ops(2)[OF ok(1)] g(1) by simp
    then have cw: "calm ?w" using Suc.prems(1) calm_ok[OF Suc.prems(1)] by (intro calm_upd) (auto simp: tty_q_ok_def)
    have "length (q_list (secondary ?t)) < 1023"
      using False q_len_less[OF ok(2)] by (simp del: length_q_list add: length_q_list[of "secondary ?t"])
    moreover have "unat c < 128" using Suc.prems(2) l by simp
    ultimately obtain w1 where w1: "cook_char m wr c ?w = Inr w1"
      "cooks ?w w1 (cook_spec1 (w_tty ?w) c (cooked_of (w_tty ?w)))"
      using cook_char_calm[OF cw _ _ assms(4), of c] by auto
    have tm: "tty_termios (w_tty w1) = tty_termios ?t" and r1: "q_list (read_q (w_tty w1)) = cs" and c1: "calm w1"
      and s1: "w_sched w1 = w_sched w" "q_proc_list (secondary (w_tty w1)) = q_proc_list (secondary ?t)"
      using w1(2) g(2) by (simp_all add: cooks_def)
    have k1: "cooked_of (w_tty w1) = cook_spec1 ?t c (cooked_of ?t)"
      using w1(2) cook_spec1_termios[of "?t\<lparr>read_q := q\<rparr>" ?t] by (simp add: cooks_def cooked_of_def)
    have "\<forall>c \<in> set (q_list (read_q (w_tty w1))). unat c < 128" "length (q_list (read_q (w_tty w1))) < n"
      using Suc.prems(2,3) l r1 by (simp_all del: length_q_list)
    from Suc.IH[OF c1 this] obtain w' where w': "cook_loop n m wr w1 = Inr w'" "calm w'" "w_sched w' = w_sched w1"
      "tty_termios (w_tty w') = tty_termios (w_tty w1)"
      "q_proc_list (secondary (w_tty w')) = q_proc_list (secondary (w_tty w1))"
      "(q_list (read_q (w_tty w')), cooked_of (w_tty w')) = cook_spec (w_tty w1) cs (cook_spec1 ?t c (cooked_of ?t))"
      unfolding r1 k1 by blast
    have "cook_loop (Suc n) m wr w = Inr w'"
      using False EMPTY_iff[OF ok(1)] FULL_iff[OF ok(2)] g(1) w1(1) w'(1) by simp
    moreover have "cook_spec ?t (q_list (read_q ?t)) (cooked_of ?t) = cook_spec (w_tty w1) cs (cook_spec1 ?t c (cooked_of ?t))"
      using False fst_c cook_spec_termios[OF tm, of cs "cook_spec1 ?t c (cooked_of ?t)"] by (simp add: l)
    ultimately show ?thesis using w'(2-6) s1 tm by simp
  qed
qed simp

end

text \<open>The console driver is calm in its ground state with no ESC in its queue.\<close>

definition con_calm :: "world \<Rightarrow> bool" where
  "con_calm w \<longleftrightarrow> world_ok w \<and> esc_state (w_con w) = 0 \<and> 27 \<notin> set (q_list (write_q (w_tty w)))"

lemma scrup_esc [simp]: "esc_state (scrup s) = esc_state s"
  by (simp add: scrup_def scr_region_up_def move_up_erase_def set_origin_def Let_def)

lemma lf_esc [simp]: "esc_state (lf s) = esc_state s"
  by (simp add: lf_def)

lemma con_plain_esc: "c \<noteq> 27 \<Longrightarrow> esc_state (con_plain e c s) = esc_state s"
  by (simp add: con_plain_def put_glyph_def wrap_line_def cr_def del_def tab_def Let_def)

lemma con_loop_calm:
  assumes "con_calm w" and "length (q_list (write_q (w_tty w))) = n"
  shows "\<exists>w' q. con_loop cook n w = Inr w' \<and> con_calm w' \<and> w_sched w' = w_sched w
    \<and> w_tty w' = (w_tty w)\<lparr>write_q := q\<rparr>"
  using assms
proof (induction n arbitrary: w)
  case 0
  then show ?case by (auto intro!: exI[of _ "write_q (w_tty w)"])
next
  case (Suc n)
  let ?t = "w_tty w"
  have ok: "q_ok (write_q ?t)" using Suc.prems(1) by (simp add: con_calm_def world_ok_def tty_q_ok_def)
  obtain c cs where l: "q_list (write_q ?t) = c # cs" using Suc.prems(2) by (cases "q_list (write_q ?t)") auto
  obtain q where g: "GETCH (write_q ?t) = (c, q)" "q_list q = cs"
    using q_list_GETCH[OF ok l] by (cases "GETCH (write_q ?t)") auto
  have "q_ok q" using q_ok_ops(2)[OF ok] g(1) by simp
  let ?w = "w\<lparr>w_tty := ?t\<lparr>write_q := q\<rparr>, w_con := con_plain (ERASE_CHAR ?t) c (w_con w)\<rparr>"
  have c: "c \<noteq> 27" "27 \<notin> set cs" using Suc.prems(1) l by (auto simp: con_calm_def)
  have "con_ok (con_plain (ERASE_CHAR ?t) c (w_con w))"
    using Suc.prems(1) by (auto simp: con_calm_def world_ok_def intro: con_safe_ok con_plain_safe)
  then have "con_calm ?w"
    using Suc.prems(1) c g(2) \<open>q_ok q\<close> by (simp add: con_calm_def world_ok_def tty_q_ok_def con_plain_esc)
  moreover have "con_loop cook (Suc n) w = con_loop cook n ?w"
    using Suc.prems(1) by (simp add: g(1) con_char_def con_calm_def Let_def ERASE_CHAR_def)
  moreover have "length (q_list (write_q (w_tty ?w))) = n" using Suc.prems(2) g(2) l by (simp del: length_q_list)
  ultimately obtain w' q' where "con_loop cook (Suc n) w = Inr w'" "con_calm w'" "w_sched w' = w_sched w"
      "w_tty w' = ?t\<lparr>write_q := q'\<rparr>"
    using Suc.IH[of ?w] by auto
  then show ?case by blast
qed

lemma con_write_calm:
  assumes "con_calm w"
  shows "\<exists>w' q. con_write cook w = Inr w' \<and> con_calm w' \<and> w_sched w' = w_sched w
    \<and> w_tty w' = (w_tty w)\<lparr>write_q := q\<rparr>"
proof -
  have "q_ok (write_q (w_tty w))" using assms by (simp add: con_calm_def world_ok_def tty_q_ok_def)
  then have n: "unat (CHARS (write_q (w_tty w))) = length (q_list (write_q (w_tty w)))" by (simp add: unat_CHARS)
  obtain w1 q where w1: "con_loop cook (unat (CHARS (write_q (w_tty w)))) w = Inr w1" "con_calm w1"
      "w_sched w1 = w_sched w" "w_tty w1 = (w_tty w)\<lparr>write_q := q\<rparr>"
    using con_loop_calm[OF assms refl, of cook] unfolding n by blast
  then have "con_calm (w1\<lparr>w_con := set_cursor (w_con w1)\<rparr>)"
    using set_cursor_safe con_safe_ok by (auto simp: con_calm_def world_ok_def set_cursor_def con_ok_def)
  with w1 show ?thesis by (auto simp: con_write_def)
qed

lemma set_PUTCH: "q_ok q \<Longrightarrow> set (q_list (PUTCH c q)) \<subseteq> insert c (set (q_list q))"
  using q_list_PUTCH[of q c] q_list_PUTCH_full[of q c] q_len_less[of q] by (cases "q_len q < 1023") auto

interpretation calm_con: calm_driver "con_write_n (Suc d) fuel" con_calm for d fuel
proof unfold_locales
  fix w f c
  show "con_calm w \<Longrightarrow> tty_q_ok (w_tty w)" by (simp add: con_calm_def world_ok_def)
  show "con_calm w \<Longrightarrow> \<exists>w' q. con_write_n (Suc d) fuel w = Inr w' \<and> con_calm w' \<and> w_sched w' = w_sched w
      \<and> w_tty w' = (w_tty w)\<lparr>write_q := q\<rparr>"
    unfolding con_write_n.simps(2) by (rule con_write_calm)
  show "con_calm w \<Longrightarrow> c \<noteq> 27 \<Longrightarrow> con_calm (put_write c w)"
    using set_PUTCH[of "write_q (w_tty w)" c]
    by (auto simp: con_calm_def world_ok_def tty_q_ok_def put_write_def upd_tty_def)
  show "con_calm w \<Longrightarrow> write_q (f (w_tty w)) = write_q (w_tty w) \<Longrightarrow> tty_q_ok (f (w_tty w)) \<Longrightarrow> con_calm (upd_tty f w)"
    by (simp add: con_calm_def world_ok_def upd_tty_def)
qed

lemma tty_interrupt_cooks:
  assumes "con_calm w" and "\<forall>c \<in> set (q_list (read_q (w_tty w))). unat c < 128" and "1024 \<le> fuel"
  shows "\<exists>w'. do_tty_interrupt (Suc d) fuel w = Inr w'
    \<and> (q_list (read_q (w_tty w')), cooked_of (w_tty w'))
        = cook_spec (w_tty w) (q_list (read_q (w_tty w))) (cooked_of (w_tty w))
    \<and> (q_proc_list (secondary (w_tty w')), w_sched w') = wake_up (q_proc_list (secondary (w_tty w))) (w_sched w)
    \<and> tty_termios (w_tty w') = tty_termios (w_tty w)"
proof -
  have "q_ok (read_q (w_tty w))" using assms(1) by (simp add: con_calm_def world_ok_def tty_q_ok_def)
  from q_len_less[OF this] have "length (q_list (read_q (w_tty w))) < fuel" using assms(3) by simp
  moreover have "1023 < fuel" using assms(3) by simp
  ultimately obtain w1 where "cook_loop fuel fuel (con_write_n (Suc d) fuel) w = Inr w1" and w1: "w_sched w1 = w_sched w"
      "tty_termios (w_tty w1) = tty_termios (w_tty w)"
      "q_proc_list (secondary (w_tty w1)) = q_proc_list (secondary (w_tty w))"
      "(q_list (read_q (w_tty w1)), cooked_of (w_tty w1)) = cook_spec (w_tty w) (q_list (read_q (w_tty w))) (cooked_of (w_tty w))"
    using calm_con.cook_loop_calm[OF assms(1,2), of fuel fuel d fuel] by blast
  then have "do_tty_interrupt (Suc d) fuel w = Inr (wake_readers w1)"
    by (simp add: do_tty_interrupt_def copy_to_cooked_def del: con_write_n.simps)
  moreover have "cooked_of (w_tty (wake_readers w1)) = cooked_of (w_tty w1)"
    "read_q (w_tty (wake_readers w1)) = read_q (w_tty w1)" "tty_termios (w_tty (wake_readers w1)) = tty_termios (w_tty w1)"
    "(q_proc_list (secondary (w_tty (wake_readers w1))), w_sched (wake_readers w1))
       = wake_up (q_proc_list (secondary (w_tty w1))) (w_sched w1)"
    by (simp_all add: wake_readers_def cooked_of_def q_list_def q_len_def split: prod.split)
  ultimately show ?thesis using w1 by simp
qed

section \<open>Properties of the line discipline\<close>

text \<open>C37: A keyboard interrupt on a terminal whose console is in its ground state always returns when
  the keys typed are ASCII. The raw queue is consumed as far as the cooked queue has room, and the
  cooked characters, the count of line ends and the stop flag are those of a list function: mapped CR
  and NL, lower case if asked for, erase and kill within the current line, flow control and
  signal keys swallowed. The readers' wait queue is woken.\<close>

theorem do_tty_interrupt_cooks:
  assumes "con_calm w" and "\<forall>c \<in> set (q_list (read_q (w_tty w))). unat c < 128" and "1024 \<le> fuel"
  shows "\<exists>w'. do_tty_interrupt (Suc d) fuel w = Inr w'
    \<and> (q_list (read_q (w_tty w')), cooked_of (w_tty w'))
        = cook_spec (w_tty w) (q_list (read_q (w_tty w))) (cooked_of (w_tty w))
    \<and> (q_proc_list (secondary (w_tty w')), w_sched w') = wake_up (q_proc_list (secondary (w_tty w))) (w_sched w)
    \<and> tty_termios (w_tty w') = tty_termios (w_tty w)"
  using assms by (rule tty_interrupt_cooks)

text \<open>The terminal after the keys a, b, rubout, return.\<close>

definition typed_world :: world where
  "typed_world = demo_world\<lparr>w_tty := tty_table0\<lparr>read_q := fold PUTCH [97, 98, 127, 13] empty_queue\<rparr>\<rparr>"

lemma typed_fields:
  "read_q (w_tty typed_world) = fold PUTCH [97, 98, 127, 13] empty_queue" "w_con typed_world = con_init vga_boot zero_console"
  "write_q (w_tty typed_world) = empty_queue" "secondary (w_tty typed_world) = empty_queue" "tty_stopped (w_tty typed_world) = 0"
  by (simp_all add: typed_world_def demo_world_def tty_table0_def)

lemma q_ok_empty: "q_ok empty_queue"
  by (simp add: empty_queue_def q_ok_def)

lemma q_list_empty: "q_list empty_queue = []"
  by (simp add: empty_queue_def q_list_def q_len_def)

lemma typed_calm: "con_calm typed_world"
proof -
  have "con_ok (con_init vga_boot zero_console)"
    using con_init_inv[of 80 vga_boot zero_console] by (simp add: vga_boot_def zero_console_def)
  moreover have "esc_state (con_init vga_boot zero_console) = 0"
    by (simp add: con_init_def Let_def zero_console_def gotoxy_def)
  ultimately show ?thesis
    unfolding con_calm_def world_ok_def tty_q_ok_def typed_fields
    using q_ok_empty q_ok_fold_PUTCH q_list_empty by simp
qed

lemma typed_raw: "q_list (read_q (w_tty typed_world)) = [97, 98, 127, 13]"
  unfolding typed_fields by code_simp

lemma typed_cooked: "cook_spec (w_tty typed_world) [97, 98, 127, 13] (cooked_of (w_tty typed_world)) = ([], [97, 10], 1, 0)"
  unfolding cooked_of_def typed_fields q_list_empty typed_world_def by code_simp

theorem do_tty_interrupt_cooks_witness:
  "\<exists>w'. do_tty_interrupt (Suc 0) 1024 typed_world = Inr w' \<and> q_list (secondary (w_tty w')) = [97, 10]
    \<and> q_data (secondary (w_tty w')) = 1 \<and> q_list (read_q (w_tty w')) = []"
proof -
  have "\<forall>c \<in> set (q_list (read_q (w_tty typed_world))). unat c < 128" by (simp add: typed_raw)
  from do_tty_interrupt_cooks[OF typed_calm this, of 1024 0] show ?thesis
    unfolding typed_raw typed_cooked by (auto simp: cooked_of_def)
qed

theorem terminal_memory_safe_witness:
  "\<exists>w'. do_tty_interrupt (Suc 0) 1024 typed_world = Inr w' \<and> world_ok w' \<and> vmem (w_con w') 0x1000 = vmem (w_con typed_world) 0x1000"
proof -
  have "\<forall>c \<in> set (q_list (read_q (w_tty typed_world))). unat c < 128" by (simp add: typed_raw)
  from tty_interrupt_cooks[OF typed_calm this, of 1024 0] obtain w'
    where r: "do_tty_interrupt (Suc 0) 1024 typed_world = Inr w'" by auto
  have m: "unat (video_mem_start (w_con typed_world)) = 0xb8000"
    unfolding typed_fields by (simp add: con_init_def Let_def vga_boot_def gotoxy_def)
  have "world_ok typed_world" using typed_calm by (simp add: con_calm_def)
  from terminal_memory_safe[OF this disjI2[OF r]] r m show ?thesis by simp
qed

section \<open>What is written appears\<close>

text \<open>Output processing as a function: the characters that go to the console for one character written.\<close>

definition upper :: "u8 \<Rightarrow> u8" where
  "upper c = (case toupper c of Inr d \<Rightarrow> d | Inl _ \<Rightarrow> c)"

definition opost1 :: "tty_struct \<Rightarrow> u8 \<Rightarrow> u8 list" where
  "opost1 t b =
     (if O_POST t then
        (let c = (if b = 13 \<and> O_CRNL t then 10 else if b = 10 \<and> O_NLRET t then 13 else b)
         in (if c = 10 \<and> O_NLCR t then [13] else []) @ [if O_LCUC t then upper c else c])
      else [b])"

definition opost :: "tty_struct \<Rightarrow> u8 list \<Rightarrow> u8 list" where
  "opost t bs = concat (map (opost1 t) bs)"

lemma upper_ascii:
  assumes "unat c < 128"
  shows "toupper c = Inr (upper c)" "c \<noteq> 27 \<Longrightarrow> upper c \<noteq> 27"
proof -
  have c: "of_nat (unat c) = c" by simp
  have t: "toupper c = Inr (if unat c \<in> {97..122} then of_nat (unat c - 32) else c)" using case_ascii(2)[OF assms] by simp
  then show "toupper c = Inr (upper c)" by (simp add: upper_def)
  have "unat (of_nat (unat c - 32) :: u8) = unat c - 32" using assms by (simp add: unat_of_nat)
  then show "c \<noteq> 27 \<Longrightarrow> upper c \<noteq> 27" using t by (auto simp: upper_def word_unat_eq_iff)
qed

lemma opost_termios: "tty_termios t = tty_termios t' \<Longrightarrow> opost t bs = opost t' bs"
  unfolding opost_def opost1_def O_POST_def O_CRNL_def O_NLRET_def O_NLCR_def O_LCUC_def by (simp only:)

lemma opost_Cons: "opost t (b # bs) = opost1 t b @ opost t bs"
  by (simp add: opost_def)

lemma opost_no_esc: "\<forall>b \<in> set bs. unat b < 128 \<and> b \<noteq> 27 \<Longrightarrow> 27 \<notin> set (opost t bs)"
  by (induction bs) (auto simp: opost_def opost1_def Let_def upper_ascii(2) dest: sym)

lemma q_list_fold_PUTCH:
  assumes "q_ok q" and "q_len q + length bs \<le> 1023"
  shows "q_list (fold PUTCH bs q) = q_list q @ bs"
  using assms
proof (induction bs arbitrary: q)
  case (Cons b bs)
  then have "q_list (PUTCH b q) = q_list q @ [b]" "q_ok (PUTCH b q)" "q_len (PUTCH b q) + length bs \<le> 1023"
    by (simp_all add: q_list_PUTCH q_len_PUTCH)
  then show ?case using Cons.IH[of "PUTCH b q"] by simp
qed simp

lemma out_loop_opost:
  assumes "\<forall>b \<in> set bs. unat b < 128" and "q_ok (write_q t)" and "q_len (write_q t) + length (opost t bs) \<le> 1023"
  shows "out_loop False bs t = Inr (False, [], t\<lparr>write_q := fold PUTCH (opost t bs) (write_q t)\<rparr>)"
  using assms
proof (induction bs arbitrary: t)
  case Nil
  then show ?case by (subst out_loop.simps) (simp add: opost_def)
next
  case (Cons b bs)
  have nf: "\<not> FULL q" if "q_ok q" "q_len q < 1023" for q using that FULL_iff[of q] by simp
  let ?c = "if b = 13 \<and> O_CRNL t then 10 else if b = 10 \<and> O_NLRET t then 13 else b :: u8"
  have c: "unat ?c < 128" using Cons.prems(1) by simp
  note up = upper_ascii(1)[OF c]
  have rest: "out_loop False bs (t\<lparr>write_q := fold PUTCH (opost1 t b) (write_q t)\<rparr>) =
      Inr (False, [], t\<lparr>write_q := fold PUTCH (opost t (b # bs)) (write_q t)\<rparr>)"
  proof -
    let ?t = "t\<lparr>write_q := fold PUTCH (opost1 t b) (write_q t)\<rparr>"
    have "q_len (write_q t) + length (opost1 t b) \<le> 1023" using Cons.prems(3) by (simp add: opost_Cons)
    then have "length (q_list (fold PUTCH (opost1 t b) (write_q t))) = q_len (write_q t) + length (opost1 t b)"
      using q_list_fold_PUTCH[OF Cons.prems(2)] by simp
    moreover have "opost ?t bs = opost t bs" by (rule opost_termios) simp
    ultimately show ?thesis using Cons.IH[of ?t] Cons.prems by (simp add: opost_Cons q_ok_fold_PUTCH)
  qed
  show ?case
  proof (cases "O_POST t \<and> ?c = 10 \<and> O_NLCR t")
    case True
    let ?t = "t\<lparr>write_q := PUTCH 13 (write_q t)\<rparr>"
    have o: "opost1 t b = [13, if O_LCUC t then upper 10 else 10]" using True by (simp add: opost1_def Let_def)
    have l: "q_len (write_q t) + 2 \<le> 1023" using Cons.prems(3) by (simp add: opost_Cons o)
    have m: "O_POST ?t = O_POST t" "O_CRNL ?t = O_CRNL t" "O_NLRET ?t = O_NLRET t" "O_NLCR ?t = O_NLCR t" "O_LCUC ?t = O_LCUC t"
      by (simp_all add: O_POST_def O_CRNL_def O_NLRET_def O_NLCR_def O_LCUC_def)
    have "out_loop False (b # bs) t = out_loop True (b # bs) ?t"
      using True nf[OF Cons.prems(2)] l by (subst out_loop.simps) (simp add: Let_def)
    also have "\<dots> = out_loop False bs (t\<lparr>write_q := fold PUTCH (opost1 t b) (write_q t)\<rparr>)"
      using True nf[of "PUTCH 13 (write_q t)"] Cons.prems(2) l up upper_ascii(1)[of 10] unfolding o
      by (subst out_loop.simps) (auto simp: Let_def m q_len_PUTCH split: if_splits)
    finally show ?thesis using rest by simp
  next
    case False
    have o: "opost1 t b = [if O_POST t then (if O_LCUC t then upper ?c else ?c) else b]" using False by (auto simp: opost1_def Let_def)
    have l: "q_len (write_q t) < 1023" using Cons.prems(3) by (simp add: opost_Cons o)
    have "out_loop False (b # bs) t = out_loop False bs (t\<lparr>write_q := fold PUTCH (opost1 t b) (write_q t)\<rparr>)"
      using False nf[OF Cons.prems(2) l] up unfolding o by (subst out_loop.simps) (auto simp: Let_def)
    then show ?thesis using rest by simp
  qed
qed

lemma con_loop_shows:
  assumes "con_calm w" and "length (q_list (write_q (w_tty w))) = n"
  shows "\<exists>q. con_loop cook n w = Inr (w\<lparr>w_tty := (w_tty w)\<lparr>write_q := q\<rparr>,
    w_con := fold (con_plain (ERASE_CHAR (w_tty w))) (q_list (write_q (w_tty w))) (w_con w)\<rparr>) \<and> q_list q = [] \<and> q_ok q"
  using assms
proof (induction n arbitrary: w)
  case 0
  moreover have "q_ok (write_q (w_tty w))" using 0(1) by (simp add: con_calm_def world_ok_def tty_q_ok_def)
  ultimately show ?case by (auto simp del: length_q_list intro!: exI[of _ "write_q (w_tty w)"])
next
  case (Suc n)
  let ?t = "w_tty w"
  have ok: "q_ok (write_q ?t)" using Suc.prems(1) by (simp add: con_calm_def world_ok_def tty_q_ok_def)
  obtain c bs where l: "q_list (write_q ?t) = c # bs" using Suc.prems(2) by (cases "q_list (write_q ?t)") auto
  obtain q where g: "GETCH (write_q ?t) = (c, q)" "q_list q = bs" using q_list_GETCH[OF ok l] by (cases "GETCH (write_q ?t)") auto
  have "q_ok q" using q_ok_ops(2)[OF ok] g(1) by simp
  let ?w = "w\<lparr>w_tty := ?t\<lparr>write_q := q\<rparr>, w_con := con_plain (ERASE_CHAR ?t) c (w_con w)\<rparr>"
  have c: "c \<noteq> 27" "27 \<notin> set bs" using Suc.prems(1) l by (auto simp: con_calm_def)
  have "con_ok (con_plain (ERASE_CHAR ?t) c (w_con w))"
    using Suc.prems(1) by (auto simp: con_calm_def world_ok_def intro: con_safe_ok con_plain_safe)
  then have "con_calm ?w" using Suc.prems(1) c g(2) \<open>q_ok q\<close> by (simp add: con_calm_def world_ok_def tty_q_ok_def con_plain_esc)
  moreover have "con_loop cook (Suc n) w = con_loop cook n ?w"
    using Suc.prems(1) by (simp add: g(1) con_char_def con_calm_def Let_def ERASE_CHAR_def)
  moreover have "length (q_list (write_q (w_tty ?w))) = n" using Suc.prems(2) g(2) l by (simp del: length_q_list)
  ultimately show ?case using Suc.IH[of ?w] g(2) by (auto simp: l ERASE_CHAR_def)
qed

lemma con_write_shows:
  assumes "con_calm w"
  shows "\<exists>q. con_write cook w = Inr (w\<lparr>w_tty := (w_tty w)\<lparr>write_q := q\<rparr>,
    w_con := set_cursor (fold (con_plain (ERASE_CHAR (w_tty w))) (q_list (write_q (w_tty w))) (w_con w))\<rparr>) \<and> q_list q = [] \<and> q_ok q"
proof -
  have "q_ok (write_q (w_tty w))" using assms by (simp add: con_calm_def world_ok_def tty_q_ok_def)
  then have "unat (CHARS (write_q (w_tty w))) = length (q_list (write_q (w_tty w)))" by (simp add: unat_CHARS)
  then show ?thesis using con_loop_shows[OF assms refl, of cook] by (auto simp: con_write_def simp del: length_q_list)
qed

text \<open>Text that fits in the write queue is taken in one round: no sleep and no reschedule.\<close>

lemma tty_write_shows:
  assumes calm: "con_calm w" and e: "q_list (write_q (w_tty w)) = []" and a: "\<forall>b \<in> set bs. unat b < 128 \<and> b \<noteq> 27"
    and n: "length (opost (w_tty w) bs) \<le> 1023"
  shows "\<exists>q. tty_write (Suc (Suc k)) doze resched (con_write_n (Suc d) fuel) 0 bs (int (length bs)) False w =
    Inr (int (length bs), False, if bs = [] then w else w\<lparr>w_tty := (w_tty w)\<lparr>write_q := q\<rparr>,
      w_con := set_cursor (fold (con_plain (ERASE_CHAR (w_tty w))) (opost (w_tty w) bs) (w_con w))\<rparr>) \<and> q_list q = []"
proof (cases "bs = []")
  case True
  then show ?thesis using e by (auto simp: tty_write_def)
next
  case False
  let ?t = "w_tty w" and ?q = "fold PUTCH (opost (w_tty w) bs) (write_q (w_tty w))"
  have ok: "q_ok (write_q ?t)" using calm by (simp add: con_calm_def world_ok_def tty_q_ok_def)
  have l: "q_len (write_q ?t) = 0" using e length_q_list[of "write_q ?t"] by simp
  have nf: "\<not> FULL (write_q ?t)" using FULL_iff[OF ok] e by simp
  have o: "out_loop False bs ?t = Inr (False, [], ?t\<lparr>write_q := ?q\<rparr>)" using a n l ok by (intro out_loop_opost) auto
  have q: "q_list ?q = opost ?t bs" using q_list_fold_PUTCH[OF ok, of "opost ?t bs"] e l n by simp
  let ?w = "w\<lparr>w_tty := ?t\<lparr>write_q := ?q\<rparr>\<rparr>"
  have "con_calm ?w" using calm opost_no_esc[OF a, of ?t] ok by (simp add: con_calm_def world_ok_def tty_q_ok_def q q_ok_fold_PUTCH)
  from con_write_shows[OF this, of "copy_to_cooked fuel (con_write_n d fuel)"] obtain q
    where "con_write_n (Suc d) fuel ?w = Inr (w\<lparr>w_tty := ?t\<lparr>write_q := q\<rparr>,
      w_con := set_cursor (fold (con_plain (ERASE_CHAR ?t)) (opost ?t bs) (w_con w))\<rparr>)" "q_list q = []"
    by (auto simp: q ERASE_CHAR_def)
  then show ?thesis using False nf o by (intro exI[of _ q]) (simp add: tty_write_def sleep_if_full_def)
qed

end
