(* ===== verification/Screen.thy ===== *)
theory Screen
  imports Console
begin

text \<open>
  What the user of the console sees: an abstract screen of rows of cells, with a cursor, and what printing a character on
  it means, against which the operations of theory Console on the video memory are proved. A cell is a character and
  its attribute; neither addresses, nor the video memory's wrap-around, nor the way the screen is scrolled appear here.
\<close>

section \<open>The abstract screen\<close>

record screen =
  sc_rows :: "(u8 \<times> u8) list list"
  sc_row :: nat
  sc_col :: nat
  sc_width :: nat
  sc_top :: nat
  sc_bottom :: nat
  sc_attr :: u8
  sc_blank :: "u8 \<times> u8"

text \<open>The lines from \<open>sc_top\<close> up to, not including, \<open>sc_bottom\<close> scroll: the first goes, a blank one comes.\<close>

definition scroll_lines :: "nat \<Rightarrow> nat \<Rightarrow> 'a \<Rightarrow> 'a list \<Rightarrow> 'a list" where
  "scroll_lines t b blank rows = take t rows @ drop (Suc t) (take b rows) @ [blank] @ drop b rows"

definition line_feed :: "screen \<Rightarrow> screen" where
  "line_feed d =
     (if sc_row d + 1 < sc_bottom d then d\<lparr>sc_row := sc_row d + 1\<rparr>
      else d\<lparr>sc_rows := scroll_lines (sc_top d) (sc_bottom d) (replicate (sc_width d) (sc_blank d)) (sc_rows d)\<rparr>)"

definition put_cell :: "u8 \<times> u8 \<Rightarrow> screen \<Rightarrow> screen" where
  "put_cell v d = d\<lparr>sc_rows := (sc_rows d)[sc_row d := (sc_rows d ! sc_row d)[sc_col d := v]]\<rparr>"

definition show_glyph :: "u8 \<Rightarrow> screen \<Rightarrow> screen" where
  "show_glyph c d =
     (let d1 = (if sc_col d < sc_width d then d else line_feed (d\<lparr>sc_col := 0\<rparr>))
      in (put_cell (c, sc_attr d1) d1)\<lparr>sc_col := sc_col d1 + 1\<rparr>)"

definition show_tab :: "screen \<Rightarrow> screen" where
  "show_tab d =
     (let x = 8 * (sc_col d div 8 + 1)
      in if x \<le> sc_width d then d\<lparr>sc_col := x\<rparr> else line_feed (d\<lparr>sc_col := x - sc_width d\<rparr>))"

text \<open>\<open>rub\<close> is the terminal's erase character.\<close>

definition show_char :: "u8 \<Rightarrow> u8 \<Rightarrow> screen \<Rightarrow> screen" where
  "show_char rub c d =
     (if 32 \<le> unat c \<and> unat c \<le> 126 then show_glyph c d
      else if c \<in> {10, 11, 12} then line_feed d
      else if c = 13 then d\<lparr>sc_col := 0\<rparr>
      else if c = 27 then d
      else if c = rub \<and> unat c \<le> 127 then
        (if sc_col d = 0 then d else put_cell (sc_blank d) (d\<lparr>sc_col := sc_col d - 1\<rparr>))
      else if c = 8 then d\<lparr>sc_col := sc_col d - 1\<rparr>
      else if c = 9 then show_tab d
      else d)"

section \<open>The screen in the video memory\<close>

definition cell :: "console \<Rightarrow> nat \<Rightarrow> nat \<Rightarrow> u8 \<times> u8" where
  "cell s y x =
     (let a = unat (origin s) + y * (2 * unat (video_num_columns s)) + 2 * x
      in (vmem s (of_nat a), vmem s (of_nat (a + 1))))"

definition screen_of :: "console \<Rightarrow> screen" where
  "screen_of s = \<lparr>
     sc_rows = map (\<lambda>y. map (cell s y) [0..<unat (video_num_columns s)]) [0..<unat (video_num_lines s)],
     sc_row = unat (con_y s), sc_col = unat (con_x s), sc_width = unat (video_num_columns s),
     sc_top = unat (top_line s), sc_bottom = unat (bottom_line s), sc_attr = attr s,
     sc_blank = (ucast (video_erase_char s), ucast (drop_bit 8 (video_erase_char s)))\<rparr>"

text \<open>The cell at which the CRT controller shows the cursor, counted from the start of the video memory.\<close>

definition crtc_cursor :: "console \<Rightarrow> nat" where
  "crtc_cursor s = 256 * unat (crtc s 14) + unat (crtc s 15)"

text \<open>It is the cursor's cell; the position register has 16 bits.\<close>

definition cursor_shown :: "console \<Rightarrow> bool" where
  "cursor_shown s \<longleftrightarrow> crtc_cursor s = ((unat (origin s) - unat (video_mem_start s)) div 2
     + sc_row (screen_of s) * sc_width (screen_of s) + sc_col (screen_of s)) mod 65536"

section \<open>Stores, one byte at a time\<close>

lemma st16_at:
  assumes "unat a + 2 \<le> 2 ^ 32"
  shows "st16 m a v x = (if unat x = unat a then ucast v else if unat x = unat a + 1 then ucast (drop_bit 8 v) else m x)"
proof -
  have "unat (a + 1) = unat a + 1" using assms by (intro unat_plus_num) simp
  then show ?thesis by (auto simp: st16_def word_unat_eq_iff)
qed

lemma stosw_at:
  assumes "unat a + 2 * n < 2 ^ 32"
  shows "stosw n m a v x =
    (if unat a \<le> unat x \<and> unat x < unat a + 2 * n then (if even (unat x - unat a) then ucast v else ucast (drop_bit 8 v)) else m x)"
  using assms
proof (induction n arbitrary: m a)
  case (Suc n)
  have a: "unat (a + 2) = unat a + 2" using Suc.prems by (intro unat_plus_num) simp
  have d: "even (unat x - (unat a + 2)) = even (unat x - unat a)" if "unat a + 2 \<le> unat x" using that by presburger
  have "unat x = unat a \<or> unat x = unat a + 1 \<or> unat x < unat a \<or> unat a + 2 \<le> unat x" by linarith
  then show ?case using Suc.IH[of "a + 2" "st16 m a v"] Suc.prems st16_at[of a m v x] d by (auto simp: a)
qed auto

lemma movsl_at:
  assumes "unat dst \<le> unat src" and "unat src + 4 * n < 2 ^ 32"
  shows "movsl n m dst src x =
    (if unat dst \<le> unat x \<and> unat x < unat dst + 4 * n then m (of_nat (unat x + unat src - unat dst)) else m x)"
proof -
  have l: "unat (src - dst) + 4 * n \<le> 2 ^ 32" using assms by (simp add: unat_minus)
  have "src + (x - dst) = of_nat (unat x + unat src - unat dst)" if "unat dst \<le> unat x"
    using that assms(1) by (simp add: of_nat_diff algebra_simps)
  moreover have "unat (x - dst) < 4 * n \<longleftrightarrow> unat dst \<le> unat x \<and> unat x < unat dst + 4 * n"
  proof (cases "unat dst \<le> unat x")
    case True
    then show ?thesis by (auto simp: unat_minus)
  next
    case False
    then have "unat (x - dst) = 2 ^ 32 + unat x - unat dst" by (simp add: unat_minus_eq word_le_nat_alt)
    then show ?thesis using False assms unat_u32_lt[of dst] by auto
  qed
  ultimately show ?thesis using movsl_apply[OF l, of m x] by (auto simp: add_diff_eq add.commute)
qed

section \<open>Cells\<close>

lemma screen_eqI:
  assumes "video_num_columns s' = video_num_columns s" "video_num_lines s' = video_num_lines s"
    "\<And>y x. y < unat (video_num_lines s) \<Longrightarrow> x < unat (video_num_columns s) \<Longrightarrow> cell s' y x = R ! y ! x"
    "length R = unat (video_num_lines s)" "\<And>y. y < unat (video_num_lines s) \<Longrightarrow> length (R ! y) = unat (video_num_columns s)"
  shows "sc_rows (screen_of s') = R"
  unfolding screen_of_def using assms by (auto intro!: nth_equalityI)

lemma screen_fields [simp]:
  "sc_row (screen_of s) = unat (con_y s)" "sc_col (screen_of s) = unat (con_x s)" "sc_width (screen_of s) = unat (video_num_columns s)"
  "sc_top (screen_of s) = unat (top_line s)" "sc_bottom (screen_of s) = unat (bottom_line s)" "sc_attr (screen_of s) = attr s"
  "sc_blank (screen_of s) = (ucast (video_erase_char s), ucast (drop_bit 8 (video_erase_char s)))"
  "length (sc_rows (screen_of s)) = unat (video_num_lines s)"
  "y < unat (video_num_lines s) \<Longrightarrow> length (sc_rows (screen_of s) ! y) = unat (video_num_columns s)"
  "y < unat (video_num_lines s) \<Longrightarrow> x < unat (video_num_columns s) \<Longrightarrow> sc_rows (screen_of s) ! y ! x = cell s y x"
  by (simp_all add: screen_of_def)

lemma scroll_lines_nth:
  assumes "t < b" and "b \<le> length rows"
  shows "length (scroll_lines t b z rows) = length rows"
    "y < length rows \<Longrightarrow> scroll_lines t b z rows ! y = (if t \<le> y \<and> y + 1 < b then rows ! (y + 1) else if y + 1 = b then z else rows ! y)"
proof -
  show "length (scroll_lines t b z rows) = length rows" using assms by (simp add: scroll_lines_def)
  show "scroll_lines t b z rows ! y = (if t \<le> y \<and> y + 1 < b then rows ! (y + 1) else if y + 1 = b then z else rows ! y)" if "y < length rows"
    using assms that by (auto simp: scroll_lines_def nth_append nth_Cons' min_def)
qed

lemma move_up_at:
  assumes "unat d \<le> unat src" and "unat src + 4 * unat n < 2 ^ 32" and "unat d + 4 * unat n + 2 * unat (video_num_columns s) < 2 ^ 32"
  shows "vmem (move_up_erase n d src s) x =
    (if unat d \<le> unat x \<and> unat x < unat d + 4 * unat n then vmem s (of_nat (unat x + unat src - unat d))
     else if unat d + 4 * unat n \<le> unat x \<and> unat x < unat d + 4 * unat n + 2 * unat (video_num_columns s)
     then (if even (unat x - (unat d + 4 * unat n)) then ucast (video_erase_char s) else ucast (drop_bit 8 (video_erase_char s)))
     else vmem s x)"
proof -
  have "unat (4 * n) = 4 * unat n" using assms by (intro unat_4_times_u32) simp
  then have e: "unat (d + 4 * n) = unat d + 4 * unat n" using assms by (subst unat_plus) simp_all
  show ?thesis unfolding move_up_erase_def using stosw_at[of "d + 4 * n" "unat (video_num_columns s)"] movsl_at[OF assms(1,2)] assms(3) e by auto
qed

lemma cellI:
  assumes "\<And>k. k < 2 \<Longrightarrow> vmem s (of_nat (unat (origin s) + y * (2 * unat (video_num_columns s)) + 2 * x + k)) = (if k = 0 then fst v else snd v)"
  shows "cell s y x = v"
  using assms[of 0] assms[of 1] by (simp add: cell_def Let_def prod_eq_iff)

lemma cell_byte: "k < 2 \<Longrightarrow> (if k = 0 then fst (cell s y x) else snd (cell s y x)) = vmem s (of_nat (unat (origin s) + y * (2 * unat (video_num_columns s)) + 2 * x + k))"
  by (cases k) (auto simp: cell_def Let_def)

text \<open>The two ways to scroll have the same effect on the screen.\<close>

abbreviation (input) blank_of :: "console \<Rightarrow> u8 \<times> u8" where
  "blank_of s \<equiv> (ucast (video_erase_char s), ucast (drop_bit 8 (video_erase_char s)))"

lemma even_rows: "even C \<Longrightarrow> 4 * (n * C div 2) = n * (2 * C)" for C :: nat
  by (auto elim!: evenE)

lemma region_count_even:
  assumes "con_ok s" and "even (unat (video_num_columns s))"
  shows "4 * unat (drop_bit 1 ((bottom_line s - top_line s - 1) * video_num_columns s))
    = (unat (bottom_line s) - unat (top_line s) - 1) * (2 * unat (video_num_columns s))"
  unfolding unat_drop_bit_1 region_cells[OF assms(1)] by (rule even_rows[OF assms(2)])

lemma full_count_even:
  assumes "con_ok s" and "even (unat (video_num_columns s))"
  shows "4 * unat (drop_bit 1 ((video_num_lines s - 1) * video_num_columns s)) = (unat (video_num_lines s) - 1) * (2 * unat (video_num_columns s))"
  unfolding unat_drop_bit_1 screen_cells(1)[OF assms(1)] by (rule even_rows[OF assms(2)])

text \<open>Rows \<open>t\<close> to \<open>b - 2\<close> at \<open>d\<close> are copied from one row further on in the old screen, row \<open>b - 1\<close> is cleared.\<close>

lemma moved_cell:
  assumes ok: "con_ok s" and y: "y < unat (video_num_lines s)" and x: "x < unat (video_num_columns s)" and C: "unat (video_num_columns s) = C"
    and d: "unat d = B + t * (2 * C)" and src: "unat src = unat (origin s) + (t + 1) * (2 * C)" and le: "B \<le> unat (origin s)"
    and n: "4 * unat n = (b - t - 1) * (2 * C)" and tb: "t < b" "b \<le> unat (video_num_lines s)" and k: "k < 2"
  shows "vmem (move_up_erase n d src s) (of_nat (B + y * (2 * C) + 2 * x + k)) =
    (if t \<le> y \<and> y + 1 < b then vmem s (of_nat (unat (origin s) + (y + 1) * (2 * C) + 2 * x + k))
     else if y + 1 = b then (if k = 0 then fst (blank_of s) else snd (blank_of s))
     else vmem s (of_nat (B + y * (2 * C) + 2 * x + k)))"
proof -
  define w where "w = 2 * C"
  define a where "a = B + y * w + 2 * x + k"
  have e: "unat (video_mem_end s) \<le> 0x100000" "unat (origin s) + unat (video_num_lines s) * w \<le> unat (video_mem_end s)"
    using ok C by (auto simp: con_ok_def w_def)
  have yw: "y * w + w \<le> unat (video_num_lines s) * w" using y by (rule rows_le)
  have bw: "t * w + (b - t - 1) * w + w = b * w" "b * w \<le> unat (video_num_lines s) * w" using rows_split[OF tb(1)] tb(2) by simp_all
  have xk: "2 * x + k < w" using x C k by (simp add: w_def)
  have a2: "a < B + y * w + w" using xk by (simp add: a_def)
  then have "a < 2 ^ 32" using yw e le by simp
  with a2 have a: "unat (of_nat a :: u32) = a" "a < B + y * w + w" by (simp_all add: unat_of_nat)
  have n4: "4 * unat n = (b - t - 1) * w" and d': "unat d = B + t * w" and s': "unat src = unat (origin s) + t * w + w"
    using n d src by (simp_all add: w_def)
  have cw: "2 * unat (video_num_columns s) = w" by (simp add: C w_def)
  have p1: "unat d \<le> unat src" using d' s' le by linarith
  have "(0x100000 :: nat) < 2 ^ 32" by simp
  then have p2: "unat src + 4 * unat n < 2 ^ 32" and p3: "unat d + 4 * unat n + 2 * unat (video_num_columns s) < 2 ^ 32"
    unfolding cw using d' s' n4 bw le e by linarith+
  have m: "vmem (move_up_erase n d src s) (of_nat a) =
    (if unat d \<le> a \<and> a < unat d + 4 * unat n then vmem s (of_nat (a + unat src - unat d))
     else if unat d + 4 * unat n \<le> a \<and> a < unat d + 4 * unat n + w
     then (if even (a - (unat d + 4 * unat n)) then ucast (video_erase_char s) else ucast (drop_bit 8 (video_erase_char s)))
     else vmem s (of_nat a))"
    using move_up_at[OF p1 p2 p3, of "of_nat a"] unfolding a(1) cw .
  consider (up) "t \<le> y" "y + 1 < b" | (new) "y + 1 = b" | (over) "y < t" | (under) "b \<le> y" using tb by linarith
  then have "vmem (move_up_erase n d src s) (of_nat a) =
    (if t \<le> y \<and> y + 1 < b then vmem s (of_nat (unat (origin s) + y * w + w + 2 * x + k))
     else if y + 1 = b then (if k = 0 then fst (blank_of s) else snd (blank_of s)) else vmem s (of_nat a))"
  proof cases
    case up
    have "t * w \<le> y * w" "y * w + w + w \<le> b * w" using up rows_le[of "y + 1" b w] by simp_all
    then have "unat d \<le> a" "a < unat d + 4 * unat n" "a + unat src - unat d = unat (origin s) + y * w + w + 2 * x + k"
      using a(2) d' s' n4 bw le unfolding a_def by linarith+
    with up m show ?thesis by simp
  next
    case new
    have "b * w = y * w + w" unfolding new[symmetric] by simp
    then have "unat d + 4 * unat n = B + y * w" using d' n4 bw by linarith
    with new m k xk show ?thesis by (auto simp: a_def less_2_cases_iff)
  next
    case over
    have "y * w + w \<le> t * w" using over by (rule rows_le)
    then have "a < unat d" using a(2) d' by simp
    with over m tb show ?thesis by simp
  next
    case under
    have "b * w \<le> y * w" using under by simp
    then have "unat d + 4 * unat n + w \<le> a" using d' n4 bw unfolding a_def by linarith
    with under m tb show ?thesis by simp
  qed
  moreover have "B + y * (2 * C) + 2 * x + k = a" "unat (origin s) + (y + 1) * (2 * C) + 2 * x + k = unat (origin s) + y * w + w + 2 * x + k"
    by (simp_all add: a_def w_def)
  ultimately show ?thesis by (simp only:)
qed

lemma scr_region_up_cell:
  assumes "con_ok s" and "even (unat (video_num_columns s))" and "y < unat (video_num_lines s)" and "x < unat (video_num_columns s)"
  shows "cell (scr_region_up s) y x = (if unat (top_line s) \<le> y \<and> y + 1 < unat (bottom_line s) then cell s (y + 1) x
    else if y + 1 = unat (bottom_line s) then blank_of s else cell s y x)"
proof (rule cellI)
  fix k :: nat
  assume k: "k < 2"
  have tb: "unat (top_line s) < unat (bottom_line s)" "unat (bottom_line s) \<le> unat (video_num_lines s)" using assms(1) by (auto simp: con_ok_def)
  have "unat (top_line s + 1) = unat (top_line s) + 1" using tb unat_u32_lt[of "bottom_line s"] by (intro unat_plus_num) simp
  then have r: "unat (origin s + video_size_row s * top_line s) = unat (origin s) + unat (top_line s) * (2 * unat (video_num_columns s))"
    "unat (origin s + video_size_row s * (top_line s + 1)) = unat (origin s) + (unat (top_line s) + 1) * (2 * unat (video_num_columns s))"
    using row_addr[OF assms(1), of "top_line s"] row_addr[OF assms(1), of "top_line s + 1"] tb by simp_all
  note M = moved_cell[OF assms(1,3,4) refl r(1,2) order_refl region_count_even[OF assms(1,2)] tb k]
  have "origin (scr_region_up s) = origin s" "video_num_columns (scr_region_up s) = video_num_columns s" by (simp_all add: scr_region_up_def move_up_erase_def)
  then show "vmem (scr_region_up s) (of_nat (unat (origin (scr_region_up s)) + y * (2 * unat (video_num_columns (scr_region_up s))) + 2 * x + k)) =
      (if k = 0 then fst (if unat (top_line s) \<le> y \<and> y + 1 < unat (bottom_line s) then cell s (y + 1) x else if y + 1 = unat (bottom_line s) then blank_of s else cell s y x)
       else snd (if unat (top_line s) \<le> y \<and> y + 1 < unat (bottom_line s) then cell s (y + 1) x else if y + 1 = unat (bottom_line s) then blank_of s else cell s y x))"
    using M cell_byte[OF k, of s "y + 1" x] cell_byte[OF k, of s y x] by (auto simp: scr_region_up_def)
qed

lemma scroll_origin_cell:
  assumes "con_ok s" and "even (unat (video_num_columns s))" and "y < unat (video_num_lines s)" and "x < unat (video_num_columns s)"
    and "top_line s = 0" and "bottom_line s = video_num_lines s" and "video_type s = VIDEO_TYPE_EGAC \<or> video_type s = VIDEO_TYPE_EGAM"
  shows "cell (scrup s) y x = (if y + 1 < unat (video_num_lines s) then cell s (y + 1) x else blank_of s)"
proof -
  obtain C L S E O' where c: "unat (video_num_columns s) = C" "unat (video_size_row s) = 2 * C"
    "unat (video_num_lines s) = L" "unat (video_mem_start s) = S" "unat (video_mem_end s) = E" "unat (origin s) = O'"
    "unat (scr_end s) = O' + L * (2 * C)" "8 \<le> C" "S \<le> O'" "O' + L * (2 * C) \<le> E" "E \<le> 0x100000"
    by (rule con_okE[OF assms(1)]) blast
  define s1 where "s1 = s\<lparr>origin := origin s + video_size_row s, pos := pos s + video_size_row s,
                      scr_end := scr_end s + video_size_row s\<rparr>"
  have rw: "y * (2 * C) + 2 * C \<le> L * (2 * C)" using assms(3) c by (intro rows_le) simp
  have xk: "2 * x + k < 2 * C" if "k < 2" for k using assms(4) c that by simp
  have o: "unat (origin s1) = O' + 2 * C" unfolding s1_def using c rw by (simp, subst unat_plus) linarith+
  have e: "unat (scr_end s1) = O' + L * (2 * C) + 2 * C" unfolding s1_def using c rw by (simp, subst unat_plus) linarith+
  have s1: "video_num_columns s1 = video_num_columns s" "video_num_lines s1 = video_num_lines s"
    "video_mem_start s1 = video_mem_start s" "video_mem_end s1 = video_mem_end s" "vmem s1 = vmem s" "video_erase_char s1 = video_erase_char s"
    "video_size_row s1 = video_size_row s" by (simp_all add: s1_def)
  have scr: "scrup s = set_origin (if video_mem_end s1 < scr_end s1
      then (let s2 = move_up_erase (drop_bit 1 ((video_num_lines s1 - 1) * video_num_columns s1))
                               (video_mem_start s1) (origin s1) s1;
                d = origin s2 - video_mem_start s2
            in s2\<lparr>scr_end := scr_end s2 - d, pos := pos s2 - d, origin := video_mem_start s2\<rparr>)
      else s1\<lparr>vmem := stosw (unat (video_num_columns s1)) (vmem s1)
                             (scr_end s1 - video_size_row s1) (video_erase_char s1)\<rparr>)"
    using assms(5-7) by (auto simp: scrup_def s1_def Let_def)
  have V: "(if k = 0 then fst (if y + 1 < unat (video_num_lines s) then cell s (y + 1) x else blank_of s) else snd (if y + 1 < unat (video_num_lines s) then cell s (y + 1) x else blank_of s))
      = (if y + 1 < L then vmem s (of_nat (O' + (y + 1) * (2 * C) + 2 * x + k)) else if k = 0 then fst (blank_of s) else snd (blank_of s))" if "k < 2" for k
    unfolding c(3) by (cases "y + 1 < L") (simp_all only: if_True if_False cell_byte[OF that, of s "y + 1" x, unfolded c(1,6)])
  show ?thesis
  proof (cases "video_mem_end s1 < scr_end s1")
    case True
    let ?n = "drop_bit 1 ((video_num_lines s - 1) * video_num_columns s)"
    have f: "vmem (scrup s) = vmem (move_up_erase ?n (video_mem_start s) (origin s1) s)" "origin (scrup s) = video_mem_start s"
      "video_num_columns (scrup s) = video_num_columns s"
      using True unfolding scr by (simp_all add: set_origin_def Let_def s1 move_up_erase_def)
    have M: "vmem (scrup s) (of_nat (S + y * (2 * C) + 2 * x + k)) = (if y + 1 < L then vmem s (of_nat (O' + (y + 1) * (2 * C) + 2 * x + k))
        else if k = 0 then fst (blank_of s) else snd (blank_of s))" if k: "k < 2" for k
      using moved_cell[OF assms(1,3,4) c(1), of "video_mem_start s" S 0 "origin s1" ?n L k] full_count_even[OF assms(1,2)] k o c assms(3) unfolding f by auto
    show ?thesis by (rule cellI, unfold f(2,3) c(1,4), subst M, assumption, rule V[symmetric])
  next
    case False
    then have f: "O' + L * (2 * C) + 2 * C \<le> E" using e c by (simp add: word_less_nat_alt s1)
    have r: "unat (scr_end s1 - video_size_row s1) = O' + L * (2 * C)"
      using e c s1 by (subst unat_minus) simp_all
    have g: "vmem (scrup s) = stosw C (vmem s) (scr_end s1 - video_size_row s1) (video_erase_char s)" "origin (scrup s) = origin s1"
      "video_num_columns (scrup s) = video_num_columns s"
      using False c unfolding scr by (simp_all add: set_origin_def Let_def s1)
    have M: "vmem (scrup s) (of_nat (O' + 2 * C + y * (2 * C) + 2 * x + k)) = (if y + 1 < L then vmem s (of_nat (O' + (y + 1) * (2 * C) + 2 * x + k))
        else if k = 0 then fst (blank_of s) else snd (blank_of s))" if k: "k < 2" for k
    proof -
      define a where "a = O' + 2 * C + y * (2 * C) + 2 * x + k"
      have "a < O' + L * (2 * C) + 2 * C" using rw xk[OF k] by (simp add: a_def)
      then have "a < 2 ^ 32" using c f by simp
      then have ua: "unat (of_nat a :: u32) = a" by (simp add: unat_of_nat)
      have st: "vmem (scrup s) (of_nat a) = (if O' + L * (2 * C) \<le> a then if even (a - (O' + L * (2 * C))) then ucast (video_erase_char s)
          else ucast (drop_bit 8 (video_erase_char s)) else vmem s (of_nat a))"
        unfolding g using stosw_at[of "scr_end s1 - video_size_row s1" C "vmem s" "video_erase_char s" "of_nat a"] r c f ua \<open>a < O' + L * (2 * C) + 2 * C\<close> by simp
      show ?thesis
      proof (cases "y + 1 < L")
        case y: True
        have "y * (2 * C) + 2 * C + 2 * C \<le> L * (2 * C)" using rows_le[OF y, of "2 * C"] by simp
        then have "\<not> O' + L * (2 * C) \<le> a" using xk[OF k] unfolding a_def by linarith
        with st y show ?thesis by (simp add: a_def algebra_simps)
      next
        case n: False
        then have "L = Suc y" using assms(3) c(3) by simp
        then have "a = O' + L * (2 * C) + 2 * x + k" by (simp add: a_def)
        with st n k show ?thesis by (auto simp: a_def[symmetric] less_2_cases_iff)
      qed
    qed
    show ?thesis by (rule cellI, unfold g(2,3) c(1) o, subst M, assumption, rule V[symmetric])
  qed
qed

section \<open>Each operation on the screen\<close>

lemma scrup_fields:
  "con_x (scrup s) = con_x s" "con_y (scrup s) = con_y s" "top_line (scrup s) = top_line s" "bottom_line (scrup s) = bottom_line s"
  "attr (scrup s) = attr s" "video_erase_char (scrup s) = video_erase_char s" "video_num_columns (scrup s) = video_num_columns s"
  "video_num_lines (scrup s) = video_num_lines s"
  by (simp_all add: scrup_def scr_region_up_def move_up_erase_def set_origin_def Let_def)

lemma scrup_cell:
  assumes "con_ok s" and "even (unat (video_num_columns s))" and "y < unat (video_num_lines s)" and "x < unat (video_num_columns s)"
  shows "cell (scrup s) y x = (if unat (top_line s) \<le> y \<and> y + 1 < unat (bottom_line s) then cell s (y + 1) x
    else if y + 1 = unat (bottom_line s) then blank_of s else cell s y x)"
proof (cases "(video_type s = VIDEO_TYPE_EGAC \<or> video_type s = VIDEO_TYPE_EGAM) \<and> top_line s = 0 \<and> bottom_line s = video_num_lines s")
  case True
  then show ?thesis using scroll_origin_cell[OF assms] assms(3) by auto
next
  case False
  then have "scrup s = scr_region_up s" by (auto simp: scrup_def)
  then show ?thesis using scr_region_up_cell[OF assms] by simp
qed

lemma scrup_screen:
  assumes "con_ok s" and "even (unat (video_num_columns s))"
  shows "screen_of (scrup s) = (screen_of s)\<lparr>sc_rows := scroll_lines (unat (top_line s)) (unat (bottom_line s))
    (replicate (unat (video_num_columns s)) (blank_of s)) (sc_rows (screen_of s))\<rparr>"
proof -
  have tb: "unat (top_line s) < unat (bottom_line s)" "unat (bottom_line s) \<le> length (sc_rows (screen_of s))" using assms(1) by (auto simp: con_ok_def)
  note N = scroll_lines_nth[OF tb]
  have "sc_rows (screen_of (scrup s)) = scroll_lines (unat (top_line s)) (unat (bottom_line s))
      (replicate (unat (video_num_columns s)) (blank_of s)) (sc_rows (screen_of s))"
    by (rule screen_eqI[where s = s]) (use tb in \<open>auto simp: scrup_fields scrup_cell[OF assms] N\<close>)
  then show ?thesis by (simp add: screen_of_def scrup_fields)
qed

lemma lf_screen:
  assumes "con_ok s" and "even (unat (video_num_columns s))"
  shows "screen_of (lf s) = line_feed (screen_of s)"
proof -
  have "unat (con_y s) < unat (video_num_lines s)" using assms(1) by (simp add: con_ok_def)
  then have "unat (con_y s + 1) = unat (con_y s) + 1" using unat_u32_lt[of "video_num_lines s"] by (intro unat_plus_num) simp
  then show ?thesis using scrup_screen[OF assms] by (auto simp: lf_def line_feed_def word_less_nat_alt screen_of_def cell_def)
qed

lemma same_cell:
  fixes w :: nat
  assumes "a * w + r = b * w + q" and "r < w" and "q < w"
  shows "a = b \<and> r = q"
proof -
  have "(a * w + r) div w = a" "(b * w + q) div w = b" using assms(2,3) by simp_all
  then show ?thesis using assms(1) by simp
qed

lemma store_cell:
  assumes "con_ok s" and "unat (con_x s) < unat (video_num_columns s)" and "y < unat (video_num_lines s)" and "x < unat (video_num_columns s)"
  shows "cell (s\<lparr>vmem := st16 (vmem s) (pos s) v\<rparr>) y x = (if y = unat (con_y s) \<and> x = unat (con_x s) then (ucast v, ucast (drop_bit 8 v)) else cell s y x)"
proof -
  obtain C L E O' x0 y0 where c: "unat (video_num_columns s) = C" "unat (video_num_lines s) = L" "unat (con_x s) = x0" "unat (con_y s) = y0"
    "unat (origin s) = O'" "unat (pos s) = O' + y0 * (2 * C) + 2 * x0" "O' + L * (2 * C) \<le> E" "E \<le> 0x100000"
    "y0 * (2 * C) + 2 * C \<le> L * (2 * C)"
    by (rule con_okE[OF assms(1)]) blast
  have B: "vmem (s\<lparr>vmem := st16 (vmem s) (pos s) v\<rparr>) (of_nat (O' + y * (2 * C) + 2 * x + k)) =
      (if y = y0 \<and> x = x0 then if k = 0 then ucast v else ucast (drop_bit 8 v) else vmem s (of_nat (O' + y * (2 * C) + 2 * x + k)))" if k: "k < 2" for k
  proof -
    define a where "a = O' + y * (2 * C) + 2 * x + k"
    have xk: "2 * x + k < 2 * C" "2 * x0 + j < 2 * C" if "j < 2" for j using assms(2,4) c k that by auto
    have "y * (2 * C) + 2 * C \<le> L * (2 * C)" using assms(3) c by (intro rows_le) simp
    then have "a < 2 ^ 32" using c xk[OF k] by (simp add: a_def)
    then have ua: "unat (of_nat a :: u32) = a" by (simp add: unat_of_nat)
    have i: "a = O' + y0 * (2 * C) + 2 * x0 + j \<longleftrightarrow> y = y0 \<and> x = x0 \<and> k = j" if j: "j < 2" for j
    proof
      assume "a = O' + y0 * (2 * C) + 2 * x0 + j"
      then have "y * (2 * C) + (2 * x + k) = y0 * (2 * C) + (2 * x0 + j)" by (simp add: a_def)
      from same_cell[OF this] xk[OF j] have "y = y0" "2 * x + k = 2 * x0 + j" by auto
      then show "y = y0 \<and> x = x0 \<and> k = j" using k j by presburger
    qed (simp add: a_def)
    have "unat (pos s) + 2 \<le> 2 ^ 32" using c assms(2) by simp
    from st16_at[OF this, of "vmem s" v "of_nat a"] show ?thesis
      unfolding a_def[symmetric] ua c(6) using i[of 0] i[of 1] k by (auto simp: less_2_cases_iff)
  qed
  show ?thesis using B[of 0] B[of 1] by (simp add: cell_def Let_def c del: of_nat_add of_nat_mult of_nat_Suc)
qed

lemma screen_of_cursor [simp]:
  "screen_of (s\<lparr>pos := p\<rparr>) = screen_of s" "screen_of (s\<lparr>con_x := a\<rparr>) = (screen_of s)\<lparr>sc_col := unat a\<rparr>"
  "screen_of (s\<lparr>esc_state := e\<rparr>) = screen_of s" "screen_of (s\<lparr>crtc := r\<rparr>) = screen_of s"
  by (simp_all add: screen_of_def cell_def)

lemma store_screen:
  assumes "con_ok s" and "unat (con_x s) < unat (video_num_columns s)"
  shows "screen_of (s\<lparr>vmem := st16 (vmem s) (pos s) v\<rparr>) = put_cell (ucast v, ucast (drop_bit 8 v)) (screen_of s)"
proof -
  let ?s = "s\<lparr>vmem := st16 (vmem s) (pos s) v\<rparr>"
  have y: "unat (con_y s) < unat (video_num_lines s)" using assms(1) by (simp add: con_ok_def)
  have "sc_rows (screen_of ?s) = sc_rows (put_cell (ucast v, ucast (drop_bit 8 v)) (screen_of s))"
    by (rule screen_eqI[where s = s]) (use y assms(2) in \<open>auto simp: put_cell_def store_cell[OF assms] nth_list_update\<close>)
  then show ?thesis by (simp add: screen_of_def put_cell_def)
qed

lemma wrap_line_screen:
  assumes "con_ok (s\<lparr>con_x := x0, pos := p0\<rparr>)" and "con_x s = x0 + n" "pos s = p0 + push_bit 1 n"
    and "unat n \<le> 8" "unat (video_num_columns s) \<le> unat x0 + unat n" and "even (unat (video_num_columns s))"
  shows "screen_of (wrap_line s) = line_feed ((screen_of s)\<lparr>sc_col := unat x0 + unat n - unat (video_num_columns s)\<rparr>)"
  unfolding wrap_line_def using lf_screen[OF wrap_start_ok(1)[OF assms(1-5)]] wrap_start_ok(2)[OF assms(1-5)] assms(6) by simp

lemma glyph_bytes:
  "ucast (ucast c OR push_bit 8 (ucast a) :: u16) = (c :: u8)" "ucast (drop_bit 8 (ucast c OR push_bit 8 (ucast a) :: u16)) = (a :: u8)"
  by (rule bit_word_eqI; auto simp: bit_simps dest: bit_imp_le_length)+

lemma put_glyph_screen:
  assumes "con_ok s" and "even (unat (video_num_columns s))"
  shows "screen_of (put_glyph c s) = show_glyph c (screen_of s)"
proof -
  define s1 where "s1 = (if video_num_columns s \<le> con_x s then wrap_line s else s)"
  have x: "unat (con_x s) \<le> unat (video_num_columns s)" "8 \<le> unat (video_num_columns s)" using assms(1) by (auto simp: con_ok_def)
  have s0: "s\<lparr>con_x := con_x s, pos := pos s\<rparr> = s" by simp
  have w: "screen_of (wrap_line s) = line_feed ((screen_of s)\<lparr>sc_col := 0\<rparr>)" "con_safe s (wrap_line s)" "con_x (wrap_line s) = 0" if "video_num_columns s \<le> con_x s"
  proof -
    have e': "unat (con_x s) = unat (video_num_columns s)" using that x by (simp add: word_le_nat_alt)
    then have e: "con_x s = video_num_columns s" by (simp add: word_unat_eq_iff)
    show "screen_of (wrap_line s) = line_feed ((screen_of s)\<lparr>sc_col := 0\<rparr>)"
      using wrap_line_screen[where s = s and ?x0.0 = "con_x s" and ?p0.0 = "pos s" and n = 0] assms e' by simp
    show "con_safe s (wrap_line s)"
      using wrap_line_safe[where s = s and ?x0.0 = "con_x s" and ?p0.0 = "pos s" and n = 0] assms(1) e' by simp
    show "con_x (wrap_line s) = 0" using e by (simp add: con_x_wrap)
  qed
  have ok: "con_ok s1" "video_num_columns s1 = video_num_columns s" using w(2) assms(1) by (auto simp: s1_def con_safe_def)
  have lt: "unat (con_x s1) < unat (video_num_columns s1)" using w(3) x ok(2) by (auto simp: s1_def word_le_nat_alt)
  have d1: "screen_of s1 = (if sc_col (screen_of s) < sc_width (screen_of s) then screen_of s else line_feed ((screen_of s)\<lparr>sc_col := 0\<rparr>))"
    using w(1) by (auto simp: s1_def word_le_nat_alt)
  have x1: "unat (con_x s1 + 1) = unat (con_x s1) + 1" using lt unat_u32_lt[of "video_num_columns s1"] by (intro unat_plus_num) simp
  have "put_glyph c s = s1\<lparr>vmem := st16 (vmem s1) (pos s1) (ucast c OR push_bit 8 (ucast (attr s1))), pos := pos s1 + 2, con_x := con_x s1 + 1\<rparr>"
    by (simp add: put_glyph_def Let_def s1_def)
  then show ?thesis unfolding show_glyph_def Let_def d1[symmetric] using store_screen[OF ok(1) lt, of "ucast c OR push_bit 8 (ucast (attr s1))", unfolded glyph_bytes] x1 by simp
qed

lemma tab_screen:
  assumes "con_ok s" and "even (unat (video_num_columns s))"
  shows "screen_of (tab s) = show_tab (screen_of s)"
proof -
  define n where "n = 8 - (con_x s AND 7)"
  have "con_x s AND 7 = take_bit 3 (con_x s)" by (simp add: take_bit_eq_mask mask_eq_exp_minus_1)
  then have "unat (con_x s AND 7) = unat (con_x s) mod 8" by (simp add: unsigned_take_bit_eq take_bit_eq_mod unat_mod)
  then have n: "unat n = 8 - unat (con_x s) mod 8" unfolding n_def by (subst unat_minus) simp_all
  have x: "unat (con_x s) \<le> unat (video_num_columns s)" "unat (video_num_columns s) < 2 ^ 31"
  proof -
    obtain C L E O' y where c: "unat (video_num_columns s) = C" "O' + L * (2 * C) \<le> E" "E \<le> 0x100000" "unat (con_x s) \<le> C" "y * (2 * C) + 2 * C \<le> L * (2 * C)"
      by (rule con_okE[OF assms(1)]) blast
    then show "unat (con_x s) \<le> unat (video_num_columns s)" "unat (video_num_columns s) < 2 ^ 31" by simp_all
  qed
  have x1: "unat (con_x s + n) = unat (con_x s) + unat n" using x n by (subst unat_plus) simp_all
  have e: "unat (con_x s) + unat n = 8 * (unat (con_x s) div 8 + 1)" using n by (simp add: algebra_simps) presburger
  let ?s1 = "s\<lparr>con_x := con_x s + n, pos := pos s + push_bit 1 n\<rparr>"
  have t: "tab s = (if video_num_columns s < con_x s + n then wrap_line ?s1 else ?s1)" by (simp add: tab_def Let_def n_def)
  have w: "screen_of (wrap_line ?s1) = line_feed ((screen_of s)\<lparr>sc_col := unat (con_x s) + unat n - unat (video_num_columns s)\<rparr>)" if "video_num_columns s < con_x s + n"
    using wrap_line_screen[where s = ?s1 and ?x0.0 = "con_x s" and ?p0.0 = "pos s" and n = n] assms that n x1 by (simp add: word_less_nat_alt)
  show ?thesis unfolding t show_tab_def Let_def using w x1 e by (auto simp: word_less_nat_alt)
qed

lemma byteE:
  obtains k where "(c :: u8) = of_nat k" "k < 256" "unat c = k" "uint c = int k" "sint c = (if k \<le> 127 then int k else int k - 256)"
proof -
  define k where "k = unat c"
  have k: "k < 256" unfolding k_def by (rule order_less_le_trans[OF unsigned_less]) simp
  have u: "uint c = int k" by (simp add: k_def)
  have s: "sint c = signed_take_bit 7 (int k)" by (simp add: sint_uint u)
  have "sint c = (if k \<le> 127 then int k else int k - 256)"
  proof (cases "k \<le> 127")
    case True
    then have "signed_take_bit 7 (int k) = int k" by (intro signed_take_bit_int_eq_self) simp_all
    with s True show ?thesis by simp
  next
    case False
    have "signed_take_bit 7 (int k) = signed_take_bit 7 (int k - 256)"
      by (rule signed_take_bit_eq_iff_take_bit_eq[THEN iffD2]) (simp add: take_bit_eq_mod)
    also have "\<dots> = int k - 256" using False k by (intro signed_take_bit_int_eq_self) simp_all
    finally show ?thesis using s False by simp
  qed
  moreover have "c = of_nat k" "unat c = k" by (simp_all add: k_def)
  ultimately show ?thesis using that[OF _ k _ u] by blast
qed

lemma is_cc_ascii: "is_cc c e \<longleftrightarrow> c = e \<and> unat c \<le> 127"
proof -
  obtain k where k: "c = of_nat k" "k < 256" "unat c = k" "uint c = int k" "sint c = (if k \<le> 127 then int k else int k - 256)" by (rule byteE)
  obtain l where l: "e = of_nat l" "l < 256" "unat e = l" "uint e = int l" "sint e = (if l \<le> 127 then int l else int l - 256)" by (rule byteE)
  have "c = e \<longleftrightarrow> k = l" unfolding word_unat_eq_iff k(3) l(3) ..
  then show ?thesis unfolding is_cc_def k(3,5) l(4) using k(2) l(2) by auto
qed

lemma del_screen:
  assumes "con_ok s"
  shows "screen_of (del s) = (if sc_col (screen_of s) = 0 then screen_of s else put_cell (sc_blank (screen_of s)) ((screen_of s)\<lparr>sc_col := sc_col (screen_of s) - 1\<rparr>))"
proof (cases "con_x s = 0")
  case False
  let ?s = "s\<lparr>con_x := con_x s - 1, pos := pos s - 2\<rparr>"
  have x: "unat (con_x s - 1) = unat (con_x s) - 1" using False by (intro unat_minus_num) (simp add: unat_gt_0 Suc_leI)
  have ok: "con_ok ?s" using cursor_ops_safe(4)[OF assms False] con_safe_ok by blast
  have "unat (con_x ?s) < unat (video_num_columns ?s)" using x False assms by (auto simp: con_ok_def unat_gt_0)
  moreover have "del s = ?s\<lparr>vmem := st16 (vmem ?s) (pos ?s) (video_erase_char s)\<rparr>" using False by (simp add: del_def)
  ultimately show ?thesis using store_screen[OF ok] False x by (simp add: unat_eq_zero)
qed (simp add: del_def)

text \<open>Printing a character in the automaton's ground state is what it should be on the abstract screen.\<close>

lemma con_plain_screen:
  assumes "con_ok s" and "even (unat (video_num_columns s))"
  shows "screen_of (con_plain e c s) = show_char e c (screen_of s)"
proof -
  have p: "(31 <s c \<and> c <s 127) = (32 \<le> unat c \<and> unat c \<le> 126)"
  proof -
    obtain k where k: "c = of_nat k" "k < 256" "unat c = k" "uint c = int k" "sint c = (if k \<le> 127 then int k else int k - 256)" by (rule byteE)
    show ?thesis unfolding word_sless_alt k(3,5) using k(2) by auto
  qed
  have bs: "(screen_of (if con_x s \<noteq> 0 then s\<lparr>con_x := con_x s - 1, pos := pos s - 2\<rparr> else s)) = (screen_of s)\<lparr>sc_col := sc_col (screen_of s) - 1\<rparr>"
  proof (cases "con_x s = 0")
    case False
    then have "unat (con_x s - 1) = unat (con_x s) - 1" by (intro unat_minus_num) (simp add: unat_gt_0 Suc_leI)
    with False show ?thesis by simp
  qed (simp add: screen_of_def)
  show ?thesis unfolding con_plain_def show_char_def p is_cc_ascii
    using put_glyph_screen[OF assms] lf_screen[OF assms] del_screen[OF assms(1)] tab_screen[OF assms] bs by (auto simp: cr_def)
qed

lemma con_plain_geometry:
  assumes "con_ok s"
  shows "con_ok (con_plain e c s)" "video_num_columns (con_plain e c s) = video_num_columns s"
  using con_plain_safe[OF assms, of e c] by (simp_all add: con_safe_def)

lemma con_text_screen:
  assumes "con_ok s" and "even (unat (video_num_columns s))"
  shows "screen_of (fold (con_plain e) bs s) = fold (show_char e) bs (screen_of s)" and "con_ok (fold (con_plain e) bs s)"
  using assms by (induction bs arbitrary: s) (simp_all add: con_plain_geometry con_plain_screen)

lemma cursor_bytes: "256 * unat (ucast (0xff AND drop_bit 9 a) :: u8) + unat (ucast (0xff AND drop_bit 1 a) :: u8) = unat (a :: u32) div 2 mod 65536"
proof -
  have m: "unat (ucast (0xff AND b :: u32) :: u8) = unat b mod 256" for b
  proof -
    have "0xff AND b = take_bit 8 b" by (simp add: take_bit_eq_mask mask_eq_exp_minus_1 and.commute)
    then show ?thesis by (simp add: unsigned_ucast_eq unsigned_take_bit_eq take_bit_eq_mod unat_mod)
  qed
  have "unat (drop_bit 9 a) = unat a div 2 div 256" "unat (drop_bit 1 a) = unat a div 2"
    by (simp_all add: drop_bit_eq_div unat_div div_mult2_eq[symmetric])
  then show ?thesis unfolding m using mod_mult2_eq[of "unat a div 2" 256 256] by simp
qed

lemma set_cursor_screen:
  assumes "con_ok s"
  shows "screen_of (set_cursor s) = screen_of s"
    and "crtc_cursor (set_cursor s) = ((unat (origin s) - unat (video_mem_start s)) div 2 + unat (con_y s) * unat (video_num_columns s) + unat (con_x s)) mod 65536"
proof -
  show "screen_of (set_cursor s) = screen_of s" by (simp add: set_cursor_def)
  obtain C S O' x y where c: "unat (video_num_columns s) = C" "unat (video_mem_start s) = S" "unat (con_x s) = x" "unat (con_y s) = y"
    "unat (origin s) = O'" "unat (pos s) = O' + y * (2 * C) + 2 * x" "S \<le> O'" by (rule con_okE[OF assms]) blast
  have "unat (pos s - video_mem_start s) = O' - S + 2 * (y * C + x)" using c by (subst unat_minus) simp_all
  then have "unat (pos s - video_mem_start s) div 2 = (O' - S) div 2 + (y * C + x)" by (simp only: div_mult_self2 zero_neq_numeral not_False_eq_True)
  then show "crtc_cursor (set_cursor s) = ((unat (origin s) - unat (video_mem_start s)) div 2 + unat (con_y s) * unat (video_num_columns s) + unat (con_x s)) mod 65536"
    using cursor_bytes[of "pos s - video_mem_start s"] by (simp add: crtc_cursor_def set_cursor_def c add.assoc)
qed

text \<open>A text printed from the ground state: what the screen shows then, and where the hardware cursor is.\<close>

lemma text_shown:
  fixes e :: u8 and bs :: "u8 list"
  assumes "con_ok s" and "even (unat (video_num_columns s))"
  defines "s' \<equiv> set_cursor (fold (con_plain e) bs s)"
  shows "screen_of s' = fold (show_char e) bs (screen_of s)" and "cursor_shown s'" and "con_safe s s'"
proof -
  note t = con_text_screen[OF assms(1,2), of e bs]
  note c = set_cursor_screen[OF t(2)]
  show "screen_of s' = fold (show_char e) bs (screen_of s)" using c(1) t(1) by (simp add: s'_def)
  show "cursor_shown s'" unfolding cursor_shown_def using c(2) by (simp add: s'_def set_cursor_def)
  have "con_safe s (fold (con_plain e) bs s)"
    using assms(1) by (induction bs arbitrary: s) (auto intro: con_safe_refl con_safe_trans con_plain_safe con_plain_geometry(1))
  then show "con_safe s s'" unfolding s'_def using con_safe_trans set_cursor_safe t(2) by blast
qed

text \<open>C23: the console implements the abstract screen. For a console in its invariant with an even number of columns, of any display type and with any scrolling region,
  printing a text in the automaton's ground state does to the cells in the video memory and to the cursor exactly
  what the characters do to the abstract screen: glyphs with the current attribute, wrap at the right margin, line feeds that scroll the
  region and bring a blank line, carriage return, backspace, tab and erase; the invariant holds again.\<close>

theorem console_refines_screen:
  assumes "con_ok s" and "even (unat (video_num_columns s))"
  shows "screen_of (fold (con_plain e) bs s) = fold (show_char e) bs (screen_of s) \<and> con_ok (fold (con_plain e) bs s)"
  using con_text_screen[OF assms] by simp

text \<open>The letter A and a line feed on the screen of a VGA display as \<open>con_init\<close> leaves it.\<close>

lemma vga_console:
  "con_ok (con_init vga_boot zero_console)" "video_num_columns (con_init vga_boot zero_console) = 80" "video_num_lines (con_init vga_boot zero_console) = 25"
  "con_x (con_init vga_boot zero_console) = 0" "con_y (con_init vga_boot zero_console) = 5" "attr (con_init vga_boot zero_console) = 7"
  "bottom_line (con_init vga_boot zero_console) = 25"
proof -
  have "con_ok (con_init vga_boot zero_console) \<and> con_x (con_init vga_boot zero_console) = ucast (ORIG_X vga_boot) \<and> con_y (con_init vga_boot zero_console) = ucast (ORIG_Y vga_boot)"
    by (rule con_init_inv[OF refl]) (simp_all add: vga_boot_def zero_console_def)
  then show "con_ok (con_init vga_boot zero_console)" "con_x (con_init vga_boot zero_console) = 0" "con_y (con_init vga_boot zero_console) = 5"
    by (simp_all add: vga_boot_def)
  show "video_num_columns (con_init vga_boot zero_console) = 80" "video_num_lines (con_init vga_boot zero_console) = 25"
    "attr (con_init vga_boot zero_console) = 7" "bottom_line (con_init vga_boot zero_console) = 25"
    by (simp_all add: con_init_def vga_boot_def zero_console_def Let_def gotoxy_def)
qed

theorem console_refines_screen_witness:
  "sc_rows (screen_of (fold (con_plain 127) [0x41, 10] (con_init vga_boot zero_console))) ! 5 ! 0 = (0x41, 7)
   \<and> sc_row (screen_of (fold (con_plain 127) [0x41, 10] (con_init vga_boot zero_console))) = 6"
proof -
  let ?s = "con_init vga_boot zero_console"
  have e: "even (unat (video_num_columns ?s))" by (simp add: vga_console(2))
  have f: "sc_rows (fold (show_char 127) [0x41, 10] (screen_of ?s)) ! 5 ! 0 = (0x41, 7)" "sc_row (fold (show_char 127) [0x41, 10] (screen_of ?s)) = 6"
    by (simp_all add: show_char_def show_glyph_def line_feed_def put_cell_def vga_console Let_def)
  show ?thesis unfolding console_refines_screen[OF vga_console(1) e, of 127 "[0x41, 10]", THEN conjunct1] using f by (rule conjI)
qed

lemma two_glyphs: "take 2 (sc_rows (fold (show_char e) [0x68, 0x69] (screen_of (con_init vga_boot zero_console))) ! 5) = [(0x68, 7), (0x69, 7)]"
  by (rule nth_equalityI) (auto simp: less_2_cases_iff show_char_def show_glyph_def put_cell_def vga_console Let_def)

end
