(* ===== verification/Open.thy ===== *)
theory Open
  imports Namei Tty_IO Screen
begin

text \<open>
  File descriptors: fs/open.c, fs/fcntl.c, fs/read_write.c and fs/char_dev.c. \<open>sys_write\<close> on a terminal is
  composed with the terminal driver: its state is the file system's and the terminal's.
\<close>

abbreviation (input) EPERM :: int where "EPERM \<equiv> 1"
abbreviation (input) EBADF :: int where "EBADF \<equiv> 9"
abbreviation (input) ENODEV :: int where "ENODEV \<equiv> 19"
abbreviation (input) EINVAL :: int where "EINVAL \<equiv> 22"
abbreviation (input) EMFILE :: int where "EMFILE \<equiv> 24"

definition upd_cur :: "(task_struct \<Rightarrow> task_struct) \<Rightarrow> fsst \<Rightarrow> fsst" where
  "upd_cur f s = s\<lparr>bio_sched := upd_task (current (bio_sched s)) f (bio_sched s)\<rparr>"

definition upd_file :: "nat \<Rightarrow> (file_struct \<Rightarrow> file_struct) \<Rightarrow> fsst \<Rightarrow> fsst" where
  "upd_file i f s = s\<lparr>file_table := (file_table s)(i := f (file_table s i))\<rparr>"

section \<open>Opening\<close>

text \<open>The exit of \<open>sys_open\<close> that gives descriptor and file back.\<close>

definition undo_open :: "nat \<Rightarrow> nat \<Rightarrow> fsst \<Rightarrow> fsst" where
  "undo_open fd f s = upd_file f (\<lambda>x. x\<lparr>f_count := 0\<rparr>) (upd_cur (\<lambda>t. t\<lparr>t_filp := (t_filp t)(fd := None)\<rparr>) s)"

text \<open>The part after \<open>open_namei\<close> has succeeded.\<close>

definition finish_open :: "nat \<Rightarrow> fs_sleep \<Rightarrow> nat \<Rightarrow> nat \<Rightarrow> nat \<Rightarrow> u32 \<Rightarrow> fsst \<Rightarrow> (int \<times> fsst) kres" where
  "finish_open n zz fd f ip flag s0 =
     (let i = inode_table s0 ip; z = ucast (i_zone i 0) :: u32;
          s = (if S_IS S_IFCHR (i_mode i) \<and> MAJOR z = 4 \<and> t_leader (cur_task s0) \<noteq> 0 \<and> t_tty (cur_task s0) <s 0
               then upd_cur (\<lambda>t. t\<lparr>t_tty := MINOR z\<rparr>) s0 else s0)
      in if S_IS S_IFCHR (i_mode i) \<and> MAJOR z \<noteq> 4 \<and> MAJOR z = 5 \<and> t_tty (cur_task s) <s 0
         then kbind (iput n zz (Some ip) s) (\<lambda>s. Inr (- EPERM, undo_open fd f s))
         else Inr (int fd, upd_file f (\<lambda>_. \<lparr>f_mode = i_mode i, f_flags = ucast flag, f_count = 1, f_inode = Some ip, f_pos = 0\<rparr>) s))"

definition sys_open :: "nat \<Rightarrow> fs_sleep \<Rightarrow> u32 \<Rightarrow> u32 \<Rightarrow> u32 \<Rightarrow> fsst \<Rightarrow> (int \<times> fsst) kres" where
  "sys_open n zz filename flag mode0 s0 =
     (let mode = mode0 AND (0x1ff AND NOT (ucast (t_umask (cur_task s0))))
      in case List.find (\<lambda>fd. t_filp (cur_task s0) fd = None) [0..<NR_OPEN] of
           None \<Rightarrow> Inr (- EINVAL, s0)
         | Some fd \<Rightarrow>
            (let s1 = upd_cur (\<lambda>t. t\<lparr>t_close_on_exec := t_close_on_exec t AND NOT (push_bit fd 1)\<rparr>) s0
             in case List.find (\<lambda>i. f_count (file_table s1 i) = 0) [0..<NR_FILE] of
                  None \<Rightarrow> Inr (- EINVAL, s1)
                | Some f \<Rightarrow>
                    kbind (open_namei n zz filename flag mode
                             (upd_file f (\<lambda>x. x\<lparr>f_count := f_count x + 1\<rparr>)
                               (upd_cur (\<lambda>t. t\<lparr>t_filp := (t_filp t)(fd := Some f)\<rparr>) s1))) (\<lambda>(e, r, s).
                      case r of
                        None \<Rightarrow> Inr (e, undo_open fd f s)
                      | Some ip \<Rightarrow> finish_open n zz fd f ip flag s)))"

section \<open>Duplicating\<close>

definition dupfd :: "u32 \<Rightarrow> u32 \<Rightarrow> fsst \<Rightarrow> int \<times> fsst" where
  "dupfd fd arg s =
     (if 20 \<le> fd \<or> t_filp (cur_task s) (unat fd) = None then (- EBADF, s)
      else if 20 \<le> arg then (- EINVAL, s)
      else case List.find (\<lambda>k. t_filp (cur_task s) k = None) [unat arg..<NR_OPEN] of
        None \<Rightarrow> (- EMFILE, s)
      | Some k \<Rightarrow>
         (let f = the (t_filp (cur_task s) (unat fd))
          in (int k, upd_file f (\<lambda>x. x\<lparr>f_count := f_count x + 1\<rparr>)
                (upd_cur (\<lambda>t. t\<lparr>t_close_on_exec := t_close_on_exec t AND NOT (push_bit k 1), t_filp := (t_filp t)(k := Some f)\<rparr>) s))))"

definition sys_dup :: "u32 \<Rightarrow> fsst \<Rightarrow> int \<times> fsst" where
  "sys_dup fildes s = dupfd fildes 0 s"

section \<open>Writing\<close>

text \<open>A call of \<open>tty_write\<close>: channel, buffer, length, and the value of its static variable.\<close>

type_synonym tty_call = "u32 \<Rightarrow> u8 list \<Rightarrow> int \<Rightarrow> bool \<Rightarrow> world \<Rightarrow> (int \<times> bool \<times> world) kres"

definition user_bytes :: "mem \<Rightarrow> u32 \<Rightarrow> nat \<Rightarrow> u8 list" where
  "user_bytes m a n = map (\<lambda>i. m (a + of_nat i)) [0..<n]"

definition rw_ttyx :: "tty_call \<Rightarrow> u32 \<Rightarrow> u32 \<Rightarrow> u32 \<Rightarrow> fsst \<Rightarrow> bool \<Rightarrow> world \<Rightarrow> (int \<times> bool \<times> world) kres" where
  "rw_ttyx ttyw minor buf cnt s crf w = ttyw minor (user_bytes (fs_seg s) buf (nat (sint cnt))) (sint cnt) crf w"

text \<open>\<open>crw_table\<close> has one entry, for major number 4.\<close>

definition rw_char :: "tty_call \<Rightarrow> u32 \<Rightarrow> u32 \<Rightarrow> u32 \<Rightarrow> fsst \<Rightarrow> bool \<Rightarrow> world \<Rightarrow> (int \<times> bool \<times> world) kres" where
  "rw_char ttyw dev buf cnt s crf w =
     (if 8 \<le> MAJOR dev then Inr (- ENODEV, crf, w)
      else if MAJOR dev \<noteq> 4 then Inr (- ENODEV, crf, w)
      else rw_ttyx ttyw (MINOR dev) buf cnt s crf w)"

definition sys_write :: "tty_call \<Rightarrow> u32 \<Rightarrow> u32 \<Rightarrow> u32 \<Rightarrow> fsst \<Rightarrow> bool \<Rightarrow> world \<Rightarrow> (int \<times> bool \<times> world) kres" where
  "sys_write ttyw fd buf cnt s crf w =
     (if 20 \<le> fd \<or> cnt <s 0 then Inr (- EINVAL, crf, w)
      else case t_filp (cur_task s) (unat fd) of
        None \<Rightarrow> Inr (- EINVAL, crf, w)
      | Some f \<Rightarrow>
          if cnt = 0 then Inr (0, crf, w)
          else case f_inode (file_table s f) of
            None \<Rightarrow> Inl Fault
          | Some ip \<Rightarrow>
              if S_IS S_IFCHR (i_mode (inode_table s ip))
              then rw_char ttyw (ucast (i_zone (inode_table s ip) 0)) buf cnt s crf w
              else Inr (- EINVAL, crf, w))"

section \<open>Duplicating\<close>

text \<open>How many descriptors refer to file \<open>f\<close>, over all tasks, and that the counts in the table agree.\<close>

definition fd_refs :: "fsst \<Rightarrow> nat \<Rightarrow> (nat \<times> nat) set" where
  "fd_refs s f = {(i, k). i < NR_TASKS \<and> k < NR_OPEN \<and> task (bio_sched s) i \<noteq> 0 \<and> t_filp (tasks (bio_sched s) (task (bio_sched s) i)) k = Some f}"

definition counts_ok :: "fsst \<Rightarrow> bool" where
  "counts_ok s \<longleftrightarrow> (\<forall>f. unat (f_count (file_table s f)) = card (fd_refs s f))"

lemma fd_refs_finite: "finite (fd_refs s f)" "card (fd_refs s f) \<le> 160"
proof -
  have s: "fd_refs s f \<subseteq> {..<NR_TASKS} \<times> {..<NR_OPEN}" by (auto simp: fd_refs_def)
  then show "finite (fd_refs s f)" by (rule finite_subset) simp
  show "card (fd_refs s f) \<le> 160" using card_mono[OF _ s] by simp
qed

lemma find_upt_Some: "List.find P [i..<e] = Some k \<longleftrightarrow> i \<le> k \<and> k < e \<and> P k \<and> (\<forall>j. i \<le> j \<and> j < k \<longrightarrow> \<not> P j)"
proof (induction "e - i" arbitrary: i)
  case (Suc n)
  then have "i < e" "n = e - Suc i" by simp_all
  then show ?case using Suc.hyps(1)[of "Suc i"] by (auto simp: find_upt Suc_le_eq) (metis le_neq_implies_less not_less_eq_eq)+
qed (auto simp: upt_conv_Nil)

lemma find_upt_None: "List.find P [i..<e] = None \<longleftrightarrow> (\<forall>k. i \<le> k \<and> k < e \<longrightarrow> \<not> P k)"
  by (auto simp: find_None_iff)

lemma fd_refs_dup:
  assumes "c < NR_TASKS" and "task (bio_sched s) c = current (bio_sched s)" and "current (bio_sched s) \<noteq> 0"
    and "\<forall>i<NR_TASKS. task (bio_sched s) i = current (bio_sched s) \<longrightarrow> i = c" and "k < NR_OPEN"
    and "t_filp (cur_task s) k = None" and "\<And>t. t_filp (g t) = (t_filp t)(k := Some f)"
  shows "fd_refs (upd_file f h (upd_cur g s)) x = (if x = f then insert (c, k) (fd_refs s x) else fd_refs s x)"
proof -
  let ?s = "upd_file f h (upd_cur g s)"
  have fields: "task (bio_sched ?s) = task (bio_sched s)"
    "tasks (bio_sched ?s) = (tasks (bio_sched s))(current (bio_sched s) := g (cur_task s))"
    by (simp_all add: upd_file_def upd_cur_def upd_task_def)
  have "(i, j) \<in> fd_refs ?s x \<longleftrightarrow> (i, j) \<in> (if x = f then insert (c, k) (fd_refs s x) else fd_refs s x)" for i j
  proof (cases "i = c")
    case True
    then show ?thesis using assms(1,2,3,5,6,7) by (auto simp: fd_refs_def fields)
  next
    case False
    then have "i < NR_TASKS \<Longrightarrow> task (bio_sched s) i \<noteq> current (bio_sched s)" using assms(4) by auto
    then show ?thesis using False by (auto simp: fd_refs_def fields)
  qed
  then show "fd_refs ?s x = (if x = f then insert (c, k) (fd_refs s x) else fd_refs s x)" by (auto split: if_splits)
qed

text \<open>Descriptor \<open>k\<close> of the current task becomes another reference to file \<open>f\<close>.\<close>

definition add_fd :: "nat \<Rightarrow> nat \<Rightarrow> fsst \<Rightarrow> fsst" where
  "add_fd k f s = upd_file f (\<lambda>x. x\<lparr>f_count := f_count x + 1\<rparr>)
     (upd_cur (\<lambda>t. t\<lparr>t_close_on_exec := t_close_on_exec t AND NOT (push_bit k 1), t_filp := (t_filp t)(k := Some f)\<rparr>) s)"

lemma add_fd_fields:
  "t_filp (cur_task (add_fd k f s)) = (t_filp (cur_task s))(k := Some f)"
  "t_state (cur_task (add_fd k f s)) = t_state (cur_task s)" "t_counter (cur_task (add_fd k f s)) = t_counter (cur_task s)"
  "current (bio_sched (add_fd k f s)) = current (bio_sched s)" "task (bio_sched (add_fd k f s)) = task (bio_sched s)"
  "f_count (file_table (add_fd k f s) f) = f_count (file_table s f) + 1"
  by (simp_all add: add_fd_def upd_file_def upd_cur_def upd_task_def)

lemma add_fd_counts:
  assumes "counts_ok s" and "c < NR_TASKS" and "task (bio_sched s) c = current (bio_sched s)" and "current (bio_sched s) \<noteq> 0"
    and "\<forall>i<NR_TASKS. task (bio_sched s) i = current (bio_sched s) \<longrightarrow> i = c" and "k < NR_OPEN" and k: "t_filp (cur_task s) k = None"
  shows "counts_ok (add_fd k f s)"
  unfolding counts_ok_def
proof
  fix x
  have R: "fd_refs (add_fd k f s) x = (if x = f then insert (c, k) (fd_refs s x) else fd_refs s x)"
    unfolding add_fd_def by (rule fd_refs_dup[OF assms(2-7)]) simp
  have R2: "(c, k) \<notin> fd_refs s x" using k assms(3) by (simp add: fd_refs_def)
  have "unat (f_count (file_table s x)) = card (fd_refs s x)" using assms(1) by (simp add: counts_ok_def)
  moreover from this have "unat (f_count (file_table s x) + 1) = card (fd_refs s x) + 1"
    using fd_refs_finite(2)[of s x] by (simp add: unat_word_ariths)
  ultimately show "unat (f_count (file_table (add_fd k f s) x)) = card (fd_refs (add_fd k f s) x)"
    unfolding R using R2 fd_refs_finite(1)[of s x] by (cases "x = f") (simp_all add: add_fd_def upd_file_def upd_cur_def)
qed

text \<open>C28: \<open>dupfd\<close> on every branch. A descriptor that is not open, a bound that is too large and a full descriptor table
  give their errors and change nothing; otherwise the lowest free descriptor from the bound on becomes another
  reference to the same file, is not closed on exec, and the counts of the file table stay the numbers of
  references.\<close>

theorem dupfd_spec:
  assumes "counts_ok s" and "c < NR_TASKS" and "task (bio_sched s) c = current (bio_sched s)" and "current (bio_sched s) \<noteq> 0"
    and "\<forall>i<NR_TASKS. task (bio_sched s) i = current (bio_sched s) \<longrightarrow> i = c"
    and "dupfd fd arg s = (r, s')"
  defines "filp \<equiv> t_filp (cur_task s)"
  shows "if 20 \<le> unat fd \<or> filp (unat fd) = None then r = -9 \<and> s' = s
    else if 20 \<le> unat arg then r = -22 \<and> s' = s
    else if \<forall>k. unat arg \<le> k \<and> k < 20 \<longrightarrow> filp k \<noteq> None then r = -24 \<and> s' = s
    else \<exists>k. r = int k \<and> unat arg \<le> k \<and> k < 20 \<and> filp k = None \<and> (\<forall>j. unat arg \<le> j \<and> j < k \<longrightarrow> filp j \<noteq> None)
      \<and> t_filp (cur_task s') = filp(k := filp (unat fd)) \<and> \<not> bit (t_close_on_exec (cur_task s')) k \<and> counts_ok s'"
proof (cases "20 \<le> unat fd \<or> filp (unat fd) = None \<or> 20 \<le> unat arg")
  case True
  then show ?thesis using assms(6) by (auto simp: dupfd_def filp_def word_le_nat_alt)
next
  case F: False
  then obtain f where f: "filp (unat fd) = Some f" by auto
  show ?thesis
  proof (cases "List.find (\<lambda>k. filp k = None) [unat arg..<20]")
    case None
    then have "\<forall>k. unat arg \<le> k \<and> k < 20 \<longrightarrow> filp k \<noteq> None" unfolding find_upt_None by blast
    then show ?thesis using F None f assms(6) by (simp add: dupfd_def filp_def word_le_nat_alt)
  next
    case (Some k)
    then have k: "unat arg \<le> k" "k < 20" "filp k = None" "\<forall>j. unat arg \<le> j \<and> j < k \<longrightarrow> filp j \<noteq> None" unfolding find_upt_Some by auto
    have e: "r = int k" "s' = add_fd k f s"
      using F Some f assms(6) by (simp_all add: dupfd_def filp_def add_fd_def word_le_nat_alt Let_def)
    have "counts_ok s'" unfolding e by (rule add_fd_counts[OF assms(1-5) k(2) k(3)[unfolded filp_def]])
    moreover have "\<not> bit (t_close_on_exec (cur_task s')) k" unfolding e by (simp add: add_fd_def upd_file_def upd_cur_def upd_task_def bit_simps)
    moreover have "t_filp (cur_task s') = filp(k := filp (unat fd))" using f by (simp add: e add_fd_fields(1) filp_def)
    ultimately show ?thesis using F k e(1) by auto
  qed
qed

section \<open>Results of opening\<close>

lemma kbind_resE: "kbind m f = Inr y \<Longrightarrow> (\<And>x. f x = Inr y \<Longrightarrow> P) \<Longrightarrow> P"
  by (auto simp: kbind_eq_Inr)

lemma open_create_result: "open_create n zz dir base len mode s = Inr (e, r, s') \<Longrightarrow> if r = None then e = -28 else e = 0"
  by (auto simp: open_create_def Let_def kres_simps split: option.splits if_splits prod.splits)

lemma open_existing_result: "open_existing n zz dir bh de flag s = Inr (e, r, s') \<Longrightarrow> if r = None then e \<in> {-17, -13, -1} else e = 0"
  by (auto simp: open_existing_def Let_def kres_simps split: option.splits if_splits prod.splits)

lemma open_namei_result:
  assumes "open_namei n zz p flag mode s = Inr (e, r, s')"
  shows "if r = None then e \<in> {-28, -21, -17, -13, -2, -1} else e = 0"
  using assms unfolding open_namei_def Let_def
  by (elim kbind_resE)
    (auto split: option.splits if_splits prod.splits elim!: kbind_resE dest!: open_create_result open_existing_result)

lemma finish_open_result: "finish_open n zz fd f ip flag s = Inr (r, s') \<Longrightarrow> r = int fd \<or> r = -1"
  by (auto simp: finish_open_def Let_def split: if_splits elim!: kbind_resE)

text \<open>Whatever \<open>sys_open\<close> returns is a descriptor of the task or one of seven error numbers; no other number gets out
  of the path walk, the directory or the inode code below it.\<close>

lemma sys_open_values:
  assumes "sys_open n zz filename flag mode s = Inr (r, s')"
  shows "r \<in> {0..<20} \<or> r \<in> {-28, -22, -21, -17, -13, -2, -1}"
proof -
  let ?fd = "List.find (\<lambda>fd. t_filp (cur_task s) fd = None) [0..<NR_OPEN]"
  have "r \<in> {-28, -22, -21, -17, -13, -2, -1} \<or> (\<exists>fd. ?fd = Some fd \<and> r = int fd)"
    using assms unfolding sys_open_def Let_def
    by (auto split: option.splits if_splits prod.splits elim!: kbind_eq_InrE dest!: open_namei_result finish_open_result)
  then show ?thesis using find_upt_Some[of _ 0 20] by auto
qed

section \<open>Writing to the terminal\<close>

lemma sys_write_tty:
  assumes "unat fd < 20" and "t_filp (cur_task s) (unat fd) = Some f" and "f_inode (file_table s f) = Some ip"
    and "S_IS S_IFCHR (i_mode (inode_table s ip))" and "i_zone (inode_table s ip) 0 = 0x400" and "0 <s cnt"
    and "bs = user_bytes (fs_seg s) buf (nat (sint cnt))" and "\<forall>b \<in> set bs. unat b < 128 \<and> b \<noteq> 27"
    and "con_calm w" and "q_list (write_q (w_tty w)) = []" and "length (opost (w_tty w) bs) \<le> 1023"
  shows "\<exists>q. sys_write (tty_write (Suc (Suc k)) doze resched (con_write_n (Suc d) fuel)) fd buf cnt s False w =
      Inr (sint cnt, False, w\<lparr>w_tty := (w_tty w)\<lparr>write_q := q\<rparr>,
        w_con := set_cursor (fold (con_plain (ERASE_CHAR (w_tty w))) (opost (w_tty w) bs) (w_con w))\<rparr>)
    \<and> q_list q = []"
proof -
  have c: "0 < sint cnt" using assms(6) by (simp add: word_sless_alt)
  have l: "int (length bs) = sint cnt" "bs \<noteq> []" using c by (simp_all add: assms(7) user_bytes_def)
  have n: "\<not> 20 \<le> fd" "\<not> cnt <s 0" "cnt \<noteq> 0" using assms(1) c by (auto simp: word_le_nat_alt word_sless_alt)
  have d: "MAJOR (ucast (0x400 :: u16)) = 4" "MINOR (ucast (0x400 :: u16)) = 0" by (simp_all add: MAJOR_def MINOR_def)
  have "sys_write tw fd buf cnt s False w = tw 0 bs (sint cnt) False w" for tw
    using assms(2-5,7) n d by (simp add: sys_write_def rw_char_def rw_ttyx_def)
  then show ?thesis using tty_write_shows[OF assms(9,10,8,11), of k doze resched d fuel] l by simp
qed

text \<open>C18: text written to a descriptor of the terminal appears on the screen. For a descriptor open on character device 4,0,
  an idle terminal with an even number of columns and text of ASCII characters other than ESC that fits in the write queue after output processing,
  \<open>sys_write\<close> returns the number of characters and the write queue is empty; what the video memory shows is the
  abstract screen as it was with the processed text printed on it in order, the hardware cursor is behind the text,
  and the console is changed in no other way but in its video memory and position. It neither sleeps nor reschedules on the way.\<close>

theorem sys_write_shows:
  assumes "unat fd < 20" and "t_filp (cur_task s) (unat fd) = Some f" and "f_inode (file_table s f) = Some ip"
    and "S_IS S_IFCHR (i_mode (inode_table s ip))" and "i_zone (inode_table s ip) 0 = 0x400" and "0 <s cnt"
    and "bs = user_bytes (fs_seg s) buf (nat (sint cnt))" and "\<forall>b \<in> set bs. unat b < 128 \<and> b \<noteq> 27"
    and "con_calm w" and "q_list (write_q (w_tty w)) = []" and "length (opost (w_tty w) bs) \<le> 1023"
    and "even (unat (video_num_columns (w_con w)))"
  shows "\<exists>q c. sys_write (tty_write (Suc (Suc k)) doze resched (con_write_n (Suc d) fuel)) fd buf cnt s False w =
      Inr (sint cnt, False, w\<lparr>w_tty := (w_tty w)\<lparr>write_q := q\<rparr>, w_con := c\<rparr>) \<and> q_list q = []
    \<and> screen_of c = fold (show_char (ERASE_CHAR (w_tty w))) (opost (w_tty w) bs) (screen_of (w_con w))
    \<and> cursor_shown c \<and> con_safe (w_con w) c"
proof -
  have "con_ok (w_con w)" using assms(9) by (simp add: con_calm_def world_ok_def)
  note T = text_shown[OF this assms(12), of "ERASE_CHAR (w_tty w)" "opost (w_tty w) bs"]
  then show ?thesis using sys_write_tty[OF assms(1-11), of k doze resched d fuel] by blast
qed

section \<open>Witnesses\<close>

text \<open>A task whose descriptor 0 is the terminal.\<close>

definition demo_fds :: fsst where
  "demo_fds = demo_cwd\<lparr>bio_sched := upd_task 0x2000 (\<lambda>t. t\<lparr>t_filp := (\<lambda>_. None)(0 := Some 0)\<rparr>) (bio_sched demo_cwd),
     file_table := (\<lambda>_. \<lparr>f_mode = 0, f_flags = 0, f_count = 0, f_inode = None, f_pos = 0\<rparr>)
       (0 := \<lparr>f_mode = 0x2000, f_flags = 0, f_count = 1, f_inode = Some 3, f_pos = 0\<rparr>),
     inode_table := (inode_table demo_cwd)(3 := (inode_table demo_cwd 3)\<lparr>i_mode := 0x2000, i_zone := (\<lambda>k. if k = 0 then 0x400 else 0)\<rparr>)\<rparr>"

lemma demo_fds_sched:
  "task (bio_sched demo_fds) = (\<lambda>_. 0)(0 := 0x1000, Suc 0 := 0x2000, 2 := 0x3000, 3 := 0x4000)" "current (bio_sched demo_fds) = 0x2000"
  "t_filp (tasks (bio_sched demo_fds) p) = (if p = 0x2000 then (\<lambda>_. None)(0 := Some 0) else (\<lambda>_. None))"
  by (simp_all add: demo_fds_def demo_cwd_def upd_task_def demo_dir_def demo_ifs_def demo_fs_simps demo_icache_def demo_zcache_def
      demo_idle_def demo_cache_def demo_bio_def demo_sched_def demo_task_def INIT_TASK_def)

lemma demo_fds_counts: "counts_ok demo_fds"
proof -
  have "fd_refs demo_fds f = (if f = 0 then {(1, 0)} else {})" for f
    by (auto simp: fd_refs_def demo_fds_sched split: if_splits)
  then show ?thesis by (simp add: counts_ok_def demo_fds_def)
qed

theorem dupfd_spec_witness: "\<exists>s'. dupfd 0 0 demo_fds = (1, s') \<and> t_filp (cur_task s') 1 = Some 0 \<and> counts_ok s'"
proof -
  have fl: "t_filp (cur_task demo_fds) = (\<lambda>_. None)(0 := Some 0)" by (simp add: demo_fds_sched)
  have "List.find (\<lambda>k. t_filp (cur_task demo_fds) k = None) [0..<20] = Some 1" unfolding fl find_upt_Some by simp
  then obtain s' where d: "dupfd 0 0 demo_fds = (1, s')" by (simp add: dupfd_def fl Let_def)
  have c: "\<forall>i<NR_TASKS. task (bio_sched demo_fds) i = current (bio_sched demo_fds) \<longrightarrow> i = 1" by (auto simp: demo_fds_sched split: if_splits)
  have n: "\<not> (\<forall>k. unat (0 :: u32) \<le> k \<and> k < 20 \<longrightarrow> t_filp (cur_task demo_fds) k \<noteq> None)" unfolding fl by (auto intro!: exI[of _ 1])
  have m: "\<not> (20 \<le> unat (0 :: u32) \<or> t_filp (cur_task demo_fds) (unat (0 :: u32)) = None)" "\<not> 20 \<le> unat (0 :: u32)" unfolding fl by simp_all
  have t: "1 < NR_TASKS" "task (bio_sched demo_fds) 1 = current (bio_sched demo_fds)" "current (bio_sched demo_fds) \<noteq> 0"
    by (simp_all add: demo_fds_sched)
  from dupfd_spec[OF demo_fds_counts t c d, unfolded if_not_P[OF m(1)] if_not_P[OF m(2)] if_not_P[OF n]]
  have "t_filp (cur_task s') = (t_filp (cur_task demo_fds))(1 := t_filp (cur_task demo_fds) 0) \<and> counts_ok s'" by auto
  with d show ?thesis by (auto simp: fl)
qed

theorem sys_write_shows_witness:
  "\<exists>q c. sys_write (tty_write 2 Inr Inr (con_write_n 1 0)) 0 0x10 1 demo_fds False typed_world =
      Inr (1, False, typed_world\<lparr>w_tty := (w_tty typed_world)\<lparr>write_q := q\<rparr>, w_con := c\<rparr>) \<and> q_list q = []
    \<and> sc_rows (screen_of c) ! 5 ! 0 = (0x62, 7) \<and> sc_col (screen_of c) = 1"
proof -
  have f: "t_filp (cur_task demo_fds) (unat (0 :: u32)) = Some 0" "f_inode (file_table demo_fds 0) = Some 3"
    "S_IS S_IFCHR (i_mode (inode_table demo_fds 3))" "i_zone (inode_table demo_fds 3) 0 = 0x400" "0 <s (1 :: u32)"
    by (simp add: demo_fds_sched) (simp_all add: demo_fds_def S_IS_def word_sless_alt)
  have "fs_seg demo_fds 0x10 = 0x62" by (simp add: demo_fds_def demo_cwd_def demo_dir_simps)
  then have b: "[0x62] = user_bytes (fs_seg demo_fds) 0x10 (nat (sint (1 :: u32)))" by (simp add: user_bytes_def)
  have w: "q_list (write_q (w_tty typed_world)) = []" by (simp add: typed_fields q_list_empty)
  have o: "opost (w_tty typed_world) [0x62] = [0x62]"
    by (simp add: opost_def opost1_def Let_def typed_world_def demo_world_def tty_table0_def O_POST_def O_CRNL_def O_NLRET_def O_NLCR_def O_LCUC_def)
  have v: "even (unat (video_num_columns (w_con typed_world)))" by (simp add: typed_fields vga_console)
  obtain q c where r: "sys_write (tty_write (Suc (Suc 0)) Inr Inr (con_write_n (Suc 0) 0)) 0 0x10 1 demo_fds False typed_world =
      Inr (sint (1 :: u32), False, typed_world\<lparr>w_tty := (w_tty typed_world)\<lparr>write_q := q\<rparr>, w_con := c\<rparr>)" "q_list q = []"
      "screen_of c = fold (show_char (ERASE_CHAR (w_tty typed_world))) [0x62] (screen_of (w_con typed_world))"
    using sys_write_shows[OF _ f b _ typed_calm w _ v, of 0 Inr Inr 0 0] unfolding o by auto
  have "sc_rows (screen_of c) ! 5 ! 0 = (0x62, 7)" "sc_col (screen_of c) = 1" using r(3)
    by (simp_all add: typed_fields show_char_def show_glyph_def put_cell_def vga_console Let_def)
  then show ?thesis using r(1,2) unfolding numeral_2_eq_2 One_nat_def by auto
qed

end
