(* ===== verification/Fork.thy ===== *)
theory Fork
  imports Memory Sched
begin

text \<open>
  Process creation, kernel/fork.c: \<open>copy_mem\<close> and \<open>copy_process\<close> over the page allocator, the page
  tables, the task slots and the descriptor table. The reference counts of open files and of
  inodes, which a fork raises, are functions of the index in \<open>file_table\<close> and \<open>inode_table\<close>.
\<close>

section \<open>State\<close>

record proc =
  pr_mm :: mm_state
  pr_sched :: sched
  f_counts :: "nat \<Rightarrow> u16"
  i_counts :: "nat \<Rightarrow> u16"

definition ENOMEM :: int where "ENOMEM = 12"

text \<open>The register values the system call entry has pushed, in the order of the parameters.\<close>

record fork_regs =
  r_ebp :: u32
  r_edi :: u32
  r_esi :: u32
  r_gs :: u32
  r_ebx :: u32
  r_ecx :: u32
  r_edx :: u32
  r_fs :: u32
  r_es :: u32
  r_ds :: u32
  r_eip :: u32
  r_cs :: u32
  r_eflags :: u32
  r_esp :: u32
  r_ss :: u32

section \<open>Operations\<close>

text \<open>
  \<open>copy_mem\<close>: the two warnings are printed by the code and change nothing. Selectors 0x0f and 0x17
  name entries 1 and 2 of the current task's local descriptor table.
\<close>

definition copy_mem :: "nat \<Rightarrow> u32 \<Rightarrow> proc \<Rightarrow> (int \<times> proc) kres" where
  "copy_mem nr p s =
     (let k = pr_sched s; cur = tasks k (current k);
          data_limit = get_limit (t_ldt cur 2);
          old_data_base = get_base (t_ldt cur 2);
          new_base = of_nat nr * 0x4000000;
          k1 = upd_task p (\<lambda>t. t\<lparr>t_ldt := (t_ldt t)(1 := set_base (t_ldt t 1) new_base)\<rparr>) k;
          k2 = upd_task p (\<lambda>t. t\<lparr>t_ldt := (t_ldt t)(2 := set_base (t_ldt t 2) new_base)\<rparr>) k1
      in kbind (copy_page_tables old_data_base new_base data_limit (pr_mm s)) (\<lambda>(r, mm).
           Inr (if r \<noteq> 0 then - ENOMEM else 0, s\<lparr>pr_mm := mm, pr_sched := k2\<rparr>)))"

definition child_tss :: "nat \<Rightarrow> u32 \<Rightarrow> u32 \<Rightarrow> fork_regs \<Rightarrow> tss_struct \<Rightarrow> tss_struct" where
  "child_tss nr p pgdir r t = t\<lparr>back_link := 0, esp0 := of_nat PAGE_SIZE + p, ss0 := 0x10, cr3 := pgdir,
     eip := r_eip r, eflags := r_eflags r, eax := 0, ecx := r_ecx r, edx := r_edx r, ebx := r_ebx r,
     esp := r_esp r, ebp := r_ebp r, esi := r_esi r, edi := r_edi r,
     es := r_es r AND 0xffff, cs := r_cs r AND 0xffff, ss := r_ss r AND 0xffff, ds := r_ds r AND 0xffff,
     fs := r_fs r AND 0xffff, gs := r_gs r AND 0xffff, ldt_sel := LDT_sel nr, trace_bitmap := 0x80000000\<rparr>"

definition child_task :: "nat \<Rightarrow> u32 \<Rightarrow> u32 \<Rightarrow> fork_regs \<Rightarrow> u32 \<Rightarrow> task_struct \<Rightarrow> task_struct" where
  "child_task nr p pgdir r pid cur = cur\<lparr>t_state := TASK_UNINTERRUPTIBLE, t_pid := pid, t_father := t_pid cur,
     t_leader := 0, t_counter := t_priority cur, t_tss := child_tss nr p pgdir r (t_tss cur)\<rparr>"

text \<open>\<open>if (x) x->count++\<close>\<close>

definition inc_count :: "nat option \<Rightarrow> (nat \<Rightarrow> u16) \<Rightarrow> nat \<Rightarrow> u16" where
  "inc_count x c = (case x of None \<Rightarrow> c | Some i \<Rightarrow> c(i := c i + 1))"

text \<open>\<open>for (i=0; i<NR_OPEN;i++) if ((f=p->filp[i])) f->f_count++\<close>\<close>

primrec inc_filp :: "nat \<Rightarrow> (nat \<Rightarrow> nat option) \<Rightarrow> (nat \<Rightarrow> u16) \<Rightarrow> nat \<Rightarrow> u16" where
  "inc_filp 0 filp c = c"
| "inc_filp (Suc n) filp c = inc_count (filp n) (inc_filp n filp c)"

text \<open>
  \<open>copy_process\<close>; \<open>tss_off\<close> and \<open>ldt_off\<close> are the offsets of the fields \<open>tss\<close> and \<open>ldt\<close> in
  \<open>struct task_struct\<close>, which the compiler lays out. The result is the C return value.
\<close>

definition copy_process :: "u32 \<Rightarrow> u32 \<Rightarrow> nat \<Rightarrow> fork_regs \<Rightarrow> proc \<Rightarrow> (int \<times> proc) kres" where
  "copy_process tss_off ldt_off nr r s =
     kbind (get_free_page (pr_mm s)) (\<lambda>(p, mm).
       if p = 0 then Inr (- EAGAIN, s\<lparr>pr_mm := mm\<rparr>)
       else
         (let k = pr_sched s;
              cur = tasks k (current k);
              k1 = k\<lparr>task := (task k)(nr := p),
                     tasks := (tasks k)(p := child_task nr p (pg_dir mm) r (last_pid k) cur)\<rparr>
          in kbind (copy_mem nr p (s\<lparr>pr_mm := mm, pr_sched := k1\<rparr>)) (\<lambda>(e, s1).
               if e \<noteq> 0 then
                 (let k2 = pr_sched s1
                  in kbind (free_page p (pr_mm s1)) (\<lambda>mm2.
                       Inr (- EAGAIN, s1\<lparr>pr_mm := mm2, pr_sched := k2\<lparr>task := (task k2)(nr := 0)\<rparr>\<rparr>)))
               else
                 (let k2 = pr_sched s1;
                      t = tasks k2 p;
                      c = tasks k2 (current k2);
                      k3 = k2\<lparr>gdt := (gdt k2)(
                             2 * nr + FIRST_TSS_ENTRY := set_tss_desc (gdt k2 (2 * nr + FIRST_TSS_ENTRY)) (p + tss_off),
                             2 * nr + FIRST_LDT_ENTRY := set_ldt_desc (gdt k2 (2 * nr + FIRST_LDT_ENTRY)) (p + ldt_off))\<rparr>
                  in Inr (sint (last_pid k3),
                       s1\<lparr>f_counts := inc_filp NR_OPEN (t_filp t) (f_counts s1),
                          i_counts := inc_count (t_executable c) (inc_count (t_root c) (inc_count (t_pwd c) (i_counts s1))),
                          pr_sched := upd_task p (\<lambda>t. t\<lparr>t_state := TASK_RUNNING\<rparr>) k3\<rparr>)))))"

section \<open>What a successful fork leaves behind\<close>

definition shares_file :: "(nat \<Rightarrow> nat option) \<Rightarrow> nat \<Rightarrow> nat \<Rightarrow> u16" where
  "shares_file filp f n = (\<Sum>i<n. if filp i = Some f then 1 else 0)"

lemma inc_filp_count: "inc_filp n filp c f = c f + shares_file filp f n"
  by (induction n) (auto simp: inc_count_def shares_file_def split: option.split)

text \<open>
  What the user's program sees of the registers: the parent's when \<open>system_call\<close> pops its stack frame and
  returns \<open>v\<close> in eax, and those of a task that the processor starts from its TSS. A segment register holds 16 bits.
\<close>

record user_ctx =
  uc_ip :: "u32 \<times> u32"
  uc_sp :: "u32 \<times> u32"
  uc_flags :: u32
  uc_regs :: "(string \<times> u32) list"
  uc_segs :: "(string \<times> u32) list"

definition popped_ctx :: "u32 \<Rightarrow> fork_regs \<Rightarrow> user_ctx" where
  "popped_ctx v r = \<lparr>uc_ip = (r_cs r AND 0xffff, r_eip r), uc_sp = (r_ss r AND 0xffff, r_esp r), uc_flags = r_eflags r,
     uc_regs = [(''eax'', v), (''ebx'', r_ebx r), (''ecx'', r_ecx r), (''edx'', r_edx r), (''esi'', r_esi r), (''edi'', r_edi r), (''ebp'', r_ebp r)],
     uc_segs = [(''ds'', r_ds r AND 0xffff), (''es'', r_es r AND 0xffff), (''fs'', r_fs r AND 0xffff), (''gs'', r_gs r AND 0xffff)]\<rparr>"

definition tss_ctx :: "tss_struct \<Rightarrow> user_ctx" where
  "tss_ctx t = \<lparr>uc_ip = (cs t, eip t), uc_sp = (ss t, esp t), uc_flags = eflags t,
     uc_regs = [(''eax'', eax t), (''ebx'', ebx t), (''ecx'', ecx t), (''edx'', edx t), (''esi'', esi t), (''edi'', edi t), (''ebp'', ebp t)],
     uc_segs = [(''ds'', ds t), (''es'', es t), (''fs'', fs t), (''gs'', gs t)]\<rparr>"

lemma inc_count_apply: "inc_count x c i = c i + (if x = Some i then 1 else 0)"
  by (auto simp: inc_count_def split: option.split)

lemma LDT_sel_index: "nr < NR_TASKS \<Longrightarrow> unat (LDT_sel nr) = 8 * (2 * nr + FIRST_LDT_ENTRY)"
  by (simp add: LDT_sel_def push_bit_eq_mult unat_word_ariths unat_of_nat)

lemma desc_kind [simp]: "get_bits 8 8 (d_b (set_tss_desc d addr)) = 0x89" "get_bits 8 8 (d_b (set_ldt_desc d addr)) = 0x82"
  using system_descriptors[of d addr 0] by simp_all

lemma copy_process_ok:
  assumes "get_free_page (pr_mm s) = Inr (p, mm)" and "p \<noteq> 0"
    and "p \<noteq> current (pr_sched s)"
    and "cur = tasks (pr_sched s) (current (pr_sched s))"
    and "copy_page_tables (get_base (t_ldt cur 2)) (of_nat nr * 0x4000000) (get_limit (t_ldt cur 2)) mm = Inr (0, mm')"
  shows "\<exists>c g s'. copy_process tss_off ldt_off nr r s = Inr (sint (last_pid (pr_sched s)), s') \<and> pr_mm s' = mm'
    \<and> (\<exists>f<MM_PAGES. p = frame_addr f \<and> \<not> page_used (pr_mm s) f)
    \<and> pr_sched s' = (pr_sched s)\<lparr>task := (task (pr_sched s))(nr := p), tasks := (tasks (pr_sched s))(p := c), gdt := g\<rparr>
    \<and> t_state c = TASK_RUNNING \<and> t_pid c = last_pid (pr_sched s) \<and> t_father c = t_pid cur \<and> t_leader c = 0 \<and> t_counter c = t_priority cur
    \<and> c\<lparr>t_state := t_state cur, t_pid := t_pid cur, t_father := t_father cur, t_leader := t_leader cur, t_counter := t_counter cur,
        t_ldt := t_ldt cur, t_tss := t_tss cur\<rparr> = cur
    \<and> tss_ctx (t_tss c) = popped_ctx 0 r
    \<and> ss0 (t_tss c) = 0x10 \<and> esp0 (t_tss c) = p + 4096 \<and> cr3 (t_tss c) = pg_dir (pr_mm s) \<and> back_link (t_tss c) = 0 \<and> trace_bitmap (t_tss c) = 0x80000000
    \<and> esp1 (t_tss c) = esp1 (t_tss cur) \<and> ss1 (t_tss c) = ss1 (t_tss cur) \<and> esp2 (t_tss c) = esp2 (t_tss cur) \<and> ss2 (t_tss c) = ss2 (t_tss cur)
    \<and> (\<forall>i\<in>{1, 2}. get_base (t_ldt c i) = of_nat nr * 0x4000000 \<and> get_limit (t_ldt c i) = get_limit (t_ldt cur i)
        \<and> get_bits 8 16 (d_b (t_ldt c i)) = get_bits 8 16 (d_b (t_ldt cur i)))
    \<and> (\<forall>i. i \<notin> {1, 2} \<longrightarrow> t_ldt c i = t_ldt cur i)
    \<and> (nr < NR_TASKS \<longrightarrow> unat (ldt_sel (t_tss c)) div 8 = 2 * nr + FIRST_LDT_ENTRY \<and> unat (ldt_sel (t_tss c)) mod 8 = 0)
    \<and> get_base (g (2 * nr + FIRST_LDT_ENTRY)) = p + ldt_off \<and> get_bits 8 8 (d_b (g (2 * nr + FIRST_LDT_ENTRY))) = 0x82
    \<and> get_base (g (2 * nr + FIRST_TSS_ENTRY)) = p + tss_off \<and> get_bits 8 8 (d_b (g (2 * nr + FIRST_TSS_ENTRY))) = 0x89
    \<and> (\<forall>i. i \<notin> {2 * nr + FIRST_LDT_ENTRY, 2 * nr + FIRST_TSS_ENTRY} \<longrightarrow> g i = gdt (pr_sched s) i)
    \<and> (\<forall>f. f_counts s' f = f_counts s f + shares_file (t_filp cur) f NR_OPEN)
    \<and> (\<forall>i. i_counts s' i = i_counts s i + (if t_pwd cur = Some i then 1 else 0) + (if t_root cur = Some i then 1 else 0)
        + (if t_executable cur = Some i then 1 else 0))"
proof -
  have gb: "get_bits 8 16 (d_b (set_base d b)) = get_bits 8 16 (d_b d)" for d b using get_base_set_base[of d b] by simp
  let ?k = "pr_sched s"
  define c where "c = (child_task nr p (pg_dir mm) r (last_pid ?k) cur)\<lparr>t_ldt := (t_ldt cur)(1 := set_base (t_ldt cur 1) (of_nat nr * 0x4000000), 2 := set_base (t_ldt cur 2) (of_nat nr * 0x4000000)),
    t_state := TASK_RUNNING\<rparr>"
  define g where "g = (gdt ?k)(2 * nr + FIRST_TSS_ENTRY := set_tss_desc (gdt ?k (2 * nr + FIRST_TSS_ENTRY)) (p + tss_off),
    2 * nr + FIRST_LDT_ENTRY := set_ldt_desc (gdt ?k (2 * nr + FIRST_LDT_ENTRY)) (p + ldt_off))"
  define s' where "s' = s\<lparr>pr_mm := mm', f_counts := inc_filp NR_OPEN (t_filp cur) (f_counts s),
    i_counts := inc_count (t_executable cur) (inc_count (t_root cur) (inc_count (t_pwd cur) (i_counts s))),
    pr_sched := ?k\<lparr>task := (task ?k)(nr := p), gdt := g, tasks := (tasks ?k)(p := c)\<rparr>\<rparr>"
  have "copy_process tss_off ldt_off nr r s = Inr (sint (last_pid ?k), s')"
    using assms by (simp add: copy_process_def copy_mem_def child_task_def upd_task_def Let_def s'_def c_def g_def)
  moreover have "c\<lparr>t_state := t_state cur, t_pid := t_pid cur, t_father := t_father cur, t_leader := t_leader cur, t_counter := t_counter cur,
        t_ldt := t_ldt cur, t_tss := t_tss cur\<rparr> = cur" by (simp add: c_def child_task_def)
  moreover have "tss_ctx (t_tss c) = popped_ctx 0 r" by (simp add: c_def child_task_def child_tss_def tss_ctx_def popped_ctx_def)
  moreover have f: "\<exists>f<MM_PAGES. p = frame_addr f \<and> \<not> page_used (pr_mm s) f" using assms(1) by (rule get_free_page_InrD) blast
  moreover have "pg_dir mm = pg_dir (pr_mm s)" using assms(1) by (rule get_free_page_InrD) (simp add: alloc_frame_def)
  ultimately show ?thesis
    by (intro exI[of _ c] exI[of _ g] exI[of _ s'] conjI)
      (simp_all add: s'_def c_def g_def child_task_def child_tss_def gb inc_filp_count inc_count_apply LDT_sel_index f)
qed

lemma same_task_fields:
  assumes "c\<lparr>t_state := a1, t_pid := a2, t_father := a3, t_leader := a4, t_counter := a5, t_ldt := a6, t_tss := a7\<rparr> = cur"
  shows "t_priority c = t_priority cur \<and> t_filp c = t_filp cur"
  using assms by auto

lemma get_free_page_nonzero: "get_free_page s = Inr (a, s') \<Longrightarrow> a \<noteq> 0"
  by (erule get_free_page_InrD) (simp add: frame_addr_nonzero)

text \<open>C7: When \<open>copy_process\<close> gets a frame and the page tables are copied, it returns the new process number, and
  the child, whose task structure is in that frame, which was unused, is in slot \<open>nr\<close>. The child is runnable with a full time slice
  and no leader; started from its TSS it has the registers with which the parent returns to its program, stack, flags and segments included,
  except that eax is 0, with the kernel stack at the end of the frame and the same page directory. Its code and data segments are at \<open>nr\<close> times 64 MB
  with the limits and attributes of the parent's; its LDT selector names the GDT entry that is a present LDT descriptor for its own LDT,
  and the entry before it is an available TSS for its own TSS. Every other field of the task structure is
  the parent's. Every file has one more count per descriptor of the parent's that refers to it, every inode one per use as
  working directory, root or executable. No other task structure, slot or GDT entry changes, nor the rest of the
  scheduler's state.\<close>

theorem copy_process_child:
  assumes "get_free_page (pr_mm s) = Inr (p, mm)" and "p \<noteq> current (pr_sched s)" and "nr < NR_TASKS"
    and "cur = tasks (pr_sched s) (current (pr_sched s))"
    and "copy_page_tables (get_base (t_ldt cur 2)) (of_nat nr * 0x4000000) (get_limit (t_ldt cur 2)) mm = Inr (0, mm')"
  shows "\<exists>c g s'. copy_process tss_off ldt_off nr r s = Inr (sint (last_pid (pr_sched s)), s') \<and> pr_mm s' = mm'
    \<and> (\<exists>f<MM_PAGES. p = frame_addr f \<and> \<not> page_used (pr_mm s) f)
    \<and> pr_sched s' = (pr_sched s)\<lparr>task := (task (pr_sched s))(nr := p), tasks := (tasks (pr_sched s))(p := c), gdt := g\<rparr>
    \<and> t_state c = TASK_RUNNING \<and> t_pid c = last_pid (pr_sched s) \<and> t_father c = t_pid cur \<and> t_leader c = 0 \<and> t_counter c = t_priority cur
    \<and> c\<lparr>t_state := t_state cur, t_pid := t_pid cur, t_father := t_father cur, t_leader := t_leader cur, t_counter := t_counter cur,
        t_ldt := t_ldt cur, t_tss := t_tss cur\<rparr> = cur
    \<and> tss_ctx (t_tss c) = popped_ctx 0 r
    \<and> ss0 (t_tss c) = 0x10 \<and> esp0 (t_tss c) = p + 4096 \<and> cr3 (t_tss c) = pg_dir (pr_mm s) \<and> back_link (t_tss c) = 0 \<and> trace_bitmap (t_tss c) = 0x80000000
    \<and> esp1 (t_tss c) = esp1 (t_tss cur) \<and> ss1 (t_tss c) = ss1 (t_tss cur) \<and> esp2 (t_tss c) = esp2 (t_tss cur) \<and> ss2 (t_tss c) = ss2 (t_tss cur)
    \<and> (\<forall>i\<in>{1, 2}. get_base (t_ldt c i) = of_nat nr * 0x4000000 \<and> get_limit (t_ldt c i) = get_limit (t_ldt cur i)
        \<and> get_bits 8 16 (d_b (t_ldt c i)) = get_bits 8 16 (d_b (t_ldt cur i)))
    \<and> (\<forall>i. i \<notin> {1, 2} \<longrightarrow> t_ldt c i = t_ldt cur i)
    \<and> unat (ldt_sel (t_tss c)) div 8 = 2 * nr + FIRST_LDT_ENTRY \<and> unat (ldt_sel (t_tss c)) mod 8 = 0
    \<and> get_base (g (2 * nr + FIRST_LDT_ENTRY)) = p + ldt_off \<and> get_bits 8 8 (d_b (g (2 * nr + FIRST_LDT_ENTRY))) = 0x82
    \<and> get_base (g (2 * nr + FIRST_TSS_ENTRY)) = p + tss_off \<and> get_bits 8 8 (d_b (g (2 * nr + FIRST_TSS_ENTRY))) = 0x89
    \<and> (\<forall>i. i \<notin> {2 * nr + FIRST_LDT_ENTRY, 2 * nr + FIRST_TSS_ENTRY} \<longrightarrow> g i = gdt (pr_sched s) i)
    \<and> (\<forall>f. f_counts s' f = f_counts s f + shares_file (t_filp cur) f NR_OPEN)
    \<and> (\<forall>i. i_counts s' i = i_counts s i + (if t_pwd cur = Some i then 1 else 0) + (if t_root cur = Some i then 1 else 0)
        + (if t_executable cur = Some i then 1 else 0))"
  using copy_process_ok[OF assms(1) get_free_page_nonzero[OF assms(1)] assms(2,4,5), of tss_off ldt_off r]
  by (simp only: assms(3) simp_thms conj_assoc)

section \<open>Failure, and the scheduler's invariant\<close>

lemma copy_dirs_zero: "copy_dirs n f t s = Inr (r, s') \<Longrightarrow> r = 0"
proof (induction n arbitrary: f t s)
  case (Suc n)
  show ?case
  proof (cases "ld32 (pmem s) f AND 1 = 0")
    case True
    with Suc show ?thesis by simp
  next
    case False
    with Suc.prems obtain a s1 where g: "get_free_page s = Inr (a, s1)"
      by (auto simp: kres_simps Let_def)
    have "a \<noteq> 0" using get_free_page_nonzero[OF g] .
    with False Suc.prems g Suc.IH show ?thesis by (auto simp: kres_simps Let_def)
  qed
qed simp

lemma copy_page_tables_zero: "copy_page_tables f t n s = Inr (r, s') \<Longrightarrow> r = 0"
  unfolding copy_page_tables_def Let_def by (rule copy_dirs_zero)

text \<open>\<open>copy_process\<close> never reports a failure: whenever it returns, it returns the process number.
  Its two \<open>-EAGAIN\<close> branches cannot be reached, because \<open>get_free_page\<close>, when no frame is left, does not
  return 0 as they expect.\<close>

theorem copy_process_never_eagain:
  assumes "copy_process tss_off ldt_off nr r s = Inr (v, s')"
  shows "v = sint (last_pid (pr_sched s))"
proof -
  obtain p mm where g: "get_free_page (pr_mm s) = Inr (p, mm)"
    using assms by (auto simp: copy_process_def kres_simps)
  note p = get_free_page_nonzero[OF g]
  let ?k = "pr_sched s"
  define t where "t = s\<lparr>pr_mm := mm, pr_sched := ?k\<lparr>task := (task ?k)(nr := p),
    tasks := (tasks ?k)(p := child_task nr p (pg_dir mm) r (last_pid ?k) (tasks ?k (current ?k)))\<rparr>\<rparr>"
  obtain e s1 where m: "copy_mem nr p t = Inr (e, s1)"
    using assms g p by (auto simp: copy_process_def kres_simps Let_def t_def)
  have "e = 0" and l: "last_pid (pr_sched s1) = last_pid ?k"
    using m copy_page_tables_zero by (fastforce simp: copy_mem_def Let_def kres_simps upd_task_def t_def)+
  with assms g p m show ?thesis
    by (simp add: copy_process_def Let_def t_def[symmetric])
qed

text \<open>The two steps of \<open>sys_fork\<close> (arch/x86/asm/system_call.S).\<close>

definition sys_fork :: "u32 \<Rightarrow> u32 \<Rightarrow> fork_regs \<Rightarrow> proc \<Rightarrow> (int \<times> proc) kres" where
  "sys_fork tss_off ldt_off r s =
     (case find_empty_process (pr_sched s) of
        None \<Rightarrow> Inl Hang
      | Some (nr, k) \<Rightarrow> if nr < 0 then Inr (nr, s\<lparr>pr_sched := k\<rparr>)
                       else copy_process tss_off ldt_off (nat nr) r (s\<lparr>pr_sched := k\<rparr>))"

text \<open>Process numbers identify tasks, and a task structure lies in a frame that is in use.\<close>

definition pids_distinct :: "sched \<Rightarrow> bool" where
  "pids_distinct k \<longleftrightarrow> (\<forall>i<NR_TASKS. \<forall>j<NR_TASKS. task k i \<noteq> 0 \<longrightarrow> task k j \<noteq> 0
     \<longrightarrow> t_pid (tasks k (task k i)) = t_pid (tasks k (task k j)) \<longrightarrow> i = j)"

definition tasks_in_frames :: "proc \<Rightarrow> bool" where
  "tasks_in_frames s \<longleftrightarrow> (\<forall>i<NR_TASKS. \<forall>p<MM_PAGES. task (pr_sched s) i = frame_addr p \<longrightarrow> page_used (pr_mm s) p)"

lemma copy_ptes_mem_map: "copy_ptes n f t s = Inr s' \<Longrightarrow> mem_map s' = mem_map s"
proof (induction n arbitrary: f t s)
  case (Suc n)
  then show ?case
    by (fastforce simp: Let_def split: if_splits option.splits)
qed simp

lemma copy_dirs_used: "copy_dirs n f t s = Inr (r, s') \<Longrightarrow> page_used s p \<Longrightarrow> page_used s' p"
proof (induction n arbitrary: f t s)
  case (Suc n)
  show ?case
  proof (cases "ld32 (pmem s) f AND 1 = 0")
    case True
    with Suc show ?thesis by simp
  next
    case False
    with Suc.prems(1) obtain a s1 where g: "get_free_page s = Inr (a, s1)"
      by (auto simp: kres_simps Let_def)
    then have u: "page_used s1 p"
      by (rule get_free_page_InrD) (simp add: page_used_alloc Suc.prems(2))
    have "a \<noteq> 0" using get_free_page_nonzero[OF g] .
    with False Suc.prems g obtain s2 where c: "copy_ptes 1024 (0xfffff000 AND ld32 (pmem s) f) a
        (s1\<lparr>pmem := st32 (pmem s1) t (a OR 7)\<rparr>) = Inr s2" and d: "copy_dirs n (f + 4) (t + 4) s2 = Inr (r, s')"
      by (auto simp: kres_simps Let_def)
    have "page_used s2 p" using copy_ptes_mem_map[OF c] u by (simp add: page_used_def)
    with Suc.IH d show ?thesis by blast
  qed
qed simp

lemma copy_page_tables_used:
  "copy_page_tables f t n s = Inr (r, s') \<Longrightarrow> page_used s p \<Longrightarrow> page_used s' p"
  unfolding copy_page_tables_def Let_def by (rule copy_dirs_used)

lemma copy_process_InrD:
  assumes "copy_process tss_off ldt_off nr r s = Inr (v, s')"
    and "\<forall>p mm. get_free_page (pr_mm s) = Inr (p, mm) \<longrightarrow> p \<noteq> current (pr_sched s)"
  shows "\<exists>p mm. get_free_page (pr_mm s) = Inr (frame_addr p, mm) \<and> p < MM_PAGES \<and> \<not> page_used (pr_mm s) p
    \<and> v = sint (last_pid (pr_sched s)) \<and> (\<forall>q. q = p \<or> page_used (pr_mm s) q \<longrightarrow> page_used (pr_mm s') q)
    \<and> task (pr_sched s') = (task (pr_sched s))(nr := frame_addr p)
    \<and> last_pid (pr_sched s') = last_pid (pr_sched s)
    \<and> (\<forall>q. q \<noteq> frame_addr p \<longrightarrow> tasks (pr_sched s') q = tasks (pr_sched s) q)
    \<and> t_pid (tasks (pr_sched s') (frame_addr p)) = last_pid (pr_sched s)
    \<and> t_counter (tasks (pr_sched s') (frame_addr p)) = t_priority (tasks (pr_sched s) (current (pr_sched s)))
    \<and> t_priority (tasks (pr_sched s') (frame_addr p)) = t_priority (tasks (pr_sched s) (current (pr_sched s)))
    \<and> t_filp (tasks (pr_sched s') (frame_addr p)) = t_filp (tasks (pr_sched s) (current (pr_sched s)))
    \<and> (\<forall>f. f_counts s' f = f_counts s f + shares_file (t_filp (tasks (pr_sched s) (current (pr_sched s)))) f NR_OPEN)"
proof -
  let ?k = "pr_sched s"
  let ?cur = "tasks ?k (current ?k)"
  obtain a mm where g: "get_free_page (pr_mm s) = Inr (a, mm)"
    using assms(1) by (auto simp: copy_process_def kres_simps)
  obtain p where p: "p < MM_PAGES" "\<not> page_used (pr_mm s) p" "a = frame_addr p" "mm = alloc_frame p (pr_mm s)"
    by (rule get_free_page_InrD[OF g])
  have a: "a \<noteq> 0" "a \<noteq> current ?k" using get_free_page_nonzero[OF g] assms(2) g by auto
  obtain e mm' where c0: "copy_page_tables (get_base (t_ldt ?cur 2)) (of_nat nr * 0x4000000) (get_limit (t_ldt ?cur 2)) mm = Inr (e, mm')"
    using assms(1) g a by (auto simp: copy_process_def copy_mem_def kres_simps Let_def upd_task_def)
  then have c: "copy_page_tables (get_base (t_ldt ?cur 2)) (of_nat nr * 0x4000000) (get_limit (t_ldt ?cur 2)) mm = Inr (0, mm')"
    using copy_page_tables_zero by blast
  have u: "page_used mm' q" if "q = p \<or> page_used (pr_mm s) q" for q
    by (rule copy_page_tables_used[OF c]) (use that p(4) in \<open>auto simp: page_used_alloc\<close>)
  obtain d gd s1 where R: "copy_process tss_off ldt_off nr r s = Inr (sint (last_pid ?k), s1)" "pr_mm s1 = mm'"
      "pr_sched s1 = ?k\<lparr>task := (task ?k)(nr := a), tasks := (tasks ?k)(a := d), gdt := gd\<rparr>" "t_pid d = last_pid ?k" "t_counter d = t_priority ?cur"
      "t_priority d = t_priority ?cur \<and> t_filp d = t_filp ?cur" "\<forall>f. f_counts s1 f = f_counts s f + shares_file (t_filp ?cur) f NR_OPEN"
    using copy_process_ok[OF g a refl c, of tss_off ldt_off r] by (elim exE conjE) (rule that; (assumption | erule same_task_fields))
  have s1: "s1 = s'" "v = sint (last_pid ?k)" using R(1) assms(1) by simp_all
  show ?thesis using R(2-7) g p u unfolding s1 by (intro exI[of _ p] exI[of _ mm]) simp
qed

definition fork_inv :: "proc \<Rightarrow> bool" where
  "fork_inv s \<longleftrightarrow> sched_inv (pr_sched s) \<and> pids_distinct (pr_sched s) \<and> tasks_in_frames s
     \<and> 0 \<le> sint (last_pid (pr_sched s))
     \<and> (\<exists>j<NR_TASKS. task (pr_sched s) j = current (pr_sched s)) \<and> current (pr_sched s) \<noteq> 0"

lemma ctr_ok_child: "ctr_ok t \<Longrightarrow> t_counter c = t_priority t \<Longrightarrow> t_priority c = t_priority t \<Longrightarrow> ctr_ok c"
  by (auto simp: ctr_ok_def)

lemma copy_process_current:
  assumes "copy_process tss_off ldt_off nr r s = Inr (v, s')"
  shows "current (pr_sched s') = current (pr_sched s)"
  using assms
  by (auto simp: copy_process_def copy_mem_def kres_simps Let_def upd_task_def split: if_splits)

text \<open>A task structure at a new address \<open>a\<close> with a new process number enters slot \<open>nr\<close>.\<close>

lemma add_task_inv:
  assumes inv: "sched_inv k" "pids_distinct k"
    and a: "a \<noteq> 0" "\<And>i. i < NR_TASKS \<Longrightarrow> task k i \<noteq> a"
    and k': "task k' = (task k)(nr := a)" "\<And>q. q \<noteq> a \<Longrightarrow> tasks k' q = tasks k q"
    and c: "ctr_ok (tasks k' a)"
    and pid: "\<And>i. i < NR_TASKS \<Longrightarrow> task k i \<noteq> 0 \<Longrightarrow> t_pid (tasks k (task k i)) \<noteq> t_pid (tasks k' a)"
  shows "sched_inv k' \<and> pids_distinct k'"
proof
  have old: "task k' i = task k i" "tasks k' (task k i) = tasks k (task k i)" "task k i \<noteq> a"
    if "i < NR_TASKS" "i \<noteq> nr" for i
    using that a(2)[OF that(1)] k'(2)[of "task k i"] by (simp_all add: k'(1))
  have new: "task k' nr = a" by (simp add: k'(1))
  show "sched_inv k'" unfolding sched_inv_def
  proof (intro conjI allI impI)
    show "ctr_ok (tasks k' (task k' i))" if "i < NR_TASKS" "task k' i \<noteq> 0" for i
    proof (cases "i = nr")
      case False
      with that inv(1) old[of i] show ?thesis by (simp add: sched_inv_def)
    qed (simp add: new c)
    show "i = j" if "i < NR_TASKS" "j < NR_TASKS" "task k' i \<noteq> 0" "task k' i = task k' j" for i j
      using that inv(1) old[of i] old[of j] new
      by (cases "i = nr"; cases "j = nr") (auto simp: sched_inv_def)
  qed
  show "pids_distinct k'" unfolding pids_distinct_def
  proof (intro allI impI)
    show "i = j" if "i < NR_TASKS" "j < NR_TASKS" "task k' i \<noteq> 0" "task k' j \<noteq> 0"
      "t_pid (tasks k' (task k' i)) = t_pid (tasks k' (task k' j))" for i j
      using that inv(2) old[of i] old[of j] new pid[of i] pid[of j]
      by (cases "i = nr"; cases "j = nr") (auto simp: pids_distinct_def)
  qed
qed

lemma copy_process_fork_inv:
  assumes inv: "fork_inv s" and nr: "0 < nr" "nr < NR_TASKS" "task (pr_sched s) nr = 0"
    and new: "\<forall>i<NR_TASKS. task (pr_sched s) i \<noteq> 0 \<longrightarrow> t_pid (tasks (pr_sched s) (task (pr_sched s) i)) \<noteq> last_pid (pr_sched s)"
    and r: "copy_process tss_off ldt_off nr r s = Inr (v, s')"
  shows "fork_inv s' \<and> v = sint (last_pid (pr_sched s)) \<and> (\<exists>a. a \<noteq> 0 \<and> task (pr_sched s') = (task (pr_sched s))(nr := a)
    \<and> t_pid (tasks (pr_sched s') a) = last_pid (pr_sched s))"
proof -
  let ?k = "pr_sched s" and ?k' = "pr_sched s'"
  have in_frames: "\<And>i p. i < NR_TASKS \<Longrightarrow> p < MM_PAGES \<Longrightarrow> task ?k i = frame_addr p \<Longrightarrow> page_used (pr_mm s) p"
    using inv by (auto simp: fork_inv_def tasks_in_frames_def)
  have fresh: "a \<noteq> task ?k i" if "get_free_page (pr_mm s) = Inr (a, mm)" "i < NR_TASKS" for a mm i
    by (rule get_free_page_InrD[OF that(1)]) (use in_frames that(2) in metis)
  obtain j where j: "j < NR_TASKS" "task ?k j = current ?k" using inv by (auto simp: fork_inv_def)
  then have nc: "get_free_page (pr_mm s) = Inr (p, mm) \<Longrightarrow> p \<noteq> current ?k" for p mm using fresh by metis
  have "\<exists>p mm. get_free_page (pr_mm s) = Inr (frame_addr p, mm) \<and> p < MM_PAGES \<and> \<not> page_used (pr_mm s) p
    \<and> v = sint (last_pid ?k) \<and> (\<forall>q. q = p \<or> page_used (pr_mm s) q \<longrightarrow> page_used (pr_mm s') q)
    \<and> task ?k' = (task ?k)(nr := frame_addr p)
    \<and> last_pid ?k' = last_pid ?k
    \<and> (\<forall>q. q \<noteq> frame_addr p \<longrightarrow> tasks ?k' q = tasks ?k q)
    \<and> t_pid (tasks ?k' (frame_addr p)) = last_pid ?k
    \<and> t_counter (tasks ?k' (frame_addr p)) = t_priority (tasks ?k (current ?k))
    \<and> t_priority (tasks ?k' (frame_addr p)) = t_priority (tasks ?k (current ?k))
    \<and> t_filp (tasks ?k' (frame_addr p)) = t_filp (tasks ?k (current ?k))
    \<and> (\<forall>f. f_counts s' f = f_counts s f + shares_file (t_filp (tasks ?k (current ?k))) f NR_OPEN)"
    by (rule copy_process_InrD[OF r]) (use nc in blast)
  then obtain p mm where
    g: "get_free_page (pr_mm s) = Inr (frame_addr p, mm)" and p: "p < MM_PAGES" and v: "v = sint (last_pid ?k)"
    and used: "\<And>q. q = p \<or> page_used (pr_mm s) q \<Longrightarrow> page_used (pr_mm s') q"
    and tk: "task ?k' = (task ?k)(nr := frame_addr p)" and lp: "last_pid ?k' = last_pid ?k"
    and ts: "\<And>q. q \<noteq> frame_addr p \<Longrightarrow> tasks ?k' q = tasks ?k q"
    and pid: "t_pid (tasks ?k' (frame_addr p)) = last_pid ?k"
    and cp: "t_counter (tasks ?k' (frame_addr p)) = t_priority (tasks ?k (current ?k))"
      "t_priority (tasks ?k' (frame_addr p)) = t_priority (tasks ?k (current ?k))"
    by blast
  have nz: "frame_addr p \<noteq> 0" by (rule frame_addr_nonzero[OF p])
  have s: "sched_inv ?k" "pids_distinct ?k" using inv by (auto simp: fork_inv_def)
  have "ctr_ok (tasks ?k (current ?k))" using s(1) j inv unfolding sched_inv_def fork_inv_def by metis
  then have okc: "ctr_ok (tasks ?k' (frame_addr p))" using cp by (rule ctr_ok_child)
  have "sched_inv ?k' \<and> pids_distinct ?k'"
    by (rule add_task_inv[OF s nz _ tk ts okc]) (use fresh[OF g, symmetric] new pid in auto)
  moreover have "tasks_in_frames s'" unfolding tasks_in_frames_def
  proof (intro allI impI)
    show "page_used (pr_mm s') q" if "i < NR_TASKS" "q < MM_PAGES" "task ?k' i = frame_addr q" for i q
      using that used in_frames[of i q] tk p frame_addr_inj[of p q] by (cases "i = nr") auto
  qed
  moreover have "task ?k' j = current ?k'"
    using copy_process_current[OF r] j inv nr(3) tk by (auto simp: fork_inv_def)
  ultimately have "fork_inv s'"
    using inv j lp copy_process_current[OF r] by (auto simp: fork_inv_def)
  with v nz tk pid show ?thesis by blast
qed

text \<open>
  C6: A fork keeps the kernel's process invariant: one task structure per slot, counters in range, all process numbers distinct, every task structure in an allocated frame, the current task in a slot. With a free slot it returns a positive process number and exactly one slot is filled, by a task of that number; with none it returns \<open>-EAGAIN\<close> and no task or slot changes.
\<close>

theorem sys_fork_keeps_invariant:
  assumes "fork_inv s" and "sys_fork tss_off ldt_off r s = Inr (v, s')"
  shows "fork_inv s' \<and>
    (if \<exists>i\<in>{1..<NR_TASKS}. task (pr_sched s) i = 0
     then 0 < v \<and> (\<exists>nr a. nr \<in> {1..<NR_TASKS} \<and> task (pr_sched s) nr = 0 \<and> a \<noteq> 0
       \<and> task (pr_sched s') = (task (pr_sched s))(nr := a) \<and> sint (t_pid (tasks (pr_sched s') a)) = v)
     else v = - EAGAIN \<and> tasks (pr_sched s') = tasks (pr_sched s) \<and> task (pr_sched s') = task (pr_sched s))"
proof -
  let ?k = "pr_sched s"
  have "0 \<le> sint (last_pid ?k)" using assms(1) by (simp add: fork_inv_def)
  from find_empty_process_ok[OF this] obtain n p where f: "find_empty_process ?k = Some (n, ?k\<lparr>last_pid := p\<rparr>)"
    and p: "0 < sint p" "\<forall>i<NR_TASKS. task ?k i \<noteq> 0 \<longrightarrow> t_pid (tasks ?k (task ?k i)) \<noteq> p"
    and n: "if \<exists>i\<in>{1..<NR_TASKS}. task ?k i = 0
       then nat n \<in> {1..<NR_TASKS} \<and> task ?k (nat n) = 0 \<and> (\<forall>i\<in>{1..<nat n}. task ?k i \<noteq> 0)
       else n = - EAGAIN" by blast
  let ?s = "s\<lparr>pr_sched := ?k\<lparr>last_pid := p\<rparr>\<rparr>"
  have inv: "fork_inv ?s"
    using assms(1) p(1) by (simp add: fork_inv_def sched_inv_def pids_distinct_def tasks_in_frames_def)
  show ?thesis
  proof (cases "\<exists>i\<in>{1..<NR_TASKS}. task ?k i = 0")
    case True
    with n have n1: "nat n \<in> {1..<NR_TASKS}" "task ?k (nat n) = 0" by (simp_all only: if_True) 
    then have "\<not> n < 0" by auto
    with assms(2) f have "copy_process tss_off ldt_off (nat n) r ?s = Inr (v, s')"
      by (simp add: sys_fork_def)
    then have "fork_inv s' \<and> v = sint p \<and> (\<exists>a. a \<noteq> 0 \<and> task (pr_sched s') = (task ?k)(nat n := a)
        \<and> t_pid (tasks (pr_sched s') a) = p)"
      using copy_process_fork_inv[OF inv, of "nat n" tss_off ldt_off r v s'] n1 p by auto
    with True n1 p show ?thesis by auto
  next
    case False
    with n have "n = - EAGAIN" by (simp only: if_False)
    with assms(2) f False inv show ?thesis by (auto simp: sys_fork_def EAGAIN_def)
  qed
qed

section \<open>A fork\<close>

definition empty_mm :: mm_state where
  "empty_mm = demo_mm\<lparr>pmem := (\<lambda>_. 0)\<rparr>"

definition demo_proc :: proc where
  "demo_proc = \<lparr>pr_mm = empty_mm, pr_sched = demo_sched 0 0 0 0x2000, f_counts = (\<lambda>_. 0), i_counts = (\<lambda>_. 0)\<rparr>"

definition demo_regs :: fork_regs where
  "demo_regs = \<lparr>r_ebp = 0, r_edi = 0, r_esi = 0, r_gs = 0x17, r_ebx = 0, r_ecx = 0, r_edx = 0, r_fs = 0x17,
     r_es = 0x17, r_ds = 0x17, r_eip = 0x1234, r_cs = 0x0f, r_eflags = 0x202, r_esp = 0x3fff0, r_ss = 0x17\<rparr>"

lemma copy_dirs_absent:
  assumes "\<And>i. i < n \<Longrightarrow> ld32 (pmem s) (f + 4 * of_nat i) = 0"
  shows "copy_dirs n f t s = Inr (0, s)"
  using assms
proof (induction n arbitrary: f t)
  case (Suc n)
  have "ld32 (pmem s) f = 0" using Suc.prems[of 0] by simp
  moreover have "copy_dirs n (f + 4) (t + 4) s = Inr (0, s)"
    by (rule Suc.IH) (use Suc.prems[of "Suc i" for i] in \<open>auto simp: algebra_simps\<close>)
  ultimately show ?case by simp
qed simp

lemma demo_ldt: "t_ldt (demo_task s c p) 2 = \<lparr>d_a = 0x3FFF, d_b = 0xc0f200\<rparr>"
  by (simp add: demo_task_def INIT_TASK_def)

lemma demo_limit: "get_limit \<lparr>d_a = 0x3FFF, d_b = 0xc0f200\<rparr> = 0x4000000"
  by (simp add: get_limit_def get_bits_def put_bits_def bit_numeral_rec mask_eq_exp_minus_1)

lemma demo_base: "get_base \<lparr>d_a = 0x3FFF, d_b = 0xc0f200\<rparr> = 0"
  by (simp add: get_base_def get_bits_def put_bits_def)

lemma demo_copy_page_tables:
  "copy_page_tables 0 to 0x4000000 (alloc_frame p empty_mm) = Inr (0, alloc_frame p empty_mm)"
proof -
  have z: "pmem (alloc_frame p empty_mm) = (\<lambda>_. 0)" by (rule ext) (simp add: alloc_frame_def empty_mm_def)
  have "ld32 (pmem (alloc_frame p empty_mm)) a = 0" for a by (simp only: z ld32_zero_mem)
  then show ?thesis unfolding copy_page_tables_def Let_def by (intro copy_dirs_absent)
qed

lemma demo_get:
  "\<exists>p<MM_PAGES. get_free_page empty_mm = Inr (frame_addr p, alloc_frame p empty_mm)"
proof -
  have "\<not> page_used empty_mm 0" by (simp add: page_used_def empty_mm_def demo_mm_def)
  then show ?thesis by (rule get_free_page_alloc[rotated]) auto
qed

lemma demo_proc_inv: "fork_inv demo_proc"
proof -
  have "task (demo_sched 0 0 0 0x2000) i \<noteq> frame_addr p" if "p < MM_PAGES" for i p
    using unat_frame_addr[OF that] by (auto simp: demo_sched_def word_unat_eq_iff)
  moreover have "pids_distinct (demo_sched 0 0 0 0x2000)"
    by (auto simp: pids_distinct_def demo_sched_def)
  moreover have "task (demo_sched 0 0 0 0x2000) 1 = 0x2000" by (simp add: demo_sched_def)
  ultimately show ?thesis
    using demo_inv by (auto simp: fork_inv_def demo_proc_def tasks_in_frames_def intro!: exI[of _ 1])
qed

lemma demo_current:
  "tasks (pr_sched demo_proc) (current (pr_sched demo_proc)) = demo_task 0 30 1"
  by (simp add: demo_proc_def demo_sched_def)

theorem copy_process_child_witness:
  "\<exists>p s'. copy_process 600 576 4 demo_regs demo_proc = Inr (3, s') \<and> task (pr_sched s') 4 = p \<and> p \<noteq> 0
     \<and> t_state (tasks (pr_sched s') p) = TASK_RUNNING \<and> get_base (t_ldt (tasks (pr_sched s') p) 1) = 0x10000000
     \<and> tss_ctx (t_tss (tasks (pr_sched s') p)) = popped_ctx 0 demo_regs \<and> unat (ldt_sel (t_tss (tasks (pr_sched s') p))) div 8 = 13"
proof -
  obtain p where p: "p < MM_PAGES" "get_free_page (pr_mm demo_proc) = Inr (frame_addr p, alloc_frame p empty_mm)"
    using demo_get by (auto simp: demo_proc_def)
  have c: "frame_addr p \<noteq> current (pr_sched demo_proc)"
    using unat_frame_addr[OF p(1)] by (auto simp: demo_proc_def word_unat_eq_iff)
  have t: "copy_page_tables (get_base (t_ldt (demo_task 0 30 1) 2)) (of_nat 4 * 0x4000000)
     (get_limit (t_ldt (demo_task 0 30 1) 2)) (alloc_frame p empty_mm) = Inr (0, alloc_frame p empty_mm)"
    unfolding demo_ldt demo_limit demo_base by (rule demo_copy_page_tables)
  have "last_pid (pr_sched demo_proc) = 3" by (simp add: demo_proc_def)
  then show ?thesis
    using copy_process_child[OF p(2) c _ demo_current[symmetric] t, of 600 576 demo_regs]
      frame_addr_nonzero[OF p(1)] by auto
qed

lemma demo_copy_process:
  assumes "s = demo_proc\<lparr>pr_sched := (demo_sched 0 0 0 0x2000)\<lparr>last_pid := n\<rparr>\<rparr>"
  shows "\<exists>v s'. copy_process 600 576 nr demo_regs s = Inr (v, s')"
proof -
  obtain p where p: "p < MM_PAGES" "get_free_page (pr_mm s) = Inr (frame_addr p, alloc_frame p empty_mm)"
    using demo_get by (auto simp: demo_proc_def assms)
  have c: "frame_addr p \<noteq> current (pr_sched s)"
    using unat_frame_addr[OF p(1)] by (auto simp: assms word_unat_eq_iff)
  have cur: "tasks (pr_sched s) (current (pr_sched s)) = demo_task 0 30 1" by (simp add: assms demo_sched_def)
  have t: "copy_page_tables (get_base (t_ldt (demo_task 0 30 1) 2)) (of_nat nr * 0x4000000)
     (get_limit (t_ldt (demo_task 0 30 1) 2)) (alloc_frame p empty_mm) = Inr (0, alloc_frame p empty_mm)"
    unfolding demo_ldt demo_limit demo_base by (rule demo_copy_page_tables)
  show ?thesis
    using copy_process_ok[OF p(2) frame_addr_nonzero[OF p(1)] c cur[symmetric] t, of 600 576 demo_regs] by blast
qed

lemma demo_sys_fork: "\<exists>v s'. sys_fork 600 576 demo_regs demo_proc = Inr (v, s')"
proof -
  let ?k = "demo_sched 0 0 0 0x2000"
  have "\<exists>i\<in>{1..<NR_TASKS}. task ?k i = 0" by (rule bexI[of _ 4]) (simp_all add: demo_sched_def)
  then obtain r p where f: "find_empty_process ?k = Some (r, ?k\<lparr>last_pid := p\<rparr>)" "nat r \<in> {1..<NR_TASKS}"
    using find_empty_process_ok[of ?k] by auto
  obtain v s' where "copy_process 600 576 (nat r) demo_regs (demo_proc\<lparr>pr_sched := ?k\<lparr>last_pid := p\<rparr>\<rparr>) = Inr (v, s')"
    using demo_copy_process[OF refl] by blast
  with f have "sys_fork 600 576 demo_regs demo_proc = Inr (v, s')"
    by (auto simp: sys_fork_def demo_proc_def)
  then show ?thesis by blast
qed

theorem sys_fork_keeps_invariant_witness:
  "\<exists>v s'. sys_fork 600 576 demo_regs demo_proc = Inr (v, s') \<and> fork_inv s'"
  using demo_sys_fork sys_fork_keeps_invariant[OF demo_proc_inv] by blast

theorem copy_process_never_eagain_witness:
  "\<exists>v s'. copy_process 600 576 4 demo_regs (demo_proc\<lparr>pr_sched := (demo_sched 0 0 0 0x2000)\<lparr>last_pid := 3\<rparr>\<rparr>) = Inr (v, s')
     \<and> v = 3"
proof -
  let ?s = "demo_proc\<lparr>pr_sched := (demo_sched 0 0 0 0x2000)\<lparr>last_pid := 3\<rparr>\<rparr>"
  obtain v s' where "copy_process 600 576 4 demo_regs ?s = Inr (v, s')"
    using demo_copy_process[OF refl] by blast
  with copy_process_never_eagain[OF this] show ?thesis by auto
qed

end
