(* ===== verification/Vsprintf.thy ===== *)
theory Vsprintf
  imports Prelude
begin

text \<open>
  Formatted output: kernel/vsprintf.c and kernel/printk.c. The characters written to the buffer so far
  are a \<open>string\<close>, so that \<open>*str++ = c\<close> appends. \<open>int\<close> variables are 32 bit words compared as signed numbers.
  The variable arguments are the words on the stack; strings are read from memory, and \<open>%n\<close> writes
  there. The buffer itself lies outside the memory that the arguments point to.
\<close>

section \<open>Flags and digits\<close>

abbreviation (input) ZEROPAD :: u32 where "ZEROPAD \<equiv> 1"
abbreviation (input) SIGN :: u32 where "SIGN \<equiv> 2"
abbreviation (input) PLUS :: u32 where "PLUS \<equiv> 4"
abbreviation (input) SPACE :: u32 where "SPACE \<equiv> 8"
abbreviation (input) LEFT_ADJ :: u32 where "LEFT_ADJ \<equiv> 16"
abbreviation (input) SPECIAL :: u32 where "SPECIAL \<equiv> 32"
abbreviation (input) SMALL :: u32 where "SMALL \<equiv> 64"

definition upper_digits :: string where "upper_digits = ''0123456789ABCDEFGHIJKLMNOPQRSTUVWXYZ''"
definition lower_digits :: string where "lower_digits = ''0123456789abcdefghijklmnopqrstuvwxyz''"

definition is_digit :: "char \<Rightarrow> bool" where
  "is_digit c \<longleftrightarrow> 48 \<le> (of_char c :: nat) \<and> (of_char c :: nat) \<le> 57"

text \<open>\<open>skip_atoi\<close>: the number and the rest of the format.\<close>

fun atoi_loop :: "u32 \<Rightarrow> string \<Rightarrow> u32 \<times> string" where
  "atoi_loop i [] = (i, [])"
| "atoi_loop i (c # s) = (if is_digit c then atoi_loop (i * 10 + of_char c - 48) s else (i, c # s))"

definition skip_atoi :: "string \<Rightarrow> u32 \<times> string" where
  "skip_atoi s = atoi_loop 0 s"

section \<open>number\<close>

text \<open>The three loops of \<open>number\<close>: the digits, least significant first, into \<open>tmp[36]\<close> by \<open>do_div\<close>;
  \<open>while (size-- > 0) *str++ = c\<close>; and \<open>while (i < precision--) *str++ = '0'\<close>.\<close>

function digit_loop :: "string \<Rightarrow> u32 \<Rightarrow> u32 \<Rightarrow> string \<Rightarrow> string kres" where
  "digit_loop digits base num tmp =
     (if num = 0 then Inr tmp
      else if 36 \<le> length tmp then Inl Fault
      else digit_loop digits base (num div base) (tmp @ [digits ! unat (num mod base)]))"
  by pat_completeness auto
termination
  by (relation "measure (\<lambda>(digits, base, num, tmp). 36 - length tmp)") auto

declare digit_loop.simps [simp del]

function pad_loop :: "char \<Rightarrow> u32 \<Rightarrow> string \<Rightarrow> string \<times> u32" where
  "pad_loop c sz str = (if 0 <s sz then pad_loop c (sz - 1) (str @ [c]) else (str, sz - 1))"
  by pat_completeness auto
termination
  by (relation "measure (\<lambda>(c, sz, str). nat (sint sz))") (auto simp: word_sless_alt sint_dec32)

declare pad_loop.simps [simp del]

function zero_loop :: "u32 \<Rightarrow> u32 \<Rightarrow> string \<Rightarrow> string" where
  "zero_loop i precision str = (if i <s precision then zero_loop i (precision - 1) (str @ [CHR ''0'']) else str)"
  by pat_completeness auto
termination
proof (relation "measure (\<lambda>(i, precision, str). nat (sint precision - sint i))", goal_cases)
  case (2 i precision str)
  then show ?case
    using sint_minus32[of precision 1] sint_range32[of precision] sint_range32[of i]
    by (auto simp: word_sless_alt)
qed simp

declare zero_loop.simps [simp del]

definition number :: "string \<Rightarrow> u32 \<Rightarrow> u32 \<Rightarrow> u32 \<Rightarrow> u32 \<Rightarrow> u32 \<Rightarrow> string option kres" where
  "number str num base sz precision ty0 =
     (let digits = (if ty0 AND SMALL \<noteq> 0 then lower_digits else upper_digits);
          ty = (if ty0 AND LEFT_ADJ \<noteq> 0 then ty0 AND NOT ZEROPAD else ty0)
      in if base <s 2 \<or> 36 <s base then Inr None
      else
       (let c = (if ty AND ZEROPAD \<noteq> 0 then CHR ''0'' else CHR '' '');
            neg = (ty AND SIGN \<noteq> 0 \<and> num <s 0);
            sign = (if neg then ''-'' else if ty AND PLUS \<noteq> 0 then ''+'' else if ty AND SPACE \<noteq> 0 then '' '' else []);
            num = (if neg then - num else num);
            sz = (if sign \<noteq> [] then sz - 1 else sz);
            sz = (if ty AND SPECIAL \<noteq> 0 then (if base = 16 then sz - 2 else if base = 8 then sz - 1 else sz) else sz)
        in kbind (if num = 0 then Inr ''0'' else digit_loop digits base num []) (\<lambda>tmp.
          (let i = of_nat (length tmp);
               precision = (if precision <s i then i else precision);
               sz = sz - precision;
               (str, sz) = (if ty AND (ZEROPAD + LEFT_ADJ) = 0 then pad_loop CHR '' '' sz str else (str, sz));
               str = str @ sign;
               str = str @ (if ty AND SPECIAL \<noteq> 0 then
                              (if base = 8 then ''0'' else if base = 16 then [CHR ''0'', digits ! 33] else []) else []);
               (str, sz) = (if ty AND LEFT_ADJ = 0 then pad_loop c sz str else (str, sz));
               str = zero_loop i precision str;
               str = str @ rev tmp;
               (str, sz) = pad_loop CHR '' '' sz str
           in Inr (Some str)))))"

section \<open>vsprintf\<close>

text \<open>\<open>va_arg\<close> takes the next word of the stack; reading past the arguments passed is undefined.\<close>

definition va_arg :: "u32 list \<Rightarrow> (u32 \<times> u32 list) kres" where
  "va_arg args = (case args of [] \<Rightarrow> Inl Fault | a # rest \<Rightarrow> Inr (a, rest))"

text \<open>\<open>strlen\<close> scans for the terminating zero byte with a 32 bit count.\<close>

partial_function (option) strlen_from :: "mem \<Rightarrow> u32 \<Rightarrow> u32 \<Rightarrow> u32 option" where
  "strlen_from m s n = (if m (s + n) = 0 then Some n else strlen_from m s (n + 1))"

definition strlen :: "mem \<Rightarrow> u32 \<Rightarrow> u32 option" where
  "strlen m s = strlen_from m s 0"

definition read_str :: "mem \<Rightarrow> u32 \<Rightarrow> nat \<Rightarrow> string" where
  "read_str m s n = map (\<lambda>i. char_of (unat (m (s + of_nat i)))) [0..<n]"

fun parse_flags :: "u32 \<Rightarrow> string \<Rightarrow> u32 \<times> string" where
  "parse_flags flags [] = (flags, [])"
| "parse_flags flags (c # s) =
     (if c = CHR ''-'' then parse_flags (flags OR LEFT_ADJ) s
      else if c = CHR ''+'' then parse_flags (flags OR PLUS) s
      else if c = CHR '' '' then parse_flags (flags OR SPACE) s
      else if c = CHR ''#'' then parse_flags (flags OR SPECIAL) s
      else if c = CHR ''0'' then parse_flags (flags OR ZEROPAD) s
      else (flags, c # s))"

definition parse_width :: "u32 \<Rightarrow> string \<Rightarrow> u32 list \<Rightarrow> (u32 \<times> u32 \<times> string \<times> u32 list) kres" where
  "parse_width flags fmt args =
     (case fmt of
        [] \<Rightarrow> Inr (-1, flags, fmt, args)
      | c # s \<Rightarrow>
          if is_digit c then (case skip_atoi fmt of (n, rest) \<Rightarrow> Inr (n, flags, rest, args))
          else if c = CHR ''*'' then
            kbind (va_arg args) (\<lambda>(w, args).
              if w <s 0 then Inr (- w, flags OR LEFT_ADJ, s, args) else Inr (w, flags, s, args))
          else Inr (-1, flags, fmt, args))"

definition precision_num :: "string \<Rightarrow> u32 list \<Rightarrow> (u32 \<times> string \<times> u32 list) kres" where
  "precision_num s args =
     (case s of
        [] \<Rightarrow> Inr (-1, s, args)
      | d # s' \<Rightarrow>
          if is_digit d then (case skip_atoi s of (n, rest) \<Rightarrow> Inr (n, rest, args))
          else if d = CHR ''*'' then kbind (va_arg args) (\<lambda>(p, args). Inr (p, s', args))
          else Inr (-1, s, args))"

definition parse_precision :: "string \<Rightarrow> u32 list \<Rightarrow> (u32 \<times> string \<times> u32 list) kres" where
  "parse_precision fmt args =
     (case fmt of
        [] \<Rightarrow> Inr (-1, fmt, args)
      | c # s \<Rightarrow>
          if c = CHR ''.'' then
            kbind (precision_num s args) (\<lambda>(p, rest, args). Inr (if p <s 0 then 0 else p, rest, args))
          else Inr (-1, fmt, args))"

definition skip_qualifier :: "string \<Rightarrow> string" where
  "skip_qualifier fmt =
     (case fmt of [] \<Rightarrow> [] | c # s \<Rightarrow> if c = CHR ''h'' \<or> c = CHR ''l'' \<or> c = CHR ''L'' then s else fmt)"

text \<open>\<open>%c\<close>: \<open>while (--field_width > 0) *str++ = ' '\<close>.\<close>

function pad_pre :: "u32 \<Rightarrow> string \<Rightarrow> string \<times> u32" where
  "pad_pre w str = (if 0 <s w - 1 then pad_pre (w - 1) (str @ [CHR '' '']) else (str, w - 1))"
  by pat_completeness auto
termination
proof (relation "measure (\<lambda>(w, str). nat (sint (w - 1)))", goal_cases)
  case (2 w str)
  then show ?case using sint_dec32[of "w - 1"] by (simp add: word_sless_alt)
qed simp

declare pad_pre.simps [simp del]

definition conv_char :: "u32 \<Rightarrow> u32 \<Rightarrow> u32 list \<Rightarrow> string \<Rightarrow> (string \<times> u32 list) kres" where
  "conv_char flags w args str =
     (let (str, w) = (if flags AND LEFT_ADJ = 0 then pad_pre w str else (str, w))
      in kbind (va_arg args) (\<lambda>(a, args).
           Inr (fst (pad_pre w (str @ [char_of (unat (ucast a :: u8))])), args)))"

text \<open>\<open>%s\<close>: \<open>while (len < field_width--) *str++ = ' '\<close>.\<close>

function pad_str :: "u32 \<Rightarrow> u32 \<Rightarrow> string \<Rightarrow> string \<times> u32" where
  "pad_str len w str = (if len <s w then pad_str len (w - 1) (str @ [CHR '' '']) else (str, w - 1))"
  by pat_completeness auto
termination
proof (relation "measure (\<lambda>(len, w, str). nat (sint w - sint len))", goal_cases)
  case (2 len w str)
  then show ?case
    using sint_minus32[of w 1] sint_range32[of w] sint_range32[of len] by (auto simp: word_sless_alt)
qed simp

declare pad_str.simps [simp del]

definition conv_str :: "mem \<Rightarrow> u32 \<Rightarrow> u32 \<Rightarrow> u32 \<Rightarrow> u32 list \<Rightarrow> string \<Rightarrow> (string \<times> u32 list) kres" where
  "conv_str m flags w precision args str =
     kbind (va_arg args) (\<lambda>(s, args).
       kbind (if s = 0 then Inr ''<NULL>''
              else (case strlen m s of None \<Rightarrow> Inl Hang | Some n \<Rightarrow> Inr (read_str m s (unat n)))) (\<lambda>txt.
         (let len = of_nat (length txt);
              len = (if precision <s 0 then len else if precision <s len then precision else len);
              (str, w) = (if flags AND LEFT_ADJ = 0 then pad_str len w str else (str, w));
              str = str @ take (nat (sint len)) txt
          in Inr (fst (pad_str len w str), args))))"

definition conv_num :: "string \<Rightarrow> u32 list \<Rightarrow> u32 \<Rightarrow> u32 \<Rightarrow> u32 \<Rightarrow> u32 \<Rightarrow> (string \<times> u32 list) kres" where
  "conv_num str args base w precision flags =
     kbind (va_arg args) (\<lambda>(n, args).
       kbind (number str n base w precision flags) (\<lambda>r.
         case r of None \<Rightarrow> Inl Fault | Some str \<Rightarrow> Inr (str, args)))"

definition conversion :: "char \<Rightarrow> mem \<Rightarrow> u32 \<Rightarrow> u32 \<Rightarrow> u32 \<Rightarrow> u32 list \<Rightarrow> string \<Rightarrow> (mem \<times> string \<times> u32 list) kres" where
  "conversion c m flags w precision args str =
     (let out = (\<lambda>r. kbind r (\<lambda>(str, args). Inr (m, str, args))) in
      if c = CHR ''c'' then out (conv_char flags w args str)
      else if c = CHR ''s'' then out (conv_str m flags w precision args str)
      else if c = CHR ''o'' then out (conv_num str args 8 w precision flags)
      else if c = CHR ''p'' then
        (if w = -1 then out (conv_num str args 16 8 precision (flags OR ZEROPAD))
         else out (conv_num str args 16 w precision flags))
      else if c = CHR ''x'' then out (conv_num str args 16 w precision (flags OR SMALL))
      else if c = CHR ''X'' then out (conv_num str args 16 w precision flags)
      else if c = CHR ''d'' \<or> c = CHR ''i'' then out (conv_num str args 10 w precision (flags OR SIGN))
      else if c = CHR ''u'' then out (conv_num str args 10 w precision flags)
      else if c = CHR ''n'' then
        kbind (va_arg args) (\<lambda>(ip, args). Inr (st32 m ip (of_nat (length str)), str, args))
      else Inr (m, str @ (if c \<noteq> CHR ''%'' then ''%'' else []) @ [c], args))"

text \<open>One conversion specification after its percent sign; the rest of the format is the first result.\<close>

definition conv_spec :: "mem \<Rightarrow> string \<Rightarrow> u32 list \<Rightarrow> string \<Rightarrow> (string \<times> mem \<times> string \<times> u32 list) kres" where
  "conv_spec m fmt args str =
     (case parse_flags 0 fmt of (flags, fmt) \<Rightarrow>
      kbind (parse_width flags fmt args) (\<lambda>(w, flags, fmt, args).
      kbind (parse_precision fmt args) (\<lambda>(precision, fmt, args).
        case skip_qualifier fmt of
          [] \<Rightarrow> Inr ([], m, str @ ''%'', args)
        | c # rest \<Rightarrow> kbind (conversion c m flags w precision args str) (\<lambda>(m, str, args). Inr (rest, m, str, args)))))"

lemma atoi_rest: "length (snd (atoi_loop i s)) \<le> length s"
  by (induction i s rule: atoi_loop.induct) auto

lemma flags_rest: "length (snd (parse_flags f s)) \<le> length s"
  by (induction f s rule: parse_flags.induct) auto

lemma width_rest: "parse_width flags fmt args = Inr (w, flags', fmt', args') \<Longrightarrow> length fmt' \<le> length fmt"
  using atoi_rest[of 0 fmt]
  by (auto simp: parse_width_def skip_atoi_def kres_simps split: list.splits prod.splits if_splits)

lemma precision_num_rest: "precision_num s args = Inr (p, fmt', args') \<Longrightarrow> length fmt' \<le> length s"
  using atoi_rest[of 0 s]
  by (auto simp: precision_num_def skip_atoi_def kres_simps split: list.splits prod.splits if_splits)

lemma precision_rest: "parse_precision fmt args = Inr (p, fmt', args') \<Longrightarrow> length fmt' \<le> length fmt"
  by (auto simp: parse_precision_def kres_simps dest!: precision_num_rest split: list.splits if_splits)

lemma qualifier_rest: "length (skip_qualifier fmt) \<le> length fmt"
  by (auto simp: skip_qualifier_def split: list.splits)

lemma conv_spec_rest:
  assumes "conv_spec m fmt args str = Inr (rest, m', str', args')"
  shows "length rest \<le> length fmt"
proof -
  obtain fl f1 where 1: "parse_flags 0 fmt = (fl, f1)" by force
  obtain w fl' f2 a2 where 2: "parse_width fl f1 args = Inr (w, fl', f2, a2)"
    using assms by (auto simp: conv_spec_def 1 kres_simps)
  obtain p f3 a3 where 3: "parse_precision f2 a2 = Inr (p, f3, a3)"
    using assms by (auto simp: conv_spec_def 1 2 kres_simps)
  have "length rest \<le> length (skip_qualifier f3)"
    using assms by (auto simp: conv_spec_def 1 2 3 kres_simps split: list.splits)
  then show ?thesis
    using flags_rest[of 0 fmt] 1 width_rest[OF 2] precision_rest[OF 3] qualifier_rest[of f3] by simp
qed

lemma kbind_cong [fundef_cong]:
  assumes "m = m'" and "\<And>x. m' = Inr x \<Longrightarrow> f x = g x"
  shows "kbind m f = kbind m' g"
  using assms by (cases m') simp_all

function vsprintf_loop :: "mem \<Rightarrow> string \<Rightarrow> u32 list \<Rightarrow> string \<Rightarrow> (mem \<times> string) kres" where
  "vsprintf_loop m fmt args str =
     (case fmt of
        [] \<Rightarrow> Inr (m, str)
      | c # s \<Rightarrow>
          if c \<noteq> CHR ''%'' then vsprintf_loop m s args (str @ [c])
          else kbind (conv_spec m s args str) (\<lambda>(rest, m, str, args). vsprintf_loop m rest args str))"
  by pat_completeness auto
termination
  by (relation "measure (\<lambda>(m, fmt, args, str). length fmt)") (auto dest: conv_spec_rest)

declare vsprintf_loop.simps [simp del]

text \<open>The result is the length, the buffer's new content (without the final zero byte) and the memory.\<close>

definition vsprintf :: "mem \<Rightarrow> string \<Rightarrow> u32 list \<Rightarrow> (nat \<times> string \<times> mem) kres" where
  "vsprintf m fmt args = kbind (vsprintf_loop m fmt args []) (\<lambda>(m, str). Inr (length str, str, m))"

text \<open>\<open>printk\<close> formats into a static buffer of 1024 bytes and hands it to \<open>tty_write\<close> on channel 0.\<close>

definition printk :: "(u32 \<Rightarrow> u8 list \<Rightarrow> int \<Rightarrow> 'w \<Rightarrow> 'w kres) \<Rightarrow> mem \<Rightarrow> string \<Rightarrow> u32 list \<Rightarrow> 'w \<Rightarrow> (nat \<times> mem \<times> 'w) kres" where
  "printk tty_write m fmt args w =
     kbind (vsprintf m fmt args) (\<lambda>(i, str, m').
       if 1024 \<le> i then Inl Fault
       else kbind (tty_write 0 (map of_char str) (int i) w) (\<lambda>w. Inr (i, m', w)))"

section \<open>The digits\<close>

text \<open>The digits of a number, least significant first.\<close>

function lsd :: "nat \<Rightarrow> nat \<Rightarrow> nat list" where
  "lsd b n = (if n = 0 \<or> b < 2 then [] else n mod b # lsd b (n div b))"
  by pat_completeness auto
termination
  by (relation "measure (\<lambda>(b, n). n)") auto

declare lsd.simps [simp del]

primrec lsd_val :: "nat \<Rightarrow> nat list \<Rightarrow> nat" where
  "lsd_val b [] = 0"
| "lsd_val b (d # ds) = d + b * lsd_val b ds"

lemma lsd_val_lsd: "2 \<le> b \<Longrightarrow> lsd_val b (lsd b n) = n"
proof (induction b n rule: lsd.induct)
  case (1 b n)
  then show ?case by (subst lsd.simps) auto
qed

lemma lsd_less: "d \<in> set (lsd b n) \<Longrightarrow> d < b"
proof (induction b n rule: lsd.induct)
  case (1 b n)
  then show ?case by (subst (asm) lsd.simps) (auto split: if_splits)
qed

lemma lsd_length: "n < 2 ^ k \<Longrightarrow> length (lsd b n) \<le> k"
proof (induction b n arbitrary: k rule: lsd.induct)
  case (1 b n)
  show ?case
  proof (cases "n = 0 \<or> b < 2")
    case True
    then show ?thesis by (simp add: lsd.simps)
  next
    case False
    with 1(2) obtain k' where k: "k = Suc k'" by (cases k) auto
    have "n div b \<le> n div 2" using False by (simp add: div_le_mono2)
    also have "n div 2 < 2 ^ k'" using 1(2) k by simp
    finally show ?thesis using 1(1)[OF False, of k'] False k by (simp add: lsd.simps[of b n])
  qed
qed

lemma digit_loop_lsd:
  assumes "2 \<le> unat base" and "unat num < 2 ^ (36 - length tmp)"
  shows "digit_loop digits base num tmp = Inr (tmp @ map ((!) digits) (lsd (unat base) (unat num)))"
  using assms
proof (induction digits base num tmp rule: digit_loop.induct)
  case (1 digits base num tmp)
  show ?case
  proof (cases "num = 0")
    case True
    then show ?thesis by (simp add: digit_loop.simps lsd.simps)
  next
    case False
    then have n0: "unat num \<noteq> 0" by (simp add: unat_eq_0)
    have l: "length tmp < 36" using 1(3) n0 by (cases "length tmp < 36") auto
    have "unat num div unat base \<le> unat num div 2" using 1(2) by (simp add: div_le_mono2)
    also have "\<dots> < 2 ^ (35 - length tmp)"
    proof -
      have "36 - length tmp = Suc (35 - length tmp)" using l by simp
      then have "(2 :: nat) ^ (36 - length tmp) = 2 * 2 ^ (35 - length tmp)" by simp
      with 1(3) show ?thesis by simp
    qed
    finally have "digit_loop digits base (num div base) (tmp @ [digits ! unat (num mod base)])
      = Inr ((tmp @ [digits ! unat (num mod base)]) @ map ((!) digits) (lsd (unat base) (unat num div unat base)))"
      using 1(1)[OF False] l 1(2) by (simp add: unat_div_distrib)
    with False l n0 1(2) show ?thesis
      by (subst digit_loop.simps) (simp add: lsd.simps[of "unat base" "unat num"] unat_mod_distrib)
  qed
qed

lemma pad_loop_eq:
  "pad_loop c sz str = (str @ replicate (nat (sint sz)) c, if 0 <s sz then - 1 else sz - 1)"
proof (induction c sz str rule: pad_loop.induct)
  case (1 c sz str)
  show ?case
  proof (cases "0 <s sz")
    case True
    then have s: "sint (sz - 1) = sint sz - 1" "0 < sint sz" by (simp_all add: word_sless_alt sint_dec32)
    then have "nat (sint sz) = Suc (nat (sint (sz - 1)))" by simp
    then have r: "replicate (nat (sint sz)) c = c # replicate (nat (sint (sz - 1))) c" by simp
    have z: "sz - 1 - 1 = - 1" if "\<not> 0 <s sz - 1"
    proof -
      have "sint (sz - 1) = 0" using that s by (simp add: word_sless_alt)
      then have "sz - 1 = 0" by (metis signed_eq_0_iff)
      then show ?thesis by simp
    qed
    show ?thesis using True 1[OF True] r z by (subst pad_loop.simps) auto
  next
    case False
    then show ?thesis by (subst pad_loop.simps) (simp add: word_sless_alt)
  qed
qed

lemma zero_loop_eq: "zero_loop i p str = str @ replicate (nat (sint p - sint i)) CHR ''0''"
proof (induction i p str rule: zero_loop.induct)
  case (1 i p str)
  show ?case
  proof (cases "i <s p")
    case True
    then have "sint (p - 1) = sint p - 1"
      using sint_minus32[of p 1] sint_range32[of p] sint_range32[of i] by (auto simp: word_sless_alt)
    moreover have "nat (sint p - sint i) = Suc (nat (sint p - 1 - sint i))" using True by (simp add: word_sless_alt)
    ultimately show ?thesis using True 1[OF True] by (subst zero_loop.simps) simp
  next
    case False
    then show ?thesis by (subst zero_loop.simps) (simp add: word_sless_alt)
  qed
qed

section \<open>The layout of a number\<close>

text \<open>
  What \<open>number\<close> is meant to write, from mathematical quantities: the digits with zeros up to the precision,
  the sign and the prefix before them, and the field filled up to its width with blanks on the left or
  the right, or with zeros behind the sign.
\<close>

definition num_digits :: "u32 \<Rightarrow> nat \<Rightarrow> nat \<Rightarrow> string" where
  "num_digits ty b n = map ((!) (if ty AND SMALL \<noteq> 0 then lower_digits else upper_digits))
     (if n = 0 then [0] else rev (lsd b n))"

definition num_sign :: "u32 \<Rightarrow> bool \<Rightarrow> string" where
  "num_sign ty neg = (if neg then ''-'' else if ty AND PLUS \<noteq> 0 then ''+'' else if ty AND SPACE \<noteq> 0 then '' '' else [])"

definition num_prefix :: "u32 \<Rightarrow> nat \<Rightarrow> string" where
  "num_prefix ty b = (if ty AND SPECIAL = 0 then [] else if b = 8 then ''0''
     else if b = 16 then (if ty AND SMALL \<noteq> 0 then ''0x'' else ''0X'') else [])"

definition num_field :: "u32 \<Rightarrow> nat \<Rightarrow> bool \<Rightarrow> nat \<Rightarrow> nat \<Rightarrow> nat \<Rightarrow> string" where
  "num_field ty b neg n width prec =
     (let ds = num_digits ty b n;
          body = replicate (prec - length ds) CHR ''0'' @ ds;
          front = num_sign ty neg @ num_prefix ty b;
          fill = width - (length front + length body)
      in if ty AND LEFT_ADJ \<noteq> 0 then front @ body @ replicate fill CHR '' ''
         else if ty AND ZEROPAD \<noteq> 0 then front @ replicate fill CHR ''0'' @ body
         else replicate fill CHR '' '' @ front @ body)"

lemma num_field_length:
  "length (num_field ty b neg n width prec)
     = max width (length (num_sign ty neg) + length (num_prefix ty b) + max prec (length (num_digits ty b n)))"
  by (auto simp: num_field_def Let_def max_def)

lemma flag_clear:
  fixes ty :: u32
  shows "(ty AND NOT ZEROPAD) AND SIGN = ty AND SIGN" "(ty AND NOT ZEROPAD) AND PLUS = ty AND PLUS"
    "(ty AND NOT ZEROPAD) AND SPACE = ty AND SPACE" "(ty AND NOT ZEROPAD) AND SPECIAL = ty AND SPECIAL"
    "(ty AND NOT ZEROPAD) AND LEFT_ADJ = ty AND LEFT_ADJ" "(ty AND NOT ZEROPAD) AND ZEROPAD = 0"
  by (simp_all add: and.assoc)

lemma and_17: "(ty :: u32) AND 17 = 0 \<longleftrightarrow> ty AND ZEROPAD = 0 \<and> ty AND LEFT_ADJ = 0"
proof -
  have "(17 :: u32) = 1 OR 16" by simp
  then have "ty AND 17 = (ty AND 1) OR (ty AND 16)" by (simp only: bit.conj_disj_distrib)
  then show ?thesis by (simp only: or_eq_0_iff)
qed

lemma digit_string:
  assumes "2 \<le> unat base" and "unat base \<le> 36"
  shows "(if num = 0 then Inr ''0'' else digit_loop (if ty AND SMALL \<noteq> 0 then lower_digits else upper_digits) base num [])
     = Inr (rev (num_digits ty (unat base) (unat num)))"
proof (cases "num = 0")
  case True
  then show ?thesis by (simp add: num_digits_def lower_digits_def upper_digits_def)
next
  case False
  have "unat num < 2 ^ 36" using unat_less32[of num] by simp
  with False digit_loop_lsd[OF assms(1), of num "[]"] show ?thesis
    by (simp add: num_digits_def rev_map unat_eq_0)
qed

lemma num_digits_length: "2 \<le> b \<Longrightarrow> 0 < length (num_digits ty b (unat (num :: u32))) \<and> length (num_digits ty b (unat num)) \<le> 32"
  using lsd_length[of "unat num" 32 b] unat_less32[of num] by (auto simp: num_digits_def lsd.simps[of b "unat num"])
lemma pad_idle:
  assumes "sint sz \<le> 0" and "- 2147483648 < sint sz"
  shows "pad_loop c sz str = (str, sz - 1) \<and> sint (sz - 1) = sint sz - 1"
  using assms sint_minus32[of sz 1] by (simp add: pad_loop_eq word_sless_alt)

lemma pad_after:
  assumes "- 2147483647 < sint sz"
  shows "\<exists>sz'. pad_loop c sz str = (str @ replicate (nat (sint sz)) c, sz') \<and> sint sz' \<le> 0 \<and> - 2147483648 < sint sz'
     \<and> min (- 1) (sint sz - 1) \<le> sint sz'"
  using assms sint_minus32[of sz 1] by (auto simp: pad_loop_eq word_sless_alt)

text \<open>The end of \<open>number\<close>, from \<open>size -= precision\<close> on.\<close>

definition num_out :: "string \<Rightarrow> u32 \<Rightarrow> string \<Rightarrow> string \<Rightarrow> u32 \<Rightarrow> u32 \<Rightarrow> u32 \<Rightarrow> string \<Rightarrow> string" where
  "num_out str ty sign prefix i precision sz tmp =
     (let (str, sz) = (if ty AND (ZEROPAD + LEFT_ADJ) = 0 then pad_loop CHR '' '' sz str else (str, sz));
          str = str @ sign;
          str = str @ prefix;
          (str, sz) = (if ty AND LEFT_ADJ = 0 then pad_loop (if ty AND ZEROPAD \<noteq> 0 then CHR ''0'' else CHR '' '') sz str else (str, sz));
          str = zero_loop i precision str;
          str = str @ rev tmp;
          (str, sz) = pad_loop CHR '' '' sz str
      in str)"

lemma num_out_eq:
  assumes "- 2147483645 < sint sz"
    and "ty AND LEFT_ADJ = 0 \<or> ty AND ZEROPAD = 0"
  shows "num_out str ty sign prefix i precision sz tmp = str @
    (let fill = nat (sint sz); body = replicate (nat (sint precision - sint i)) CHR ''0'' @ rev tmp; front = sign @ prefix
     in if ty AND LEFT_ADJ \<noteq> 0 then front @ body @ replicate fill CHR '' ''
        else if ty AND ZEROPAD \<noteq> 0 then front @ replicate fill CHR ''0'' @ body
        else replicate fill CHR '' '' @ front @ body)"
proof -
  have a17: "ty AND (ZEROPAD + LEFT_ADJ) = 0 \<longleftrightarrow> ty AND ZEROPAD = 0 \<and> ty AND LEFT_ADJ = 0" using and_17[of ty] by simp
  consider (l) "ty AND LEFT_ADJ \<noteq> 0" "ty AND ZEROPAD = 0" | (z) "ty AND LEFT_ADJ = 0" "ty AND ZEROPAD \<noteq> 0"
    | (n) "ty AND LEFT_ADJ = 0" "ty AND ZEROPAD = 0" using assms(2) by blast
  then show ?thesis
  proof cases
    case l
    then show ?thesis unfolding num_out_def a17 by (simp add: Let_def zero_loop_eq pad_loop_eq)
  next
    case z
    obtain s1 where s1: "pad_loop CHR ''0'' sz (str @ sign @ prefix) = (str @ sign @ prefix @ replicate (nat (sint sz)) CHR ''0'', s1)"
      "sint s1 \<le> 0" "- 2147483648 < sint s1" using pad_after[of sz "CHR ''0''" "str @ sign @ prefix"] assms(1) by auto
    from z s1(1) pad_idle[OF s1(2,3)] show ?thesis unfolding num_out_def a17 by (simp add: Let_def zero_loop_eq)
  next
    case n
    obtain s1 where s1: "pad_loop CHR '' '' sz str = (str @ replicate (nat (sint sz)) CHR '' '', s1)"
      "sint s1 \<le> 0" "- 2147483648 < sint s1" "min (- 1) (sint sz - 1) \<le> sint s1"
      using pad_after[of sz "CHR '' ''" str] assms(1) by auto
    have s2: "sint (s1 - 1) = sint s1 - 1" using pad_idle[OF s1(2,3)] by blast
    then have "sint (s1 - 1) \<le> 0" "- 2147483648 < sint (s1 - 1)" using s1 assms(1) by linarith+
    from n s1(1) pad_idle[OF s1(2,3)] pad_idle[OF this] show ?thesis
      unfolding num_out_def a17 by (simp add: Let_def zero_loop_eq)
  qed
qed

lemma number_num_out:
  assumes "2 \<le> unat base" and "unat base \<le> 36"
    and "ty = (if ty0 AND LEFT_ADJ \<noteq> 0 then ty0 AND NOT ZEROPAD else ty0)"
    and "neg \<longleftrightarrow> ty0 AND SIGN \<noteq> 0 \<and> num <s 0"
    and "tmp = rev (num_digits ty0 (unat base) (unat (if neg then - num else num)))"
    and "P = (if precision <s of_nat (length tmp) then of_nat (length tmp) else precision)"
  shows "number str num base sz precision ty0 = Inr (Some (num_out str ty (num_sign ty0 neg) (num_prefix ty0 (unat base))
    (of_nat (length tmp)) P
    (sz - of_nat (length (num_sign ty0 neg)) - of_nat (length (num_prefix ty0 (unat base))) - P) tmp))"
proof -
  have b: "\<not> (base <s 2 \<or> 36 <s base)"
  proof -
    have "sint base = int (unat base)" using assms(2) by (simp add: sint_small32)
    moreover have "2 \<le> int (unat base)" "int (unat base) \<le> 36" using assms(1,2) by linarith+
    ultimately have "2 \<le> sint base" "sint base \<le> 36" by simp_all
    then show ?thesis by (simp add: word_sless_alt)
  qed
  have f: "ty AND SIGN = ty0 AND SIGN" "ty AND PLUS = ty0 AND PLUS" "ty AND SPACE = ty0 AND SPACE"
    "ty AND SPECIAL = ty0 AND SPECIAL" "ty AND LEFT_ADJ = ty0 AND LEFT_ADJ"
    using flag_clear[of ty0] by (simp_all add: assms(3))
  have b8: "base = 8 \<longleftrightarrow> unat base = 8" "base = 16 \<longleftrightarrow> unat base = 16"
    by (simp_all add: word_unat_eq_iff)
  have d: "(if (if neg then - num else num) = 0 then Inr ''0''
      else digit_loop (if ty0 AND SMALL \<noteq> 0 then lower_digits else upper_digits) base (if neg then - num else num) []) = Inr tmp"
    unfolding assms(5) by (rule digit_string[OF assms(1,2)])
  have sg: "(if neg then ''-'' else if ty0 AND PLUS \<noteq> 0 then ''+'' else if ty0 AND SPACE \<noteq> 0 then '' '' else []) = num_sign ty0 neg"
    by (simp add: num_sign_def)
  have d33: "(if ty0 AND SMALL \<noteq> 0 then lower_digits else upper_digits) ! 33 = (if ty0 AND SMALL \<noteq> 0 then CHR ''x'' else CHR ''X'')"
    by (simp add: lower_digits_def upper_digits_def)
  have pf: "(if ty0 AND SPECIAL \<noteq> 0 then (if base = 8 then ''0'' else if base = 16
       then [CHR ''0'', (if ty0 AND SMALL \<noteq> 0 then lower_digits else upper_digits) ! 33] else []) else []) = num_prefix ty0 (unat base)"
    unfolding b8 d33 by (simp add: num_prefix_def)
  have s1: "(if num_sign ty0 neg \<noteq> [] then sz - 1 else sz) = sz - of_nat (length (num_sign ty0 neg))"
    by (simp add: num_sign_def)
  have s2: "(if ty0 AND SPECIAL \<noteq> 0 then (if base = 16 then x - 2 else if base = 8 then x - 1 else x) else x)
      = x - of_nat (length (num_prefix ty0 (unat base)))" for x :: u32
    unfolding b8 by (simp add: num_prefix_def)
  show ?thesis
    unfolding number_def assms(3)[symmetric] Let_def f b8(1)[symmetric] assms(4)[symmetric] sg s1 s2 d kbind_Inr assms(6)[symmetric] pf
    using b f(5) by (simp add: num_out_def Let_def case_prod_beta)
qed

lemma number_field:
  assumes "2 \<le> unat base" and "unat base \<le> 36" and "- 1 \<le> sint sz" and "sint precision < 2147483640"
  shows "number str num base sz precision ty = Inr (Some (str @
    num_field ty (unat base) (ty AND SIGN \<noteq> 0 \<and> num <s 0)
      (if ty AND SIGN \<noteq> 0 \<and> num <s 0 then nat (- sint num) else unat num) (nat (sint sz)) (nat (sint precision))))"
proof -
  define neg where "neg \<longleftrightarrow> ty AND SIGN \<noteq> 0 \<and> num <s 0"
  define ty1 where "ty1 = (if ty AND LEFT_ADJ \<noteq> 0 then ty AND NOT ZEROPAD else ty)"
  define tmp where "tmp = rev (num_digits ty (unat base) (unat (if neg then - num else num)))"
  define P where "P = (if precision <s of_nat (length tmp) then of_nat (length tmp) else precision)"
  define F1 where "F1 = length (num_sign ty neg)"
  define F2 where "F2 = length (num_prefix ty (unat base))"
  have n: "unat (if neg then - num else num) = (if neg then nat (- sint num) else unat num)"
    using sint_neg32[of num] by (auto simp: neg_def)
  have L: "0 < length tmp" "length tmp \<le> 32"
    using num_digits_length[OF assms(1), of ty] by (simp_all add: tmp_def)
  have F: "F1 \<le> 1" "F2 \<le> 2" by (simp_all add: F1_def F2_def num_sign_def num_prefix_def)
  have sL: "sint (of_nat (length tmp) :: u32) = int (length tmp)" "sint (of_nat F1 :: u32) = int F1" "sint (of_nat F2 :: u32) = int F2"
    using L F by (simp_all add: sint_small32 unat_of_nat)
  have sP: "sint P = max (sint precision) (int (length tmp))" by (simp add: P_def word_sless_alt sL max_def)
  have r: "sint sz < 2147483648" "1 \<le> sint P" "sint P < 2147483640" using sint_range32[of sz] assms(4) L sP by linarith+
  have "sint (sz - of_nat F1) = sint sz - int F1"
    using sint_minus32[of sz "of_nat F1"] sL r assms(3) F by linarith
  moreover from this have "sint (sz - of_nat F1 - of_nat F2) = sint sz - int F1 - int F2"
    using sint_minus32[of "sz - of_nat F1" "of_nat F2"] sL r assms(3) F by linarith
  ultimately have s: "sint (sz - of_nat F1 - of_nat F2 - P) = sint sz - int F1 - int F2 - sint P"
    using sint_minus32[of "sz - of_nat F1 - of_nat F2" P] r assms(3) F by linarith
  have lo: "- 2147483645 < sint (sz - of_nat F1 - of_nat F2 - P)" using s r assms(3) F by linarith
  have zl: "ty1 AND LEFT_ADJ = 0 \<or> ty1 AND ZEROPAD = 0" using flag_clear[of ty] by (auto simp: ty1_def split: if_splits)
  have f: "ty1 AND LEFT_ADJ = ty AND LEFT_ADJ" "ty AND LEFT_ADJ = 0 \<Longrightarrow> ty1 AND ZEROPAD = ty AND ZEROPAD"
    using flag_clear[of ty] by (auto simp: ty1_def)
  have fill: "nat (sint sz - int F1 - int F2 - sint P)
      = nat (sint sz) - (F1 + F2 + (nat (sint precision) - length tmp + length tmp))"
    unfolding sP by linarith
  have zeros: "nat (sint P - int (length tmp)) = nat (sint precision) - length tmp" unfolding sP by linarith
  have "number str num base sz precision ty = Inr (Some (num_out str ty1 (num_sign ty neg) (num_prefix ty (unat base))
      (of_nat (length tmp)) P (sz - of_nat F1 - of_nat F2 - P) tmp))"
    unfolding F1_def F2_def by (rule number_num_out[OF assms(1,2) ty1_def neg_def tmp_def P_def])
  moreover have "num_out str ty1 (num_sign ty neg) (num_prefix ty (unat base))
      (of_nat (length tmp)) P (sz - of_nat F1 - of_nat F2 - P) tmp
    = str @ num_field ty (unat base) neg (if neg then nat (- sint num) else unat num) (nat (sint sz)) (nat (sint precision))"
  proof -
    have d: "num_digits ty (unat base) (if neg then nat (- sint num) else unat num) = rev tmp"
      unfolding n[symmetric] tmp_def by simp
    show ?thesis
      unfolding num_out_eq[OF lo zl] s sL fill zeros num_field_def Let_def d
      using f by (auto simp: F1_def F2_def)
  qed
  ultimately show ?thesis unfolding neg_def[symmetric] by simp
qed

section \<open>Reading numbers back\<close>

definition digit_val :: "char \<Rightarrow> nat" where
  "digit_val c = (let n = of_char c in if n \<le> 57 then n - 48 else if 97 \<le> n then n - 87 else n - 55)"

definition read_num :: "nat \<Rightarrow> string \<Rightarrow> nat" where
  "read_num b s = foldl (\<lambda>a c. a * b + digit_val c) 0 s"

definition read_int :: "string \<Rightarrow> int" where
  "read_int s = (if s \<noteq> [] \<and> hd s = CHR ''-'' then - int (read_num 10 (tl s)) else int (read_num 10 s))"

lemma digit_val_digits:
  assumes "d < 36"
  shows "digit_val (upper_digits ! d) = d" and "digit_val (lower_digits ! d) = d" and "upper_digits ! d \<noteq> CHR ''-''"
proof -
  have "map digit_val upper_digits = [0..<36]" "map digit_val lower_digits = [0..<36]"
    "list_all (\<lambda>c. c \<noteq> CHR ''-'') upper_digits" by code_simp+
  moreover have "length upper_digits = 36" "length lower_digits = 36" by code_simp+
  ultimately show "digit_val (upper_digits ! d) = d" "digit_val (lower_digits ! d) = d" "upper_digits ! d \<noteq> CHR ''-''"
    using assms by (metis add_0 nth_map nth_upt, metis add_0 nth_map nth_upt, simp add: list_all_length)
qed

lemma read_num_snoc: "read_num b (s @ [c]) = read_num b s * b + digit_val c"
  by (simp add: read_num_def)

lemma read_num_rev:
  assumes "\<forall>d \<in> set ds. digit_val (f d) = d"
  shows "read_num b (rev (map f ds)) = lsd_val b ds"
  using assms
proof (induction ds)
  case (Cons d ds)
  then show ?case by (simp add: read_num_snoc mult.commute)
qed (simp add: read_num_def)

lemma read_num_digits:
  assumes "2 \<le> b" and "b \<le> 36"
  shows "read_num b (num_digits ty b n) = n"
proof (cases "n = 0")
  case True
  then show ?thesis using digit_val_digits[of 0] by (simp add: num_digits_def read_num_def)
next
  case False
  let ?f = "(!) (if ty AND SMALL \<noteq> 0 then lower_digits else upper_digits)"
  have "\<forall>d \<in> set (lsd b n). digit_val (?f d) = d"
  proof
    fix d
    assume "d \<in> set (lsd b n)"
    then have "d < 36" using lsd_less[of d b n] assms(2) by simp
    then show "digit_val (?f d) = d" using digit_val_digits(1,2)[of d] by simp
  qed
  from read_num_rev[OF this, of b] show ?thesis
    using False lsd_val_lsd[OF assms(1), of n] by (simp add: num_digits_def rev_map)
qed

lemma num_digits_no_sign: "num_digits 2 10 n \<noteq> [] \<and> hd (num_digits 2 10 n) \<noteq> CHR ''-''"
proof -
  let ?ds = "if n = 0 then [0] else rev (lsd 10 n)"
  have ne: "?ds \<noteq> []" by (simp add: lsd.simps[of 10 n])
  have "hd ?ds \<in> set ?ds" using ne by (rule hd_in_set)
  then have "hd ?ds < 36" using lsd_less[of "hd ?ds" 10 n] by (auto split: if_splits)
  with ne digit_val_digits(3) show ?thesis by (simp add: num_digits_def list.map_sel)
qed

lemma vsprintf_num:
  assumes "parse_flags 0 [c] = (0, [c])" and "\<not> is_digit c" and "c \<noteq> CHR ''*''" and "skip_qualifier [c] = [c]" and "c \<noteq> CHR ''.''"
    and "conversion c m 0 (- 1) (- 1) [n] [] = Inr (m, s, [])"
  shows "vsprintf m [CHR ''%'', c] [n] = Inr (length s, s, m)"
  using assms
  by (simp add: vsprintf_def vsprintf_loop.simps[of m "[CHR ''%'', c]"] vsprintf_loop.simps[of m "[]"] conv_spec_def
      parse_width_def parse_precision_def)

text \<open>C24: \<open>%d\<close> prints every 32 bit number so that reading the text as a signed decimal number gives the
  number back, the smallest negative one included, and \<open>%x\<close> so that reading it as hexadecimal gives
  the unsigned value; both always return.\<close>

theorem vsprintf_roundtrip:
  "\<exists>s t. vsprintf m ''%d'' [n] = Inr (length s, s, m) \<and> read_int s = sint n
     \<and> vsprintf m ''%x'' [n] = Inr (length t, t, m) \<and> read_num 16 t = unat n"
proof -
  let ?neg = "n <s 0" and ?a = "if n <s 0 then nat (- sint n) else unat n"
  let ?s = "num_field 2 10 ?neg ?a 0 0" and ?t = "num_field 64 16 False (unat n) 0 0"
  have "conversion CHR ''d'' m 0 (- 1) (- 1) [n] [] = Inr (m, ?s, [])"
    using number_field[of 10 "- 1" "- 1" "[]" n 2] by (simp add: conversion_def conv_num_def va_arg_def)
  then have d: "vsprintf m ''%d'' [n] = Inr (length ?s, ?s, m)"
    by (intro vsprintf_num) (simp_all add: is_digit_def skip_qualifier_def)
  have "conversion CHR ''x'' m 0 (- 1) (- 1) [n] [] = Inr (m, ?t, [])"
    using number_field[of 16 "- 1" "- 1" "[]" n 64] by (simp add: conversion_def conv_num_def va_arg_def)
  then have x: "vsprintf m ''%x'' [n] = Inr (length ?t, ?t, m)"
    by (intro vsprintf_num) (simp_all add: is_digit_def skip_qualifier_def)
  have "?t = num_digits 64 16 (unat n)" by (simp add: num_field_def Let_def num_sign_def num_prefix_def)
  then have rt: "read_num 16 ?t = unat n" using read_num_digits[of 16 64 "unat n"] by simp
  have s: "?s = (if ?neg then ''-'' else []) @ num_digits 2 10 ?a"
    by (simp add: num_field_def Let_def num_sign_def num_prefix_def)
  have "read_int ?s = sint n"
  proof (cases ?neg)
    case True
    then have "sint n < 0" by (simp add: word_sless_alt)
    with True s show ?thesis using read_num_digits[of 10 2 ?a] by (simp add: read_int_def)
  next
    case False
    then have "0 \<le> sint n" by (simp add: word_sless_alt)
    then have "unat n < 2147483648" using unat_less32[of n] by (simp only: sint_cases32 split: if_splits)
    then have "sint n = int (unat n)" by (rule sint_small32)
    with False s show ?thesis using read_num_digits[of 10 2 ?a] num_digits_no_sign[of ?a] by (simp add: read_int_def)
  qed
  with d x rt show ?thesis by blast
qed

text \<open>C25: \<open>number\<close> writes exactly the field that the flags, the width and the precision ask for: sign, prefix,
  zeros and digits, filled to the width on the side chosen. It always returns, \<open>tmp[36]\<close> is never
  overrun, and no count wraps around.\<close>

theorem number_writes_field:
  assumes "2 \<le> unat base" and "unat base \<le> 36" and "- 1 \<le> sint sz" and "sint precision < 2147483640"
  shows "number str num base sz precision ty = Inr (Some (str @
    num_field ty (unat base) (ty AND SIGN \<noteq> 0 \<and> num <s 0)
      (if ty AND SIGN \<noteq> 0 \<and> num <s 0 then nat (- sint num) else unat num) (nat (sint sz)) (nat (sint precision))))
    \<and> nat (sint sz) \<le> length (num_field ty (unat base) (ty AND SIGN \<noteq> 0 \<and> num <s 0)
        (if ty AND SIGN \<noteq> 0 \<and> num <s 0 then nat (- sint num) else unat num) (nat (sint sz)) (nat (sint precision)))"
  using number_field[OF assms] by (simp add: num_field_length)

theorem number_writes_field_witness: "number ''a'' (- 5) 10 6 3 SIGN = Inr (Some ''a  -005'')"
proof -
  have "num_field SIGN 10 True 5 6 3 = ''  -005''" by code_simp
  moreover have "(- 5 :: u32) <s 0" by (simp add: word_sless_alt)
  ultimately show ?thesis using number_writes_field[of 10 6 3 "''a''" "- 5" SIGN] by simp
qed

end
