(* ===== verification/Syscall.thy ===== *)
theory Syscall
  imports Open Fork Vsprintf
begin

text \<open>
  The system call interface: the dispatcher of arch/x86/asm/system_call.S over the table of include/kernel/sys.h, the
  wrappers of include/unistd.h and lib, and \<open>init\<close> of arch/x86/main.c, which runs on top of them. The kernel's state is
  that of its components; each handler works on its part of it. Theorems follow on the table, on the files a child
  shares, on the descriptors \<open>init\<close> sets up and on what \<open>printf\<close> shows.
\<close>

section \<open>The kernel's state\<close>

text \<open>The file system's state holds the scheduler's and the memory manager's. The last field is the static variable of \<open>tty_write\<close>.\<close>

record kst =
  k_fs :: fsst
  k_tty :: tty_struct
  k_con :: console
  k_cr_flag :: bool

text \<open>The parts \<open>fork\<close> and the terminal work on, and writing them back.\<close>

definition proc_of :: "kst \<Rightarrow> proc" where
  "proc_of s = \<lparr>pr_mm = fs_mm (k_fs s), pr_sched = bio_sched (k_fs s),
     f_counts = (\<lambda>f. f_count (file_table (k_fs s) f)), i_counts = (\<lambda>i. i_count (inode_table (k_fs s) i))\<rparr>"

definition put_proc :: "proc \<Rightarrow> kst \<Rightarrow> kst" where
  "put_proc p s = s\<lparr>k_fs := (k_fs s)\<lparr>fs_mm := pr_mm p, bio_sched := pr_sched p,
     file_table := (\<lambda>f. (file_table (k_fs s) f)\<lparr>f_count := f_counts p f\<rparr>),
     inode_table := (\<lambda>i. (inode_table (k_fs s) i)\<lparr>i_count := i_counts p i\<rparr>)\<rparr>\<rparr>"

definition world_of :: "kst \<Rightarrow> world" where
  "world_of s = \<lparr>w_tty = k_tty s, w_con = k_con s, w_sched = bio_sched (k_fs s)\<rparr>"

definition put_world :: "bool \<Rightarrow> world \<Rightarrow> kst \<Rightarrow> kst" where
  "put_world crf w s = s\<lparr>k_tty := w_tty w, k_con := w_con w, k_cr_flag := crf, k_fs := (k_fs s)\<lparr>bio_sched := w_sched w\<rparr>\<rparr>"

section \<open>The table (include/kernel/sys.h, include/unistd.h)\<close>

datatype (plugins only: ) handler =
  Sys_setup | Sys_exit | Sys_fork | Sys_read | Sys_write | Sys_open | Sys_close | Sys_waitpid
  | Sys_creat | Sys_link | Sys_unlink | Sys_execve | Sys_chdir | Sys_time | Sys_mknod | Sys_chmod
  | Sys_chown | Sys_break | Sys_stat | Sys_lseek | Sys_getpid | Sys_mount | Sys_umount | Sys_setuid
  | Sys_getuid | Sys_stime | Sys_ptrace | Sys_alarm | Sys_fstat | Sys_pause | Sys_utime | Sys_stty
  | Sys_gtty | Sys_access | Sys_nice | Sys_ftime | Sys_sync | Sys_kill | Sys_rename | Sys_mkdir
  | Sys_rmdir | Sys_dup | Sys_pipe | Sys_times | Sys_prof | Sys_brk | Sys_setgid | Sys_getgid
  | Sys_signal | Sys_geteuid | Sys_getegid | Sys_acct | Sys_phys | Sys_lock | Sys_ioctl | Sys_fcntl
  | Sys_mpx | Sys_setpgid | Sys_ulimit | Sys_uname | Sys_umask | Sys_chroot | Sys_ustat | Sys_dup2
  | Sys_getppid | Sys_getpgrp | Sys_setsid | Sys_sigaction | Sys_sgetmask | Sys_ssetmask | Sys_setreuid | Sys_setregid

definition sys_call_table :: "handler list" where
  "sys_call_table = [
    Sys_setup, Sys_exit, Sys_fork, Sys_read, Sys_write, Sys_open, Sys_close, Sys_waitpid,
    Sys_creat, Sys_link, Sys_unlink, Sys_execve, Sys_chdir, Sys_time, Sys_mknod, Sys_chmod,
    Sys_chown, Sys_break, Sys_stat, Sys_lseek, Sys_getpid, Sys_mount, Sys_umount, Sys_setuid,
    Sys_getuid, Sys_stime, Sys_ptrace, Sys_alarm, Sys_fstat, Sys_pause, Sys_utime, Sys_stty,
    Sys_gtty, Sys_access, Sys_nice, Sys_ftime, Sys_sync, Sys_kill, Sys_rename, Sys_mkdir,
    Sys_rmdir, Sys_dup, Sys_pipe, Sys_times, Sys_prof, Sys_brk, Sys_setgid, Sys_getgid,
    Sys_signal, Sys_geteuid, Sys_getegid, Sys_acct, Sys_phys, Sys_lock, Sys_ioctl, Sys_fcntl,
    Sys_mpx, Sys_setpgid, Sys_ulimit, Sys_uname, Sys_umask, Sys_chroot, Sys_ustat, Sys_dup2,
    Sys_getppid, Sys_getpgrp, Sys_setsid, Sys_sigaction, Sys_sgetmask, Sys_ssetmask, Sys_setreuid, Sys_setregid]"

text \<open>The numbers \<open>__NR_\<close> the user side puts in the register.\<close>

primrec NR :: "handler \<Rightarrow> nat" where
  "NR Sys_setup = 0"
| "NR Sys_exit = 1" | "NR Sys_fork = 2" | "NR Sys_read = 3" | "NR Sys_write = 4" | "NR Sys_open = 5"
| "NR Sys_close = 6" | "NR Sys_waitpid = 7" | "NR Sys_creat = 8" | "NR Sys_link = 9" | "NR Sys_unlink = 10"
| "NR Sys_execve = 11" | "NR Sys_chdir = 12" | "NR Sys_time = 13" | "NR Sys_mknod = 14" | "NR Sys_chmod = 15"
| "NR Sys_chown = 16" | "NR Sys_break = 17" | "NR Sys_stat = 18" | "NR Sys_lseek = 19" | "NR Sys_getpid = 20"
| "NR Sys_mount = 21" | "NR Sys_umount = 22" | "NR Sys_setuid = 23" | "NR Sys_getuid = 24" | "NR Sys_stime = 25"
| "NR Sys_ptrace = 26" | "NR Sys_alarm = 27" | "NR Sys_fstat = 28" | "NR Sys_pause = 29" | "NR Sys_utime = 30"
| "NR Sys_stty = 31" | "NR Sys_gtty = 32" | "NR Sys_access = 33" | "NR Sys_nice = 34" | "NR Sys_ftime = 35"
| "NR Sys_sync = 36" | "NR Sys_kill = 37" | "NR Sys_rename = 38" | "NR Sys_mkdir = 39" | "NR Sys_rmdir = 40"
| "NR Sys_dup = 41" | "NR Sys_pipe = 42" | "NR Sys_times = 43" | "NR Sys_prof = 44" | "NR Sys_brk = 45"
| "NR Sys_setgid = 46" | "NR Sys_getgid = 47" | "NR Sys_signal = 48" | "NR Sys_geteuid = 49" | "NR Sys_getegid = 50"
| "NR Sys_acct = 51" | "NR Sys_phys = 52" | "NR Sys_lock = 53" | "NR Sys_ioctl = 54" | "NR Sys_fcntl = 55"
| "NR Sys_mpx = 56" | "NR Sys_setpgid = 57" | "NR Sys_ulimit = 58" | "NR Sys_uname = 59" | "NR Sys_umask = 60"
| "NR Sys_chroot = 61" | "NR Sys_ustat = 62" | "NR Sys_dup2 = 63" | "NR Sys_getppid = 64" | "NR Sys_getpgrp = 65"
| "NR Sys_setsid = 66" | "NR Sys_sigaction = 67" | "NR Sys_sgetmask = 68" | "NR Sys_ssetmask = 69" | "NR Sys_setreuid = 70"
| "NR Sys_setregid = 71"

text \<open>The handlers with an empty body at the end of kernel/schedule.c.\<close>

definition empty_handlers :: "handler list" where
  "empty_handlers = [
    Sys_exit, Sys_read, Sys_close, Sys_waitpid, Sys_creat, Sys_link, Sys_unlink, Sys_execve,
    Sys_chdir, Sys_time, Sys_mknod, Sys_chmod, Sys_chown, Sys_break, Sys_stat, Sys_lseek,
    Sys_getpid, Sys_mount, Sys_umount, Sys_setuid, Sys_getuid, Sys_stime, Sys_ptrace, Sys_alarm,
    Sys_fstat, Sys_pause, Sys_utime, Sys_stty, Sys_gtty, Sys_access, Sys_nice, Sys_ftime,
    Sys_sync, Sys_kill, Sys_rename, Sys_mkdir, Sys_rmdir, Sys_pipe, Sys_times, Sys_prof,
    Sys_brk, Sys_setgid, Sys_getgid, Sys_signal, Sys_geteuid, Sys_getegid, Sys_acct, Sys_phys,
    Sys_lock, Sys_ioctl, Sys_fcntl, Sys_mpx, Sys_setpgid, Sys_ulimit, Sys_uname, Sys_umask,
    Sys_chroot, Sys_ustat, Sys_dup2, Sys_getppid, Sys_getpgrp, Sys_setsid, Sys_sigaction, Sys_sgetmask,
    Sys_ssetmask, Sys_setreuid, Sys_setregid]"

section \<open>The dispatcher\<close>

text \<open>What the handlers' models leave open: fuel, what happens while a task sleeps, the terminal driver, the offsets of two
  fields of the task structure, and what is in the register after a function without \<open>return\<close>.\<close>

record kenv =
  e_fuel :: nat
  e_sleep :: fs_sleep
  e_tty :: tty_call
  e_tss_off :: u32
  e_ldt_off :: u32
  e_junk :: "handler \<Rightarrow> kst \<Rightarrow> u32"

definition call_handler :: "kenv \<Rightarrow> handler \<Rightarrow> fork_regs \<Rightarrow> kst \<Rightarrow> (u32 \<times> kst) kres" where
  "call_handler e h r s =
     (if h = Sys_setup then
        kbind (sys_setup (e_fuel e) (e_sleep e) (mount_root (e_fuel e) (e_sleep e)) (r_ebx r) (k_fs s)) (\<lambda>(v, f).
          Inr (of_int v, s\<lparr>k_fs := f\<rparr>))
      else if h = Sys_fork then
        kbind (sys_fork (e_tss_off e) (e_ldt_off e) r (proc_of s)) (\<lambda>(v, p). Inr (of_int v, put_proc p s))
      else if h = Sys_open then
        kbind (sys_open (e_fuel e) (e_sleep e) (r_ebx r) (r_ecx r) (r_edx r) (k_fs s)) (\<lambda>(v, f). Inr (of_int v, s\<lparr>k_fs := f\<rparr>))
      else if h = Sys_dup then
        (case sys_dup (r_ebx r) (k_fs s) of (v, f) \<Rightarrow> Inr (of_int v, s\<lparr>k_fs := f\<rparr>))
      else if h = Sys_write then
        kbind (sys_write (e_tty e) (r_ebx r) (r_ecx r) (r_edx r) (k_fs s) (k_cr_flag s) (world_of s)) (\<lambda>(v, crf, w).
          Inr (of_int v, put_world crf w s))
      else Inr (e_junk e h s, s))"

definition reschedule :: "kst \<Rightarrow> kst kres" where
  "reschedule s =
     (case schedule (bio_sched (k_fs s)) of
        None \<Rightarrow> Inl Hang
      | Some k \<Rightarrow> Inr (s\<lparr>k_fs := (k_fs s)\<lparr>bio_sched := k\<rparr>\<rparr>))"

text \<open>\<open>system_call\<close>. The value is in the caller's register when the caller runs again.\<close>

definition system_call :: "kenv \<Rightarrow> u32 \<Rightarrow> fork_regs \<Rightarrow> kst \<Rightarrow> (u32 \<times> kst) kres" where
  "system_call e eax_reg r s =
     (if 72 - 1 < eax_reg then Inr (-1, s)
      else kbind (call_handler e (sys_call_table ! unat eax_reg) r s) (\<lambda>(v, s).
        let t = cur_task (k_fs s)
        in if t_state t \<noteq> 0 \<or> t_counter t = 0 then kbind (reschedule s) (\<lambda>s. Inr (v, s)) else Inr (v, s)))"

text \<open>\<open>timer_interrupt\<close>; \<open>jiffies\<close> is beside the state.\<close>

definition timer_interrupt :: "u32 \<Rightarrow> u32 \<Rightarrow> kst \<Rightarrow> (u32 \<times> kst) kres" where
  "timer_interrupt cs_reg jiffies s =
     (case do_timer (cs_reg AND 3) (bio_sched (k_fs s)) of
        None \<Rightarrow> Inl Hang
      | Some k \<Rightarrow> Inr (jiffies + 1, s\<lparr>k_fs := (k_fs s)\<lparr>bio_sched := k\<rparr>\<rparr>))"

section \<open>The library (include/unistd.h, lib)\<close>

record ust =
  u_kern :: kst
  u_errno :: u32

definition int_0x80 :: "kenv \<Rightarrow> handler \<Rightarrow> fork_regs \<Rightarrow> ust \<Rightarrow> (u32 \<times> ust) kres" where
  "int_0x80 e h r u =
     kbind (system_call e (of_nat (NR h)) r (u_kern u)) (\<lambda>(res, s).
       if 0 \<le>s res then Inr (res, u\<lparr>u_kern := s\<rparr>) else Inr (-1, u\<lparr>u_kern := s, u_errno := - res\<rparr>))"

text \<open>\<open>r\<close> are the registers the wrapper does not load.\<close>

definition syscall0 :: "kenv \<Rightarrow> handler \<Rightarrow> fork_regs \<Rightarrow> ust \<Rightarrow> (u32 \<times> ust) kres" where
  "syscall0 e h r u = int_0x80 e h r u"

definition syscall1 :: "kenv \<Rightarrow> handler \<Rightarrow> fork_regs \<Rightarrow> u32 \<Rightarrow> ust \<Rightarrow> (u32 \<times> ust) kres" where
  "syscall1 e h r a u = int_0x80 e h (r\<lparr>r_ebx := a\<rparr>) u"

definition syscall2 :: "kenv \<Rightarrow> handler \<Rightarrow> fork_regs \<Rightarrow> u32 \<Rightarrow> u32 \<Rightarrow> ust \<Rightarrow> (u32 \<times> ust) kres" where
  "syscall2 e h r a b u = int_0x80 e h (r\<lparr>r_ebx := a, r_ecx := b\<rparr>) u"

definition syscall3 :: "kenv \<Rightarrow> handler \<Rightarrow> fork_regs \<Rightarrow> u32 \<Rightarrow> u32 \<Rightarrow> u32 \<Rightarrow> ust \<Rightarrow> (u32 \<times> ust) kres" where
  "syscall3 e h r a b c u = int_0x80 e h (r\<lparr>r_ebx := a, r_ecx := b, r_edx := c\<rparr>) u"

definition lib_fork :: "kenv \<Rightarrow> fork_regs \<Rightarrow> ust \<Rightarrow> (u32 \<times> ust) kres" where
  "lib_fork e r u = syscall0 e Sys_fork r u"

definition lib_pause :: "kenv \<Rightarrow> fork_regs \<Rightarrow> ust \<Rightarrow> (u32 \<times> ust) kres" where
  "lib_pause e r u = syscall0 e Sys_pause r u"

definition lib_setup :: "kenv \<Rightarrow> fork_regs \<Rightarrow> u32 \<Rightarrow> ust \<Rightarrow> (u32 \<times> ust) kres" where
  "lib_setup e r BIOS u = syscall1 e Sys_setup r BIOS u"

definition lib_sync :: "kenv \<Rightarrow> fork_regs \<Rightarrow> ust \<Rightarrow> (u32 \<times> ust) kres" where
  "lib_sync e r u = syscall0 e Sys_sync r u"

definition lib_open :: "kenv \<Rightarrow> fork_regs \<Rightarrow> u32 \<Rightarrow> u32 \<Rightarrow> u32 \<Rightarrow> ust \<Rightarrow> (u32 \<times> ust) kres" where
  "lib_open e r filename flag arg u =
     kbind (system_call e (of_nat (NR Sys_open)) (r\<lparr>r_ebx := filename, r_ecx := flag, r_edx := arg\<rparr>) (u_kern u)) (\<lambda>(res, s).
       if 0 \<le>s res then Inr (res, u\<lparr>u_kern := s\<rparr>) else Inr (-1, u\<lparr>u_kern := s, u_errno := - res\<rparr>))"

definition lib_dup :: "kenv \<Rightarrow> fork_regs \<Rightarrow> u32 \<Rightarrow> ust \<Rightarrow> (u32 \<times> ust) kres" where
  "lib_dup e r fd u = syscall1 e Sys_dup r fd u"

definition lib_write :: "kenv \<Rightarrow> fork_regs \<Rightarrow> u32 \<Rightarrow> u32 \<Rightarrow> u32 \<Rightarrow> ust \<Rightarrow> (u32 \<times> ust) kres" where
  "lib_write e r fd buf cnt u = syscall3 e Sys_write r fd buf cnt u"

text \<open>\<open>printf\<close> formats into the static \<open>printbuf\<close> of the user's data segment; more than its 1024 bytes are written behind it.\<close>

primrec store_string :: "u8 list \<Rightarrow> u32 \<Rightarrow> mem \<Rightarrow> mem" where
  "store_string [] p m = m(p := 0)"
| "store_string (c # str) p m = store_string str (p + 1) (m(p := c))"

definition lib_printf :: "kenv \<Rightarrow> fork_regs \<Rightarrow> u32 \<Rightarrow> string \<Rightarrow> u32 list \<Rightarrow> ust \<Rightarrow> (u32 \<times> ust) kres" where
  "lib_printf e r printbuf fmt args u =
     kbind (vsprintf (fs_seg (k_fs (u_kern u))) fmt args) (\<lambda>(i, str, m).
       if 1024 \<le> i then Inl Fault
       else
         (let s = u_kern u; m = store_string (map of_char str) printbuf m;
              s = s\<lparr>k_fs := (k_fs s)\<lparr>fs_seg := m\<rparr>\<rparr>
          in kbind (lib_write e r 1 printbuf (of_nat i) (u\<lparr>u_kern := s\<rparr>)) (\<lambda>(_, u). Inr (of_nat i, u))))"

text \<open>\<open>init\<close>; the addresses are those of \<open>drive_info\<close>, of the string \<open>/dev/tty0\<close>, of the text it prints and of \<open>printbuf\<close>.\<close>

definition init :: "kenv \<Rightarrow> fork_regs \<Rightarrow> u32 \<Rightarrow> u32 \<Rightarrow> u32 \<Rightarrow> u32 \<Rightarrow> ust \<Rightarrow> ust kres" where
  "init e r drive_info tty0 msg printbuf u =
     kbind (lib_setup e r drive_info u) (\<lambda>(_, u).
     kbind (lib_open e r tty0 2 0 u) (\<lambda>(_, u).
     kbind (lib_dup e r 0 u) (\<lambda>(_, u).
     kbind (lib_dup e r 0 u) (\<lambda>(_, u).
     kbind (lib_printf e r printbuf (''%s'' @ [CHR 0x0A]) [msg] u) (\<lambda>(_, u). Inr u)))))"

section \<open>A child shares its parent's files\<close>

lemma shares_file_card: "shares_file filp f n = of_nat (card {k. k < n \<and> filp k = Some f})"
proof (induction n)
  case (Suc n)
  have "{k. k < Suc n \<and> filp k = Some f} = (if filp n = Some f then insert n {k. k < n \<and> filp k = Some f} else {k. k < n \<and> filp k = Some f})"
    by (auto simp: less_Suc_eq)
  then show ?case using Suc by (simp add: shares_file_def)
qed (simp add: shares_file_def)

lemma find_empty_process_slot:
  assumes "find_empty_process k = Some (nr, k')"
  shows "\<exists>lp. k' = k\<lparr>last_pid := lp\<rparr>" and "0 \<le> nr \<Longrightarrow> nat nr < NR_TASKS \<and> task k (nat nr) = 0"
proof -
  obtain lp where lp: "k' = k\<lparr>last_pid := lp\<rparr>" "nr = (case find (\<lambda>i. task k i = 0) [1..<NR_TASKS] of Some i \<Rightarrow> int i | None \<Rightarrow> - EAGAIN)"
    using assms by (auto simp: find_empty_process_def)
  then show "\<exists>lp. k' = k\<lparr>last_pid := lp\<rparr>" by blast
  show "0 \<le> nr \<Longrightarrow> nat nr < NR_TASKS \<and> task k (nat nr) = 0"
    using lp(2) find_upt_Some[of "\<lambda>i. task k i = 0" 1 NR_TASKS] by (auto simp: EAGAIN_def split: option.splits)
qed

text \<open>What a fork does to slots and files.\<close>

lemma sys_fork_files:
  assumes inv: "fork_inv s" and r: "sys_fork tss_off ldt_off r s = Inr (v, s')"
  shows "v < 0 \<and> task (pr_sched s') = task (pr_sched s) \<and> tasks (pr_sched s') = tasks (pr_sched s) \<and> f_counts s' = f_counts s
    \<or> (\<exists>nr a. nr < NR_TASKS \<and> task (pr_sched s) nr = 0 \<and> a \<noteq> 0 \<and> task (pr_sched s') = (task (pr_sched s))(nr := a)
        \<and> (\<forall>i<NR_TASKS. task (pr_sched s) i \<noteq> a) \<and> (\<forall>q. q \<noteq> a \<longrightarrow> tasks (pr_sched s') q = tasks (pr_sched s) q)
        \<and> t_filp (tasks (pr_sched s') a) = t_filp (tasks (pr_sched s) (current (pr_sched s)))
        \<and> (\<forall>f. f_counts s' f = f_counts s f + shares_file (t_filp (tasks (pr_sched s) (current (pr_sched s)))) f NR_OPEN))"
proof -
  obtain nr k where fe: "find_empty_process (pr_sched s) = Some (nr, k)" using r by (auto simp: sys_fork_def split: option.splits)
  obtain lp where k: "k = (pr_sched s)\<lparr>last_pid := lp\<rparr>" using find_empty_process_slot(1)[OF fe] by blast
  show ?thesis
  proof (cases "nr < 0")
    case True
    then show ?thesis using r fe k by (auto simp: sys_fork_def)
  next
    case False
    then have slot: "nat nr < NR_TASKS" "task (pr_sched s) (nat nr) = 0" using find_empty_process_slot(2)[OF fe] by auto
    have c: "copy_process tss_off ldt_off (nat nr) r (s\<lparr>pr_sched := k\<rparr>) = Inr (v, s')" using r fe False by (simp add: sys_fork_def)
    have fresh: "a \<noteq> task (pr_sched s) i" if "get_free_page (pr_mm s) = Inr (a, mm)" "i < NR_TASKS" for a mm i
      by (rule get_free_page_InrD[OF that(1)]) (use inv that(2) in \<open>auto simp: fork_inv_def tasks_in_frames_def\<close>)
    obtain j where "j < NR_TASKS" "task (pr_sched s) j = current (pr_sched s)" using inv by (auto simp: fork_inv_def)
    then have "\<forall>p mm. get_free_page (pr_mm (s\<lparr>pr_sched := k\<rparr>)) = Inr (p, mm) \<longrightarrow> p \<noteq> current (pr_sched (s\<lparr>pr_sched := k\<rparr>))"
      using fresh k by fastforce
    note D = copy_process_InrD[OF c this]
    have e: "pr_mm (s\<lparr>pr_sched := k\<rparr>) = pr_mm s" "task (pr_sched (s\<lparr>pr_sched := k\<rparr>)) = task (pr_sched s)" "tasks (pr_sched (s\<lparr>pr_sched := k\<rparr>)) = tasks (pr_sched s)"
      "current (pr_sched (s\<lparr>pr_sched := k\<rparr>)) = current (pr_sched s)" "f_counts (s\<lparr>pr_sched := k\<rparr>) = f_counts s" using k by simp_all
    obtain p mm where p: "get_free_page (pr_mm s) = Inr (frame_addr p, mm)" "p < MM_PAGES"
      "task (pr_sched s') = (task (pr_sched s))(nat nr := frame_addr p)" "\<forall>q. q \<noteq> frame_addr p \<longrightarrow> tasks (pr_sched s') q = tasks (pr_sched s) q"
      "t_filp (tasks (pr_sched s') (frame_addr p)) = t_filp (tasks (pr_sched s) (current (pr_sched s)))"
      "\<forall>f. f_counts s' f = f_counts s f + shares_file (t_filp (tasks (pr_sched s) (current (pr_sched s)))) f NR_OPEN"
      using D[unfolded e] by blast
    have "\<forall>i<NR_TASKS. task (pr_sched s) i \<noteq> frame_addr p" using fresh[OF p(1)] by metis
    then show ?thesis using slot frame_addr_nonzero[OF p(2)] p(3-6) by blast
  qed
qed

lemma fd_refs_fork:
  assumes "task (bio_sched s') = (task (bio_sched s))(nr := a)" and "nr < NR_TASKS" and "task (bio_sched s) nr = 0" and "a \<noteq> 0"
    and "\<forall>i<NR_TASKS. task (bio_sched s) i \<noteq> a" and "\<forall>q. q \<noteq> a \<longrightarrow> tasks (bio_sched s') q = tasks (bio_sched s) q"
    and "t_filp (tasks (bio_sched s') a) = t_filp (cur_task s)"
  shows "fd_refs s' f = fd_refs s f \<union> {nr} \<times> {k. k < NR_OPEN \<and> t_filp (cur_task s) k = Some f}"
proof -
  have "(i, k) \<in> fd_refs s' f \<longleftrightarrow> (i, k) \<in> fd_refs s f \<or> i = nr \<and> k < NR_OPEN \<and> t_filp (cur_task s) k = Some f" for i k
    using assms by (cases "i = nr") (auto simp: fd_refs_def)
  then show ?thesis by auto
qed

lemma fd_refs_cong: "task (bio_sched s') = task (bio_sched s) \<Longrightarrow> tasks (bio_sched s') = tasks (bio_sched s) \<Longrightarrow> fd_refs s' f = fd_refs s f"
  by (simp add: fd_refs_def)

lemma put_proc_fields:
  "bio_sched (k_fs (put_proc p s)) = pr_sched p" "f_count (file_table (k_fs (put_proc p s)) f) = f_counts p f"
  "proc_of (put_proc p s) = p" "pr_sched (proc_of s) = bio_sched (k_fs s)" "f_counts (proc_of s) f = f_count (file_table (k_fs s) f)"
  by (simp_all add: put_proc_def proc_of_def)

text \<open>C8: after a fork the counts of the file table are still the numbers of descriptors that refer to the files, over all
  tasks and the new one, whether the fork finds a slot or not.\<close>

theorem fork_keeps_file_counts:
  assumes inv: "fork_inv (proc_of s)" and c: "counts_ok (k_fs s)" and r: "call_handler e Sys_fork r s = Inr (v, s')"
  shows "counts_ok (k_fs s')"
proof -
  obtain v' p where p: "sys_fork (e_tss_off e) (e_ldt_off e) r (proc_of s) = Inr (v', p)" "s' = put_proc p s"
    using r by (auto simp: call_handler_def kres_simps)
  have c': "unat (f_count (file_table (k_fs s) f)) = card (fd_refs (k_fs s) f)" for f using c by (simp add: counts_ok_def)
  have S: "bio_sched (k_fs s') = pr_sched p" "f_count (file_table (k_fs s') f) = f_counts p f"
    "pr_sched (proc_of s) = bio_sched (k_fs s)" "f_counts (proc_of s) f = f_count (file_table (k_fs s) f)" for f
    by (simp_all add: p(2) put_proc_fields)
  consider (none) "task (bio_sched (k_fs s')) = task (bio_sched (k_fs s))" "tasks (bio_sched (k_fs s')) = tasks (bio_sched (k_fs s))"
      "\<forall>f. f_count (file_table (k_fs s') f) = f_count (file_table (k_fs s) f)"
    | (child) nr where "task (bio_sched (k_fs s)) nr = 0"
      "\<forall>f. fd_refs (k_fs s') f = fd_refs (k_fs s) f \<union> {nr} \<times> {k. k < NR_OPEN \<and> t_filp (cur_task (k_fs s)) k = Some f}"
      "\<forall>f. f_count (file_table (k_fs s') f) = f_count (file_table (k_fs s) f) + shares_file (t_filp (cur_task (k_fs s))) f NR_OPEN"
  proof (rule disjE[OF sys_fork_files[OF inv p(1)]], goal_cases)
    case 1
    then show thesis by (intro 1(1)) (simp_all add: S)
  next
    case 2
    then obtain nr a where n: "nr < NR_TASKS" "task (bio_sched (k_fs s)) nr = 0" "a \<noteq> 0" "task (bio_sched (k_fs s')) = (task (bio_sched (k_fs s)))(nr := a)"
      "\<forall>i<NR_TASKS. task (bio_sched (k_fs s)) i \<noteq> a" "\<forall>q. q \<noteq> a \<longrightarrow> tasks (bio_sched (k_fs s')) q = tasks (bio_sched (k_fs s)) q"
      "t_filp (tasks (bio_sched (k_fs s')) a) = t_filp (cur_task (k_fs s))"
      "\<forall>f. f_counts p f = f_counts (proc_of s) f + shares_file (t_filp (cur_task (k_fs s))) f NR_OPEN"
      unfolding S(1,3) by (elim exE conjE) (assumption | rule that)+
    show thesis using 2(2)[OF n(2)] fd_refs_fork[OF n(4,1,2,3,5,6,7)] n(8) S(2,4) by presburger
  qed
  then show ?thesis
  proof cases
    case none
    then show ?thesis using c' fd_refs_cong[OF none(1,2)] by (simp add: counts_ok_def)
  next
    case child
    let ?K = "\<lambda>f. {k. k < NR_OPEN \<and> t_filp (cur_task (k_fs s)) k = Some f}"
    have "unat (f_count (file_table (k_fs s') f)) = card (fd_refs (k_fs s') f)" for f
    proof -
      have K: "finite (?K f)" "card (?K f) \<le> 20" using card_mono[of "{..<20}" "?K f"] by auto
      have "card (fd_refs (k_fs s') f) = card (fd_refs (k_fs s) f) + card (?K f)" unfolding child(2)[rule_format]
        using child(1) K(1) fd_refs_finite(1) by (subst card_Un_disjoint) (auto simp: fd_refs_def)
      moreover have "unat (f_count (file_table (k_fs s') f)) = unat (f_count (file_table (k_fs s) f)) + card (?K f)"
        unfolding child(3)[rule_format] shares_file_card using c'[of f] fd_refs_finite(2)[of "k_fs s" f] K(2) by (simp add: unat_word_ariths unat_of_nat)
      ultimately show ?thesis using c' by simp
    qed
    then show ?thesis by (simp add: counts_ok_def)
  qed
qed

section \<open>The library over the handlers\<close>

text \<open>The task goes on running after the call.\<close>

definition keeps_running :: "kst \<Rightarrow> bool" where
  "keeps_running s \<longleftrightarrow> t_state (cur_task (k_fs s)) = 0 \<and> t_counter (cur_task (k_fs s)) \<noteq> 0"

lemma NR_less: "NR h < 72" and table_NR: "sys_call_table ! NR h = h"
  by (cases h; simp add: sys_call_table_def)+

lemma system_call_is:
  assumes "call_handler e h r s = Inr (v, s')" and "keeps_running s'"
  shows "system_call e (of_nat (NR h)) r s = Inr (v, s')"
proof -
  have u: "unat (of_nat (NR h) :: u32) = NR h" using NR_less[of h] by (simp add: unat_of_nat)
  then have "\<not> 72 - 1 < (of_nat (NR h) :: u32)" using NR_less[of h] by (simp add: word_less_nat_alt)
  then show ?thesis using assms u by (simp add: system_call_def keeps_running_def table_NR)
qed

lemma sint_of_small: "n < 2 ^ 31 \<Longrightarrow> sint (of_nat n :: u32) = int n"
  by (simp add: signed_of_nat signed_take_bit_int_eq_self)

lemma sle_of_nat: "n < 2 ^ 31 \<Longrightarrow> 0 \<le>s (of_nat n :: u32)"
  by (simp add: word_sle_eq sint_of_small)

lemma int_0x80_is:
  assumes "call_handler e h r (u_kern u) = Inr (v, s')" and "keeps_running s'" and "0 \<le>s v"
  shows "int_0x80 e h r u = Inr (v, u\<lparr>u_kern := s'\<rparr>)"
  using system_call_is[OF assms(1,2)] assms(3) by (simp add: int_0x80_def)

section \<open>Duplicating the first descriptor\<close>

lemma lib_dup_is:
  assumes "keeps_running (u_kern u)" and "t_filp (cur_task (k_fs (u_kern u))) 0 = Some f" and "k < 20"
    and "t_filp (cur_task (k_fs (u_kern u))) k = None" and "\<forall>j<k. t_filp (cur_task (k_fs (u_kern u))) j \<noteq> None"
  shows "lib_dup e r 0 u = Inr (of_nat k, u\<lparr>u_kern := (u_kern u)\<lparr>k_fs := add_fd k f (k_fs (u_kern u))\<rparr>\<rparr>)"
proof -
  let ?s = "u_kern u" let ?s' = "?s\<lparr>k_fs := add_fd k f (k_fs ?s)\<rparr>"
  have "List.find (\<lambda>k. t_filp (cur_task (k_fs ?s)) k = None) [0..<20] = Some k" using assms(3-5) by (simp add: find_upt_Some)
  then have "dupfd 0 0 (k_fs ?s) = (int k, add_fd k f (k_fs ?s))" using assms(2) by (simp add: dupfd_def add_fd_def Let_def)
  then have "call_handler e Sys_dup (r\<lparr>r_ebx := 0\<rparr>) ?s = Inr (of_nat k, ?s')" by (simp add: call_handler_def sys_dup_def)
  moreover have "keeps_running ?s'" using assms(1) by (simp add: keeps_running_def add_fd_fields(2,3))
  moreover have "0 \<le>s (of_nat k :: u32)" using assms(3) by (intro sle_of_nat) simp
  ultimately show ?thesis unfolding lib_dup_def syscall1_def by (rule int_0x80_is)
qed

text \<open>C27: what \<open>init\<close> does after opening the terminal. With descriptor 0 open and 1 and 2 free, the two calls of \<open>dup(0)\<close>
  return 1 and 2 without setting \<open>errno\<close>; all three descriptors then refer to the same file, whose count has grown by two,
  and the counts of the file table are still the numbers of references.\<close>

theorem init_dups_share_file:
  assumes run: "keeps_running (u_kern u)" and c: "counts_ok (k_fs (u_kern u))"
    and cur: "c < NR_TASKS" "task (bio_sched (k_fs (u_kern u))) c = current (bio_sched (k_fs (u_kern u)))" "current (bio_sched (k_fs (u_kern u))) \<noteq> 0"
      "\<forall>i<NR_TASKS. task (bio_sched (k_fs (u_kern u))) i = current (bio_sched (k_fs (u_kern u))) \<longrightarrow> i = c"
    and fd: "t_filp (cur_task (k_fs (u_kern u))) 0 = Some f" "t_filp (cur_task (k_fs (u_kern u))) 1 = None" "t_filp (cur_task (k_fs (u_kern u))) 2 = None"
  shows "\<exists>s'. kbind (lib_dup e r 0 u) (\<lambda>(a, u). kbind (lib_dup e r 0 u) (\<lambda>(b, u). Inr (a, b, u))) = Inr (1, 2, u\<lparr>u_kern := s'\<rparr>)
    \<and> t_filp (cur_task (k_fs s')) = (t_filp (cur_task (k_fs (u_kern u))))(1 := Some f, 2 := Some f)
    \<and> f_count (file_table (k_fs s') f) = f_count (file_table (k_fs (u_kern u)) f) + 2 \<and> counts_ok (k_fs s')"
proof -
  let ?s = "u_kern u" let ?f1 = "add_fd 1 f (k_fs ?s)" let ?f2 = "add_fd 2 f ?f1" let ?u1 = "u\<lparr>u_kern := ?s\<lparr>k_fs := ?f1\<rparr>\<rparr>"
  have 1: "lib_dup e r 0 u = Inr (of_nat 1, ?u1)" using fd by (intro lib_dup_is[OF run]) simp_all
  have run1: "keeps_running (u_kern ?u1)" using run by (simp add: keeps_running_def add_fd_fields(2,3))
  have k1: "k_fs (u_kern ?u1) = ?f1" by simp
  have fd1: "t_filp (cur_task ?f1) 0 = Some f" "t_filp (cur_task ?f1) 2 = None" "\<forall>j<2. t_filp (cur_task ?f1) j \<noteq> None"
    unfolding add_fd_fields(1) using fd by (simp_all add: less_2_cases_iff)
  have "lib_dup e r 0 ?u1 = Inr (of_nat 2, ?u1\<lparr>u_kern := (u_kern ?u1)\<lparr>k_fs := ?f2\<rparr>\<rparr>)"
    by (rule lib_dup_is[OF run1, unfolded k1, OF fd1(1) _ fd1(2) fd1(3)]) simp
  then have 2: "lib_dup e r 0 ?u1 = Inr (2, u\<lparr>u_kern := ?s\<lparr>k_fs := ?f2\<rparr>\<rparr>)" by simp
  have c1: "counts_ok ?f1" using fd by (intro add_fd_counts[OF c cur]) simp_all
  note cur1 = cur(2-4)[folded add_fd_fields(4,5)[of 1 f "k_fs ?s"]]
  have "counts_ok ?f2" by (rule add_fd_counts[OF c1 cur(1) cur1 _ fd1(2)]) simp
  moreover have "t_filp (cur_task ?f2) = (t_filp (cur_task (k_fs ?s)))(1 := Some f, 2 := Some f)" unfolding add_fd_fields(1) by (rule refl)
  moreover have "f_count (file_table ?f2 f) = f_count (file_table (k_fs ?s) f) + 2" by (simp add: add_fd_fields(6))
  ultimately show ?thesis using 1 2 by (intro exI[of _ "?s\<lparr>k_fs := ?f2\<rparr>"]) simp
qed

text \<open>C31: the library's \<open>open\<close>: it returns a descriptor and leaves \<open>errno\<close> alone, or it returns -1 and \<open>errno\<close> is one of
  seven error numbers.\<close>

theorem lib_open_result:
  assumes "lib_open e r filename flag arg u = Inr (v, u')"
  shows "unat v < 20 \<and> u_errno u' = u_errno u \<or> v = -1 \<and> u_errno u' \<in> {28, 22, 21, 17, 13, 2, 1}"
proof -
  obtain res s where c: "system_call e (of_nat (NR Sys_open)) (r\<lparr>r_ebx := filename, r_ecx := flag, r_edx := arg\<rparr>) (u_kern u) = Inr (res, s)"
    "(v, u') = (if 0 \<le>s res then (res, u\<lparr>u_kern := s\<rparr>) else (-1, u\<lparr>u_kern := s, u_errno := - res\<rparr>))"
    using assms by (auto simp: lib_open_def kres_simps split: if_splits)
  have "sys_call_table ! 5 = Sys_open" using table_NR[of Sys_open] by simp
  then obtain i f where o: "sys_open (e_fuel e) (e_sleep e) filename flag arg (k_fs (u_kern u)) = Inr (i, f)" "res = of_int i"
    using c(1) by (auto simp: system_call_def call_handler_def kres_simps Let_def split: if_splits)
  from sys_open_values[OF o(1)] consider n where "i = int n" "n < 20" | "i \<in> {-28, -22, -21, -17, -13, -2, -1}"
    by (metis atLeastLessThan_iff nonneg_int_cases of_nat_less_numeral_iff)
  then show ?thesis
  proof cases
    case 1
    then show ?thesis using c(2) o(2) sle_of_nat[of n] by (simp add: unat_of_nat)
  next
    case 2
    then show ?thesis using c(2) o(2) by (auto simp: word_sle_eq)
  qed
qed

section \<open>Printing\<close>

lemma store_string_other: "length str < unat (x - p) \<Longrightarrow> store_string str p m x = m x"
proof (induction str arbitrary: p m)
  case (Cons c str)
  have l: "(1 :: u32) \<le> x - p" using Cons.prems by (simp add: word_le_nat_alt)
  have e: "x - (p + 1) = (x - p) - 1" by simp
  have "unat (x - (p + 1)) = unat (x - p) - 1" unfolding e unat_sub[OF l] by simp
  then show ?case using Cons by auto
qed auto

lemma store_string_at:
  "length str < 2 ^ 32 \<Longrightarrow> i < length str \<Longrightarrow> store_string str p m (p + of_nat i) = str ! i"
proof (induction str arbitrary: p m i)
  case (Cons c str)
  show ?case
  proof (cases i)
    case 0
    have e: "p - (p + 1) = (0xffffffff :: u32)" by simp
    have "unat (p - (p + 1)) = 2 ^ 32 - 1" unfolding e by (simp add: unsigned_minus_1_eq_mask mask_eq_exp_minus_1)
    then have "store_string str (p + 1) (m(p := c)) p = c" using Cons.prems by (subst store_string_other) simp_all
    then show ?thesis using 0 by simp
  next
    case (Suc j)
    then show ?thesis using Cons.IH[of j "p + 1"] Cons.prems by (simp add: add.assoc)
  qed
qed simp

lemma user_bytes_store: "length str < 2 ^ 32 \<Longrightarrow> user_bytes (store_string str p m) p (length str) = str"
  by (auto simp: user_bytes_def store_string_at intro: nth_equalityI)

lemma vsprintf_length: "vsprintf m fmt args = Inr (i, str, m') \<Longrightarrow> i = length str"
  by (auto simp: vsprintf_def kres_simps)

lemma printf_writes:
  assumes run: "keeps_running (u_kern u)" and v: "vsprintf (fs_seg (k_fs (u_kern u))) fmt args = Inr (i, str, m)" "0 < i" "i < 1024"
    and fd: "t_filp (cur_task (k_fs (u_kern u))) 1 = Some f" "f_inode (file_table (k_fs (u_kern u)) f) = Some ip"
      "S_IS S_IFCHR (i_mode (inode_table (k_fs (u_kern u)) ip))" "i_zone (inode_table (k_fs (u_kern u)) ip) 0 = 0x400"
    and bs: "bs = map of_char str" "\<forall>b \<in> set bs. unat b < 128 \<and> b \<noteq> 27"
    and w: "con_calm (world_of (u_kern u))" "q_list (write_q (k_tty (u_kern u))) = []" "length (opost (k_tty (u_kern u)) bs) \<le> 1023"
    and e: "e_tty e = tty_write (Suc (Suc k)) doze resched (con_write_n (Suc d) fuel)" "\<not> k_cr_flag (u_kern u)"
  shows "\<exists>q. lib_printf e r printbuf fmt args u = Inr (of_nat i, u\<lparr>u_kern := (u_kern u)\<lparr>
      k_fs := (k_fs (u_kern u))\<lparr>fs_seg := store_string bs printbuf m\<rparr>, k_tty := (k_tty (u_kern u))\<lparr>write_q := q\<rparr>,
      k_con := set_cursor (fold (con_plain (ERASE_CHAR (k_tty (u_kern u)))) (opost (k_tty (u_kern u)) bs) (k_con (u_kern u)))\<rparr>\<rparr>)
    \<and> q_list q = []"
proof -
  let ?s = "u_kern u" let ?fs = "(k_fs ?s)\<lparr>fs_seg := store_string bs printbuf m\<rparr>" let ?s1 = "?s\<lparr>k_fs := ?fs\<rparr>"
  have i: "i = length bs" "sint (of_nat i :: u32) = int i" using vsprintf_length[OF v(1)] bs(1) v(3) by (simp_all add: sint_of_small)
  have w1: "world_of ?s1 = world_of ?s" "w_tty (world_of ?s) = k_tty ?s" "w_con (world_of ?s) = k_con ?s" by (simp_all add: world_of_def)
  have fs1: "cur_task ?fs = cur_task (k_fs ?s)" "file_table ?fs = file_table (k_fs ?s)" "inode_table ?fs = inode_table (k_fs ?s)"
    "fs_seg ?fs = store_string bs printbuf m" by simp_all
  have ub: "bs = user_bytes (fs_seg ?fs) printbuf (nat (sint (of_nat i :: u32)))"
    unfolding i(2) fs1(4) nat_int using user_bytes_store[of bs printbuf m] v(3) i(1) by simp
  have one: "unat (1 :: u32) < 20" "unat (1 :: u32) = 1" by simp_all
  have pos: "0 <s (of_nat i :: u32)" using v(2) i(2) by (simp add: word_sless_alt)
  obtain q where q: "sys_write (e_tty e) 1 printbuf (of_nat i) ?fs False (world_of ?s) =
      Inr (int i, False, (world_of ?s)\<lparr>w_tty := (k_tty ?s)\<lparr>write_q := q\<rparr>,
        w_con := set_cursor (fold (con_plain (ERASE_CHAR (k_tty ?s))) (opost (k_tty ?s) bs) (k_con ?s))\<rparr>)" "q_list q = []"
    using sys_write_tty[of 1 ?fs f ip "of_nat i" bs printbuf "world_of ?s" k doze resched d fuel, unfolded one(2) fs1(1-3) w1(2,3) i(2)]
      fd pos ub bs(2) w unfolding e(1) i(2) fs1(4) by auto
  let ?s2 = "?s1\<lparr>k_tty := (k_tty ?s)\<lparr>write_q := q\<rparr>, k_con := set_cursor (fold (con_plain (ERASE_CHAR (k_tty ?s))) (opost (k_tty ?s) bs) (k_con ?s))\<rparr>"
  have "call_handler e Sys_write (r\<lparr>r_ebx := 1, r_ecx := printbuf, r_edx := of_nat i\<rparr>) ?s1 = Inr (of_nat i, ?s2)"
    using q(1) e(2) w1(1) by (simp add: call_handler_def put_world_def world_of_def)
  moreover have "keeps_running ?s2" using run by (simp add: keeps_running_def)
  ultimately have "int_0x80 e Sys_write (r\<lparr>r_ebx := 1, r_ecx := printbuf, r_edx := of_nat i\<rparr>) (u\<lparr>u_kern := ?s1\<rparr>) = Inr (of_nat i, u\<lparr>u_kern := ?s2\<rparr>)"
    using int_0x80_is[of e Sys_write _ "u\<lparr>u_kern := ?s1\<rparr>"] sle_of_nat[of i] v(3) by simp
  then show ?thesis using q(2) v bs(1) by (intro exI[of _ q]) (simp add: lib_printf_def lib_write_def syscall3_def Let_def)
qed

text \<open>C17: \<open>printf\<close> from the format to the screen. When the formatted text is not empty, fits in the buffer, has ASCII
  characters other than ESC and fits in the terminal's write queue after output processing, descriptor 1 is open on the
  terminal and the terminal is idle with an even number of columns, then \<open>printf\<close> returns the length of the text, and what the video memory shows is the abstract
  screen as it was with the processed text printed on it in order, with the hardware cursor behind it. The queue is empty again,
  and \<open>errno\<close> and the rest of the kernel but the user's memory and the console are unchanged; of the console only the video memory and the position are.\<close>

theorem printf_shows:
  assumes "keeps_running (u_kern u)" and "vsprintf (fs_seg (k_fs (u_kern u))) fmt args = Inr (i, str, m)" "0 < i" "i < 1024"
    and "t_filp (cur_task (k_fs (u_kern u))) 1 = Some f" "f_inode (file_table (k_fs (u_kern u)) f) = Some ip"
      "S_IS S_IFCHR (i_mode (inode_table (k_fs (u_kern u)) ip))" "i_zone (inode_table (k_fs (u_kern u)) ip) 0 = 0x400"
    and "bs = map of_char str" "\<forall>b \<in> set bs. unat b < 128 \<and> b \<noteq> 27"
    and "con_calm (world_of (u_kern u))" "q_list (write_q (k_tty (u_kern u))) = []" "length (opost (k_tty (u_kern u)) bs) \<le> 1023"
    and "e_tty e = tty_write (Suc (Suc k)) doze resched (con_write_n (Suc d) fuel)" "\<not> k_cr_flag (u_kern u)"
    and "even (unat (video_num_columns (k_con (u_kern u))))"
  shows "\<exists>q c. lib_printf e r printbuf fmt args u = Inr (of_nat i, u\<lparr>u_kern := (u_kern u)\<lparr>
      k_fs := (k_fs (u_kern u))\<lparr>fs_seg := store_string bs printbuf m\<rparr>, k_tty := (k_tty (u_kern u))\<lparr>write_q := q\<rparr>, k_con := c\<rparr>\<rparr>)
    \<and> q_list q = []
    \<and> screen_of c = fold (show_char (ERASE_CHAR (k_tty (u_kern u)))) (opost (k_tty (u_kern u)) bs) (screen_of (k_con (u_kern u)))
    \<and> cursor_shown c \<and> con_safe (k_con (u_kern u)) c"
proof -
  have "con_ok (k_con (u_kern u))" using assms(11) by (simp add: con_calm_def world_ok_def world_of_def)
  note T = text_shown[OF this assms(16), of "ERASE_CHAR (k_tty (u_kern u))" "opost (k_tty (u_kern u)) bs"]
  then show ?thesis using printf_writes[OF assms(1-15), of r printbuf] by blast
qed

section \<open>Witnesses\<close>

definition demo_ust :: ust where
  "demo_ust = \<lparr>u_kern = \<lparr>k_fs = demo_fds, k_tty = w_tty typed_world, k_con = w_con typed_world, k_cr_flag = False\<rparr>, u_errno = 0\<rparr>"

definition demo_env :: kenv where
  "demo_env = \<lparr>e_fuel = 1, e_sleep = (\<lambda>_. Inr), e_tty = tty_write 2 Inr Inr (con_write_n 1 0), e_tss_off = 600, e_ldt_off = 576, e_junk = (\<lambda>_ _. 0)\<rparr>"

lemma demo_running: "keeps_running (u_kern demo_ust)"
  by (simp add: keeps_running_def demo_ust_def demo_fds_def demo_cwd_def upd_task_def demo_dir_def demo_ifs_def demo_fs_simps demo_icache_def demo_zcache_def
      demo_idle_def demo_cache_def demo_bio_def demo_sched_def)

theorem fork_keeps_file_counts_witness:
  "\<exists>v s'. call_handler demo_env Sys_fork demo_regs (put_proc demo_proc (u_kern demo_ust)) = Inr (v, s') \<and> counts_ok (k_fs s')"
proof -
  let ?s = "put_proc demo_proc (u_kern demo_ust)"
  obtain v p where "sys_fork 600 576 demo_regs demo_proc = Inr (v, p)" using demo_sys_fork by blast
  then have r: "call_handler demo_env Sys_fork demo_regs ?s = Inr (of_int v, put_proc p ?s)"
    by (simp add: call_handler_def put_proc_fields(3) demo_env_def)
  have "fd_refs (k_fs ?s) f = {}" for f
    unfolding fd_refs_def put_proc_fields(1) by (auto simp: demo_proc_def demo_sched_def demo_task_def INIT_TASK_def split: if_splits)
  then have "counts_ok (k_fs ?s)" unfolding counts_ok_def put_proc_fields(2) by (simp add: demo_proc_def)
  with fork_keeps_file_counts[OF _ _ r] show ?thesis using r demo_proc_inv by (auto simp: put_proc_fields(3))
qed

theorem init_dups_share_file_witness:
  "\<exists>s'. kbind (lib_dup demo_env demo_regs 0 demo_ust) (\<lambda>(a, u). kbind (lib_dup demo_env demo_regs 0 u) (\<lambda>(b, u). Inr (a, b, u))) = Inr (1, 2, demo_ust\<lparr>u_kern := s'\<rparr>)
    \<and> f_count (file_table (k_fs s') 0) = 3 \<and> counts_ok (k_fs s')"
proof -
  have k: "k_fs (u_kern demo_ust) = demo_fds" by (simp add: demo_ust_def)
  have cur: "1 < NR_TASKS" "task (bio_sched demo_fds) 1 = current (bio_sched demo_fds)" "current (bio_sched demo_fds) \<noteq> 0"
    "\<forall>i<NR_TASKS. task (bio_sched demo_fds) i = current (bio_sched demo_fds) \<longrightarrow> i = 1" by (auto simp: demo_fds_sched split: if_splits)
  have fd: "t_filp (cur_task demo_fds) 0 = Some 0" "t_filp (cur_task demo_fds) 1 = None" "t_filp (cur_task demo_fds) 2 = None"
    by (simp_all add: demo_fds_sched)
  have "f_count (file_table demo_fds 0) = 1" by (simp add: demo_fds_def)
  then show ?thesis using init_dups_share_file[OF demo_running, unfolded k, OF demo_fds_counts cur fd, of demo_env demo_regs] by auto
qed

theorem lib_open_result_witness:
  "\<exists>u'. lib_open demo_env demo_regs 0 2 0 (demo_ust\<lparr>u_kern := (u_kern demo_ust)\<lparr>k_fs := upd_cur (\<lambda>t. t\<lparr>t_filp := (\<lambda>_. Some 0)\<rparr>) demo_fds\<rparr>\<rparr>) = Inr (-1, u')
    \<and> (unat (-1 :: u32) < 20 \<and> u_errno u' = 0 \<or> (-1 :: u32) = -1 \<and> u_errno u' \<in> {28, 22, 21, 17, 13, 2, 1})"
proof -
  let ?f = "upd_cur (\<lambda>t. t\<lparr>t_filp := (\<lambda>_. Some 0)\<rparr>) demo_fds"
  let ?u = "demo_ust\<lparr>u_kern := (u_kern demo_ust)\<lparr>k_fs := ?f\<rparr>\<rparr>"
  have "cur_task ?f = (cur_task demo_fds)\<lparr>t_filp := (\<lambda>_. Some 0)\<rparr>" by (simp add: upd_cur_def upd_task_def)
  then have f: "t_filp (cur_task ?f) = (\<lambda>_. Some 0)" "t_state (cur_task ?f) = t_state (cur_task demo_fds)" "t_counter (cur_task ?f) = t_counter (cur_task demo_fds)" by simp_all
  have "List.find (\<lambda>fd. (\<lambda>_. Some 0) fd = None) [0..<NR_OPEN] = None" unfolding find_None_iff by simp
  then have "sys_open 1 (\<lambda>_. Inr) 0 2 0 ?f = Inr (- 22, ?f)" unfolding sys_open_def f(1) by simp
  then have c: "call_handler demo_env Sys_open (demo_regs\<lparr>r_ebx := 0, r_ecx := 2, r_edx := 0\<rparr>) (u_kern ?u) = Inr (- 22, u_kern ?u)"
    by (simp add: call_handler_def demo_env_def)
  have "keeps_running (u_kern ?u)" using demo_running f(2,3) by (simp add: keeps_running_def demo_ust_def)
  from system_call_is[OF c this] have "lib_open demo_env demo_regs 0 2 0 ?u = Inr (-1, ?u\<lparr>u_errno := 22\<rparr>)"
    unfolding lib_open_def by (simp add: word_sle_eq)
  from this lib_open_result[OF this] show ?thesis by (intro exI[of _ "?u\<lparr>u_errno := 22\<rparr>"]) (simp add: demo_ust_def)
qed

lemma demo_vsprintf: "vsprintf m ''hi'' [] = Inr (2, ''hi'', m)"
  by (simp add: vsprintf_def vsprintf_loop.simps)

theorem printf_shows_witness:
  "\<exists>u'. lib_printf demo_env demo_regs 0x5000 ''hi'' [] (demo_ust\<lparr>u_kern := (u_kern demo_ust)\<lparr>k_fs := add_fd 1 0 demo_fds\<rparr>\<rparr>) = Inr (2, u')
    \<and> take 2 (sc_rows (screen_of (k_con (u_kern u'))) ! 5) = [(0x68, 7), (0x69, 7)]"
proof -
  let ?u = "demo_ust\<lparr>u_kern := (u_kern demo_ust)\<lparr>k_fs := add_fd 1 0 demo_fds\<rparr>\<rparr>"
  have k: "k_fs (u_kern ?u) = add_fd 1 0 demo_fds" "k_tty (u_kern ?u) = w_tty typed_world" "k_con (u_kern ?u) = w_con typed_world" by (simp_all add: demo_ust_def)
  have run: "keeps_running (u_kern ?u)" using demo_running by (simp add: keeps_running_def add_fd_fields(2,3) demo_ust_def)
  have f: "t_filp (cur_task (k_fs (u_kern ?u))) 1 = Some 0" "f_inode (file_table (k_fs (u_kern ?u)) 0) = Some 3"
    "S_IS S_IFCHR (i_mode (inode_table (k_fs (u_kern ?u)) 3))" "i_zone (inode_table (k_fs (u_kern ?u)) 3) 0 = 0x400"
    unfolding k add_fd_fields(1) by (simp_all add: add_fd_def upd_file_def upd_cur_def demo_fds_def S_IS_def)
  have w: "con_calm (world_of (u_kern ?u))" "q_list (write_q (k_tty (u_kern ?u))) = []" "length (opost (k_tty (u_kern ?u)) [0x68, 0x69]) \<le> 1023"
    using typed_calm unfolding world_of_def k by (simp_all add: con_calm_def world_ok_def typed_fields q_list_empty opost_def opost1_def Let_def)
  have e: "e_tty demo_env = tty_write (Suc (Suc 0)) Inr Inr (con_write_n (Suc 0) 0)" "\<not> k_cr_flag (u_kern ?u)"
    by (simp_all add: demo_env_def demo_ust_def numeral_2_eq_2)
  have v: "even (unat (video_num_columns (k_con (u_kern ?u))))" unfolding k typed_fields by (simp add: vga_console)
  obtain u' where u': "lib_printf demo_env demo_regs 0x5000 ''hi'' [] ?u = Inr (2, u')"
    "screen_of (k_con (u_kern u')) = fold (show_char (ERASE_CHAR (w_tty typed_world))) (opost (w_tty typed_world) [0x68, 0x69]) (screen_of (w_con typed_world))"
    using printf_shows[OF run demo_vsprintf _ _ f _ _ w e v, of demo_regs "0x5000"] unfolding k by auto
  have "opost (w_tty typed_world) [0x68, 0x69] = [0x68, 0x69]"
    by (simp add: opost_def opost1_def Let_def typed_world_def demo_world_def tty_table0_def O_POST_def O_CRNL_def O_NLRET_def O_NLCR_def O_LCUC_def)
  then show ?thesis using u' two_glyphs by (auto simp: typed_fields(2))
qed

end
