(* ===== verification/Heap.thy ===== *)
theory Heap
  imports Prelude
begin

text \<open>The boot-time heap, mm/heap.c: a pointer that only moves up. The state is that pointer.\<close>

abbreviation (input) HEAP_PHY_START :: u32 where "HEAP_PHY_START \<equiv> 0x100000"

definition init_heap :: u32 where "init_heap = HEAP_PHY_START"

text \<open>\<open>__get_heap(s, a, n)\<close>: \<open>n\<close> objects of size \<open>s\<close> and alignment \<open>a\<close>; the block and the new pointer.\<close>

definition get_heap :: "u32 \<Rightarrow> u32 \<Rightarrow> u32 \<Rightarrow> u32 \<Rightarrow> u32 \<times> u32" where
  "get_heap sz a n heap = (let tmp = (heap + (a - 1)) AND NOT (a - 1) in (tmp, tmp + sz * n))"

section \<open>Blocks do not overlap\<close>

lemma unat_and_not_mask: "unat (x AND NOT (mask k) :: u32) = unat x div 2 ^ k * 2 ^ k"
proof -
  have "x AND NOT (mask k) = push_bit k (drop_bit k x)" by (rule bit_word_eqI) (auto simp: bit_and_iff bit_not_iff bit_push_bit_iff bit_drop_bit_eq bit_mask_iff)
  moreover have d: "unat (drop_bit k x) = unat x div 2 ^ k" by (simp only: unat_drop_bit_eq) (simp only: drop_bit_eq_div)
  moreover have "unat x div 2 ^ k * 2 ^ k < 2 ^ 32" by (rule le_less_trans[OF div_times_less_eq_dividend]) (simp add: unat_u32_lt)
  moreover have "unat (push_bit k y) = take_bit 32 (unat y * 2 ^ k)" for y :: u32
    by (simp only: unsigned_push_bit_eq) (simp add: push_bit_eq_mult)
  ultimately show ?thesis by (simp only: d take_bit_eq_mod mod_less)
qed

lemma get_heap_bounds:
  assumes "k < 32" and "unat heap + 2 ^ k + unat sz * unat n < 2 ^ 32" and "get_heap sz (2 ^ k) n heap = (p, heap')"
  shows "2 ^ k dvd unat p" "unat heap \<le> unat p" "unat heap' = unat p + unat sz * unat n" "unat heap' < unat heap + 2 ^ k + unat sz * unat n"
proof -
  have m: "(2 ^ k - 1 :: u32) = mask k" by (simp add: mask_eq_exp_minus_1)
  have e: "p = (heap + mask k) AND NOT (mask k)" "heap' = p + sz * n" using assms(3) by (auto simp: get_heap_def Let_def m)
  have "(2 :: nat) ^ k - 1 < 2 ^ 32" using assms(2) by linarith
  then have "unat (of_nat (mask k) :: u32) = 2 ^ k - 1" by (simp only: unat_of_nat mask_eq_exp_minus_1) simp
  then have "unat (mask k :: u32) = 2 ^ k - 1" by (simp only: of_nat_mask_eq)
  then have u: "unat (heap + mask k) = unat heap + (2 ^ k - 1)" using assms(2) by (simp add: unat_word_ariths)
  have p: "unat p = (unat heap + (2 ^ k - 1)) div 2 ^ k * 2 ^ k" unfolding e(1) unat_and_not_mask u ..
  then show "2 ^ k dvd unat p" by simp
  have q: "(unat heap + (2 ^ k - 1)) div 2 ^ k * 2 ^ k + (unat heap + (2 ^ k - 1)) mod 2 ^ k = unat heap + (2 ^ k - 1)"
    by (rule div_mult_mod_eq)
  have "(unat heap + (2 ^ k - 1)) mod 2 ^ k < 2 ^ k" by simp
  then show le: "unat heap \<le> unat p" unfolding p using q by linarith
  have up: "unat p < unat heap + 2 ^ k" unfolding p using q one_le_power[of "2 :: nat" k] by linarith
  have "unat (sz * n) = unat sz * unat n" using assms(2) by (simp add: unat_word_ariths)
  then show h: "unat heap' = unat p + unat sz * unat n" unfolding e(2) using up assms(2) by (simp add: unat_word_ariths)
  show "unat heap' < unat heap + 2 ^ k + unat sz * unat n" unfolding h using up by simp
qed

text \<open>A sequence of requests, each a size, the exponent of its alignment and a number of objects; the blocks it gives.\<close>

primrec heap_blocks :: "(u32 \<times> nat \<times> u32) list \<Rightarrow> u32 \<Rightarrow> (nat \<times> nat) list" where
  "heap_blocks [] heap = []"
| "heap_blocks (r # rs) heap =
     (case r of (sz, k, n) \<Rightarrow> case get_heap sz (2 ^ k) n heap of (p, heap') \<Rightarrow> (unat p, unat sz * unat n) # heap_blocks rs heap')"

definition heap_need :: "(u32 \<times> nat \<times> u32) list \<Rightarrow> nat" where
  "heap_need rs = (\<Sum>(sz, k, n) \<leftarrow> rs. 2 ^ k + unat sz * unat n)"

lemma heap_blocks_sorted:
  assumes "\<forall>(sz, k, n) \<in> set rs. k < 32" and "unat heap + heap_need rs < 2 ^ 32"
  shows "sorted_wrt (\<lambda>(p, l) (q, m). p + l \<le> q) (heap_blocks rs heap) \<and> (\<forall>(p, l) \<in> set (heap_blocks rs heap). unat heap \<le> p \<and> p + l < 2 ^ 32)
    \<and> list_all2 (\<lambda>(p, l) (sz, k, n). 2 ^ k dvd p \<and> l = unat sz * unat n) (heap_blocks rs heap) rs"
  using assms
proof (induction rs arbitrary: heap)
  case (Cons r rs)
  obtain sz k n where r: "r = (sz, k, n)" by (cases r)
  obtain p heap' where g: "get_heap sz (2 ^ k) n heap = (p, heap')" by fastforce
  have w: "unat heap + 2 ^ k + unat sz * unat n + heap_need rs < 2 ^ 32" using Cons.prems(2) by (simp add: heap_need_def r)
  note B = get_heap_bounds[OF _ _ g]
  have k: "k < 32" "unat heap + 2 ^ k + unat sz * unat n < 2 ^ 32" using Cons.prems(1) w by (auto simp: r)
  have "unat heap' + heap_need rs < 2 ^ 32" using B(4)[OF k] w by linarith
  note IH = Cons.IH[OF _ this]
  show ?case using IH Cons.prems(1) B(1-3)[OF k] unat_u32_lt[of heap'] by (fastforce simp: r g)
qed simp

text \<open>C32: as long as the requests fit below 4 GiB, the boot heap hands out blocks that lie above its start, in the order of
  the requests and without overlap, each at a multiple of its alignment when that is a power of two.\<close>

theorem heap_blocks_apart:
  assumes "\<forall>(sz, k, n) \<in> set rs. k < 32" and "unat init_heap + heap_need rs < 2 ^ 32"
  shows "sorted_wrt (\<lambda>(p, l) (q, m). p + l \<le> q) (heap_blocks rs init_heap)
    \<and> (\<forall>(p, l) \<in> set (heap_blocks rs init_heap). 0x100000 \<le> p \<and> p + l < 2 ^ 32)
    \<and> list_all2 (\<lambda>(p, l) (sz, k, n). 2 ^ k dvd p \<and> l = unat sz * unat n) (heap_blocks rs init_heap) rs"
  using heap_blocks_sorted[OF assms] by (simp add: init_heap_def)

theorem heap_blocks_apart_witness:
  "sorted_wrt (\<lambda>(p, l) (q, m). p + l \<le> q) (heap_blocks [(3, 0, 5), (8, 3, 2), (1, 12, 4096)] init_heap)
   \<and> heap_blocks [(3, 0, 5), (8, 3, 2), (1, 12, 4096)] init_heap = [(0x100000, 15), (0x100010, 16), (0x101000, 4096)]"
proof -
  have "sorted_wrt (\<lambda>(p, l) (q, m). p + l \<le> q) (heap_blocks [(3, 0, 5), (8, 3, 2), (1, 12, 4096)] init_heap)"
    using heap_blocks_apart[of "[(3, 0, 5), (8, 3, 2), (1, 12, 4096)]"] by (simp add: heap_need_def init_heap_def)
  moreover have "heap_blocks [(3, 0, 5), (8, 3, 2), (1, 12, 4096)] init_heap = [(0x100000, 15), (0x100010, 16), (0x101000, 4096)]"
    by (simp add: get_heap_def init_heap_def)
  ultimately show ?thesis by simp
qed

end
