(* ===== verification/Start.thy ===== *)
theory Start
  imports Syscall Heap
begin

text \<open>
  The start of the kernel: \<open>main\<close> of arch/x86/main.c with the small initialisers it calls (bss.c, machine.c, trap.c) and
  those of the components. The theorem says that \<open>main\<close> establishes the invariants on which the components' theorems
  rest.
\<close>

section \<open>The initialisers\<close>

definition init_bss_section :: "u32 \<Rightarrow> u32 \<Rightarrow> mem \<Rightarrow> mem" where
  "init_bss_section bss_start bss_end m = stosb (unat (bss_end - bss_start)) m bss_start 0"

text \<open>\<open>__get_mem_size\<close> and \<open>__get_paging_frames\<close> read what the loader has left below 1 MiB.\<close>

definition init_machine_data :: "mem \<Rightarrow> u32" where
  "init_machine_data m = ld32 m 0x90200"

definition get_paging_frames :: "mem \<Rightarrow> u32" where
  "get_paging_frames m = ld32 m 0x90204"

definition trap_init :: "u32 \<Rightarrow> sched \<Rightarrow> sched" where
  "trap_init page_fault k = k\<lparr>idt := (idt k)(14 := set_trap_gate page_fault)\<rparr>"

text \<open>\<open>mm_init\<close>: the pages, then the buffers, whose memory it clears first.\<close>

definition mm_init :: "u32 \<Rightarrow> u32 \<Rightarrow> u32 \<Rightarrow> fsst \<Rightarrow> fsst kres" where
  "mm_init total_mem_size frames end_of_kernel s =
     kbind (mm_init_pages total_mem_size frames end_of_kernel (fs_mm s)) (\<lambda>mm.
       case buffer_init 0x400000 (s\<lparr>fs_mm := mm, bdata := stosb 0x400000 (bdata s) LOW_MEM 0\<rparr>) of
         None \<Rightarrow> Inl Hang
       | Some s \<Rightarrow> Inr s)"

section \<open>main\<close>

text \<open>What the linker, the compiler and the loader decide: addresses, and the display parameters.\<close>

record layout =
  l_bss_start :: u32
  l_bss_end :: u32
  l_end_of_kernel :: u32
  l_drive_info :: u32
  l_tss :: u32
  l_ldt :: u32
  l_page_fault :: u32
  l_timer_interrupt :: u32
  l_system_call :: u32
  l_hd_interrupt :: u32
  l_keyboard_interrupt :: u32
  l_video :: boot_video

definition copy_drive_info :: "u32 \<Rightarrow> mem \<Rightarrow> mem \<Rightarrow> mem" where
  "copy_drive_info a src m = (\<lambda>x. if unat (x - a) < 32 then src (0x90080 + (x - a)) else m x)"

text \<open>\<open>main\<close> up to the switch to user mode: the top of the first user stack, the boot heap's pointer and the state.\<close>

definition kernel_main :: "layout \<Rightarrow> kst \<Rightarrow> (u32 \<times> u32 \<times> kst) kres" where
  "kernel_main l s0 =
     (let f0 = k_fs s0;
          f1 = f0\<lparr>fs_mm := (fs_mm f0)\<lparr>pmem := init_bss_section (l_bss_start l) (l_bss_end l) (pmem (fs_mm f0))\<rparr>\<rparr>;
          f2 = f1\<lparr>ROOT_DEV := 0x301\<rparr>;
          total_mem_size = init_machine_data (pmem (fs_mm f2));
          f3 = f2\<lparr>bdata := copy_drive_info (l_drive_info l) (pmem (fs_mm f2)) (bdata f2)\<rparr>
      in kbind (mm_init total_mem_size (get_paging_frames (pmem (fs_mm f3))) (l_end_of_kernel l) f3) (\<lambda>f4.
           let f5 = f4\<lparr>bio_sched := trap_init (l_page_fault l) (bio_sched f4)\<rparr>;
               heap = init_heap;
               f6 = f5\<lparr>bio_sched := schedule_init (l_tss l) (l_ldt l) (l_timer_interrupt l) (l_system_call l) (bio_sched f5)\<rparr>;
               f7 = blk_dev_init f6;
               f8 = hd_init (l_hd_interrupt l) f7;
               s = s0\<lparr>k_fs := f8\<rparr>;
               s = put_world (k_cr_flag s) (tty_init (l_video l) (l_keyboard_interrupt l) (world_of s)) s
           in kbind (get_free_page (fs_mm (k_fs s))) (\<lambda>(page, mm).
                Inr (page + 4096, heap, s\<lparr>k_fs := (k_fs s)\<lparr>fs_mm := mm\<rparr>\<rparr>))))"

section \<open>What the initialisers leave alone\<close>

definition bufs_only :: "'a bio_scheme \<Rightarrow> 'a bio_scheme \<Rightarrow> bool" where
  "bufs_only s s' \<longleftrightarrow> (\<exists>h t f n. s' = s\<lparr>heads := h, hash_table := t, free_list := f, nr_buffers := n\<rparr>)"

lemma bufs_only_refl: "bufs_only s s"
  unfolding bufs_only_def by (intro exI[of _ "heads s"] exI[of _ "hash_table s"] exI[of _ "free_list s"] exI[of _ "nr_buffers s"]) simp

lemma bufs_only_trans: "bufs_only s s' \<Longrightarrow> bufs_only s' s'' \<Longrightarrow> bufs_only s s''"
  unfolding bufs_only_def by (elim exE) (intro exI, simp)

lemma bufs_only_upd: "bufs_only s (upd_bh p g s)" "bufs_only s (s\<lparr>free_list := f\<rparr>)" "bufs_only s (s\<lparr>hash_table := t\<rparr>)" "bufs_only s (s\<lparr>nr_buffers := n\<rparr>)"
  using bufs_only_refl[of s] by (auto simp: bufs_only_def upd_bh_def intro!: exI bio.equality)

lemma init_loop_frame:
  assumes "init_loop h b s = Some y"
  shows "bufs_only s (snd y)"
proof (rule init_loop.raw_induct[where P = "\<lambda>_ _ s y. bufs_only s (snd y)", OF _ assms], goal_cases)
  case (1 loop h b s y)
  let ?b = "b - BLOCK_SIZE"
  let ?s = "(upd_bh h (\<lambda>x. x\<lparr>b_dev := 0, b_dirt := 0, b_count := 0, b_lock := 0, b_uptodate := 0, b_wait := 0,
    b_next := 0, b_prev := 0, b_data := ?b, b_prev_free := h - sizeof_bh, b_next_free := h + sizeof_bh\<rparr>) s)\<lparr>nr_buffers := nr_buffers s + 1\<rparr>"
  show ?case
  proof (cases "h + sizeof_bh \<le> ?b")
    case True
    then have "loop (h + sizeof_bh) (if ?b = 0x100000 then 0xa0000 else ?b) ?s = Some y" using 1(2) by (simp only: Let_def if_True)
    then have "bufs_only ?s (snd y)" by (rule 1(1))
    with bufs_only_trans[OF bufs_only_upd(1) bufs_only_upd(4)] show ?thesis by (rule bufs_only_trans)
  next
    case False
    then show ?thesis using 1(2) bufs_only_refl[of s] by (auto simp: Let_def)
  qed
qed

lemma buffer_init_frame:
  assumes "buffer_init e s = Some s'"
  shows "bufs_only s s'"
proof -
  obtain h1 s1 where h: "init_loop start_buffer e s = Some (h1, s1)" using assms by (auto simp: buffer_init_def split: option.splits)
  note f = bufs_only_trans[OF bufs_only_trans[OF bufs_only_upd(2) bufs_only_trans[OF bufs_only_upd(1) bufs_only_upd(1)]] bufs_only_upd(3)]
  have "bufs_only s1 s'" using assms unfolding buffer_init_def h option.case prod.case Let_def option.inject
    by (elim subst) (rule f)
  with init_loop_frame[OF h, unfolded snd_conv] show ?thesis by (rule bufs_only_trans)
qed

lemma bufs_only_fields:
  fixes s s' :: fsst
  assumes "bufs_only s s'"
  shows "bio_sched s' = bio_sched s" "fs_mm s' = fs_mm s" "ROOT_DEV s' = ROOT_DEV s" "file_table s' = file_table s" "request s' = request s"
    "inode_table s' = inode_table s"
  using assms by (auto simp: bufs_only_def)

lemma busy_loop_ports: "\<exists>a. busy_loop n s = s\<lparr>ports_read := a\<rparr>"
proof (induction n arbitrary: s)
  case 0
  then show ?case by (intro exI[of _ "ports_read s"]) simp
next
  case (Suc n)
  show ?case using Suc[of "s\<lparr>ports_read := Suc (ports_read s)\<rparr>"] by (auto simp: inb_def intro!: exI)
qed

lemma hd_init_ports:
  "\<exists>a b. hd_init h s = s\<lparr>has_request_fn := (has_request_fn s)(HD_MAJOR := True),
     bio_sched := (bio_sched s)\<lparr>idt := (idt (bio_sched s))(0x2e := set_intr_gate h)\<rparr>, ports_read := a, port_out := b\<rparr>"
proof -
  have r: "\<exists>a b. reset_controller t = t\<lparr>ports_read := a, port_out := b\<rparr>" for t :: "'a hdst_scheme"
  proof -
    obtain a where e: "busy_loop 10000 (outb (hdi_ctl (hd_info t 0) AND 0x0f) HD_CMD (outb 4 HD_CMD t))
        = (outb (hdi_ctl (hd_info t 0) AND 0x0f) HD_CMD (outb 4 HD_CMD t))\<lparr>ports_read := a\<rparr>" using busy_loop_ports by blast
    show ?thesis unfolding reset_controller_def drive_busy_def e unfolding inb_def prod.case snd_conv outb_def by (intro exI, rule hdst.equality) simp_all
  qed
  obtain a b where e: "reset_controller (s\<lparr>has_request_fn := (has_request_fn s)(HD_MAJOR := True)\<rparr>)
      = s\<lparr>has_request_fn := (has_request_fn s)(HD_MAJOR := True), ports_read := a, port_out := b\<rparr>" using r by metis
  show ?thesis unfolding hd_init_def Let_def e inb_def outb_def prod.case
    by (intro exI, rule hdst.equality) simp_all
qed

lemma clear_slots_fields:
  "tasks (clear_slots n k) = tasks k" "current (clear_slots n k) = current k" "last_pid (clear_slots n k) = last_pid k" "idt (clear_slots n k) = idt k"
  "task (clear_slots n k) i = (if 1 \<le> i \<and> i \<le> n then 0 else task k i)"
  by (induction n) (auto simp: Let_def)

section \<open>main establishes the invariants\<close>

text \<open>The kernel image as the compiler and \<open>init_bss_section\<close> leave it: task 0 is the only task, tables and queues are empty.\<close>

definition static_state :: "u32 \<Rightarrow> kst \<Rightarrow> bool" where
  "static_state t0 s \<longleftrightarrow> t0 \<noteq> 0 \<and> (\<exists>pgdir. tasks (bio_sched (k_fs s)) t0 = INIT_TASK t0 pgdir)
     \<and> task (bio_sched (k_fs s)) 0 = t0 \<and> current (bio_sched (k_fs s)) = t0 \<and> last_pid (bio_sched (k_fs s)) = 0
     \<and> (\<forall>i \<ge> NR_HASH. hash_table (k_fs s) i = 0) \<and> (\<forall>f. f_count (file_table (k_fs s) f) = 0)
     \<and> unat (npar (k_con s)) < NPAR \<and> tty_q_ok (k_tty s)"

text \<open>What the loader must have left: a multiple of the page size for the start of main memory, some memory behind it, and
  display parameters with the cursor on the screen.\<close>

definition loader_ok :: "layout \<Rightarrow> mem \<Rightarrow> u32 \<Rightarrow> u32 \<Rightarrow> bool" where
  "loader_ok l m start mem_end \<longleftrightarrow> start = l_end_of_kernel l + get_paging_frames m * 4096 \<and> page_of start = start \<and> LOW_MEM \<le> start
     \<and> mem_end = push_bit 10 (init_machine_data m) \<and> unat mem_end + 4096 \<le> 2 ^ 32
     \<and> (\<exists>p<MM_PAGES. start \<le> frame_addr p \<and> frame_addr p < mem_end)
     \<and> (let cols = drop_bit 8 (ucast (ORIG_VIDEO_MODE_COLS (l_video l)) AND 0xff00) :: u32
        in 8 \<le> unat cols \<and> unat cols \<le> 160 \<and> unat (ORIG_X (l_video l)) \<le> unat cols \<and> unat (ORIG_Y (l_video l)) < 25)"

lemma mm_init_ok:
  assumes "start = end_of_kernel + frames * 4096" "page_of start = start" "LOW_MEM \<le> start"
    and "mem_end = push_bit 10 tms" "unat mem_end + 4096 \<le> 2 ^ 32" and h: "\<forall>i \<ge> NR_HASH. hash_table s i = 0"
  shows "\<exists>s' mm. mm_init tms frames end_of_kernel s = Inr s' \<and> fs_mm s' = mm \<and> mm_inv mm
    \<and> (\<forall>p<MM_PAGES. refcount mm p = (if start \<le> frame_addr p \<and> frame_addr p < mem_end then 0 else 1))
    \<and> cache_rep (map (\<lambda>i. 0x100000 + 36 * of_nat i) [0..<2967]) (\<lambda>_. []) s'
    \<and> bio_sched s' = bio_sched s \<and> ROOT_DEV s' = ROOT_DEV s \<and> file_table s' = file_table s"
proof -
  obtain mm where mm: "mm_init_pages tms frames end_of_kernel (fs_mm s) = Inr mm" "mm_inv mm"
    "\<forall>p<MM_PAGES. refcount mm p = (if start \<le> frame_addr p \<and> frame_addr p < mem_end then 0 else 1)"
    using mm_init_pages_inv[OF assms(1-5)] by blast
  let ?s = "s\<lparr>fs_mm := mm, bdata := stosb 0x400000 (bdata s) LOW_MEM 0\<rparr>"
  obtain s' where s': "buffer_init 0x400000 ?s = Some s'" "cache_rep (map (\<lambda>i. 0x100000 + 36 * of_nat i) [0..<2967]) (\<lambda>_. []) s'"
    using buffer_init_rep[of "0x400000" ?s] h by auto
  note f = bufs_only_fields[OF buffer_init_frame[OF s'(1)]]
  show ?thesis using mm s' f by (intro exI[of _ s'] exI[of _ mm]) (simp add: mm_init_def)
qed

text \<open>The task table with task 0 alone in it.\<close>

definition only_task0 :: "u32 \<Rightarrow> sched \<Rightarrow> bool" where
  "only_task0 t0 k \<longleftrightarrow> t0 \<noteq> 0 \<and> (\<forall>i<NR_TASKS. task k i = (if i = 0 then t0 else 0)) \<and> current k = t0 \<and> last_pid k = 0
     \<and> (\<exists>pgdir. tasks k t0 = INIT_TASK t0 pgdir)"

lemma only_task0_fork_inv:
  assumes "only_task0 t0 (pr_sched s)" and "\<forall>p<MM_PAGES. frame_addr p = t0 \<longrightarrow> page_used (pr_mm s) p"
  shows "fork_inv s"
proof -
  let ?k = "pr_sched s"
  have t: "task ?k i = (if i = 0 then t0 else 0)" if "i < NR_TASKS" for i using assms(1) that by (simp add: only_task0_def)
  have "ctr_ok (tasks ?k t0)" using assms(1) by (auto simp: only_task0_def ctr_ok_def INIT_TASK_def)
  then have "sched_inv ?k" using t by (auto simp: sched_inv_def split: if_splits)
  moreover have "pids_distinct ?k" using t by (auto simp: pids_distinct_def split: if_splits)
  moreover have "tasks_in_frames s" using t assms(2) frame_addr_nonzero by (auto simp: tasks_in_frames_def split: if_splits)
  ultimately show ?thesis using t[of 0] assms(1) by (auto simp: fork_inv_def only_task0_def intro!: exI[of _ 0])
qed

lemma only_task0_counts:
  assumes "only_task0 t0 (bio_sched s)" and "\<forall>f. f_count (file_table s f) = 0"
  shows "counts_ok s"
proof -
  have "fd_refs s f = {}" for f using assms(1) by (auto simp: fd_refs_def only_task0_def INIT_TASK_def split: if_splits)
  then show ?thesis using assms(2) by (simp add: counts_ok_def)
qed

text \<open>The run of \<open>main\<close>: \<open>f4\<close> is the state after \<open>mm_init\<close>.\<close>

definition main_sched :: "layout \<Rightarrow> sched \<Rightarrow> sched" where
  "main_sched l k =
     (let k = schedule_init (l_tss l) (l_ldt l) (l_timer_interrupt l) (l_system_call l) (trap_init (l_page_fault l) k)
      in k\<lparr>idt := (idt k)(0x2e := set_intr_gate (l_hd_interrupt l), 0x21 := set_trap_gate (l_keyboard_interrupt l))\<rparr>)"

lemma main_sched_only_task0:
  assumes "static_state t0 s"
  shows "only_task0 t0 (main_sched l (bio_sched (k_fs s)))"
  using assms by (auto simp: static_state_def only_task0_def main_sched_def schedule_init_def trap_init_def Let_def clear_slots_fields)

lemma main_sched_gates:
  "(let g = idt (main_sched l k)
    in g 14 = set_trap_gate (l_page_fault l) \<and> g 0x20 = set_intr_gate (l_timer_interrupt l) \<and> g 0x21 = set_trap_gate (l_keyboard_interrupt l)
     \<and> g 0x2e = set_intr_gate (l_hd_interrupt l) \<and> g 0x80 = set_system_gate (l_system_call l))"
  by (simp add: main_sched_def schedule_init_def trap_init_def Let_def clear_slots_fields)

lemma kernel_main_run:
  assumes m: "m = init_bss_section (l_bss_start l) (l_bss_end l) (pmem (fs_mm (k_fs s)))"
    and f4: "mm_init (init_machine_data m) (get_paging_frames m) (l_end_of_kernel l) ((k_fs s)\<lparr>fs_mm := (fs_mm (k_fs s))\<lparr>pmem := m\<rparr>,
        ROOT_DEV := 0x301, bdata := copy_drive_info (l_drive_info l) m (bdata (k_fs s))\<rparr>) = Inr f4"
      "bio_sched f4 = bio_sched (k_fs s)"
    and p: "get_free_page (fs_mm f4) = Inr (page, mm)"
  shows "\<exists>s'. kernel_main l s = Inr (page + 4096, 0x100000, s') \<and> fs_mm (k_fs s') = mm \<and> bio_sched (k_fs s') = main_sched l (bio_sched (k_fs s))
    \<and> same_links f4 (k_fs s') \<and> file_table (k_fs s') = file_table f4 \<and> ROOT_DEV (k_fs s') = ROOT_DEV f4
    \<and> (\<forall>i<NR_REQUEST. r_dev (request (k_fs s') i) = -1) \<and> has_request_fn (k_fs s') 3
    \<and> k_con s' = con_init (l_video l) (k_con s) \<and> k_tty s' = k_tty s"
proof -
  let ?k = "schedule_init (l_tss l) (l_ldt l) (l_timer_interrupt l) (l_system_call l) (trap_init (l_page_fault l) (bio_sched (k_fs s)))"
  let ?f7 = "blk_dev_init (f4\<lparr>bio_sched := ?k\<rparr>)"
  obtain a b where h: "hd_init (l_hd_interrupt l) ?f7 = ?f7\<lparr>has_request_fn := (has_request_fn ?f7)(3 := True),
      bio_sched := (bio_sched ?f7)\<lparr>idt := (idt (bio_sched ?f7))(0x2e := set_intr_gate (l_hd_interrupt l))\<rparr>, ports_read := a, port_out := b\<rparr>"
    using hd_init_ports[of "l_hd_interrupt l" ?f7] by blast
  define f8 where "f8 = hd_init (l_hd_interrupt l) ?f7"
  have F: "fs_mm f8 = fs_mm f4" "bio_sched f8 = ?k\<lparr>idt := (idt ?k)(0x2e := set_intr_gate (l_hd_interrupt l))\<rparr>" "same_links f4 f8"
    "file_table f8 = file_table f4" "ROOT_DEV f8 = ROOT_DEV f4" "\<forall>i<NR_REQUEST. r_dev (request f8 i) = -1" "has_request_fn f8 3"
    unfolding f8_def h by (simp_all add: blk_dev_init_def same_links_def)
  let ?s = "s\<lparr>k_fs := f8\<rparr>" let ?s' = "put_world (k_cr_flag ?s) (tty_init (l_video l) (l_keyboard_interrupt l) (world_of ?s)) ?s"
  have r: "kernel_main l s = kbind (get_free_page (fs_mm (k_fs ?s'))) (\<lambda>(page, mm). Inr (page + 4096, init_heap, ?s'\<lparr>k_fs := (k_fs ?s')\<lparr>fs_mm := mm\<rparr>\<rparr>))"
    unfolding kernel_main_def Let_def using f4 by (simp add: m[symmetric] f8_def)
  have W: "fs_mm (k_fs ?s') = fs_mm f4" "bio_sched (k_fs ?s') = main_sched l (bio_sched (k_fs s))" "same_links f4 (k_fs ?s')"
    "file_table (k_fs ?s') = file_table f4" "ROOT_DEV (k_fs ?s') = ROOT_DEV f4" "\<forall>i<NR_REQUEST. r_dev (request (k_fs ?s') i) = -1"
    "has_request_fn (k_fs ?s') 3" "k_con ?s' = con_init (l_video l) (k_con s)" "k_tty ?s' = k_tty s"
    using F by (simp_all add: put_world_def world_of_def tty_init_def main_sched_def Let_def same_links_def)
  show ?thesis unfolding r W(1) p kbind_Inr prod.case
    by (rule exI[of _ "?s'\<lparr>k_fs := (k_fs ?s')\<lparr>fs_mm := mm\<rparr>\<rparr>"]) (use W in \<open>simp add: init_heap_def same_links_def\<close>)
qed

text \<open>C3: the start of the kernel. From the image as linked and what the loader must have left, \<open>main\<close> returns and has
  established what the components rely on: the page allocator's invariant and that of forking, the counts of the file table,
  a buffer cache of 2967 free buffers in a ring, an empty request table with the disk driver behind it, a console inside its
  video memory; the gates of the five interrupts and the root device are set, and the first user stack is a page of main memory.\<close>

theorem kernel_main_ok:
  assumes st: "static_state t0 s" and m: "m = init_bss_section (l_bss_start l) (l_bss_end l) (pmem (fs_mm (k_fs s)))"
    and l: "loader_ok l m start mem_end" and t0: "t0 < start"
  shows "\<exists>p s'. kernel_main l s = Inr (frame_addr p + 4096, 0x100000, s')
    \<and> p < MM_PAGES \<and> start \<le> frame_addr p \<and> frame_addr p < mem_end \<and> page_used (fs_mm (k_fs s')) p
    \<and> mm_inv (fs_mm (k_fs s')) \<and> fork_inv (proc_of s') \<and> counts_ok (k_fs s')
    \<and> cache_rep (map (\<lambda>i. 0x100000 + 36 * of_nat i) [0..<2967]) (\<lambda>_. []) (k_fs s')
    \<and> (\<forall>i<NR_REQUEST. r_dev (request (k_fs s') i) = -1) \<and> has_request_fn (k_fs s') 3 \<and> ROOT_DEV (k_fs s') = 0x301
    \<and> world_ok (world_of s')
    \<and> (let g = idt (bio_sched (k_fs s'))
       in g 14 = set_trap_gate (l_page_fault l) \<and> g 0x20 = set_intr_gate (l_timer_interrupt l) \<and> g 0x21 = set_trap_gate (l_keyboard_interrupt l)
        \<and> g 0x2e = set_intr_gate (l_hd_interrupt l) \<and> g 0x80 = set_system_gate (l_system_call l))"
proof -
  let ?f3 = "(k_fs s)\<lparr>fs_mm := (fs_mm (k_fs s))\<lparr>pmem := m\<rparr>, ROOT_DEV := 0x301, bdata := copy_drive_info (l_drive_info l) m (bdata (k_fs s))\<rparr>"
  have l': "start = l_end_of_kernel l + get_paging_frames m * 4096" "page_of start = start" "LOW_MEM \<le> start"
    "mem_end = push_bit 10 (init_machine_data m)" "unat mem_end + 4096 \<le> 2 ^ 32" using l unfolding loader_ok_def by blast+
  have "\<forall>i \<ge> NR_HASH. hash_table ?f3 i = 0" using st by (simp add: static_state_def)
  from mm_init_ok[OF l' this] obtain f4 mm where f4: "mm_init (init_machine_data m) (get_paging_frames m) (l_end_of_kernel l) ?f3 = Inr f4"
    "fs_mm f4 = mm" "mm_inv mm" "\<forall>p<MM_PAGES. refcount mm p = (if start \<le> frame_addr p \<and> frame_addr p < mem_end then 0 else 1)"
    "cache_rep (map (\<lambda>i. 0x100000 + 36 * of_nat i) [0..<2967]) (\<lambda>_. []) f4" "bio_sched f4 = bio_sched (k_fs s)" "ROOT_DEV f4 = 0x301"
    "file_table f4 = file_table (k_fs s)" by auto
  have used: "page_used mm q \<longleftrightarrow> \<not> (start \<le> frame_addr q \<and> frame_addr q < mem_end)" if "q < MM_PAGES" for q
    using f4(3,4) that by (simp add: mm_inv_def)
  obtain q where q: "q < MM_PAGES" "start \<le> frame_addr q" "frame_addr q < mem_end" using l by (auto simp: loader_ok_def)
  then have "\<not> page_used mm q" using used by blast
  from get_free_page_alloc[OF q(1) this] obtain p where p: "p < MM_PAGES" "\<not> page_used mm p" "get_free_page mm = Inr (frame_addr p, alloc_frame p mm)" by blast
  obtain s' where s': "kernel_main l s = Inr (frame_addr p + 4096, 0x100000, s')" "fs_mm (k_fs s') = alloc_frame p mm"
    "bio_sched (k_fs s') = main_sched l (bio_sched (k_fs s))" "same_links f4 (k_fs s')" "file_table (k_fs s') = file_table f4" "ROOT_DEV (k_fs s') = ROOT_DEV f4"
    "\<forall>i<NR_REQUEST. r_dev (request (k_fs s') i) = -1" "has_request_fn (k_fs s') 3" "k_con s' = con_init (l_video l) (k_con s)" "k_tty s' = k_tty s"
    using kernel_main_run[OF m f4(1,6)] p(3) f4(2) by blast
  have pu: "start \<le> frame_addr p" "frame_addr p < mem_end" using used[OF p(1)] p(2) by auto
  have one: "only_task0 t0 (bio_sched (k_fs s'))" unfolding s'(3) by (rule main_sched_only_task0[OF st])
  have "fork_inv (proc_of s')"
    by (rule only_task0_fork_inv) (use one used t0 s'(2) in \<open>auto simp: proc_of_def page_used_alloc\<close>)
  moreover have "counts_ok (k_fs s')" using one st f4(8) s'(5) by (intro only_task0_counts) (auto simp: static_state_def)
  moreover have "mm_inv (fs_mm (k_fs s'))" unfolding s'(2) using mm_inv_alloc(1)[OF f4(3) p(1,2)] .
  moreover have "world_ok (world_of s')"
    using con_init_inv[OF refl, of "l_video l" "k_con s"] l st by (auto simp: world_ok_def world_of_def s'(9,10) static_state_def loader_ok_def Let_def)
  moreover have "cache_rep (map (\<lambda>i. 0x100000 + 36 * of_nat i) [0..<2967]) (\<lambda>_. []) (k_fs s')" using f4(5) s'(4) same_links_rep by blast
  ultimately show ?thesis using s' pu p f4(7) main_sched_gates[of l "bio_sched (k_fs s)"]
    by (intro exI[of _ p] exI[of _ s']) (simp add: page_used_alloc)
qed

text \<open>A machine with 65 MiB and the kernel's end at 8 MiB.\<close>

definition demo_image :: kst where
  "demo_image = \<lparr>k_fs = demo_fds\<lparr>
       bio_sched := \<lparr>tasks = (\<lambda>_. INIT_TASK 0x1000 0), task = (\<lambda>_. 0x1000), current = 0x1000, init_task = 0x1000, last_pid = 0,
         gdt = (\<lambda>_. \<lparr>d_a = 0, d_b = 0\<rparr>), idt = (\<lambda>_. \<lparr>d_a = 0, d_b = 0\<rparr>)\<rparr>,
       hash_table := (\<lambda>_. 0), file_table := (\<lambda>_. \<lparr>f_mode = 0, f_flags = 0, f_count = 0, f_inode = None, f_pos = 0\<rparr>),
       fs_mm := demo_mm\<lparr>pmem := (\<lambda>_. 0)(0x90201 := 4, 0x90202 := 1, 0x90204 := 18)\<rparr>\<rparr>,
     k_tty = w_tty typed_world, k_con = zero_console, k_cr_flag = False\<rparr>"

definition demo_layout :: layout where
  "demo_layout = \<lparr>l_bss_start = 0, l_bss_end = 0, l_end_of_kernel = 0x800000, l_drive_info = 0x7f0000, l_tss = 0, l_ldt = 0,
     l_page_fault = 0, l_timer_interrupt = 0, l_system_call = 0, l_hd_interrupt = 0, l_keyboard_interrupt = 0, l_video = vga_boot\<rparr>"

theorem kernel_main_ok_witness:
  "\<exists>p s'. kernel_main demo_layout demo_image = Inr (frame_addr p + 4096, 0x100000, s') \<and> 0x812000 \<le> frame_addr p \<and> frame_addr p < 0x4100000
    \<and> mm_inv (fs_mm (k_fs s')) \<and> fork_inv (proc_of s') \<and> counts_ok (k_fs s')"
proof -
  have st: "static_state 0x1000 demo_image"
    using typed_calm by (auto simp: static_state_def demo_image_def zero_console_def con_calm_def world_ok_def)
  have m: "(\<lambda>_. 0)(0x90201 := 4, 0x90202 := 1, 0x90204 := 18) = init_bss_section (l_bss_start demo_layout) (l_bss_end demo_layout) (pmem (fs_mm (k_fs demo_image)))"
    by (simp add: init_bss_section_def demo_layout_def demo_image_def stosb_def)
  have f: "0x812000 \<le> frame_addr 1810 \<and> frame_addr 1810 < 0x4100000" by (simp add: frame_addr_def)
  have v: "init_machine_data ((\<lambda>_. 0)(0x90201 := 4, 0x90202 := 1, 0x90204 := 18)) = 0x10400" "get_paging_frames ((\<lambda>_. 0)(0x90201 := 4, 0x90202 := 1, 0x90204 := 18)) = 18"
    by (simp_all add: init_machine_data_def get_paging_frames_def ld32_def)
  have l: "loader_ok demo_layout ((\<lambda>_. 0)(0x90201 := 4, 0x90202 := 1, 0x90204 := 18)) 0x812000 0x4100000"
    unfolding loader_ok_def v using f by (auto simp: demo_layout_def vga_boot_def page_of_def intro!: exI[of _ 1810])
  from kernel_main_ok[OF st m l] show ?thesis by auto
qed

section \<open>The first processes\<close>

text \<open>The loops of the processes never end. A run is given by the values of \<open>jiffies\<close> the loop reads, one for every round, and
  its result is the state after these rounds. \<open>jiffies\<close> wraps around; the subtraction is unsigned.\<close>

definition due :: "u32 \<Rightarrow> u32 \<Rightarrow> u32 \<Rightarrow> bool" where
  "due ticks end start = (ticks < end - start)"

primrec print_loop :: "(ust \<Rightarrow> (u32 \<times> ust) kres) \<Rightarrow> u32 list \<Rightarrow> u32 \<Rightarrow> ust \<Rightarrow> (u32 \<times> ust) kres" where
  "print_loop say [] start1 u = Inr (start1, u)"
| "print_loop say (end1 # js) start1 u =
     (if due 600 end1 start1 then kbind (say u) (\<lambda>(_, u). print_loop say js end1 u) else print_loop say js start1 u)"

primrec idle_loop :: "u32 list \<Rightarrow> u32 \<Rightarrow> u32" where
  "idle_loop [] start0 = start0"
| "idle_loop (end0 # js) start0 = idle_loop js (if due 300 end0 start0 then end0 else start0)"

text \<open>Addresses of the static data the processes use.\<close>

record user_data =
  ud_drive_info :: u32
  ud_tty0 :: u32
  ud_hello :: u32
  ud_msg1 :: u32
  ud_msg2 :: u32
  ud_printbuf :: u32

definition process2 :: "kenv \<Rightarrow> fork_regs \<Rightarrow> user_data \<Rightarrow> u32 \<Rightarrow> u32 list \<Rightarrow> ust \<Rightarrow> (u32 \<times> ust) kres" where
  "process2 e r d jiffies js u = print_loop (lib_printf e r (ud_printbuf d) (''%s'' @ [CHR 0x0A]) [ud_msg2 d]) js jiffies u"

text \<open>The part behind \<open>fork\<close>, for the value it has in the task that runs on: 0 in the child, which enters here.\<close>

definition process1_from :: "kenv \<Rightarrow> fork_regs \<Rightarrow> user_data \<Rightarrow> u32 \<Rightarrow> u32 list \<Rightarrow> u32 \<times> ust \<Rightarrow> (u32 \<times> ust) kres" where
  "process1_from e r d jiffies js = (\<lambda>(v, u).
     if v = 0 then process2 e r d jiffies js u
     else print_loop (lib_printf e r (ud_printbuf d) (''%s'' @ [CHR 0x0A]) [ud_msg1 d]) js jiffies u)"

definition process1 :: "kenv \<Rightarrow> fork_regs \<Rightarrow> user_data \<Rightarrow> u32 \<Rightarrow> u32 list \<Rightarrow> ust \<Rightarrow> (u32 \<times> ust) kres" where
  "process1 e r d jiffies js u = kbind (lib_fork e r u) (process1_from e r d jiffies js)"

text \<open>\<open>jiffies\<close> is what the running task reads: at the entry of \<open>process1\<close> in the child.\<close>

definition process0_from :: "kenv \<Rightarrow> fork_regs \<Rightarrow> user_data \<Rightarrow> u32 \<Rightarrow> u32 list \<Rightarrow> u32 \<times> ust \<Rightarrow> (u32 \<times> ust) kres" where
  "process0_from e r d jiffies js = (\<lambda>(v, u).
     if v = 0 then kbind (init e r (ud_drive_info d) (ud_tty0 d) (ud_hello d) (ud_printbuf d) u) (process1 e r d jiffies js)
     else Inr (idle_loop js jiffies, u))"

definition process0 :: "kenv \<Rightarrow> fork_regs \<Rightarrow> user_data \<Rightarrow> u32 \<Rightarrow> u32 list \<Rightarrow> ust \<Rightarrow> (u32 \<times> ust) kres" where
  "process0 e r d jiffies js u = kbind (lib_fork e r u) (process0_from e r d jiffies js)"

section \<open>panic\<close>

text \<open>\<open>panic\<close> prints and stays in a loop.\<close>

definition panic :: "(string \<Rightarrow> 'w \<Rightarrow> 'w kres) \<Rightarrow> string \<Rightarrow> sched \<Rightarrow> 'w \<Rightarrow> 'w kres" where
  "panic print str k w =
     kbind (print (''Kernel panic! '' @ [CHR 0x0A]) w) (\<lambda>w.
     kbind (print str w) (\<lambda>w.
     kbind (if current k = task k 0 then print (''In swapper task - not syncing'' @ [CHR 0x0A, CHR 0x0D]) w else Inr w) (\<lambda>w.
       Inl (Panic str))))"

lemma panic_never_returns: "panic print str k w \<noteq> Inr w'"
  by (auto simp: panic_def kres_simps)

text \<open>The times at which the loop prints, for every run that gets through.\<close>

primrec print_times :: "u32 list \<Rightarrow> u32 \<Rightarrow> u32 list" where
  "print_times [] start1 = []"
| "print_times (end1 # js) start1 = (if due 600 end1 start1 then end1 # print_times js end1 else print_times js start1)"

fun spaced :: "u32 \<Rightarrow> u32 list \<Rightarrow> bool" where
  "spaced t [] = True"
| "spaced t (x # xs) = (600 < x - t \<and> spaced x xs)"

lemma print_times_spaced: "spaced t (print_times js t)"
  by (induction js arbitrary: t) (auto simp: due_def)

text \<open>The loop makes one call for every print time, in order.\<close>

lemma print_loop_calls:
  "print_loop say js t u = map_sum id (\<lambda>u'. (last (t # print_times js t), u')) (fold (\<lambda>_ s. kbind s (\<lambda>u. kbind (say u) (\<lambda>(_, u). Inr u))) (print_times js t) (Inr u))"
proof (induction js arbitrary: t u)
  case (Cons j js)
  have stuck: "fold (\<lambda>_ s. kbind s (\<lambda>u. kbind (say u) (\<lambda>(_, u). Inr u))) l (Inl x) = Inl x" for l x by (induction l) auto
  show ?case
  proof (cases "due 600 j t")
    case True
    then show ?thesis by (cases "say u") (auto simp: Cons.IH stuck)
  qed (simp add: Cons.IH)
qed simp

end
