(* ===== verification/Spec2Isabelle.thy ===== *)
theory Spec2Isabelle
  imports Demand Boot Start
begin

text \<open>
  A verification library for gpos, a small kernel for the 32 bit x86 in the tradition of Linux 0.11, and for its boot
  loader. Every theory models the C files it names, function by function, and proves what the functions promise.

  \<^bold>\<open>The program.\<close> The boot loader (src/bootloader/x86) reads the file \<open>/kernel.bin\<close> of a Minix file system to 8 MiB. The
  kernel's \<open>main\<close> (src/arch/x86/main.c) initialises memory, descriptors, the scheduler, the block layer, the hard disk driver
  and the terminal, and becomes task 0. Task 0 forks; the child mounts the root file system, opens the terminal, duplicates the
  descriptor and prints. Below that: \<open>sys_fork\<close> copies page tables and task structure; page faults copy shared
  pages or load pages of the executable; \<open>sys_open\<close> walks a path through inodes, directories and bitmaps, all of them
  blocks of the buffer cache, which the request queue and the disk driver fill; \<open>sys_write\<close> goes through the file table to the
  terminal's queues and the console; a task waits by sleeping on a wait queue until an interrupt wakes it.

  \<^bold>\<open>Conventions.\<close> Machine integers are words of their width. Memory is a function from addresses to bytes
  (\<open>mem\<close>, with \<open>ld16\<close>, \<open>ld32\<close>, \<open>st16\<close>, \<open>st32\<close> and the string instructions); static variables are fields of records; a pointer
  to an element of a static array is its index, a null pointer \<open>None\<close>; a pointer to a task or a buffer head is its
  address. A function that may fail returns \<open>kres\<close>: \<open>Inr\<close> a result, or \<open>Inl\<close> with \<open>Fault\<close> (undefined behaviour such as an
  access outside an array), \<open>Hang\<close> (a loop that does not end) or \<open>Panic\<close>. Error numbers are the C results.
  Code outside the repository's C files is an argument: port input is a stream, the addresses the linker chooses and what the
  loader leaves are fields of \<open>layout\<close>, the values of registers that a function does not set are the field \<open>e_junk\<close>.

  \<^bold>\<open>The theories.\<close>

  \<^item> \<open>Prelude\<close>: words, memory, results, string instructions, and the collections \<open>mem_simps\<close> and \<open>kres_simps\<close>.
  \<^item> \<open>Links\<close>: doubly linked lists and rings of pointers, used for the buffer cache.
  \<^item> \<open>Memory\<close> (src/mm/memory.c, include/mm/mm.h): the frame allocator with its bitmap and reference counts, copying of
    page tables, copy on write, sharing. Shown: the allocator returns the highest free frame, cleared, and never the same twice
    (the locale \<open>frame_pool\<close>, interpreted on \<open>get_free_page\<close>); a copied table shares every present page read only and counts it;
    a write fault on a shared page gives a private copy; with no free frame the allocator reads outside its map.
  \<^item> \<open>Demand\<close> (src/mm/memory.c, \<open>do_no_page\<close> and \<open>share_page\<close>): a fault behind the executable's end maps a zeroed page,
    into the page table that is there or into one made from a second frame, and changes nothing else.
  \<^item> \<open>Descriptors\<close> (include/kernel/schedule.h, asm/include/system.h): segment and gate descriptors bit by bit; round
    trips of base and limit.
  \<^item> \<open>Sched\<close> (src/kernel/schedule.c): \<open>schedule\<close>, \<open>do_timer\<close>, \<open>sleep_on\<close> in two halves around the task switch, \<open>wake_up\<close>. Shown: the
    loop ends, the runnable task with the largest counter is chosen, and counters are recharged exactly when all have expired; a wake-up reaches every
    sleeper of the chain (an inductive step relation over interleavings, invariants by rule induction), and a task that goes to sleep
    while a wake-up is under way is never woken again.
  \<^item> \<open>Fork\<close> (src/kernel/fork.c): \<open>find_empty_process\<close>, \<open>copy_mem\<close>, \<open>copy_process\<close>. Shown: the child resumes with the
    parent's registers and eax 0 and has its own segments and descriptors, and a fork keeps the process invariant.
  \<^item> \<open>Heap\<close> (src/mm/heap.c): the boot heap, whose blocks do not overlap.
  \<^item> \<open>Tty_Queue\<close>, \<open>Ctype\<close>, \<open>Tty\<close> (include/kernel/tty.h, lib/ctype.c, include/termios.h): ring buffers refine lists (locale
    \<open>bounded_fifo\<close>), the character table, modes and control characters.
  \<^item> \<open>Console\<close> (src/drivers/char/tty/console.c): the whole of it, with the escape sequences as a state machine. The invariant \<open>con_ok\<close>
    keeps cursor and window inside the video memory; \<open>safe_action\<close> is the interface between console and line discipline.
  \<^item> \<open>Screen\<close>: the specification of the console as a screen of rows of cells with a cursor, and the proof that the operations on the
    video memory, both ways of scrolling included, implement it for an even number of columns.
  \<^item> \<open>Tty_IO\<close> (src/drivers/char/tty/tty_io.c): line discipline and \<open>tty_write\<close>. Shown: a keyboard interrupt refines
    a function on lists, and output shows on the console; locale \<open>calm_driver\<close> says what \<open>tty_write\<close> needs of the driver.
  \<^item> \<open>Vsprintf\<close> (src/kernel/vsprintf.c, printk.c): all conversions; what is printed can be read back.
  \<^item> \<open>Block\<close>, \<open>Buffer\<close>, \<open>Hd\<close> (drivers/block, src/fs/buffer.c): request queue with the elevator, buffer cache, disk driver with
    its interrupt handlers. The cache invariant \<open>cache_rep\<close> ties the pointers to lists; \<open>sleeper\<close> is the contract of whatever runs
    while a task sleeps, \<open>bio_client\<close> that of a driver, and both are interpreted: on operations of other tasks given for each wait channel, and on the
    disk driver with its interrupts at the sleeps. Shown: a block has at most one buffer, the least recently used one is taken, \<open>bread\<close> returns the disk's data.
  \<^item> \<open>Super\<close>, \<open>Bitmap\<close>, \<open>Inode\<close>, \<open>Namei\<close>, \<open>Open\<close> (src/fs): super blocks, allocation maps (locale \<open>number_map\<close>), inodes and the block
    map, path names and directories, descriptors. Shown: \<open>bmap\<close> refines the direct, indirect and doubly indirect map, an
    inode written is read back, a name added to a directory is found, a new block is the first unused one of the
    zone bitmap and its release is the inverse, written text appears on the screen, the counts of the
    file table are the numbers of references.
  \<^item> \<open>Syscall\<close> (asm/system_call.S, include/kernel/sys.h, include/unistd.h, src/lib, \<open>init\<close>): the kernel's state as a whole, the
    dispatcher, the library. Shown: a fork keeps the file counts, \<open>init\<close>'s descriptors share a file, \<open>open\<close>
    reports through \<open>errno\<close>, \<open>printf\<close> puts its text on the screen.
  \<^item> \<open>Start\<close> (src/arch/x86/main.c, bss.c, machine.c, src/kernel/trap.c, panic.c): \<open>main\<close> establishes the invariants above; the loops of
    the first processes print at most every 600 ticks.
  \<^item> \<open>Boot\<close> (src/bootloader/x86): the loader's C part and its disk routine; the kernel file is in memory afterwards.

  \<^bold>\<open>Fuel and bounds.\<close> Loops over arrays are structural recursions. Loops that follow pointers are \<open>partial_function (option)\<close>, and
  the theorems show that they end. Loops around a sleep take fuel, one unit for every restart: safety theorems such as
  \<open>getblk_coherent\<close> hold for every result, and separate theorems give the result, with one unit where no other task
  interferes (\<open>getblk_lru\<close>) and with the two interrupts of a read (\<open>bread_reads_disk\<close>). A path walk takes one unit for every
  component. The console calls itself for the answer to one escape sequence, so a depth of one is enough for text
  without ESC; the terminal's write loop needs two rounds when the text fits in the queue; the loader's path has one component and
  takes two rounds. \<open>clear_range\<close> in \<open>mm_init_pages\<close> has \<open>2 ^ 20 + 1\<close> rounds, the number of pages of the address space and the last test.

  \<^bold>\<open>Not modelled.\<close> Real mode and protected mode switching in assembly, and the saving of registers around handlers; the
  processor's own actions (task switch, paging) beyond the data they read; the program in src/apps, for which the kernel has no \<open>exec\<close>; the 67 system calls with an empty body, whose result is
  \<open>e_junk\<close>. Physical memory, the data of the buffers and the user's segment are separate functions: that they do not overlap
  is not part of the model, except where \<open>Start\<close> says which frames are free. A task switch inside a handler is an argument, the
  sleep function, constrained by the locale \<open>sleeper\<close>; pre-emption at other points does not occur in the kernel, which
  the timer interrupt leaves alone in supervisor mode.
\<close>

end
